(* ===== verification/Prelude.thy ===== *)
theory Prelude
  imports Main "HOL-Library.Word"
begin

text \<open>
  Shared vocabulary of the haloOS development: machine integers, the outcome type of a
  kernel routine, the combinators that sequence routines, and the generic word, page and
  list lemmas the components rest on.

  A C routine that reads or writes kernel globals is a function from a state to an
  \<^emph>\<open>outcome\<close>:
  \<^item> \<open>Ret x s\<close>: the routine returned \<open>x\<close> and left the globals in \<open>s\<close>;
  \<^item> \<open>Panic msg\<close>: \<open>panic(msg)\<close> was called; that function never returns;
  \<^item> \<open>Fault msg\<close>: the C text has no defined behaviour here (a null pointer is followed,
    an array is indexed out of range);
  \<^item> \<open>Spin\<close>: the hart loops for ever unless another hart acts (a spinlock that somebody
    else holds);
  \<^item> \<open>Switch s\<close>: the thread handed the hart to the scheduler in \<open>swtch\<close>, leaving the
    globals in \<open>s\<close>.
\<close>

unbundle bit_operations_syntax

type_synonym u8 = "8 word"
type_synonym u16 = "16 word"
type_synonym u32 = "32 word"
type_synonym u64 = "64 word"

named_theorems kstep \<open>equations that run one routine on a state known to satisfy its guards\<close>
named_theorems page_simps \<open>page rounding and alignment\<close>
named_theorems mem_simps \<open>reads after writes in byte memory\<close>

section \<open>Outcomes and their sequencing\<close>

datatype ('a, 's) outcome =
  Ret 'a 's
| Panic string
| Fault string
| Spin
| Switch 's

type_synonym ('a, 's) kop = "'s \<Rightarrow> ('a, 's) outcome"

definition kret :: "'a \<Rightarrow> ('a, 's) kop" where
  "kret x = (\<lambda>s. Ret x s)"

definition kbind :: "('a, 's) kop \<Rightarrow> ('a \<Rightarrow> ('b, 's) kop) \<Rightarrow> ('b, 's) kop" where
  "kbind m f = (\<lambda>s. case m s of
      Ret x s' \<Rightarrow> f x s'
    | Panic e \<Rightarrow> Panic e
    | Fault e \<Rightarrow> Fault e
    | Spin \<Rightarrow> Spin
    | Switch s' \<Rightarrow> Switch s')"

abbreviation kthen :: "('a, 's) kop \<Rightarrow> ('b, 's) kop \<Rightarrow> ('b, 's) kop" where
  "kthen m n \<equiv> kbind m (\<lambda>_. n)"

definition kget :: "('s \<Rightarrow> 'a) \<Rightarrow> ('a, 's) kop" where
  "kget f = (\<lambda>s. Ret (f s) s)"

definition kmod :: "('s \<Rightarrow> 's) \<Rightarrow> (unit, 's) kop" where
  "kmod f = (\<lambda>s. Ret () (f s))"

definition kpanic :: "string \<Rightarrow> ('a, 's) kop" where
  "kpanic msg = (\<lambda>s. Panic msg)"

definition kfault :: "string \<Rightarrow> ('a, 's) kop" where
  "kfault msg = (\<lambda>s. Fault msg)"

definition kwhen :: "bool \<Rightarrow> (unit, 's) kop \<Rightarrow> (unit, 's) kop" where
  "kwhen b m = (if b then m else kret ())"

text \<open>\<open>returns m s P\<close>: the routine returns (it neither panics nor blocks) and \<open>P\<close> holds
  of its value and final state. \<open>safe m s P\<close>: if it returns, then \<open>P\<close>.\<close>

definition returns :: "('a, 's) kop \<Rightarrow> 's \<Rightarrow> ('a \<Rightarrow> 's \<Rightarrow> bool) \<Rightarrow> bool" where
  "returns m s P \<longleftrightarrow> (case m s of Ret x s' \<Rightarrow> P x s' | _ \<Rightarrow> False)"

lemma kbind_Ret [kstep]: "m s = Ret x s' \<Longrightarrow> kbind m f s = f x s'"
  by (simp add: kbind_def)

lemma kbind_Panic [kstep]: "m s = Panic e \<Longrightarrow> kbind m f s = Panic e"
  by (simp add: kbind_def)

lemma kbind_Fault [kstep]: "m s = Fault e \<Longrightarrow> kbind m f s = Fault e"
  by (simp add: kbind_def)

lemma kbind_Switch [kstep]: "m s = Switch s' \<Longrightarrow> kbind m f s = Switch s'"
  by (simp add: kbind_def)

lemma kret_apply [simp]: "kret x s = Ret x s"
  by (simp add: kret_def)

lemma kget_apply [simp]: "kget f s = Ret (f s) s"
  by (simp add: kget_def)

lemma kmod_apply [simp]: "kmod f s = Ret () (f s)"
  by (simp add: kmod_def)

lemma kpanic_apply [simp]: "kpanic e s = Panic e"
  by (simp add: kpanic_def)

lemma kfault_apply [simp]: "kfault e s = Fault e"
  by (simp add: kfault_def)

lemma kwhen_simps [simp]: "kwhen True m = m" "kwhen False m = kret ()"
  by (simp_all add: kwhen_def)

lemma kbind_kret [simp]: "kbind (kret x) f = f x"
  by (simp add: kbind_def kret_def)

lemma kbind_kget [simp]: "kbind (kget f) g s = g (f s) s"
  by (simp add: kbind_def)

lemma kbind_kmod [simp]: "kbind (kmod f) g s = g () (f s)"
  by (simp add: kbind_def)

lemma kbind_kpanic [simp]: "kbind (kpanic e) g = kpanic e"
  by (simp add: kbind_def kpanic_def)

lemma kbind_kfault [simp]: "kbind (kfault e) g = kfault e"
  by (simp add: kbind_def kfault_def)

text \<open>A recursive call in the second argument of \<open>kbind\<close> runs on states the first one returned.\<close>

lemma kbind_cong [fundef_cong]:
  "m s = m' s' \<Longrightarrow> s = s' \<Longrightarrow> (\<And>x t. m' s' = Ret x t \<Longrightarrow> f x t = f' x t) \<Longrightarrow>
   kbind m f s = kbind m' f' s'"
  by (auto simp: kbind_def split: outcome.split)

lemma kbind_assoc: "kbind (kbind m f) g = kbind m (\<lambda>x. kbind (f x) g)"
  by (auto simp: kbind_def fun_eq_iff split: outcome.split)

lemma kbind_Ret_iff:
  "kbind m f s = Ret y t \<longleftrightarrow> (\<exists>x s'. m s = Ret x s' \<and> f x s' = Ret y t)"
  by (auto simp: kbind_def split: outcome.splits)

lemma kbind_RetE:
  assumes "kbind m f s = Ret y t"
  obtains x s' where "m s = Ret x s'" and "f x s' = Ret y t"
  using assms by (auto simp: kbind_Ret_iff)

lemma returnsI: "m s = Ret x s' \<Longrightarrow> P x s' \<Longrightarrow> returns m s P"
  by (simp add: returns_def)

lemma returnsE:
  assumes "returns m s P"
  obtains x s' where "m s = Ret x s'" and "P x s'"
  using assms by (auto simp: returns_def split: outcome.splits)

lemma returns_kbind: "returns m s (\<lambda>x s'. returns (f x) s' P) \<Longrightarrow> returns (kbind m f) s P"
  by (auto simp: returns_def kbind_def split: outcome.splits)

lemma returns_mono: "returns m s P \<Longrightarrow> (\<And>x t. P x t \<Longrightarrow> Q x t) \<Longrightarrow> returns m s Q"
  by (auto simp: returns_def split: outcome.splits)

section \<open>Pages\<close>

abbreviation PGSIZE :: u64 where "PGSIZE \<equiv> 4096"

definition PGROUNDDOWN :: "u64 \<Rightarrow> u64" where
  "PGROUNDDOWN a = a AND NOT (PGSIZE - 1)"

definition PGROUNDUP :: "u64 \<Rightarrow> u64" where
  "PGROUNDUP sz = (sz + PGSIZE - 1) AND NOT (PGSIZE - 1)"

definition page_aligned :: "u64 \<Rightarrow> bool" where
  "page_aligned p \<longleftrightarrow> p mod PGSIZE = 0"

lemma and_not_4095: "(a :: u64) AND NOT 4095 = push_bit 12 (drop_bit 12 a)"
proof -
  have "a AND NOT (mask 12) = push_bit 12 (drop_bit 12 a)"
    by (rule bit_word_eqI) (auto simp: bit_simps)
  moreover have "mask 12 = (4095 :: u64)" by (simp add: mask_eq_exp_minus_1)
  ultimately show ?thesis by metis
qed

lemma unat_lt_2p64: "unat (a :: u64) < 18446744073709551616"
  using unsigned_less [of a, where ?'a = nat] by simp

lemma PGROUNDDOWN_div: "PGROUNDDOWN a = a div 4096 * 4096"
proof -
  have "PGROUNDDOWN a = push_bit 12 (drop_bit 12 a)"
    by (simp only: PGROUNDDOWN_def and_not_4095 [symmetric]) simp
  then show ?thesis by (simp add: push_bit_eq_mult drop_bit_eq_div)
qed

lemma unat_PGROUNDDOWN [page_simps]: "unat (PGROUNDDOWN a) = unat a div 4096 * 4096"
proof -
  have "unat a div 4096 * 4096 < 2 ^ 64"
    using unat_lt_2p64 [of a] by simp
  then show ?thesis
    by (simp add: PGROUNDDOWN_div unat_word_ariths unat_div)
qed

lemma page_aligned_unat: "page_aligned p \<longleftrightarrow> unat p mod 4096 = 0"
  by (simp add: page_aligned_def word_unat_eq_iff unat_mod)

lemma PGROUNDDOWN_aligned [page_simps, intro]: "page_aligned (PGROUNDDOWN a)"
  by (simp add: page_aligned_unat page_simps)

lemma PGROUNDDOWN_id [page_simps]: "page_aligned a \<Longrightarrow> PGROUNDDOWN a = a"
  by (auto simp: page_aligned_unat page_simps word_unat_eq_iff)

lemma PGROUNDDOWN_le: "PGROUNDDOWN a \<le> a"
  by (simp add: word_le_nat_alt page_simps)

text \<open>An aligned page and an offset below 4096 add without wrapping, and rounding down
  recovers the page.\<close>

lemma page_alignedE:
  assumes "page_aligned p"
  obtains k where "unat p = 4096 * k" and "k < 4503599627370496"
proof -
  have "unat p mod 4096 = 0" using assms by (simp add: page_aligned_unat)
  then obtain k where k: "unat p = 4096 * k" by auto
  with unat_lt_2p64 [of p] have "k < 4503599627370496" by simp
  with k show thesis by (rule that)
qed

lemma unat_page_add:
  assumes "page_aligned p" and "i < 4096"
  shows "unat (p + of_nat i) = unat p + i"
proof -
  obtain k where k: "unat p = 4096 * k" "k < 4503599627370496"
    using assms(1) by (rule page_alignedE)
  with assms(2) have "unat p + i < 18446744073709551616" by simp
  with assms(2) show ?thesis
    by (simp add: unat_word_ariths unat_of_nat)
qed

lemma PGROUNDDOWN_add [page_simps]:
  assumes "page_aligned p" and "i < 4096"
  shows "PGROUNDDOWN (p + of_nat i) = p"
proof -
  obtain k where "unat p = 4096 * k" using assms(1) by (rule page_alignedE)
  with assms(2) have "(unat p + i) div 4096 * 4096 = unat p" by simp
  then show ?thesis using assms by (simp add: word_unat_eq_iff page_simps unat_page_add)
qed

lemma PGROUNDDOWN_eq_iff:
  assumes "page_aligned p"
  shows "PGROUNDDOWN a = p \<longleftrightarrow> (\<exists>i < 4096. a = p + of_nat i)"
proof
  assume h: "PGROUNDDOWN a = p"
  have "unat a = unat p + unat a mod 4096"
    using h div_mult_mod_eq [of "unat a" 4096] by (simp add: word_unat_eq_iff page_simps)
  then have "a = p + of_nat (unat a mod 4096)"
    using assms by (simp add: word_unat_eq_iff unat_page_add)
  then show "\<exists>i < 4096. a = p + of_nat i" by (intro exI [of _ "unat a mod 4096"]) simp
next
  assume "\<exists>i < 4096. a = p + of_nat i"
  then show "PGROUNDDOWN a = p" using assms by (auto simp: page_simps)
qed

lemma PGROUNDUP_down: "PGROUNDUP a = PGROUNDDOWN (a + 4095)"
proof -
  have "a + 4096 - 1 = a + 4095" by simp
  then show ?thesis by (simp only: PGROUNDUP_def PGROUNDDOWN_def)
qed

lemma unat_PGROUNDUP:
  assumes "unat a + 4095 < 18446744073709551616"
  shows "unat (PGROUNDUP a) = (unat a + 4095) div 4096 * 4096"
  using assms by (simp add: PGROUNDUP_down page_simps unat_word_ariths)

lemma page_aligned_PGROUNDUP [page_simps, intro]: "page_aligned (PGROUNDUP a)"
  by (simp add: PGROUNDUP_down PGROUNDDOWN_aligned)

lemma page_aligned_0 [page_simps, simp]: "page_aligned 0"
  by (simp add: page_aligned_def)

lemma page_aligned_add [page_simps]:
  assumes "page_aligned a" and "page_aligned b"
  shows "page_aligned (a + b)"
proof -
  obtain k l where "unat a = 4096 * k" "unat b = 4096 * l"
    using assms by (meson page_alignedE)
  then have "unat a + unat b = 4096 * (k + l)" by simp
  moreover have "(4096 * (k + l)) mod 18446744073709551616 mod 4096 = 0" by (simp add: mod_mod_cancel)
  ultimately show ?thesis by (simp add: page_aligned_unat unat_word_ariths)
qed

lemma page_aligned_PGSIZE [page_simps, simp]: "page_aligned 4096"
  by (simp add: page_aligned_def)

end
