(* ===== verification/Cmem.thy ===== *)
theory Cmem
  imports Prelude
begin

text \<open>
  Byte-addressed physical memory and the C routines of \<^verbatim>\<open>kernel/util.c\<close> and
  \<^verbatim>\<open>kernel/spaceswap.c\<close> that move bytes: \<open>memset\<close>, \<open>memmove\<close> on memory, and
  \<open>strlen\<close>, \<open>strncmp\<close>, \<open>strncpy\<close>, \<open>safestrcpy\<close> on character arrays.
  A \<open>char\<close> is unsigned on this target. An array is a list of bytes, a pointer into it is
  a suffix of the list, and a read past its end is \<open>None\<close>.
\<close>

section \<open>Memory\<close>

type_synonym memory = "u64 \<Rightarrow> u8"

text \<open>Little-endian 64-bit loads and stores.\<close>

definition rd64 :: "memory \<Rightarrow> u64 \<Rightarrow> u64" where
  "rd64 m a = ucast (m a) OR push_bit 8 (ucast (m (a + 1))) OR push_bit 16 (ucast (m (a + 2)))
     OR push_bit 24 (ucast (m (a + 3))) OR push_bit 32 (ucast (m (a + 4)))
     OR push_bit 40 (ucast (m (a + 5))) OR push_bit 48 (ucast (m (a + 6)))
     OR push_bit 56 (ucast (m (a + 7)))"

definition wr64 :: "memory \<Rightarrow> u64 \<Rightarrow> u64 \<Rightarrow> memory" where
  "wr64 m a v = m(a := ucast v, a + 1 := ucast (drop_bit 8 v), a + 2 := ucast (drop_bit 16 v),
     a + 3 := ucast (drop_bit 24 v), a + 4 := ucast (drop_bit 32 v), a + 5 := ucast (drop_bit 40 v),
     a + 6 := ucast (drop_bit 48 v), a + 7 := ucast (drop_bit 56 v))"

text \<open>\<^verbatim>\<open>util.c: memset\<close>. The loop runs \<open>i\<close> from 0 while \<open>i < end\<close>; \<open>val\<close> is cut to a
  \<open>char\<close> by the store.\<close>

function memset_loop :: "memory \<Rightarrow> u64 \<Rightarrow> u32 \<Rightarrow> int \<Rightarrow> int \<Rightarrow> memory" where
  "memset_loop m target val i end' =
     (if i < end' then memset_loop (m(target + word_of_int i := ucast val)) target val (i + 1) end'
      else m)"
  by pat_completeness auto
termination
  by (relation "measure (\<lambda>(m, target, val, i, end'). nat (end' - i))") auto

declare memset_loop.simps [simp del]

definition memset :: "memory \<Rightarrow> u64 \<Rightarrow> u32 \<Rightarrow> int \<Rightarrow> memory" where
  "memset m target val end' = memset_loop m target val 0 end'"

text \<open>\<^verbatim>\<open>util.c: memmove\<close>. The two copying loops, upwards and downwards.\<close>

fun copy_up :: "memory \<Rightarrow> u64 \<Rightarrow> u64 \<Rightarrow> nat \<Rightarrow> memory" where
  "copy_up m d s 0 = m"
| "copy_up m d s (Suc n) = copy_up (m(d := m s)) (d + 1) (s + 1) n"

fun copy_down :: "memory \<Rightarrow> u64 \<Rightarrow> u64 \<Rightarrow> nat \<Rightarrow> memory" where
  "copy_down m d s 0 = m"
| "copy_down m d s (Suc n) = copy_down (m(d - 1 := m (s - 1))) (d - 1) (s - 1) n"

definition memmove :: "memory \<Rightarrow> u64 \<Rightarrow> u64 \<Rightarrow> u32 \<Rightarrow> memory" where
  "memmove m dst src n =
     (if n = 0 then m
      else if src < dst \<and> src + ucast n > dst
      then copy_down m (dst + ucast n) (src + ucast n) (unat n)
      else copy_up m dst src (unat n))"

text \<open>The bytes of a range, and a store of a list of bytes: what a copy from or to an object
  that is not in \<open>memory\<close> does.\<close>

definition rd_bytes :: "memory \<Rightarrow> u64 \<Rightarrow> nat \<Rightarrow> u8 list" where
  "rd_bytes m a n = map (\<lambda>i. m (a + of_nat i)) [0..<n]"

fun wr_bytes :: "memory \<Rightarrow> u64 \<Rightarrow> u8 list \<Rightarrow> memory" where
  "wr_bytes m a [] = m"
| "wr_bytes m a (b # bs) = wr_bytes (m(a := b)) (a + 1) bs"

section \<open>Strings\<close>

text \<open>\<^verbatim>\<open>util.c: strlen\<close>.\<close>

fun strlen :: "u8 list \<Rightarrow> int option" where
  "strlen [] = None"
| "strlen (c # s) = (if c = 0 then Some 0 else map_option (\<lambda>n. n + 1) (strlen s))"

text \<open>\<^verbatim>\<open>util.c: strncmp\<close>: the loop, then the difference of the two characters it stopped at.\<close>

fun strncmp :: "u8 list \<Rightarrow> u8 list \<Rightarrow> nat \<Rightarrow> int option" where
  "strncmp p q 0 = Some 0"
| "strncmp (x # p) (y # q) (Suc n) =
     (if x \<noteq> 0 \<and> x = y then strncmp p q n else Some (uint x - uint y))"
| "strncmp _ _ (Suc n) = None"

text \<open>\<^verbatim>\<open>util.c: strncpy\<close>: copy up to a NUL, then fill with zeros.\<close>

fun zero_fill :: "u8 list \<Rightarrow> nat \<Rightarrow> u8 list option" where
  "zero_fill s 0 = Some s"
| "zero_fill (_ # s) (Suc n) = map_option (Cons 0) (zero_fill s n)"
| "zero_fill [] (Suc n) = None"

fun strncpy_loop :: "u8 list \<Rightarrow> u8 list \<Rightarrow> nat \<Rightarrow> u8 list option" where
  "strncpy_loop s t 0 = Some s"
| "strncpy_loop (_ # s) (c # t) (Suc n) =
     map_option (Cons c) (if c \<noteq> 0 then strncpy_loop s t n else zero_fill s n)"
| "strncpy_loop _ _ (Suc n) = None"

definition strncpy :: "u8 list \<Rightarrow> u8 list \<Rightarrow> int \<Rightarrow> u8 list option" where
  "strncpy s t n = strncpy_loop s t (nat n)"

text \<open>\<^verbatim>\<open>spaceswap.c: safestrcpy\<close>: at most \<open>n - 1\<close> characters, then a NUL.\<close>

fun safestrcpy_loop :: "u8 list \<Rightarrow> u8 list \<Rightarrow> nat \<Rightarrow> u8 list option" where
  "safestrcpy_loop (_ # s) t 0 = Some (0 # s)"
| "safestrcpy_loop (_ # s) (c # t) (Suc n) =
     map_option (Cons c)
       (if c \<noteq> 0 then safestrcpy_loop s t n
        else case s of [] \<Rightarrow> None | _ # s' \<Rightarrow> Some (0 # s'))"
| "safestrcpy_loop _ _ _ = None"

definition safestrcpy :: "u8 list \<Rightarrow> u8 list \<Rightarrow> int \<Rightarrow> u8 list option" where
  "safestrcpy s t n = (if n \<le> 0 then Some s else safestrcpy_loop s t (nat n - 1))"

text \<open>The string a NUL-terminated array holds.\<close>

definition cstr :: "u8 list \<Rightarrow> u8 list" where
  "cstr s = takeWhile (\<lambda>c. c \<noteq> 0) s"

section \<open>Loads and stores\<close>

lemma rd64_wr64 [mem_simps]: "rd64 (wr64 m a v) a = v"
proof (rule bit_word_eqI)
  fix n assume n: "n < LENGTH(64)"
  consider "n < 8" | "8 \<le> n" "n < 16" | "16 \<le> n" "n < 24" | "24 \<le> n" "n < 32"
    | "32 \<le> n" "n < 40" | "40 \<le> n" "n < 48" | "48 \<le> n" "n < 56" | "56 \<le> n" "n < 64"
    using n by fastforce
  then show "bit (rd64 (wr64 m a v) a) n = bit v n"
    by cases (simp_all add: rd64_def wr64_def bit_simps less_diff_conv2)
qed

text \<open>The bytes a 64-bit access touches are those at distance below 8.\<close>

lemma near8: "unat (x - a) < 8 \<longleftrightarrow> x \<in> {a, a + 1, a + 2, a + 3, a + 4, a + 5, a + 6, a + 7 :: u64}"
proof
  assume "unat (x - a) < 8"
  then have "unat (x - a) \<in> {0, 1, 2, 3, 4, 5, 6, 7}" by auto
  then have "x - a \<in> {0, 1, 2, 3, 4, 5, 6, 7}" by (auto simp: word_unat_eq_iff)
  then show "x \<in> {a, a + 1, a + 2, a + 3, a + 4, a + 5, a + 6, a + 7}"
    by (auto simp: algebra_simps)
qed auto

lemma wr64_far [mem_simps]: "8 \<le> unat (x - a) \<Longrightarrow> wr64 m a v x = m x"
  using near8 [of x a] by (auto simp: wr64_def)

lemma rd64_cong: "(\<And>x. unat (x - a) < 8 \<Longrightarrow> m x = m' x) \<Longrightarrow> rd64 m a = rd64 m' a"
  by (simp add: rd64_def near8)

lemma rd64_wr64_far:
  assumes "\<And>x. unat (x - a) < 8 \<Longrightarrow> 8 \<le> unat (x - b)"
  shows "rd64 (wr64 m b v) a = rd64 m a"
  by (rule rd64_cong) (simp add: assms wr64_far)

lemma memset_loop_eq:
  assumes "0 \<le> i" and "end' \<le> 2 ^ 64"
  shows "memset_loop m t v i end' =
    (\<lambda>a. if i \<le> uint (a - t) \<and> uint (a - t) < end' then ucast v else m a)"
  using assms
proof (induction m t v i end' rule: memset_loop.induct)
  case (1 m t v i end')
  show ?case
  proof (cases "i < end'")
    case True
    have at: "a = t + word_of_int i \<longleftrightarrow> uint (a - t) = i" for a
    proof -
      have "uint (word_of_int i :: u64) = i"
        using True "1.prems" by (simp add: uint_word_of_int_eq take_bit_int_eq_self)
      then show ?thesis by (metis add_diff_cancel_left' diff_add_cancel add.commute word_uint_eqI)
    qed
    have IH: "memset_loop (m(t + word_of_int i := ucast v)) t v (i + 1) end' =
      (\<lambda>a. if i + 1 \<le> uint (a - t) \<and> uint (a - t) < end' then ucast v
           else (m(t + word_of_int i := ucast v)) a)"
      by (rule "1.IH" [OF True]) (use "1.prems" in auto)
    show ?thesis
      by (subst memset_loop.simps, simp only: True if_True IH, rule ext) (auto simp: at True)
  next
    case False
    then show ?thesis by (subst memset_loop.simps) (auto simp: fun_eq_iff)
  qed
qed

text \<open>\<open>memset\<close> sets exactly the bytes of its range.\<close>

lemma memset_eq:
  "end' \<le> 2 ^ 64 \<Longrightarrow>
   memset m t v end' = (\<lambda>a. if uint (a - t) < end' then ucast v else m a)"
  by (simp add: memset_def memset_loop_eq fun_eq_iff)

lemma same_page_dist:
  assumes "page_aligned p"
  shows "uint (a - p) < 4096 \<longleftrightarrow> PGROUNDDOWN a = p"
proof -
  have "uint (a - p) < 4096 \<longleftrightarrow> unat (a - p) < 4096"
    using uint_nat [of "a - p"] by linarith
  also have "\<dots> \<longleftrightarrow> (\<exists>i < 4096. a = p + of_nat i)"
  proof
    assume "unat (a - p) < 4096"
    then show "\<exists>i < 4096. a = p + of_nat i"
      by (intro exI [of _ "unat (a - p)"]) simp
  next
    assume "\<exists>i < 4096. a = p + of_nat i"
    then obtain i where "i < 4096" and "a - p = of_nat i" by auto
    then show "unat (a - p) < 4096" by (simp only: unat_of_nat) simp
  qed
  finally show ?thesis using PGROUNDDOWN_eq_iff [OF assms] by simp
qed

lemma memset_page [mem_simps]:
  assumes "page_aligned p"
  shows "memset m p v 4096 = (\<lambda>a. if PGROUNDDOWN a = p then ucast v else m a)"
  by (simp add: memset_eq same_page_dist [OF assms])

section \<open>memmove\<close>

lemma unat_neg_1: "unat (- 1 :: u64) = 18446744073709551615"
  by (simp add: unsigned_minus_1_eq_mask mask_eq_exp_minus_1)

lemma unat_diff_1: "unat (x :: u64) \<noteq> 0 \<Longrightarrow> unat (x - 1) = unat x - 1"
  by (simp add: unat_minus_one unat_eq_zero)

lemma copy_up_eq:
  assumes "n \<le> 2 ^ 64" and "d = s \<or> n \<le> unat (d - s)"
  shows "copy_up m d s n = (\<lambda>a. if unat (a - d) < n then m (s + (a - d)) else m a)"
  using assms
proof (induction m d s n rule: copy_up.induct)
  case (2 m d s n)
  have IH: "copy_up (m(d := m s)) (d + 1) (s + 1) n =
      (\<lambda>a. if unat (a - (d + 1)) < n then (m(d := m s)) (s + 1 + (a - (d + 1)))
           else (m(d := m s)) a)"
    using "2.prems" by (intro "2.IH") auto
  have "copy_up m d s (Suc n) a = (if unat (a - d) < Suc n then m (s + (a - d)) else m a)" for a
  proof (cases "a = d")
    case True
    then show ?thesis using "2.prems"(1) by (simp add: IH unat_neg_1)
  next
    case False
    then have nz: "unat (a - d) \<noteq> 0" by (simp add: unat_eq_zero)
    have shift: "a - (d + 1) = (a - d) - 1" "s + 1 + ((a - d) - 1) = s + (a - d)" by simp_all
    have "s + (a - d) \<noteq> d" if "unat (a - d) < Suc n"
    proof
      assume "s + (a - d) = d"
      then have "a - d = d - s" by (simp add: algebra_simps)
      with that "2.prems"(2) nz show False by auto
    qed
    with False nz show ?thesis by (auto simp: IH shift unat_diff_1 simp del: diff_diff_eq)
  qed
  then show ?case by (rule ext)
qed simp

lemma copy_down_eq:
  assumes "n \<le> 2 ^ 64" and "d = s \<or> n \<le> unat (s - d)"
  shows "copy_down m d s n = (\<lambda>a. if unat (d - 1 - a) < n then m (s - (d - a)) else m a)"
  using assms
proof (induction m d s n rule: copy_down.induct)
  case (2 m d s n)
  have IH: "copy_down (m(d - 1 := m (s - 1))) (d - 1) (s - 1) n =
      (\<lambda>a. if unat (d - 1 - 1 - a) < n then (m(d - 1 := m (s - 1))) (s - 1 - (d - 1 - a))
           else (m(d - 1 := m (s - 1))) a)"
    using "2.prems" by (intro "2.IH") auto
  have "copy_down m d s (Suc n) a = (if unat (d - 1 - a) < Suc n then m (s - (d - a)) else m a)"
    for a
  proof (cases "a = d - 1")
    case True
    then show ?thesis using "2.prems"(1) by (simp add: IH unat_neg_1)
  next
    case False
    then have nz: "unat (d - 1 - a) \<noteq> 0" by (auto simp: unat_eq_zero)
    have "d - 2 - a = d - 1 - a - 1" by simp
    then have u: "unat (d - 2 - a) = unat (d - 1 - a) - 1"
      using unat_diff_1 [OF nz] by (simp only:)
    have shift: "d - 1 - 1 - a = d - 2 - a" "s - 1 - (d - 1 - a) = s - (d - a)" by simp_all
    have "s - (d - a) \<noteq> d - 1" if "unat (d - 1 - a) < Suc n"
    proof
      assume "s - (d - a) = d - 1"
      then have "d - 1 - a = s - d" by (simp add: algebra_simps)
      with that "2.prems"(2) nz show False by auto
    qed
    with False nz show ?thesis
      by (simp only: copy_down.simps IH shift u) auto
  qed
  then show ?case by (rule ext)
qed simp

lemma unat_ucast_32_64: "unat (ucast (n :: u32) :: u64) = unat n"
proof -
  have "unat n < 2 ^ 64" using unsigned_less [of n, where ?'a = nat] by simp
  then show ?thesis by (simp add: unsigned_ucast_eq take_bit_nat_eq_self)
qed

lemma below_range_flip:
  fixes x N :: u64
  assumes "N \<noteq> 0"
  shows "unat (N - 1 - x) < unat N \<longleftrightarrow> unat x < unat N"
proof -
  have N: "unat (N - 1) = unat N - 1" "0 < unat N"
    using assms by (simp_all add: unat_diff_1 unat_eq_zero unat_gt_0)
  show ?thesis
    using N unat_lt_2p64 [of x] unat_lt_2p64 [of N]
    by (simp add: unat_sub_if' [of "N - 1" x]) linarith
qed

lemma memmove_eq:
  assumes "unat src + unat n \<le> 2 ^ 64" and "unat dst + unat n \<le> 2 ^ 64"
  shows "memmove m dst src n = (\<lambda>a. if unat (a - dst) < unat n then m (src + (a - dst)) else m a)"
proof -
  let ?N = "ucast n :: u64"
  have N: "unat ?N = unat n" by (rule unat_ucast_32_64)
  have n32: "unat n \<le> 4294967295" using unsigned_less [of n, where ?'a = nat] by simp
  consider (zero) "n = 0" | (down) "n \<noteq> 0" "src < dst" "src + ?N > dst"
    | (up) "n \<noteq> 0" "\<not> (src < dst \<and> src + ?N > dst)" by blast
  then show ?thesis
  proof cases
    case zero
    then show ?thesis by (simp add: memmove_def)
  next
    case down
    have "unat n \<le> unat (src - dst)"
      using down(2) assms n32 by (simp add: unat_sub_if' word_less_nat_alt)
    then have "memmove m dst src n =
        (\<lambda>a. if unat (dst + ?N - 1 - a) < unat n then m (src + ?N - (dst + ?N - a)) else m a)"
      using down n32 by (simp add: memmove_def copy_down_eq)
    moreover have "unat (dst + ?N - 1 - a) < unat n \<longleftrightarrow> unat (a - dst) < unat n" for a
    proof -
      have "?N \<noteq> 0" using down(1) N by (metis unat_eq_zero)
      moreover have "dst + ?N - 1 - a = ?N - 1 - (a - dst)" by simp
      ultimately show ?thesis using below_range_flip [of ?N "a - dst"] N
        by (simp only: simp_thms)
    qed
    moreover have "src + ?N - (dst + ?N - a) = src + (a - dst)" for a by simp
    ultimately show ?thesis by (simp only:)
  next
    case up
    have "dst = src \<or> unat n \<le> unat (dst - src)"
    proof (cases "src < dst")
      case True
      with up have "\<not> src + ?N > dst" by blast
      then have "unat src + unat n \<le> unat dst"
        using True assms N by (simp add: word_less_nat_alt unat_word_ariths) 
      then have "unat n \<le> unat (dst - src)" by (simp add: unat_sub_if')
      then show ?thesis ..
    next
      case False
      then show ?thesis
        using assms by (auto simp: unat_sub_if' word_less_nat_alt word_unat_eq_iff)
    qed
    then have "copy_up m dst src (unat n) =
        (\<lambda>a. if unat (a - dst) < unat n then m (src + (a - dst)) else m a)"
      using n32 by (intro copy_up_eq) auto
    with up show ?thesis by (auto simp: memmove_def)
  qed
qed

lemma wr_bytes_eq:
  assumes "length bs \<le> 2 ^ 64"
  shows "wr_bytes m a bs = (\<lambda>x. if unat (x - a) < length bs then bs ! unat (x - a) else m x)"
  using assms
proof (induction m a bs rule: wr_bytes.induct)
  case (2 m a b bs)
  have IH: "wr_bytes (m(a := b)) (a + 1) bs =
      (\<lambda>x. if unat (x - (a + 1)) < length bs then bs ! unat (x - (a + 1)) else (m(a := b)) x)"
    using "2.prems" by (intro "2.IH") simp
  have "wr_bytes m a (b # bs) x =
      (if unat (x - a) < length (b # bs) then (b # bs) ! unat (x - a) else m x)" for x
  proof (cases "x = a")
    case True
    then show ?thesis using "2.prems" by (simp add: IH unat_neg_1)
  next
    case False
    then have nz: "unat (x - a) \<noteq> 0" by (simp add: unat_eq_zero)
    have "x - (a + 1) = x - a - 1" by simp
    then have u: "unat (x - (a + 1)) = unat (x - a) - 1"
      using unat_diff_1 [OF nz] by (simp only:)
    show ?thesis using False nz by (auto simp: IH u nth_Cons')
  qed
  then show ?case by (rule ext)
qed simp

lemma length_rd_bytes [simp]: "length (rd_bytes m a n) = n"
  by (simp add: rd_bytes_def)

lemma rd_bytes_wr_bytes [mem_simps]:
  "length bs \<le> 2 ^ 64 \<Longrightarrow> rd_bytes (wr_bytes m a bs) a (length bs) = bs"
  by (rule nth_equalityI) (simp_all add: rd_bytes_def wr_bytes_eq unat_of_nat)

text \<open>\<open>memmove\<close> copies the bytes the source range held before the call, whether or not the
  two ranges overlap.\<close>

lemma memmove_snapshot:
  assumes "unat src + unat n \<le> 2 ^ 64" and "unat dst + unat n \<le> 2 ^ 64"
  shows "memmove m dst src n = wr_bytes m dst (rd_bytes m src (unat n))"
proof -
  have "unat n \<le> 2 ^ 64" using unsigned_less [of n, where ?'a = nat] by simp
  then show ?thesis
    using assms by (auto simp: memmove_eq wr_bytes_eq rd_bytes_def)
qed

section \<open>String lemmas\<close>

lemma strncmp_zero_iff:
  "strncmp p q n = Some r \<Longrightarrow> r = 0 \<longleftrightarrow> cstr (take n p) = cstr (take n q)"
proof (induction p q n rule: strncmp.induct)
  case (2 x p y q n)
  then show ?case by (auto simp: cstr_def word_uint_eq_iff split: if_splits)
qed (auto simp: cstr_def)

lemma zero_fill_eq: "zero_fill s n = (if n \<le> length s then Some (replicate n 0 @ drop n s) else None)"
  by (induction s n rule: zero_fill.induct) auto

lemma strncpy_loop_spec:
  "strncpy_loop s t n = Some s' \<Longrightarrow>
   length s' = length s \<and> drop n s' = drop n s \<and> cstr (take n s') = cstr (take n t)"
proof (induction s t n arbitrary: s' rule: strncpy_loop.induct)
  case (2 x s c t n)
  then show ?case by (auto simp: cstr_def zero_fill_eq split: if_splits)
qed (auto simp: cstr_def)

lemma strncpy_loop_total:
  "n \<le> length s \<Longrightarrow> n \<le> length t \<or> 0 \<in> set t \<Longrightarrow> \<exists>s'. strncpy_loop s t n = Some s'"
proof (induction s t n rule: strncpy_loop.induct)
  case (2 x s c t n)
  then show ?case by (auto simp: zero_fill_eq)
qed auto

lemma safestrcpy_loop_spec:
  "safestrcpy_loop s t n = Some s' \<Longrightarrow>
   length s' = length s \<and> cstr s' = take n (cstr t) \<and> 0 \<in> set (take (Suc n) s')"
proof (induction s t n arbitrary: s' rule: safestrcpy_loop.induct)
  case (2 x s c t n)
  then show ?case by (auto simp: cstr_def split: if_splits list.splits)
qed (auto simp: cstr_def)

section \<open>Properties\<close>

text \<open>\<open>memmove\<close> stores at \<open>dst\<close> the bytes that \<open>src\<close> held before the call, however the
  two ranges overlap, and touches nothing else.\<close>

theorem memmove_correct:
  assumes "unat src + unat n \<le> 2 ^ 64" and "unat dst + unat n \<le> 2 ^ 64"
  shows "rd_bytes (memmove m dst src n) dst (unat n) = rd_bytes m src (unat n) \<and>
    (\<forall>a. unat n \<le> unat (a - dst) \<longrightarrow> memmove m dst src n a = m a)"
proof -
  have n: "unat n \<le> 2 ^ 64" using unsigned_less [of n, where ?'a = nat] by simp
  have "rd_bytes (wr_bytes m dst (rd_bytes m src (unat n))) dst (length (rd_bytes m src (unat n))) =
      rd_bytes m src (unat n)"
    using n by (intro rd_bytes_wr_bytes) simp
  then show ?thesis using n by (simp add: memmove_snapshot [OF assms] wr_bytes_eq)
qed

theorem memmove_correct_witness:
  "rd_bytes (memmove (\<lambda>a. ucast a) 2 0 5) 2 (unat (5 :: u32)) = [0, 1, 2, 3, 4]"
proof -
  have "rd_bytes (memmove (\<lambda>a. ucast a) 2 0 5) 2 (unat (5 :: u32)) =
      rd_bytes (\<lambda>a. ucast a) 0 (unat (5 :: u32))"
    using memmove_correct [of 0 5 2 "\<lambda>a. ucast a"] by simp
  then show ?thesis by (simp add: rd_bytes_def upt_rec)
qed

text \<open>\<open>strncmp\<close> returns 0 exactly when the two strings agree on their first \<open>n\<close> characters,
  up to a NUL.\<close>

theorem strncmp_equal_iff:
  assumes "strncmp p q n = Some r"
  shows "r = 0 \<longleftrightarrow> cstr (take n p) = cstr (take n q)"
  using assms by (rule strncmp_zero_iff)

theorem strncmp_equal_iff_witness:
  "strncmp [104, 105, 0, 1] [104, 105, 0, 2] 4 = Some 0 \<and>
   cstr (take 4 [104, 105, 0, 1]) = cstr (take 4 [104, 105, 0, 2 :: u8])"
proof -
  have "strncmp [104, 105, 0, 1] [104, 105, 0, 2] 4 = Some 0"
    by (simp add: numeral_eq_Suc)
  with strncmp_equal_iff [OF this] show ?thesis by simp
qed

text \<open>\<open>strncpy\<close> fills exactly \<open>n\<close> bytes with the source string, padded with zeros as its name
  comparison in directory entries needs, and reads no further than the terminating NUL.\<close>

theorem strncpy_correct:
  assumes "0 \<le> n" and "nat n \<le> length s" and "nat n \<le> length t \<or> 0 \<in> set t"
  shows "\<exists>s'. strncpy s t n = Some s' \<and> length s' = length s \<and> drop (nat n) s' = drop (nat n) s \<and>
    cstr (take (nat n) s') = cstr (take (nat n) t)"
  using strncpy_loop_total [OF assms(2,3)] strncpy_loop_spec [of s t "nat n"]
  by (auto simp: strncpy_def)

theorem strncpy_correct_witness:
  "\<exists>s'. strncpy [1, 2, 3, 4] [97, 0] 3 = Some s' \<and> length s' = length [1, 2, 3, 4 :: u8] \<and> drop 3 s' = [4] \<and>
    cstr (take 3 s') = [97]"
  using strncpy_correct [of 3 "[1, 2, 3, 4]" "[97, 0]"] by (simp add: cstr_def)

text \<open>\<open>safestrcpy\<close> always leaves a NUL-terminated string in its \<open>n\<close> bytes: the source cut to
  \<open>n - 1\<close> characters.\<close>

theorem safestrcpy_terminated:
  assumes "0 < n" and "safestrcpy s t n = Some s'"
  shows "cstr s' = take (nat n - 1) (cstr t) \<and> 0 \<in> set (take (nat n) s') \<and> length s' = length s"
proof -
  have "safestrcpy_loop s t (nat n - 1) = Some s'" using assms by (simp add: safestrcpy_def)
  from safestrcpy_loop_spec [OF this] show ?thesis using assms(1) by simp
qed

theorem safestrcpy_terminated_witness:
  "\<exists>s'. safestrcpy [9, 9, 9, 9] [97, 98, 99, 100, 0] 3 = Some s' \<and> cstr s' = [97, 98] \<and>
    0 \<in> set (take 3 s')"
proof -
  have s: "safestrcpy [9, 9, 9, 9] [97, 98, 99, 100, 0] 3 = Some [97, 98, 0, 9]"
    by code_simp
  from safestrcpy_terminated [OF _ s] show ?thesis using s by (simp add: cstr_def)
qed

end
