(* ===== verification/Spinlock.thy ===== *)
theory Spinlock
  imports Prelude
begin

text \<open>
  Harts, interrupt nesting and spinlocks: \<^verbatim>\<open>kernel/spinlock.c\<close>, \<open>intr_on\<close>, \<open>intr_off\<close> and
  \<open>intr_get\<close> of \<^verbatim>\<open>kernel/riscv.h\<close>, and \<open>mycpu\<close>, \<open>cpuid\<close>, \<open>myproc\<close> of \<^verbatim>\<open>kernel/proc.c\<close>.
  The record \<open>spin_st\<close> is the base of the kernel state: every later component extends it,
  so that its routines call \<open>acquire\<close> and \<open>release\<close> as the C code does. The field \<open>hart\<close> is
  the \<open>tp\<close> register of the hart that runs the routine; \<open>sstatus\<close> is a control register of
  each hart and is kept beside its \<open>struct cpu\<close>.
\<close>

section \<open>State\<close>

definition NCPU :: nat where "NCPU = 8"

definition SSTATUS_SIE :: u64 where "SSTATUS_SIE = 2"

text \<open>The kernel's spinlocks. The ones inside the sleeplocks of a buffer and of an inode are
  named by the index of their owner.\<close>

datatype lockid =
    KmemLk | PidLk | WaitLk | ProcLk nat | BcacheLk | InodecacheLk | FilecacheLk
  | ConsLk | UartTxLk | PrLk | TrapLk | DiskLk | BufLk nat | InodeLk nat

record spinlock =
  locked :: u32
  lk_name :: string
  lk_cpu :: "nat option"

record cpu =
  cpu_p :: "nat option"
  noff :: int
  intena :: bool
  sstatus :: u64

record spin_st =
  hart :: nat
  cpus :: "cpu list"
  locks :: "lockid \<Rightarrow> spinlock"

section \<open>Routines\<close>

definition cpuid :: "(nat, 'z spin_st_scheme) kop" where
  "cpuid = kget hart"

definition mycpu :: "(nat, 'z spin_st_scheme) kop" where
  "mycpu = kbind cpuid (\<lambda>id s. if id < length (cpus s) then Ret id s else Fault ''cpus[id]'')"

definition on_cpu :: "nat \<Rightarrow> (cpu \<Rightarrow> cpu) \<Rightarrow> (unit, 'z spin_st_scheme) kop" where
  "on_cpu c f = kmod (\<lambda>s. s\<lparr>cpus := (cpus s)[c := f (cpus s ! c)]\<rparr>)"

definition intr_get :: "(bool, 'z spin_st_scheme) kop" where
  "intr_get = kbind mycpu (\<lambda>c. kget (\<lambda>s. sstatus (cpus s ! c) AND SSTATUS_SIE \<noteq> 0))"

definition intr_on :: "(unit, 'z spin_st_scheme) kop" where
  "intr_on = kbind mycpu (\<lambda>c. on_cpu c (\<lambda>k. k\<lparr>sstatus := sstatus k OR SSTATUS_SIE\<rparr>))"

definition intr_off :: "(unit, 'z spin_st_scheme) kop" where
  "intr_off = kbind mycpu (\<lambda>c. on_cpu c (\<lambda>k. k\<lparr>sstatus := sstatus k AND NOT SSTATUS_SIE\<rparr>))"

definition push_off :: "(unit, 'z spin_st_scheme) kop" where
  "push_off =
     kbind intr_get (\<lambda>old.
     kthen intr_off (
     kbind mycpu (\<lambda>c.
     kbind (kget (\<lambda>s. noff (cpus s ! c))) (\<lambda>n.
     kthen (kwhen (n = 0) (on_cpu c (\<lambda>k. k\<lparr>intena := old\<rparr>)))
           (on_cpu c (\<lambda>k. k\<lparr>noff := noff k + 1\<rparr>))))))"

definition pop_off :: "(unit, 'z spin_st_scheme) kop" where
  "pop_off =
     kbind mycpu (\<lambda>c.
     kbind intr_get (\<lambda>on.
     if on then kpanic ''pop_off - interruptible''
     else kbind (kget (\<lambda>s. noff (cpus s ! c))) (\<lambda>n.
     if n < 1 then kpanic ''pop_off''
     else kthen (on_cpu c (\<lambda>k. k\<lparr>noff := noff k - 1\<rparr>))
         (kbind (kget (\<lambda>s. noff (cpus s ! c) = 0 \<and> intena (cpus s ! c))) (\<lambda>b.
          kwhen b intr_on)))))"

definition myproc :: "(nat option, 'z spin_st_scheme) kop" where
  "myproc =
     kthen push_off (
     kbind mycpu (\<lambda>c.
     kbind (kget (\<lambda>s. cpu_p (cpus s ! c))) (\<lambda>p.
     kthen pop_off (kret p))))"

definition initlock :: "lockid \<Rightarrow> string \<Rightarrow> (unit, 'z spin_st_scheme) kop" where
  "initlock L nm =
     kmod (\<lambda>s. s\<lparr>locks := (locks s)(L := (locks s L)\<lparr>lk_name := nm, locked := 0\<rparr>)\<rparr>)"

definition holdinglock :: "lockid \<Rightarrow> (bool, 'z spin_st_scheme) kop" where
  "holdinglock L =
     kbind mycpu (\<lambda>c. kget (\<lambda>s. locked (locks s L) \<noteq> 0 \<and> lk_cpu (locks s L) = Some c))"

text \<open>\<^verbatim>\<open>atomic.S: atmswap\<close> stores 1 and returns the old value; the acquiring loop repeats it
  until the old value is 0. On a lock somebody else holds the swap rewrites the 1 that is
  there, so the loop changes nothing and the hart spins.\<close>

definition atmswap :: "lockid \<Rightarrow> (u32, 'z spin_st_scheme) kop" where
  "atmswap L =
     kbind (kget (\<lambda>s. locked (locks s L))) (\<lambda>old.
     kthen (kmod (\<lambda>s. s\<lparr>locks := (locks s)(L := (locks s L)\<lparr>locked := 1\<rparr>)\<rparr>)) (kret old))"

definition acquire :: "lockid \<Rightarrow> (unit, 'z spin_st_scheme) kop" where
  "acquire L =
     kthen push_off (
     kbind (holdinglock L) (\<lambda>h.
     if h then kpanic ''acquire...''
     else kbind (atmswap L) (\<lambda>old.
     if old \<noteq> 0 then (\<lambda>s. Spin)
     else kbind mycpu (\<lambda>c.
          kmod (\<lambda>s. s\<lparr>locks := (locks s)(L := (locks s L)\<lparr>lk_cpu := Some c\<rparr>)\<rparr>)))))"

definition release :: "lockid \<Rightarrow> (unit, 'z spin_st_scheme) kop" where
  "release L =
     kbind (holdinglock L) (\<lambda>h.
     if \<not> h then kpanic ''release...''
     else kthen (kmod (\<lambda>s. s\<lparr>locks := (locks s)(L := (locks s L)\<lparr>lk_cpu := None\<rparr>)\<rparr>))
         (kthen (kmod (\<lambda>s. s\<lparr>locks := (locks s)(L := (locks s L)\<lparr>locked := 0\<rparr>)\<rparr>))
          pop_off))"

section \<open>What acquire and release do to the state\<close>

definition sie :: "cpu \<Rightarrow> bool" where
  "sie c \<longleftrightarrow> sstatus c AND SSTATUS_SIE \<noteq> 0"

text \<open>The interrupt nesting of the running hart is consistent: with no nesting, \<open>intena\<close>
  agrees with the interrupt bit (which the first \<open>push_off\<close> establishes); inside a nesting
  interrupts are off.\<close>

definition cpu_ok :: "nat \<Rightarrow> cpu list \<Rightarrow> bool" where
  "cpu_ok h cs \<longleftrightarrow> h < length cs \<and> 0 \<le> noff (cs ! h) \<and>
     (if noff (cs ! h) = 0 then intena (cs ! h) = sie (cs ! h) else \<not> sie (cs ! h))"

definition pushc :: "nat \<Rightarrow> cpu list \<Rightarrow> cpu list" where
  "pushc h cs = cs[h := (cs ! h)\<lparr>sstatus := sstatus (cs ! h) AND NOT SSTATUS_SIE,
     intena := (if noff (cs ! h) = 0 then sie (cs ! h) else intena (cs ! h)),
     noff := noff (cs ! h) + 1\<rparr>]"

definition popc :: "nat \<Rightarrow> cpu list \<Rightarrow> cpu list" where
  "popc h cs = cs[h := (cs ! h)\<lparr>noff := noff (cs ! h) - 1,
     sstatus := (if noff (cs ! h) = 1 \<and> intena (cs ! h)
                 then sstatus (cs ! h) OR SSTATUS_SIE else sstatus (cs ! h))\<rparr>]"

definition lock_on :: "nat \<Rightarrow> lockid \<Rightarrow> (lockid \<Rightarrow> spinlock) \<Rightarrow> (lockid \<Rightarrow> spinlock)" where
  "lock_on h L ls = ls(L := (ls L)\<lparr>locked := 1, lk_cpu := Some h\<rparr>)"

definition lock_off :: "lockid \<Rightarrow> (lockid \<Rightarrow> spinlock) \<Rightarrow> (lockid \<Rightarrow> spinlock)" where
  "lock_off L ls = ls(L := (ls L)\<lparr>lk_cpu := None, locked := 0\<rparr>)"

definition free_lock :: "(lockid \<Rightarrow> spinlock) \<Rightarrow> lockid \<Rightarrow> bool" where
  "free_lock ls L \<longleftrightarrow> locked (ls L) = 0 \<and> lk_cpu (ls L) = None"

definition held_by :: "nat \<Rightarrow> (lockid \<Rightarrow> spinlock) \<Rightarrow> lockid \<Rightarrow> bool" where
  "held_by h ls L \<longleftrightarrow> locked (ls L) \<noteq> 0 \<and> lk_cpu (ls L) = Some h"

lemma bit_SIE: "bit SSTATUS_SIE n \<longleftrightarrow> n = 1"
  using bit_exp_iff [of 1 n, where ?'a = u64] by (auto simp: SSTATUS_SIE_def possible_bit_def)

lemma and_SIE: "x AND SSTATUS_SIE \<noteq> 0 \<longleftrightarrow> bit x 1"
proof
  assume "x AND SSTATUS_SIE \<noteq> 0"
  then obtain n where "bit (x AND SSTATUS_SIE) n" by (auto simp: bit_eq_iff)
  then show "bit x 1" by (auto simp: bit_and_iff bit_SIE)
next
  assume "bit x 1"
  then have "bit (x AND SSTATUS_SIE) 1" by (simp add: bit_and_iff bit_SIE)
  then show "x AND SSTATUS_SIE \<noteq> 0" by force
qed

lemma sie_off: "\<not> bit (x AND NOT SSTATUS_SIE) 1"
  by (simp add: bit_simps bit_SIE)

lemma sie_restore: "bit x 1 \<Longrightarrow> (x AND NOT SSTATUS_SIE) OR SSTATUS_SIE = x"
  by (rule bit_word_eqI) (auto simp: bit_simps bit_SIE)

lemma sie_already_off: "\<not> bit x 1 \<Longrightarrow> x AND NOT SSTATUS_SIE = x"
  by (rule bit_word_eqI) (auto simp: bit_simps bit_SIE)

lemma length_pushc [simp]: "length (pushc h cs) = length cs"
  and length_popc [simp]: "length (popc h cs) = length cs"
  by (simp_all add: pushc_def popc_def)

lemma pushc_facts [simp]:
  assumes "cpu_ok h cs"
  shows "noff (pushc h cs ! h) = noff (cs ! h) + 1" "1 \<le> noff (pushc h cs ! h)"
    and "\<not> sie (pushc h cs ! h)" and "cpu_p (pushc h cs ! h) = cpu_p (cs ! h)"
  using assms sie_off [of "sstatus (cs ! h)"]
  by (simp_all add: cpu_ok_def pushc_def sie_def and_SIE)

lemma cpu_ok_noff [simp]: "cpu_ok h cs \<Longrightarrow> 0 \<le> noff (cs ! h)"
  by (simp add: cpu_ok_def)

lemma cpu_ok_pushc [simp]: "cpu_ok h cs \<Longrightarrow> cpu_ok h (pushc h cs)"
  using pushc_facts [of h cs] by (simp add: cpu_ok_def)

lemma popc_pushc [simp]:
  assumes "cpu_ok h cs"
  shows "popc h (pushc h cs) = cs"
proof -
  let ?c = "cs ! h"
  have h: "h < length cs" using assms by (simp add: cpu_ok_def)
  have "(pushc h cs ! h)\<lparr>noff := noff (pushc h cs ! h) - 1,
      sstatus := (if noff (pushc h cs ! h) = 1 \<and> intena (pushc h cs ! h)
        then sstatus (pushc h cs ! h) OR SSTATUS_SIE else sstatus (pushc h cs ! h))\<rparr> = ?c"
    using assms h
    by (cases ?c) (auto simp: cpu_ok_def pushc_def sie_def and_SIE sie_restore sie_already_off)
  then show ?thesis unfolding popc_def by (simp only:) (simp add: pushc_def)
qed

lemma lock_on_at [simp]:
  "locked (lock_on h L ls L) = 1" "lk_cpu (lock_on h L ls L) = Some h"
  "L' \<noteq> L \<Longrightarrow> lock_on h L ls L' = ls L'" "L' \<noteq> L \<Longrightarrow> lock_off L ls L' = ls L'"
  by (simp_all add: lock_on_def lock_off_def)

lemma lock_off_on [simp]: "free_lock ls L \<Longrightarrow> lock_off L (lock_on h L ls) = ls"
  by (auto simp: lock_off_def lock_on_def free_lock_def fun_eq_iff)

lemma lock_off_on_other [simp]:
  "L \<noteq> L' \<Longrightarrow> lock_off L (lock_on h L' ls) = lock_on h L' (lock_off L ls)"
  by (auto simp: lock_off_def lock_on_def)

lemma free_lock_on [simp]: "L \<noteq> L' \<Longrightarrow> free_lock (lock_on h L' ls) L = free_lock ls L"
  by (simp add: free_lock_def)

lemma held_by_on [simp]: "held_by h (lock_on h L ls) L"
  "L \<noteq> L' \<Longrightarrow> held_by h (lock_on g L' ls) L = held_by h ls L"
  by (simp_all add: held_by_def)

lemma not_held_free: "free_lock ls L \<Longrightarrow> \<not> held_by h ls L"
  by (simp add: free_lock_def held_by_def)

section \<open>Running the routines\<close>

lemma mycpu_ok [kstep]: "hart s < length (cpus s) \<Longrightarrow> mycpu s = Ret (hart s) s"
  by (simp add: mycpu_def cpuid_def)

lemma push_off_ok [kstep]:
  "hart s < length (cpus s) \<Longrightarrow> push_off s = Ret () (s\<lparr>cpus := pushc (hart s) (cpus s)\<rparr>)"
  by (simp add: push_off_def intr_get_def intr_off_def on_cpu_def kbind_def mycpu_ok
      kwhen_def pushc_def sie_def)

lemma pop_off_ok [kstep]:
  "hart s < length (cpus s) \<Longrightarrow> \<not> sie (cpus s ! hart s) \<Longrightarrow> 1 \<le> noff (cpus s ! hart s) \<Longrightarrow>
   pop_off s = Ret () (s\<lparr>cpus := popc (hart s) (cpus s)\<rparr>)"
  by (simp add: pop_off_def intr_get_def intr_on_def on_cpu_def kbind_def mycpu_ok
      kwhen_def popc_def sie_def)

lemma myproc_ok [kstep]:
  assumes "cpu_ok (hart s) (cpus s)"
  shows "myproc s = Ret (cpu_p (cpus s ! hart s)) s"
  using assms pushc_facts [OF assms]
  by (simp add: myproc_def kbind_def push_off_ok pop_off_ok mycpu_ok cpu_ok_def [of "hart s" "cpus s"])

lemma holdinglock_ok [kstep]:
  "hart s < length (cpus s) \<Longrightarrow> holdinglock L s = Ret (held_by (hart s) (locks s) L) s"
  by (simp add: holdinglock_def kbind_def mycpu_ok held_by_def)

lemma cpu_ok_hart: "cpu_ok h cs \<Longrightarrow> h < length cs"
  by (simp add: cpu_ok_def)

lemma acquire_taken:
  assumes "hart s < length (cpus s)" and "locked (locks s L) = 0"
  shows "acquire L s = Ret () (s\<lparr>cpus := pushc (hart s) (cpus s),
    locks := lock_on (hart s) L (locks s)\<rparr>)"
  using assms
  by (simp add: acquire_def kbind_def push_off_ok holdinglock_ok mycpu_ok atmswap_def)
    (simp add: held_by_def lock_on_def)

lemma acquire_free [kstep]:
  assumes "cpu_ok (hart s) (cpus s)" and "free_lock (locks s) L"
  shows "acquire L s = Ret () (s\<lparr>cpus := pushc (hart s) (cpus s),
    locks := lock_on (hart s) L (locks s)\<rparr>)"
  using assms by (simp add: acquire_taken cpu_ok_hart free_lock_def)

lemma acquire_held [kstep]:
  assumes "hart s < length (cpus s)" and "held_by (hart s) (locks s) L"
  shows "acquire L s = Panic ''acquire...''"
  using assms by (simp add: acquire_def kbind_def push_off_ok holdinglock_ok)

lemma acquire_busy [kstep]:
  assumes "hart s < length (cpus s)" and "locked (locks s L) \<noteq> 0"
    and "\<not> held_by (hart s) (locks s) L"
  shows "acquire L s = Spin"
  using assms by (simp add: acquire_def kbind_def push_off_ok holdinglock_ok atmswap_def)

lemma release_held [kstep]:
  assumes "hart s < length (cpus s)" and "held_by (hart s) (locks s) L"
    and "\<not> sie (cpus s ! hart s)" and "1 \<le> noff (cpus s ! hart s)"
  shows "release L s = Ret () (s\<lparr>locks := lock_off L (locks s), cpus := popc (hart s) (cpus s)\<rparr>)"
  using assms
  by (simp add: release_def kbind_def holdinglock_ok pop_off_ok lock_off_def)

lemma release_not_held [kstep]:
  assumes "hart s < length (cpus s)" and "\<not> held_by (hart s) (locks s) L"
  shows "release L s = Panic ''release...''"
  using assms by (simp add: release_def kbind_def holdinglock_ok)

section \<open>Interleaved harts\<close>

text \<open>Any hart may take the next step: acquire a lock, release one, read its current process,
  or, outside every critical section, switch its interrupts on or off (as \<open>scheduler\<close> and
  \<open>usertrap\<close> do). A step that panics or spins leaves no state behind and is no step.\<close>

inductive hart_step :: "spin_st \<Rightarrow> spin_st \<Rightarrow> bool" where
  step_acquire: "h < length (cpus s) \<Longrightarrow> acquire L (s\<lparr>hart := h\<rparr>) = Ret () t \<Longrightarrow> hart_step s t"
| step_release: "h < length (cpus s) \<Longrightarrow> release L (s\<lparr>hart := h\<rparr>) = Ret () t \<Longrightarrow> hart_step s t"
| step_myproc: "h < length (cpus s) \<Longrightarrow> myproc (s\<lparr>hart := h\<rparr>) = Ret p t \<Longrightarrow> hart_step s t"
| step_intr_on: "h < length (cpus s) \<Longrightarrow> noff (cpus s ! h) = 0 \<Longrightarrow>
    intr_on (s\<lparr>hart := h\<rparr>) = Ret () t \<Longrightarrow> hart_step s t"
| step_intr_off: "h < length (cpus s) \<Longrightarrow> noff (cpus s ! h) = 0 \<Longrightarrow>
    intr_off (s\<lparr>hart := h\<rparr>) = Ret () t \<Longrightarrow> hart_step s t"

text \<open>At boot no lock is held and no hart is nested (\<open>cpus\<close> and the locks are zeroed memory).\<close>

definition boot_spin :: "spin_st \<Rightarrow> bool" where
  "boot_spin s \<longleftrightarrow> length (cpus s) = NCPU \<and> (\<forall>L. free_lock (locks s) L) \<and>
     (\<forall>c \<in> set (cpus s). noff c = 0)"

inductive hart_reach :: "spin_st \<Rightarrow> bool" where
  reach_boot: "boot_spin s \<Longrightarrow> hart_reach s"
| reach_step: "hart_reach s \<Longrightarrow> hart_step s t \<Longrightarrow> hart_reach t"

definition held :: "(lockid \<Rightarrow> spinlock) \<Rightarrow> nat \<Rightarrow> lockid set" where
  "held ls h = {L. held_by h ls L}"

definition hart_ok :: "(lockid \<Rightarrow> spinlock) \<Rightarrow> nat \<Rightarrow> cpu \<Rightarrow> bool" where
  "hart_ok ls h c \<longleftrightarrow> finite (held ls h) \<and> noff c = int (card (held ls h)) \<and>
     (0 < noff c \<longrightarrow> \<not> sie c)"

definition spin_inv :: "spin_st \<Rightarrow> bool" where
  "spin_inv s \<longleftrightarrow>
     (\<forall>L. locked (locks s L) = 0 \<longleftrightarrow> lk_cpu (locks s L) = None) \<and>
     (\<forall>h < length (cpus s). hart_ok (locks s) h (cpus s ! h))"

lemma acquire_RetD:
  assumes "hart s < length (cpus s)" and "acquire L s = Ret u t"
  shows "locked (locks s L) = 0"
    and "t = s\<lparr>cpus := pushc (hart s) (cpus s), locks := lock_on (hart s) L (locks s)\<rparr>"
proof -
  have "locked (locks s L) = 0"
    using assms acquire_held [of s L] acquire_busy [of s L] by fastforce
  with assms acquire_taken [of s L] show "locked (locks s L) = 0"
    and "t = s\<lparr>cpus := pushc (hart s) (cpus s), locks := lock_on (hart s) L (locks s)\<rparr>"
    by auto
qed

lemma pop_off_RetD:
  assumes "hart s < length (cpus s)" and "pop_off s = Ret u t"
  shows "\<not> sie (cpus s ! hart s) \<and> 1 \<le> noff (cpus s ! hart s) \<and>
    t = s\<lparr>cpus := popc (hart s) (cpus s)\<rparr>"
proof -
  have "\<not> sie (cpus s ! hart s) \<and> 1 \<le> noff (cpus s ! hart s)"
    using assms
    by (auto simp: pop_off_def kbind_def mycpu_ok intr_get_def sie_def split: if_splits)
  with assms pop_off_ok [of s] show ?thesis by auto
qed

lemma release_RetD:
  assumes "hart s < length (cpus s)" and "release L s = Ret u t"
  shows "held_by (hart s) (locks s) L"
    and "t = s\<lparr>locks := lock_off L (locks s), cpus := popc (hart s) (cpus s)\<rparr>"
proof -
  show h: "held_by (hart s) (locks s) L"
    using assms release_not_held [of s L] by fastforce
  let ?s = "s\<lparr>locks := lock_off L (locks s)\<rparr>"
  have "pop_off ?s = Ret u t"
    using assms h by (simp add: release_def kbind_def holdinglock_ok lock_off_def)
  from pop_off_RetD [OF _ this] assms(1)
  show "t = s\<lparr>locks := lock_off L (locks s), cpus := popc (hart s) (cpus s)\<rparr>" by simp
qed

lemma held_lock_on:
  assumes "locked (ls L) = 0"
  shows "held (lock_on h L ls) g = (if g = h then insert L (held ls g) else held ls g)"
  using assms by (auto simp: held_def held_by_def lock_on_def)

lemma held_lock_off: "held (lock_off L ls) g = held ls g - {L}"
  by (auto simp: held_def held_by_def lock_off_def)

lemma nth_pushc_other [simp]: "g \<noteq> h \<Longrightarrow> pushc h cs ! g = cs ! g"
  and nth_popc_other [simp]: "g \<noteq> h \<Longrightarrow> popc h cs ! g = cs ! g"
  by (simp_all add: pushc_def popc_def)

lemma pushc_self:
  assumes "h < length cs"
  shows "noff (pushc h cs ! h) = noff (cs ! h) + 1" "\<not> sie (pushc h cs ! h)"
    "intena (pushc h cs ! h) = (if noff (cs ! h) = 0 then sie (cs ! h) else intena (cs ! h))"
  using assms sie_off [of "sstatus (cs ! h)"] by (simp_all add: pushc_def sie_def and_SIE)

lemma popc_self:
  assumes "h < length cs"
  shows "noff (popc h cs ! h) = noff (cs ! h) - 1"
    and "\<not> sie (cs ! h) \<Longrightarrow>
      sie (popc h cs ! h) \<longleftrightarrow> noff (cs ! h) = 1 \<and> intena (cs ! h)"
  using assms by (auto simp: popc_def sie_def and_SIE bit_simps bit_SIE)

lemma spin_inv_acquire:
  assumes "spin_inv s" and "h < length (cpus s)" and "acquire L (s\<lparr>hart := h\<rparr>) = Ret () t"
  shows "spin_inv t"
proof -
  have t: "t = s\<lparr>hart := h, cpus := pushc h (cpus s), locks := lock_on h L (locks s)\<rparr>"
    and free: "locked (locks s L) = 0"
    using acquire_RetD [OF _ assms(3)] assms(2) by simp_all
  have new: "L \<notin> held (locks s) h" using free by (simp add: held_def held_by_def)
  have "hart_ok (lock_on h L (locks s)) g (pushc h (cpus s) ! g)" if "g < length (cpus s)" for g
    using assms(1,2) free that new
    by (cases "g = h") (auto simp: spin_inv_def hart_ok_def held_lock_on pushc_self)
  then show ?thesis
    using assms(1) by (simp add: spin_inv_def t) (simp add: lock_on_def)
qed

lemma spin_inv_release:
  assumes inv: "spin_inv s" and h: "h < length (cpus s)"
    and rel: "release L (s\<lparr>hart := h\<rparr>) = Ret () t"
  shows "spin_inv t"
proof -
  have t: "t = s\<lparr>hart := h, locks := lock_off L (locks s), cpus := popc h (cpus s)\<rparr>"
    and hold: "held_by h (locks s) L"
    using release_RetD [OF _ rel] h by simp_all
  have L: "L \<in> held (locks s) h" and fin: "finite (held (locks s) h)"
    using hold inv h by (auto simp: held_def spin_inv_def hart_ok_def)
  have other: "held (locks s) g - {L} = held (locks s) g" if "g \<noteq> h" for g
    using hold that by (auto simp: held_def held_by_def)
  have card: "0 < card (held (locks s) h)"
    using L fin by (auto simp: card_gt_0_iff)
  then have on: "\<not> sie (cpus s ! h)" "noff (cpus s ! h) = int (card (held (locks s) h))"
    using inv h by (auto simp: spin_inv_def hart_ok_def)
  have "hart_ok (lock_off L (locks s)) g (popc h (cpus s) ! g)" if "g < length (cpus s)" for g
  proof (cases "g = h")
    case True
    then show ?thesis
      using h on L fin card by (simp add: hart_ok_def held_lock_off popc_self of_nat_diff)
  next
    case False
    then show ?thesis
      using inv that by (simp add: spin_inv_def hart_ok_def held_lock_off other)
  qed
  then show ?thesis
    using inv by (simp add: spin_inv_def t) (simp add: lock_off_def)
qed

lemma spin_inv_cpus:
  assumes "spin_inv s" and "length cs = length (cpus s)"
    and "\<And>g. g < length cs \<Longrightarrow> noff (cs ! g) = noff (cpus s ! g)"
    and "\<And>g. g < length cs \<Longrightarrow> 0 < noff (cs ! g) \<Longrightarrow> \<not> sie (cpus s ! g) \<Longrightarrow> \<not> sie (cs ! g)"
  shows "spin_inv (s\<lparr>hart := h, cpus := cs\<rparr>)"
  using assms by (auto simp: spin_inv_def hart_ok_def)

lemma spin_inv_myproc:
  assumes "spin_inv s" and h: "h < length (cpus s)" and "myproc (s\<lparr>hart := h\<rparr>) = Ret p t"
  shows "spin_inv t"
proof -
  let ?cs = "popc h (pushc h (cpus s))"
  have t: "t = s\<lparr>hart := h, cpus := ?cs\<rparr>"
    using assms by (auto simp: myproc_def kbind_def push_off_ok mycpu_ok
      dest!: pop_off_RetD [rotated] split: outcome.splits)
  have nn: "0 \<le> noff (cpus s ! h)"
    using assms(1) h by (simp add: spin_inv_def hart_ok_def)
  have "noff (?cs ! g) = noff (cpus s ! g)" for g
    using h by (cases "g = h") (simp_all add: popc_self pushc_self)
  moreover have "0 < noff (?cs ! g) \<Longrightarrow> \<not> sie (cpus s ! g) \<Longrightarrow> \<not> sie (?cs ! g)" for g
    using h nn by (cases "g = h") (simp_all add: popc_self pushc_self)
  ultimately show ?thesis
    unfolding t using assms(1) by (intro spin_inv_cpus) simp_all
qed

lemma spin_inv_intr:
  assumes "spin_inv s" and "h < length (cpus s)" and "noff (cpus s ! h) = 0"
    and "intr_on (s\<lparr>hart := h\<rparr>) = Ret () t \<or> intr_off (s\<lparr>hart := h\<rparr>) = Ret () t"
  shows "spin_inv t"
proof -
  obtain w where t: "t = s\<lparr>hart := h, cpus := (cpus s)[h := (cpus s ! h)\<lparr>sstatus := w\<rparr>]\<rparr>"
    using assms(2,4) by (auto simp: intr_on_def intr_off_def kbind_def mycpu_ok on_cpu_def)
  show ?thesis
    unfolding t using assms(1-3)
    by (intro spin_inv_cpus) (auto simp: nth_list_update split: if_splits)
qed

lemma hart_step_inv: "hart_step s t \<Longrightarrow> spin_inv s \<Longrightarrow> spin_inv t"
  by (induction rule: hart_step.induct)
    (blast intro: spin_inv_acquire spin_inv_release spin_inv_myproc spin_inv_intr)+

lemma spin_inv_boot: "boot_spin s \<Longrightarrow> spin_inv s"
  by (auto simp: boot_spin_def spin_inv_def hart_ok_def free_lock_def held_def held_by_def)

lemma hart_reach_inv: "hart_reach s \<Longrightarrow> spin_inv s"
  by (induction rule: hart_reach.induct) (auto intro: spin_inv_boot hart_step_inv)

section \<open>Properties\<close>

text \<open>(C3) Whatever the harts do after boot, a hart that holds a spinlock runs with interrupts
  off, its nesting counter \<open>noff\<close> is the number of locks it holds, and no other hart holds
  that lock.\<close>

theorem lock_holder_uninterrupted:
  assumes "hart_reach s" and "h < length (cpus s)" and "held_by h (locks s) L"
  shows "\<not> sie (cpus s ! h) \<and> noff (cpus s ! h) = int (card (held (locks s) h)) \<and>
    (\<forall>g. held_by g (locks s) L \<longrightarrow> g = h)"
proof -
  have ok: "hart_ok (locks s) h (cpus s ! h)"
    using hart_reach_inv [OF assms(1)] assms(2) by (simp add: spin_inv_def)
  have "L \<in> held (locks s) h" using assms(3) by (simp add: held_def)
  then have "0 < card (held (locks s) h)" using ok by (auto simp: hart_ok_def card_gt_0_iff)
  then show ?thesis using ok assms(3) by (auto simp: hart_ok_def held_by_def)
qed

definition boot_state :: spin_st where
  "boot_state = \<lparr>hart = 0,
     cpus = replicate 8 \<lparr>cpu_p = None, noff = 0, intena = False, sstatus = 0\<rparr>,
     locks = (\<lambda>_. \<lparr>locked = 0, lk_name = [], lk_cpu = None\<rparr>)\<rparr>"

lemma boot_spin_boot_state: "boot_spin boot_state"
  by (simp add: boot_spin_def boot_state_def free_lock_def NCPU_def)

definition locked_state :: spin_st where
  "locked_state = boot_state\<lparr>cpus := pushc 0 (cpus boot_state),
     locks := lock_on 0 KmemLk (locks boot_state)\<rparr>"

lemma hart_reach_locked: "hart_reach locked_state"
proof (rule reach_step [OF reach_boot [OF boot_spin_boot_state]])
  have "boot_state\<lparr>hart := 0\<rparr> = boot_state" by (simp add: boot_state_def)
  moreover have "acquire KmemLk boot_state = Ret () locked_state"
    by (subst acquire_taken) (simp_all add: boot_state_def locked_state_def)
  ultimately show "hart_step boot_state locked_state"
    by (intro step_acquire [of 0 boot_state KmemLk]) (simp_all add: boot_state_def)
qed

theorem lock_holder_uninterrupted_witness:
  "\<not> sie (cpus locked_state ! 0) \<and>
   noff (cpus locked_state ! 0) = int (card (held (locks locked_state) 0)) \<and>
   \<not> held_by 1 (locks locked_state) KmemLk"
  using lock_holder_uninterrupted [OF hart_reach_locked, of 0 KmemLk]
  by (auto simp: locked_state_def boot_state_def)

text \<open>A call of \<open>acquire\<close> has exactly three results: a lock nobody holds is taken, with
  interrupts off and the nesting one deeper; a lock this hart holds already is a panic; a lock
  another hart holds makes this hart spin.\<close>

theorem acquire_trichotomy:
  assumes "hart s < length (cpus s)"
  shows "acquire L s =
    (if locked (locks s L) = 0 then
       Ret () (s\<lparr>cpus := pushc (hart s) (cpus s), locks := lock_on (hart s) L (locks s)\<rparr>)
     else if lk_cpu (locks s L) = Some (hart s) then Panic ''acquire...''
     else Spin)"
  using assms acquire_taken [of s L] acquire_held [of s L] acquire_busy [of s L]
  by (auto simp: held_by_def)

theorem acquire_trichotomy_witness:
  "hart locked_state < length (cpus locked_state) \<and>
   acquire KmemLk locked_state = Panic ''acquire...''"
proof -
  have "hart locked_state < length (cpus locked_state)"
    by (simp add: locked_state_def boot_state_def)
  with acquire_trichotomy [OF this, of KmemLk] show ?thesis
    by (simp add: locked_state_def boot_state_def)
qed

text \<open>A critical section leaves nothing behind: on a consistent hart, \<open>acquire\<close> of a free
  lock followed by \<open>release\<close> restores the lock, the nesting depth and the interrupt state.\<close>

theorem acquire_release_identity:
  assumes "cpu_ok (hart s) (cpus s)" and "free_lock (locks s) L"
  shows "kthen (acquire L) (release L) s = Ret () s"
  using assms by (simp add: kbind_def acquire_free release_held cpu_ok_hart)

theorem acquire_release_identity_witness:
  "cpu_ok (hart boot_state) (cpus boot_state) \<and> free_lock (locks boot_state) PidLk \<and>
   kthen (acquire PidLk) (release PidLk) boot_state = Ret () boot_state"
proof -
  have "cpu_ok (hart boot_state) (cpus boot_state)" "free_lock (locks boot_state) PidLk"
    by (simp_all add: cpu_ok_def boot_state_def sie_def free_lock_def)
  with acquire_release_identity [OF this] show ?thesis by simp
qed

end
