(* ===== verification/Kalloc.thy ===== *)
theory Kalloc
  imports Cmem Spinlock
begin

text \<open>
  The physical page allocator of \<^verbatim>\<open>kernel/vm.c\<close>: \<open>kfree\<close>, \<open>freerange\<close> and \<open>kalloc\<close>. The free
  pages form a linked list threaded through the pages themselves (\<open>struct run\<close>): the first
  eight bytes of a free page hold the address of the next one. \<open>mem\<close> is physical memory,
  \<open>freelist\<close> the head \<open>kmem.freelist\<close>. The addresses \<open>end\<close>, \<open>etext\<close> and \<open>trampoline\<close> come
  from the linker script; they are fields no routine writes.
\<close>

section \<open>State and routines\<close>

definition KERNELBASE :: u64 where "KERNELBASE = 0x80000000"

definition PHYSTOP :: u64 where "PHYSTOP = KERNELBASE + 128 * 1024 * 1024"

record mem_st = spin_st +
  mem :: memory
  freelist :: u64
  ld_end :: u64
  ld_etext :: u64
  ld_trampoline :: u64
  kernel_pagetable :: u64
  satp :: u64

definition on_mem :: "(memory \<Rightarrow> memory) \<Rightarrow> (unit, 'z mem_st_scheme) kop" where
  "on_mem f = kmod (\<lambda>s. s\<lparr>mem := f (mem s)\<rparr>)"

definition kfree :: "u64 \<Rightarrow> (unit, 'z mem_st_scheme) kop" where
  "kfree pa =
     kbind (kget ld_end) (\<lambda>end'.
     if pa mod PGSIZE \<noteq> 0 \<or> pa < end' \<or> pa \<ge> PHYSTOP then kpanic ''kfree''
     else
       kthen (on_mem (\<lambda>m. memset m pa 1 4096)) (
       kthen (acquire KmemLk) (
       kthen (kmod (\<lambda>s. s\<lparr>mem := wr64 (mem s) pa (freelist s)\<rparr>)) (
       kthen (kmod (\<lambda>s. s\<lparr>freelist := pa\<rparr>)) (
       release KmemLk)))))"

definition kalloc :: "(u64, 'z mem_st_scheme) kop" where
  "kalloc =
     kthen (acquire KmemLk) (
     kbind (kget freelist) (\<lambda>r.
     kthen (kwhen (r \<noteq> 0) (kmod (\<lambda>s. s\<lparr>freelist := rd64 (mem s) r\<rparr>))) (
     kthen (release KmemLk) (
     kthen (kwhen (r \<noteq> 0) (on_mem (\<lambda>m. memset m r 5 4096)))
     (kret r)))))"

section \<open>What the routines do\<close>

definition kpage :: "u64 \<Rightarrow> u64 \<Rightarrow> bool" where
  "kpage end' p \<longleftrightarrow> page_aligned p \<and> end' \<le> p \<and> p < PHYSTOP"

lemma kfree_ok [kstep]:
  assumes "cpu_ok (hart s) (cpus s)" and "free_lock (locks s) KmemLk" and "kpage (ld_end s) pa"
  shows "kfree pa s =
    Ret () (s\<lparr>mem := wr64 (memset (mem s) pa 1 4096) pa (freelist s), freelist := pa\<rparr>)"
  using assms
  by (simp add: kfree_def kpage_def kbind_def on_mem_def acquire_free release_held
      cpu_ok_hart not_le not_less flip: page_aligned_def)

lemma kfree_bad [kstep]: "\<not> kpage (ld_end s) pa \<Longrightarrow> kfree pa s = Panic ''kfree''"
  by (auto simp: kfree_def kpage_def kbind_def not_le not_less simp flip: page_aligned_def)

lemma kalloc_some [kstep]:
  assumes "cpu_ok (hart s) (cpus s)" and "free_lock (locks s) KmemLk" and "freelist s \<noteq> 0"
  shows "kalloc s = Ret (freelist s) (s\<lparr>mem := memset (mem s) (freelist s) 5 4096,
    freelist := rd64 (mem s) (freelist s)\<rparr>)"
  using assms
  by (simp add: kalloc_def kbind_def on_mem_def acquire_free release_held cpu_ok_hart)

lemma kalloc_none [kstep]:
  assumes "cpu_ok (hart s) (cpus s)" and "free_lock (locks s) KmemLk" and "freelist s = 0"
  shows "kalloc s = Ret 0 s"
  using assms
  by (simp add: kalloc_def kbind_def on_mem_def acquire_free release_held cpu_ok_hart)

text \<open>\<^verbatim>\<open>vm.c: freerange\<close>. The loop stops because a page at or above \<open>PHYSTOP\<close> makes \<open>kfree\<close> panic.\<close>

lemma freerange_dec:
  assumes "kfree p s = Ret u t"
  shows "unat PHYSTOP - unat (p + 4096) < unat PHYSTOP - unat p"
proof -
  have "kpage (ld_end s) p" using assms kfree_bad [of s p] by fastforce
  then have "unat p < 2281701376"
    by (simp add: kpage_def PHYSTOP_def KERNELBASE_def word_less_nat_alt)
  then show ?thesis by (simp add: PHYSTOP_def KERNELBASE_def unat_word_ariths)
qed

function freerange_loop :: "u64 \<Rightarrow> u64 \<Rightarrow> (unit, 'z mem_st_scheme) kop" where
  "freerange_loop p pa_end s =
     (if p + PGSIZE \<le> pa_end
      then kbind (kfree p) (\<lambda>_. freerange_loop (p + PGSIZE) pa_end) s
      else Ret () s)"
  by pat_completeness auto
termination
  by (relation "measure (\<lambda>(p, pa_end, s). unat PHYSTOP - unat p)") (auto dest: freerange_dec)

declare freerange_loop.simps [simp del]

definition freerange :: "u64 \<Rightarrow> u64 \<Rightarrow> (unit, 'z mem_st_scheme) kop" where
  "freerange pa_start pa_end = freerange_loop (PGROUNDUP pa_start) pa_end"

section \<open>The free list as a list of pages\<close>

text \<open>\<open>chain m h ps\<close>: following the links from \<open>h\<close> visits exactly the pages \<open>ps\<close> and ends at 0.\<close>

fun chain :: "memory \<Rightarrow> u64 \<Rightarrow> u64 list \<Rightarrow> bool" where
  "chain m h [] \<longleftrightarrow> h = 0"
| "chain m h (p # ps) \<longleftrightarrow> h = p \<and> p \<noteq> 0 \<and> chain m (rd64 m p) ps"

definition kmem_inv :: "'z mem_st_scheme \<Rightarrow> u64 list \<Rightarrow> bool" where
  "kmem_inv s ps \<longleftrightarrow> chain (mem s) (freelist s) ps \<and> distinct ps \<and>
     (\<forall>p \<in> set ps. kpage (ld_end s) p) \<and> 0 < ld_end s \<and>
     cpu_ok (hart s) (cpus s) \<and> free_lock (locks s) KmemLk"

lemma near_page:
  assumes "page_aligned p" and "unat (x - p) < 8"
  shows "PGROUNDDOWN x = p"
proof -
  have "uint (x - p) < 4096" using assms(2) uint_nat [of "x - p"] by linarith
  then show ?thesis using same_page_dist [OF assms(1)] by simp
qed

lemma rd64_page_cong:
  assumes "page_aligned p" and "\<And>x. PGROUNDDOWN x = p \<Longrightarrow> m x = m' x"
  shows "rd64 m p = rd64 m' p"
  by (rule rd64_cong) (simp add: assms near_page)

lemma wr64_page_frame:
  assumes "page_aligned p" and "PGROUNDDOWN x \<noteq> p"
  shows "wr64 m p v x = m x"
  using assms near_page [of p x] by (intro wr64_far) force

lemma chain_cong:
  assumes "\<And>p. p \<in> set ps \<Longrightarrow> page_aligned p"
    and "\<And>x. PGROUNDDOWN x \<in> set ps \<Longrightarrow> m x = m' x"
  shows "chain m h ps = chain m' h ps"
  using assms
proof (induction ps arbitrary: h)
  case (Cons p ps)
  have "rd64 m p = rd64 m' p"
    using Cons.prems by (intro rd64_page_cong) auto
  then show ?case using Cons by simp
qed simp

lemma chain_outside:
  assumes "\<And>q. q \<in> set ps \<Longrightarrow> page_aligned q" and "p \<notin> set ps"
    and "\<And>x. PGROUNDDOWN x \<noteq> p \<Longrightarrow> m' x = m x"
  shows "chain m' h ps = chain m h ps"
  using assms by (intro chain_cong) metis+

lemma kpage_aligned [dest]: "kpage e p \<Longrightarrow> page_aligned p"
  by (simp add: kpage_def)

lemma kmem_inv_kfree:
  assumes "kmem_inv s ps" and "kpage (ld_end s) pa" and "pa \<notin> set ps"
    and s': "s' = s\<lparr>mem := wr64 (memset (mem s) pa 1 4096) pa (freelist s), freelist := pa\<rparr>"
  shows "kmem_inv s' (pa # ps)"
proof -
  have al: "page_aligned pa" using assms(2) by blast
  have "chain (mem s') (freelist s) ps = chain (mem s) (freelist s) ps"
    using assms al
    by (intro chain_outside [where p = pa])
      (auto simp: kmem_inv_def wr64_page_frame mem_simps)
  moreover have "pa \<noteq> 0" using assms(1,2) by (auto simp: kmem_inv_def kpage_def)
  ultimately show ?thesis
    using assms by (simp add: kmem_inv_def mem_simps)
qed

lemma kmem_inv_kalloc:
  assumes "kmem_inv s (p # ps)"
    and s': "s' = s\<lparr>mem := memset (mem s) p 5 4096, freelist := rd64 (mem s) p\<rparr>"
  shows "kmem_inv s' ps"
proof -
  have al: "page_aligned p" using assms(1) by (auto simp: kmem_inv_def)
  have "chain (mem s') h ps = chain (mem s) h ps" for h
    using assms al
    by (intro chain_outside [where p = p]) (auto simp: kmem_inv_def mem_simps)
  then show ?thesis using assms by (simp add: kmem_inv_def)
qed

lemma kmem_inv_ready:
  "kmem_inv s ps \<Longrightarrow> cpu_ok (hart s) (cpus s)" "kmem_inv s ps \<Longrightarrow> free_lock (locks s) KmemLk"
  by (simp_all add: kmem_inv_def)

lemma kmem_inv_head: "kmem_inv s (p # ps) \<Longrightarrow> freelist s = p \<and> p \<noteq> 0 \<and> kpage (ld_end s) p \<and> p \<notin> set ps"
  by (auto simp: kmem_inv_def)

section \<open>The allocator interface\<close>

text \<open>What a client of the page allocator relies on: a pool of free pages, \<open>alloc\<close> hands out
  its first page or 0 when there is none, \<open>free\<close> puts a page back, and neither touches the
  bytes of another page.\<close>

locale page_pool =
  fixes alloc :: "(u64, 's) kop"
    and free :: "u64 \<Rightarrow> (unit, 's) kop"
    and pool :: "'s \<Rightarrow> u64 list \<Rightarrow> bool"
    and page :: "'s \<Rightarrow> u64 \<Rightarrow> bool"
    and bytes :: "'s \<Rightarrow> u64 \<Rightarrow> u8"
  assumes alloc_empty: "pool s [] \<Longrightarrow> alloc s = Ret 0 s"
    and alloc_page: "pool s (p # ps) \<Longrightarrow> returns alloc s (\<lambda>r t. r = p \<and> pool t ps \<and> page t p \<and>
          (\<forall>x. PGROUNDDOWN x \<noteq> p \<longrightarrow> bytes t x = bytes s x))"
    and free_page: "pool s ps \<Longrightarrow> page s p \<Longrightarrow> p \<notin> set ps \<Longrightarrow>
        returns (free p) s (\<lambda>_ t. pool t (p # ps) \<and>
          (\<forall>x. PGROUNDDOWN x \<noteq> p \<longrightarrow> bytes t x = bytes s x))"
    and pool_distinct: "pool s ps \<Longrightarrow> distinct ps"
    and pool_nonzero: "pool s ps \<Longrightarrow> 0 \<notin> set ps"
begin

text \<open>\<open>n\<close> allocations in a row.\<close>

fun alloc_n :: "nat \<Rightarrow> (u64 list, 's) kop" where
  "alloc_n 0 = kret []"
| "alloc_n (Suc n) = kbind alloc (\<lambda>r. kbind (alloc_n n) (\<lambda>rs. kret (r # rs)))"

lemma alloc_n_take:
  "pool s ps \<Longrightarrow> n \<le> length ps \<Longrightarrow>
   returns (alloc_n n) s (\<lambda>rs t. rs = take n ps \<and> pool t (drop n ps) \<and>
     (\<forall>x. PGROUNDDOWN x \<notin> set (take n ps) \<longrightarrow> bytes t x = bytes s x))"
proof (induction n arbitrary: s ps)
  case 0
  then show ?case by (simp add: returns_def)
next
  case (Suc n)
  then obtain p qs where ps: "ps = p # qs" by (cases ps) auto
  from alloc_page [of s p qs] Suc.prems ps obtain t where
    t: "alloc s = Ret p t" "pool t qs" "\<forall>x. PGROUNDDOWN x \<noteq> p \<longrightarrow> bytes t x = bytes s x"
    by (auto elim: returnsE)
  from Suc.IH [OF t(2)] Suc.prems ps obtain u where
    u: "alloc_n n t = Ret (take n qs) u" "pool u (drop n qs)"
      "\<forall>x. PGROUNDDOWN x \<notin> set (take n qs) \<longrightarrow> bytes u x = bytes t x"
    by (auto elim: returnsE)
  then show ?case using t ps by (simp add: returns_def kbind_def)
qed

lemma free_then_alloc:
  assumes "pool s ps" and "page s p" and "p \<notin> set ps"
  shows "returns (kthen (free p) alloc) s (\<lambda>r t. r = p \<and> pool t ps \<and>
    (\<forall>x. PGROUNDDOWN x \<noteq> p \<longrightarrow> bytes t x = bytes s x))"
proof -
  from free_page [OF assms] obtain t where
    t: "free p s = Ret () t" "pool t (p # ps)" "\<forall>x. PGROUNDDOWN x \<noteq> p \<longrightarrow> bytes t x = bytes s x"
    by (auto elim: returnsE)
  with alloc_page [OF t(2)] show ?thesis
    by (auto simp: returns_def kbind_def split: outcome.splits)
qed

end

interpretation kpool: page_pool kalloc kfree kmem_inv "\<lambda>s. kpage (ld_end s)" mem
proof
  show "kalloc s = Ret 0 s" if "kmem_inv s []" for s :: "'z mem_st_scheme"
    using that by (intro kalloc_none) (simp_all add: kmem_inv_def)
next
  fix s :: "'z mem_st_scheme" and p ps
  assume inv: "kmem_inv s (p # ps)"
  let ?t = "s\<lparr>mem := memset (mem s) p 5 4096, freelist := rd64 (mem s) p\<rparr>"
  have "kalloc s = Ret p ?t"
    using kmem_inv_ready [OF inv] kmem_inv_head [OF inv] kalloc_some [of s] by auto
  moreover have "kmem_inv ?t ps" using inv by (rule kmem_inv_kalloc) simp
  ultimately show "returns kalloc s (\<lambda>r t. r = p \<and> kmem_inv t ps \<and> kpage (ld_end t) p \<and>
      (\<forall>x. PGROUNDDOWN x \<noteq> p \<longrightarrow> mem t x = mem s x))"
    using kmem_inv_head [OF inv] by (auto simp: returns_def mem_simps kpage_aligned)
next
  fix s :: "'z mem_st_scheme" and p ps
  assume h: "kmem_inv s ps" "kpage (ld_end s) p" "p \<notin> set ps"
  let ?t = "s\<lparr>mem := wr64 (memset (mem s) p 1 4096) p (freelist s), freelist := p\<rparr>"
  have "kfree p s = Ret () ?t" using h kmem_inv_ready [OF h(1)] by (intro kfree_ok) simp_all
  moreover have "kmem_inv ?t (p # ps)" using h by (rule kmem_inv_kfree) simp
  ultimately show "returns (kfree p) s (\<lambda>_ t. kmem_inv t (p # ps) \<and>
      (\<forall>x. PGROUNDDOWN x \<noteq> p \<longrightarrow> mem t x = mem s x))"
    using h by (auto simp: returns_def mem_simps wr64_page_frame kpage_aligned)
next
  show "distinct ps" if "kmem_inv s ps" for s :: "'z mem_st_scheme" and ps
    using that by (simp add: kmem_inv_def)
next
  show "0 \<notin> set ps" if "kmem_inv s ps" for s :: "'z mem_st_scheme" and ps
    using that by (auto simp: kmem_inv_def kpage_def)
qed

section \<open>freerange\<close>

definition pages_in :: "u64 \<Rightarrow> u64 \<Rightarrow> u64 set" where
  "pages_in p e = {q. page_aligned q \<and> p \<le> q \<and> unat q + 4096 \<le> unat e}"

lemma aligned_next:
  assumes "page_aligned p" and "page_aligned q"
  shows "unat p < unat q \<longleftrightarrow> unat p + 4096 \<le> unat q"
proof -
  obtain k l where "unat p = 4096 * k" "unat q = 4096 * l"
    using assms by (meson page_alignedE)
  then show ?thesis by auto
qed

lemma pages_in_step:
  assumes "page_aligned p" and "unat p + 4096 \<le> unat e" and "unat p + 4096 < 18446744073709551616"
  shows "pages_in p e = insert p (pages_in (p + 4096) e)"
proof -
  have u: "unat (p + 4096) = unat p + 4096" using assms(3) by (simp add: unat_word_ariths)
  have "p \<le> q \<longleftrightarrow> q = p \<or> p + 4096 \<le> q" if "page_aligned q" for q
    using aligned_next [OF assms(1) that]
    by (auto simp: word_le_nat_alt u word_unat_eq_iff)
  then show ?thesis using assms by (auto simp: pages_in_def)
qed

lemma freerange_loop_spec:
  assumes "kmem_inv s ps" and "page_aligned p" and "ld_end s \<le> p" and "p \<le> PHYSTOP"
    and "e \<le> PHYSTOP" and "\<forall>q \<in> set ps. q < p"
  shows "returns (freerange_loop p e) s (\<lambda>_ t. \<exists>qs. kmem_inv t qs \<and>
    set qs = set ps \<union> pages_in p e \<and> ld_end t = ld_end s)"
  using assms
proof (induction p e s arbitrary: ps rule: freerange_loop.induct)
  case (1 p e s)
  have PH: "unat PHYSTOP = 2281701376" by (simp add: PHYSTOP_def KERNELBASE_def)
  have u: "unat (p + 4096) = unat p + 4096"
    using "1.prems"(4) PH by (simp add: unat_word_ariths word_le_nat_alt)
  show ?case
  proof (cases "p + 4096 \<le> e")
    case False
    then have "pages_in p e = {}" using u by (auto simp: pages_in_def word_le_nat_alt)
    with False "1.prems" show ?thesis
      by (auto simp: returns_def freerange_loop.simps [of p e s])
  next
    case True
    then have le: "unat p + 4096 \<le> unat e" and lt: "p < PHYSTOP"
      using u "1.prems"(5) PH by (auto simp: word_le_nat_alt word_less_nat_alt)
    have "kpage (ld_end s) p" using "1.prems" lt by (simp add: kpage_def)
    moreover have "p \<notin> set ps" using "1.prems"(6) by auto
    ultimately obtain t where t: "kfree p s = Ret () t" "kmem_inv t (p # ps)" "ld_end t = ld_end s"
      using "1.prems"(1) kmem_inv_kfree [of s ps p] kfree_ok [of s p] kmem_inv_ready [of s ps]
      by auto
    have "\<forall>q \<in> set (p # ps). q < p + 4096"
      using "1.prems"(6) u by (auto simp: word_less_nat_alt)
    moreover have "p + 4096 \<le> PHYSTOP" using True "1.prems"(5) by simp
    moreover have "ld_end t \<le> p + 4096" using t(3) "1.prems"(3) u by (simp add: word_le_nat_alt)
    ultimately have "returns (freerange_loop (p + 4096) e) t (\<lambda>_ v. \<exists>qs. kmem_inv v qs \<and>
        set qs = set (p # ps) \<union> pages_in (p + 4096) e \<and> ld_end v = ld_end t)"
      using "1.prems" t by (intro "1.IH" [OF True t(1)]) (simp_all add: page_simps)
    moreover have "pages_in p e = insert p (pages_in (p + 4096) e)"
      using "1.prems" le u unat_lt_2p64 [of "p + 4096"] by (intro pages_in_step) simp_all
    moreover have "freerange_loop p e s = freerange_loop (p + 4096) e t"
      using True t(1) by (simp add: freerange_loop.simps [of p e s] kbind_def)
    ultimately show ?thesis using t(3) by (simp add: returns_def)
  qed
qed

lemma pages_in_all:
  assumes e: "e \<le> PHYSTOP"
  shows "pages_in (PGROUNDUP e) PHYSTOP = {q. kpage e q}"
proof -
  have PH: "unat PHYSTOP = 2281701376" by (simp add: PHYSTOP_def KERNELBASE_def)
  have al: "page_aligned PHYSTOP" by (simp add: page_aligned_def PHYSTOP_def KERNELBASE_def)
  have "PGROUNDUP e \<le> q \<longleftrightarrow> e \<le> q" if alq: "page_aligned q" for q
  proof -
    obtain k where k: "unat q = 4096 * k" using page_alignedE [OF alq] by blast
    have "unat (PGROUNDUP e) = (unat e + 4095) div 4096 * 4096"
      using e PH by (intro unat_PGROUNDUP) (simp add: word_le_nat_alt)
    moreover have "(unat e + 4095) div 4096 * 4096 \<le> 4096 * k \<longleftrightarrow> unat e \<le> 4096 * k"
      using div_less_iff_less_mult [of 4096 "unat e + 4095" "Suc k"] by auto
    ultimately show ?thesis using k by (simp add: word_le_nat_alt)
  qed
  then show ?thesis
    using aligned_next [OF _ al] by (auto simp: pages_in_def kpage_def word_less_nat_alt)
qed

text \<open>Writes that miss the free pages keep the allocator's invariant.\<close>

lemma kmem_inv_frame:
  assumes "kmem_inv s ps" and "\<And>x. PGROUNDDOWN x \<in> set ps \<Longrightarrow> m' x = mem s x"
  shows "kmem_inv (s\<lparr>mem := m'\<rparr>) ps"
proof -
  have "chain m' (freelist s) ps = chain (mem s) (freelist s) ps"
    using assms by (intro chain_cong) (auto simp: kmem_inv_def kpage_def)
  then show ?thesis using assms(1) by (simp add: kmem_inv_def)
qed

lemma mem_freelist_order [simp]:
  "s\<lparr>freelist := f, mem := m\<rparr> = s\<lparr>mem := m, freelist := f\<rparr>"
  by (cases s) simp

lemma mem_upd_trans: "t = s\<lparr>mem := m\<rparr> \<Longrightarrow> u = t\<lparr>mem := m'\<rparr> \<Longrightarrow> u = s\<lparr>mem := m'\<rparr>"
  by simp

lemma same_mem_trans:
  "t = s\<lparr>mem := m, freelist := f\<rparr> \<Longrightarrow> u = t\<lparr>mem := m', freelist := f'\<rparr> \<Longrightarrow>
   u = s\<lparr>mem := m', freelist := f'\<rparr>"
  by (cases s) simp

section \<open>Properties\<close>

text \<open>A small pool of three free pages.\<close>

definition pool_mem :: memory where
  "pool_mem = wr64 (wr64 (wr64 (\<lambda>_. 0) 0x80203000 0) 0x80202000 0x80203000) 0x80201000 0x80202000"

definition pool_state :: mem_st where
  "pool_state = \<lparr>hart = 0, cpus = cpus boot_state, locks = locks boot_state, mem = pool_mem,
     freelist = 0x80201000, ld_end = 0x80200000, ld_etext = 0x80010000, ld_trampoline = 0x80010000,
     kernel_pagetable = 0, satp = 0\<rparr>"

lemma pool_links:
  "rd64 pool_mem 0x80201000 = 0x80202000" "rd64 pool_mem 0x80202000 = 0x80203000"
  "rd64 pool_mem 0x80203000 = 0"
proof -
  have other: "rd64 (wr64 m p v) q = rd64 m q" if "page_aligned p" "page_aligned q" "p \<noteq> q" for m p q v
    using that by (intro rd64_page_cong) (auto simp: wr64_page_frame)
  have al: "page_aligned 0x80201000" "page_aligned 0x80202000" "page_aligned 0x80203000"
    by (simp_all add: page_aligned_def)
  show "rd64 pool_mem 0x80201000 = 0x80202000" "rd64 pool_mem 0x80202000 = 0x80203000"
    "rd64 pool_mem 0x80203000 = 0"
    by (simp_all add: pool_mem_def rd64_wr64 other al)
qed

lemma pool_ready: "kmem_inv pool_state [0x80201000, 0x80202000, 0x80203000]"
  by (simp add: kmem_inv_def pool_state_def pool_links kpage_def page_aligned_def PHYSTOP_def
      KERNELBASE_def boot_state_def cpu_ok_def sie_def free_lock_def)

text \<open>(C31) \<open>n\<close> calls of \<open>kalloc\<close> on a pool of at least \<open>n\<close> pages hand out \<open>n\<close> different pages of the
  pool, and no byte outside them changes.\<close>

theorem kalloc_distinct:
  assumes "kmem_inv s ps" and "n \<le> length ps"
  shows "returns (kpool.alloc_n n) s (\<lambda>rs t. distinct rs \<and> length rs = n \<and> set rs \<subseteq> set ps \<and>
    kmem_inv t (drop n ps) \<and> set rs \<inter> set (drop n ps) = {} \<and>
    (\<forall>x. PGROUNDDOWN x \<notin> set rs \<longrightarrow> mem t x = mem s x))"
proof (rule returns_mono [OF kpool.alloc_n_take [OF assms]])
  have d: "distinct (take n ps @ drop n ps)" using assms(1) by (simp add: kmem_inv_def)
  fix rs t assume "rs = take n ps \<and> kmem_inv t (drop n ps) \<and>
    (\<forall>x. PGROUNDDOWN x \<notin> set (take n ps) \<longrightarrow> mem t x = mem s x)"
  then show "distinct rs \<and> length rs = n \<and> set rs \<subseteq> set ps \<and>
    kmem_inv t (drop n ps) \<and> set rs \<inter> set (drop n ps) = {} \<and>
    (\<forall>x. PGROUNDDOWN x \<notin> set rs \<longrightarrow> mem t x = mem s x)"
    using d assms(2) set_take_subset [of n ps] by (simp only: distinct_append) auto
qed

theorem kalloc_distinct_witness:
  "returns (kpool.alloc_n 2) pool_state (\<lambda>rs t. distinct rs \<and> length rs = 2 \<and>
    set rs \<subseteq> {0x80201000, 0x80202000, 0x80203000} \<and> kmem_inv t [0x80203000])"
  by (rule returns_mono [OF kalloc_distinct [OF pool_ready, of 2]]) (simp_all add: numeral_2_eq_2)

text \<open>Round trip: a page given back with \<open>kfree\<close> is the next page \<open>kalloc\<close> hands out, the pool is
  as before, and only the bytes of that page have changed.\<close>

theorem kfree_kalloc_roundtrip:
  assumes "kmem_inv s ps" and "kpage (ld_end s) p" and "p \<notin> set ps"
  shows "returns (kthen (kfree p) kalloc) s (\<lambda>r t. r = p \<and> kmem_inv t ps \<and>
    (\<forall>x. PGROUNDDOWN x \<noteq> p \<longrightarrow> mem t x = mem s x))"
  by (rule kpool.free_then_alloc [OF assms])

theorem kfree_kalloc_roundtrip_witness:
  "returns (kthen (kfree 0x80300000) kalloc) pool_state (\<lambda>r t. r = 0x80300000 \<and>
    kmem_inv t [0x80201000, 0x80202000, 0x80203000])"
proof -
  have "kpage (ld_end pool_state) 0x80300000"
    by (simp add: pool_state_def kpage_def page_aligned_def PHYSTOP_def KERNELBASE_def)
  from kfree_kalloc_roundtrip [OF pool_ready this] have "returns (kthen (kfree 0x80300000) kalloc)
    pool_state (\<lambda>r t. r = 0x80300000 \<and> kmem_inv t [0x80201000, 0x80202000, 0x80203000] \<and>
    (\<forall>x. PGROUNDDOWN x \<noteq> 0x80300000 \<longrightarrow> mem t x = mem pool_state x))" by simp
  then show ?thesis by (rule returns_mono) blast
qed

text \<open>(C30) At boot, \<open>freerange(end, PHYSTOP)\<close> puts every whole page of RAM above the kernel image into the
  pool, each exactly once, and it terminates without a panic.\<close>

theorem freerange_frees_all:
  assumes "kmem_inv s []" and "ld_end s \<le> PHYSTOP"
  shows "returns (freerange (ld_end s) PHYSTOP) s (\<lambda>_ t. \<exists>ps. kmem_inv t ps \<and>
    set ps = {p. kpage (ld_end s) p})"
proof -
  have le: "unat (ld_end s) \<le> 2281701376"
    using assms(2) by (simp add: word_le_nat_alt PHYSTOP_def KERNELBASE_def)
  have up: "unat (PGROUNDUP (ld_end s)) = (unat (ld_end s) + 4095) div 4096 * 4096"
    using le by (intro unat_PGROUNDUP) simp
  have "(unat (ld_end s) + 4095) div 4096 \<le> (2281701376 + 4095) div 4096"
    using le by (intro div_le_mono) simp
  then have "PGROUNDUP (ld_end s) \<le> PHYSTOP"
    using up by (simp add: word_le_nat_alt PHYSTOP_def KERNELBASE_def)
  moreover have "ld_end s \<le> PGROUNDUP (ld_end s)"
    using up div_mult_mod_eq [of "unat (ld_end s) + 4095" 4096]
      mod_less_divisor [of 4096 "unat (ld_end s) + 4095"]
    by (simp only: word_le_nat_alt)
  ultimately have "returns (freerange_loop (PGROUNDUP (ld_end s)) PHYSTOP) s (\<lambda>_ t. \<exists>qs. kmem_inv t qs \<and>
      set qs = set [] \<union> pages_in (PGROUNDUP (ld_end s)) PHYSTOP \<and> ld_end t = ld_end s)"
    using assms by (intro freerange_loop_spec) (auto simp: page_simps)
  then show ?thesis
    unfolding freerange_def pages_in_all [OF assms(2)] by (rule returns_mono) auto
qed

theorem freerange_frees_all_witness:
  "returns (freerange 0x80200000 PHYSTOP) (pool_state\<lparr>freelist := 0\<rparr>) (\<lambda>_ t. \<exists>ps. kmem_inv t ps \<and>
    set ps = {p. kpage 0x80200000 p})"
proof -
  have "kmem_inv (pool_state\<lparr>freelist := 0\<rparr>) []"
    by (simp add: kmem_inv_def pool_state_def boot_state_def cpu_ok_def sie_def free_lock_def)
  from freerange_frees_all [OF this] show ?thesis
    by (simp add: pool_state_def PHYSTOP_def KERNELBASE_def)
qed

text \<open>\<open>kfree\<close> panics on every address that is not a whole page of RAM above the kernel image, and
  never writes memory in that case.\<close>

theorem kfree_rejects:
  assumes "pa mod 4096 \<noteq> 0 \<or> pa < ld_end s \<or> PHYSTOP \<le> pa"
  shows "kfree pa s = Panic ''kfree''"
  using assms by (intro kfree_bad) (auto simp: kpage_def page_aligned_def not_le)

theorem kfree_rejects_witness: "kfree 0x80200008 pool_state = Panic ''kfree''"
  by (rule kfree_rejects) (simp add: pool_state_def)

end
