(* ===== verification/Pagetable.thy ===== *)
theory Pagetable
  imports Kalloc
begin

text \<open>
  Sv39 page tables: the routines of \<^verbatim>\<open>kernel/vm.c\<close> on top of the page allocator, and the
  address macros of \<^verbatim>\<open>kernel/vm.h\<close> and \<^verbatim>\<open>kernel/riscv.h\<close>. A table is a page of 512 64-bit
  entries in physical memory; a \<open>pagetable_t\<close> is the address of the root page and a
  \<open>pte_t *\<close> the address of an entry. The second part reads a table as a map from virtual
  pages to entries and shows how each routine changes that map.
\<close>

section \<open>Entries and addresses\<close>

definition PTE_V :: u64 where "PTE_V = 1"
definition PTE_R :: u64 where "PTE_R = 2"
definition PTE_W :: u64 where "PTE_W = 4"
definition PTE_X :: u64 where "PTE_X = 8"
definition PTE_U :: u64 where "PTE_U = 16"

definition PX :: "nat \<Rightarrow> u64 \<Rightarrow> u64" where
  "PX level va = drop_bit (12 + 9 * level) va AND 0x1FF"

definition PA2PTE :: "u64 \<Rightarrow> u64" where
  "PA2PTE pa = push_bit 10 (drop_bit 12 pa)"

definition PTE2PA :: "u64 \<Rightarrow> u64" where
  "PTE2PA pte = push_bit 12 (drop_bit 10 pte)"

definition PTE_FLAGS :: "u64 \<Rightarrow> u64" where
  "PTE_FLAGS pte = pte AND 0x3FF"

definition MAXVA :: u64 where "MAXVA = 2 ^ 38"
definition TRAMPOLINE :: u64 where "TRAMPOLINE = MAXVA - PGSIZE"
definition TRAPFRAME :: u64 where "TRAPFRAME = TRAMPOLINE - PGSIZE"

definition KSTACK :: "nat \<Rightarrow> u64" where
  "KSTACK p = TRAMPOLINE - (of_nat p + 1) * 2 * PGSIZE"

definition MAKE_SATP :: "u64 \<Rightarrow> u64" where
  "MAKE_SATP pagetable = push_bit 60 8 OR drop_bit 12 pagetable"

definition valid :: "u64 \<Rightarrow> bool" where
  "valid pte \<longleftrightarrow> pte AND PTE_V \<noteq> 0"

definition rd_pte :: "u64 \<Rightarrow> (u64, 'z mem_st_scheme) kop" where
  "rd_pte a = kget (\<lambda>s. rd64 (mem s) a)"

definition wr_pte :: "u64 \<Rightarrow> u64 \<Rightarrow> (unit, 'z mem_st_scheme) kop" where
  "wr_pte a v = on_mem (\<lambda>m. wr64 m a v)"

section \<open>Routines\<close>

text \<open>\<^verbatim>\<open>vm.c: walk\<close>. One turn of the loop descends from the table at \<open>pagetable\<close> through entry
  \<open>i\<close>; \<open>None\<close> is the early \<open>return 0\<close>, taken when the entry is not valid and no table may or
  can be allocated.\<close>

definition walk_level :: "u64 \<Rightarrow> u64 \<Rightarrow> bool \<Rightarrow> (u64 option, 'z mem_st_scheme) kop" where
  "walk_level pagetable i alloc =
     kbind (rd_pte (pagetable + 8 * i)) (\<lambda>pte.
     if valid pte then kret (Some (PTE2PA pte))
     else if \<not> alloc then kret None
     else kbind kalloc (\<lambda>pg.
       if pg = 0 then kret None
       else kthen (on_mem (\<lambda>m. memset m pg 0 4096)) (
            kthen (wr_pte (pagetable + 8 * i) (PA2PTE pg OR PTE_V)) (kret (Some pg)))))"

fun walk_loop :: "nat \<Rightarrow> u64 \<Rightarrow> u64 \<Rightarrow> bool \<Rightarrow> (u64, 'z mem_st_scheme) kop" where
  "walk_loop 0 pagetable va alloc = kret (pagetable + 8 * PX 0 va)"
| "walk_loop (Suc l) pagetable va alloc =
     kbind (walk_level pagetable (PX (Suc l) va) alloc) (\<lambda>r.
     case r of None \<Rightarrow> kret 0 | Some pg \<Rightarrow> walk_loop l pg va alloc)"

definition walk :: "u64 \<Rightarrow> u64 \<Rightarrow> bool \<Rightarrow> (u64, 'z mem_st_scheme) kop" where
  "walk pagetable va alloc =
     (if va \<ge> MAXVA then kpanic ''walk'' else walk_loop 2 pagetable va alloc)"

lemma walk_bound: "walk pt va al s = Ret x t \<Longrightarrow> unat va < 2 ^ 38"
  by (auto simp: walk_def MAXVA_def word_le_nat_alt not_le split: if_splits)

lemma walk_dec:
  assumes "walk pt va al s = Ret x t"
  shows "2 ^ 38 - unat (va + 4096) < 2 ^ 38 - unat va"
  using walk_bound [OF assms] by (simp add: unat_word_ariths)

text \<open>\<^verbatim>\<open>vm.c: mappages\<close>. The loop stops because \<open>walk\<close> panics at \<open>MAXVA\<close>.\<close>

function mappages_loop ::
  "u64 \<Rightarrow> u64 \<Rightarrow> u64 \<Rightarrow> u64 \<Rightarrow> u64 \<Rightarrow> (int, 'z mem_st_scheme) kop" where
  "mappages_loop pagetable a last' pa perm s =
     kbind (walk pagetable a True) (\<lambda>pte.
     if pte = 0 then kret (-1)
     else kbind (rd_pte pte) (\<lambda>v.
     if valid v then kpanic ''mappages: remap''
     else kbind (wr_pte pte (PA2PTE pa OR perm OR PTE_V)) (\<lambda>_ t.
     if a = last' then Ret 0 t
     else mappages_loop pagetable (a + PGSIZE) last' (pa + PGSIZE) perm t))) s"
  by pat_completeness auto
termination
  by (relation "measure (\<lambda>(pt, a, last', pa, perm, s). 2 ^ 38 - unat a)") (auto dest: walk_dec)

declare mappages_loop.simps [simp del]

definition mappages :: "u64 \<Rightarrow> u64 \<Rightarrow> u64 \<Rightarrow> u64 \<Rightarrow> u64 \<Rightarrow> (int, 'z mem_st_scheme) kop" where
  "mappages pagetable va sz pa perm =
     (if sz = 0 then kpanic ''mappages: size''
      else mappages_loop pagetable (PGROUNDDOWN va) (PGROUNDDOWN (va + sz - 1)) pa perm)"

definition kvmmap :: "u64 \<Rightarrow> u64 \<Rightarrow> u64 \<Rightarrow> u64 \<Rightarrow> u64 \<Rightarrow> (unit, 'z mem_st_scheme) kop" where
  "kvmmap kpg va pa sz perm =
     kbind (mappages kpg va sz pa perm) (\<lambda>r. if r \<noteq> 0 then kpanic ''kvmmap'' else kret ())"

definition uvmclear :: "u64 \<Rightarrow> u64 \<Rightarrow> (unit, 'z mem_st_scheme) kop" where
  "uvmclear pagetable va =
     kbind (walk pagetable va False) (\<lambda>pte.
     if pte = 0 then kpanic ''uvmclear''
     else kbind (rd_pte pte) (\<lambda>v. wr_pte pte (v AND NOT PTE_U)))"

text \<open>\<^verbatim>\<open>vm.c: uvmunmap\<close>.\<close>

function uvmunmap_loop :: "u64 \<Rightarrow> u64 \<Rightarrow> u64 \<Rightarrow> bool \<Rightarrow> (unit, 'z mem_st_scheme) kop" where
  "uvmunmap_loop pagetable a lim do_free s =
     (if a < lim then
        kbind (walk pagetable a False) (\<lambda>pte.
        if pte = 0 then kpanic ''uvmunmap: walk''
        else kbind (rd_pte pte) (\<lambda>v.
        if \<not> valid v then kpanic ''uvmunmap: not mapped''
        else if PTE_FLAGS v = PTE_V then kpanic ''uvmunmap: not a leaf''
        else kthen (kwhen do_free (kfree (PTE2PA v))) (
             kbind (wr_pte pte 0) (\<lambda>_ t.
             uvmunmap_loop pagetable (a + PGSIZE) lim do_free t)))) s
      else Ret () s)"
  by pat_completeness auto
termination
  by (relation "measure (\<lambda>(pt, a, lim, f, s). 2 ^ 38 - unat a)") (auto dest: walk_dec)

declare uvmunmap_loop.simps [simp del]

definition uvmunmap :: "u64 \<Rightarrow> u64 \<Rightarrow> u64 \<Rightarrow> bool \<Rightarrow> (unit, 'z mem_st_scheme) kop" where
  "uvmunmap pagetable va npages do_free =
     (if va mod PGSIZE \<noteq> 0 then kpanic ''uvmunmap: not aligned''
      else uvmunmap_loop pagetable va (va + npages * PGSIZE) do_free)"

text \<open>\<^verbatim>\<open>vm.c: freewalk\<close>. The C function recurses once per level of the tree; the model counts
  the nesting and faults when the kernel stack (one page) could not hold it.\<close>

fun freewalk_nest :: "nat \<Rightarrow> u64 \<Rightarrow> (unit, 'z mem_st_scheme) kop"
  and freewalk_entries :: "nat \<Rightarrow> u64 \<Rightarrow> nat list \<Rightarrow> (unit, 'z mem_st_scheme) kop" where
  "freewalk_nest 0 pagetable = kfault ''freewalk: stack overflow''"
| "freewalk_nest (Suc d) pagetable =
     kthen (freewalk_entries d pagetable [0..<512]) (kfree pagetable)"
| "freewalk_entries d pagetable [] = kret ()"
| "freewalk_entries d pagetable (i # is) =
     kbind (rd_pte (pagetable + 8 * of_nat i)) (\<lambda>pte.
     if valid pte \<and> pte AND (PTE_R OR PTE_W OR PTE_X) = 0 then
       kthen (freewalk_nest d (PTE2PA pte)) (
       kthen (wr_pte (pagetable + 8 * of_nat i) 0) (freewalk_entries d pagetable is))
     else if valid pte then kpanic ''freewalk: leaf''
     else freewalk_entries d pagetable is)"

definition freewalk :: "u64 \<Rightarrow> (unit, 'z mem_st_scheme) kop" where
  "freewalk = freewalk_nest 64"

definition uvmfree :: "u64 \<Rightarrow> u64 \<Rightarrow> (unit, 'z mem_st_scheme) kop" where
  "uvmfree pagetable sz =
     kthen (kwhen (sz > 0) (uvmunmap pagetable 0 (PGROUNDUP sz div PGSIZE) True))
           (freewalk pagetable)"

definition proc_freepagetable :: "u64 \<Rightarrow> u64 \<Rightarrow> (unit, 'z mem_st_scheme) kop" where
  "proc_freepagetable pagetable sz =
     kthen (uvmunmap pagetable TRAMPOLINE 1 False) (
     kthen (uvmunmap pagetable TRAPFRAME 1 False) (
     uvmfree pagetable sz))"

text \<open>\<^verbatim>\<open>vm.c: uvmdealloc\<close>; the page count passes through an \<open>int\<close>.\<close>

definition uvmdealloc :: "u64 \<Rightarrow> u64 \<Rightarrow> u64 \<Rightarrow> (u64, 'z mem_st_scheme) kop" where
  "uvmdealloc pagetable oldsz newsz =
     (if newsz \<ge> oldsz then kret oldsz
      else kthen
        (kwhen (PGROUNDUP newsz < PGROUNDUP oldsz)
          (uvmunmap pagetable (PGROUNDUP newsz)
             (scast (ucast ((PGROUNDUP oldsz - PGROUNDUP newsz) div PGSIZE) :: u32)) True))
        (kret newsz))"

text \<open>\<^verbatim>\<open>vm.c: uvmalloc\<close>.\<close>

lemma mappages_bound:
  assumes "mappages pt a 4096 pa perm s = Ret x t"
  shows "unat (PGROUNDDOWN a) < 2 ^ 38"
proof -
  obtain y u where "walk pt (PGROUNDDOWN a) True s = Ret y u"
    using assms by (auto simp: mappages_def mappages_loop.simps [of pt _ _ _ _ s] elim: kbind_RetE)
  then show ?thesis by (rule walk_bound)
qed

lemma mappages_dec:
  assumes "mappages pt a 4096 pa perm s = Ret x t"
  shows "2 ^ 39 - unat (a + 4096) < 2 ^ 39 - unat a"
proof -
  have "unat a div 4096 * 4096 < 2 ^ 38"
    using mappages_bound [OF assms] by (simp add: page_simps)
  then have "unat a < 2 ^ 38 + 4096" using div_mult_mod_eq [of "unat a" 4096] by simp
  then show ?thesis by (simp add: unat_word_ariths)
qed

function uvmalloc_loop :: "u64 \<Rightarrow> u64 \<Rightarrow> u64 \<Rightarrow> u64 \<Rightarrow> (u64, 'z mem_st_scheme) kop" where
  "uvmalloc_loop pagetable a oldsz newsz s =
     (if a < newsz then
        kbind kalloc (\<lambda>mm t.
        if mm = 0 then kthen (uvmdealloc pagetable a oldsz) (kret 0) t
        else kbind (on_mem (\<lambda>m. memset m mm 0 4096)) (\<lambda>_.
          kbind (mappages pagetable a PGSIZE mm (PTE_W OR PTE_X OR PTE_R OR PTE_U)) (\<lambda>r t.
          if r \<noteq> 0 then
            kthen (kfree mm) (kthen (uvmdealloc pagetable a oldsz) (kret 0)) t
          else uvmalloc_loop pagetable (a + PGSIZE) oldsz newsz t)) t) s
      else Ret newsz s)"
  by pat_completeness auto
termination
  by (relation "measure (\<lambda>(pt, a, oldsz, newsz, s). 2 ^ 39 - unat a)") (auto dest: mappages_dec)

declare uvmalloc_loop.simps [simp del]

definition uvmalloc :: "u64 \<Rightarrow> u64 \<Rightarrow> u64 \<Rightarrow> (u64, 'z mem_st_scheme) kop" where
  "uvmalloc pagetable oldsz newsz =
     (if newsz < oldsz then kret oldsz
      else uvmalloc_loop pagetable (PGROUNDUP oldsz) (PGROUNDUP oldsz) newsz)"

text \<open>\<^verbatim>\<open>vm.c: uvmcopy\<close> copies the pages of a process for \<open>fork\<close>; \<open>uvmcpy\<close> is the earlier
  version that panics instead of cleaning up.\<close>

function uvmcopy_loop :: "u64 \<Rightarrow> u64 \<Rightarrow> u64 \<Rightarrow> u64 \<Rightarrow> (int, 'z mem_st_scheme) kop" where
  "uvmcopy_loop old new i sz s =
     (if i < sz then
        kbind (walk old i False) (\<lambda>pte.
        if pte = 0 then kpanic ''uvmcopy: pte should exist''
        else kbind (rd_pte pte) (\<lambda>v.
        if \<not> valid v then kpanic ''uvmcopy: page not present''
        else kbind kalloc (\<lambda>mm.
        if mm = 0 then kthen (uvmunmap new 0 (i div PGSIZE) True) (kret (-1))
        else kthen (on_mem (\<lambda>m. memmove m mm (PTE2PA v) 4096)) (
        kbind (mappages new i PGSIZE mm (PTE_FLAGS v)) (\<lambda>r t.
        if r \<noteq> 0 then
          kthen (kfree mm) (kthen (uvmunmap new 0 (i div PGSIZE) True) (kret (-1))) t
        else uvmcopy_loop old new (i + PGSIZE) sz t))))) s
      else Ret 0 s)"
  by pat_completeness auto
termination
  by (relation "measure (\<lambda>(old, new, i, sz, s). 2 ^ 38 - unat i)") (auto dest: walk_dec)

declare uvmcopy_loop.simps [simp del]

definition uvmcopy :: "u64 \<Rightarrow> u64 \<Rightarrow> u64 \<Rightarrow> (int, 'z mem_st_scheme) kop" where
  "uvmcopy old new sz = uvmcopy_loop old new 0 sz"

function uvmcpy_loop :: "u64 \<Rightarrow> u64 \<Rightarrow> u64 \<Rightarrow> u64 \<Rightarrow> (int, 'z mem_st_scheme) kop" where
  "uvmcpy_loop old new i sz s =
     (if i < sz then
        kbind (walk old i False) (\<lambda>pte.
        if pte = 0 then kpanic ''uvmcpy walk''
        else kbind (rd_pte pte) (\<lambda>v.
        if \<not> valid v then kpanic ''uvmcpy: page not present''
        else kbind kalloc (\<lambda>mm.
        if mm = 0 then kpanic ''uvmcpy: kalloc''
        else kthen (on_mem (\<lambda>m. memmove m mm (PTE2PA v) 4096)) (
        kbind (mappages new i PGSIZE mm (PTE_FLAGS v)) (\<lambda>r t.
        if r \<noteq> 0 then kthen (kfree mm) (kpanic ''uvmcpy mappages'') t
        else uvmcpy_loop old new (i + PGSIZE) sz t))))) s
      else Ret 0 s)"
  by pat_completeness auto
termination
  by (relation "measure (\<lambda>(old, new, i, sz, s). 2 ^ 38 - unat i)") (auto dest: walk_dec)

declare uvmcpy_loop.simps [simp del]

definition uvmcpy :: "u64 \<Rightarrow> u64 \<Rightarrow> u64 \<Rightarrow> (int, 'z mem_st_scheme) kop" where
  "uvmcpy old new sz = uvmcpy_loop old new 0 sz"

definition walkaddr :: "u64 \<Rightarrow> u64 \<Rightarrow> (u64, 'z mem_st_scheme) kop" where
  "walkaddr pagetable va =
     (if va \<ge> MAXVA then kret 0
      else kbind (walk pagetable va False) (\<lambda>pte.
        if pte = 0 then kpanic ''walkaddr:pte:0''
        else kbind (rd_pte pte) (\<lambda>v.
        if \<not> valid v then kpanic ''walkaddr:PTE_V''
        else if v AND PTE_U = 0 then kpanic ''walkaddr:PTE_U''
        else if PTE2PA v = 0 then kpanic ''walkaddr: pa is zero''
        else kret (PTE2PA v))))"

definition uvmcreate :: "(u64, 'z mem_st_scheme) kop" where
  "uvmcreate =
     kbind kalloc (\<lambda>pagetable.
     if pagetable = 0 then kpanic ''uvmcreate kalloc panic..''
     else kthen (on_mem (\<lambda>m. memset m pagetable 0 4096)) (kret pagetable))"

text \<open>\<^verbatim>\<open>vm.c: uvminit\<close> does not test the results of \<open>kalloc\<close> and \<open>mappages\<close>. With no free page
  it would clear and map physical page 0, which is not RAM on this machine: a fault.\<close>

definition uvminit :: "u64 \<Rightarrow> u8 list \<Rightarrow> (unit, 'z mem_st_scheme) kop" where
  "uvminit pagetable src =
     (if length src > 4096 then kpanic ''inituvm: more than a page''
      else kbind kalloc (\<lambda>mm.
        if mm = 0 then kfault ''uvminit: page 0''
        else kthen (on_mem (\<lambda>m. memset m mm 0 4096)) (
             kthen (mappages pagetable 0 PGSIZE mm (PTE_W OR PTE_R OR PTE_X OR PTE_U)) (
             on_mem (\<lambda>m. wr_bytes m mm src)))))"

definition NPROC :: nat where "NPROC = 64"

text \<open>\<^verbatim>\<open>proc.c: proc_mapstacks\<close> and \<^verbatim>\<open>vm.c: kvmmake\<close>, the kernel's own address space.\<close>

fun proc_mapstacks_loop :: "u64 \<Rightarrow> nat list \<Rightarrow> (unit, 'z mem_st_scheme) kop" where
  "proc_mapstacks_loop pg [] = kret ()"
| "proc_mapstacks_loop pg (p # ps) =
     kbind kalloc (\<lambda>pa.
     if pa = 0 then kpanic ''proc_mapstacks kalloc...''
     else kthen (kvmmap pg (KSTACK p) pa PGSIZE (PTE_R OR PTE_W)) (proc_mapstacks_loop pg ps))"

definition proc_mapstacks :: "u64 \<Rightarrow> (unit, 'z mem_st_scheme) kop" where
  "proc_mapstacks pg = proc_mapstacks_loop pg [0..<NPROC]"

definition UART0 :: u64 where "UART0 = 0x10000000"
definition VIRTIO0 :: u64 where "VIRTIO0 = 0x10001000"
definition PLIC :: u64 where "PLIC = 0x0c000000"

definition kvmmake :: "(u64, 'z mem_st_scheme) kop" where
  "kvmmake =
     kbind kalloc (\<lambda>kpg.
     if kpg = 0 then kfault ''kvmmake: page 0''
     else
     kthen (on_mem (\<lambda>m. memset m kpg 0 4096)) (
     kthen (kvmmap kpg UART0 UART0 PGSIZE (PTE_R OR PTE_W)) (
     kthen (kvmmap kpg VIRTIO0 VIRTIO0 PGSIZE (PTE_R OR PTE_W)) (
     kthen (kvmmap kpg PLIC PLIC 0x400000 (PTE_R OR PTE_W)) (
     kbind (kget ld_etext) (\<lambda>etext.
     kthen (kvmmap kpg KERNELBASE KERNELBASE (etext - KERNELBASE) (PTE_R OR PTE_X)) (
     kthen (kvmmap kpg etext etext (PHYSTOP - etext) (PTE_R OR PTE_W)) (
     kbind (kget ld_trampoline) (\<lambda>trampoline.
     kthen (kvmmap kpg TRAMPOLINE trampoline PGSIZE (PTE_R OR PTE_X)) (
     kthen (proc_mapstacks kpg) (kret kpg)))))))))))"

text \<open>\<^verbatim>\<open>vm.c: kinit\<close>.\<close>

definition kinit :: "(unit, 'z mem_st_scheme) kop" where
  "kinit =
     kthen (initlock KmemLk ''kmem'') (
     kbind (kget ld_end) (\<lambda>end'.
     kthen (freerange end' PHYSTOP) (
     kbind kvmmake (\<lambda>kpg.
     kthen (kmod (\<lambda>s. s\<lparr>kernel_pagetable := kpg\<rparr>))
           (kmod (\<lambda>s. s\<lparr>satp := MAKE_SATP kpg\<rparr>))))))"

section \<open>Entry arithmetic\<close>

lemma bit_3FF: "bit (0x3FF :: u64) n \<longleftrightarrow> n < 10"
proof -
  have "(0x3FF :: u64) = mask 10" by (simp add: mask_eq_exp_minus_1)
  then show ?thesis by (simp only: bit_mask_iff) (auto simp: possible_bit_def)
qed

lemma PX_less [simp]: "unat (PX l va) < 512"
proof -
  have "PX l va = take_bit 9 (drop_bit (12 + 9 * l) va)"
    by (simp add: PX_def take_bit_eq_mask mask_eq_exp_minus_1)
  then show ?thesis
    by (simp add: unsigned_take_bit_eq take_bit_nat_less_exp [of 9, simplified])
qed

definition perm_bits :: "u64 \<Rightarrow> bool" where
  "perm_bits perm \<longleftrightarrow> PTE_FLAGS perm = perm"

lemma perm_bits_bit: "perm_bits perm \<Longrightarrow> bit perm n \<Longrightarrow> n < 10"
  by (metis bit_3FF bit_and_iff PTE_FLAGS_def perm_bits_def)

lemma page_aligned_bit:
  assumes "page_aligned p" and "bit p n"
  shows "12 \<le> n"
proof -
  have "p = PGROUNDDOWN p" using assms(1) by (simp add: page_simps)
  also have "\<dots> = push_bit 12 (drop_bit 12 p)"
    by (simp only: PGROUNDDOWN_def and_not_4095 [symmetric]) simp
  finally show ?thesis using assms(2) by (metis bit_push_bit_iff)
qed

lemma PTE2PA_PA2PTE:
  assumes "page_aligned pa" and "perm_bits perm"
  shows "PTE2PA (PA2PTE pa OR perm OR PTE_V) = pa"
proof (rule bit_word_eqI)
  fix n assume "n < LENGTH(64)"
  then show "bit (PTE2PA (PA2PTE pa OR perm OR PTE_V)) n = bit pa n"
    using perm_bits_bit [OF assms(2), of "10 + (n - 12)"] page_aligned_bit [OF assms(1), of n]
    by (auto simp: PTE2PA_def PA2PTE_def PTE_V_def bit_simps)
qed

lemma valid_iff: "valid e \<longleftrightarrow> bit e 0"
  by (simp add: valid_def PTE_V_def and_one_eq odd_iff_mod_2_eq_one bit_0)

lemma valid_new [simp]: "valid (x OR PTE_V)" "valid (x OR y OR PTE_V)"
  by (simp_all add: valid_iff bit_or_iff PTE_V_def)

lemma not_valid_0 [simp]: "\<not> valid 0"
  by (simp add: valid_def)

lemma page_aligned_PTE2PA [simp]: "page_aligned (PTE2PA e)"
proof -
  have "PTE2PA e = PGROUNDDOWN (PTE2PA e)"
  proof -
    have "PGROUNDDOWN (PTE2PA e) = push_bit 12 (drop_bit 12 (PTE2PA e))"
      by (simp only: PGROUNDDOWN_def and_not_4095 [symmetric]) simp
    also have "\<dots> = PTE2PA e"
      by (rule bit_word_eqI) (auto simp: PTE2PA_def bit_simps)
    finally show ?thesis by simp
  qed
  then show ?thesis by (metis PGROUNDDOWN_aligned)
qed

section \<open>Entries in memory\<close>

lemma far8:
  fixes a b x :: u64
  assumes "unat a mod 8 = 0" and "unat b mod 8 = 0" and "a \<noteq> b" and "unat (x - a) < 8"
  shows "8 \<le> unat (x - b)"
proof -
  obtain k l where k: "unat a = 8 * k" and l: "unat b = 8 * l"
    using assms(1,2) by (auto simp: mod_eq_0_iff_dvd dvd_def)
  have kl: "k \<noteq> l" using assms(3) k l by (auto simp: word_unat_eq_iff)
  have lt: "k < 2305843009213693952" "l < 2305843009213693952"
    using unat_lt_2p64 [of a] unat_lt_2p64 [of b] k l by simp_all
  obtain d where d: "unat (x - a) = d" "d < 8" using assms(4) by blast
  have "unat x = (unat a + unat (x - a)) mod 18446744073709551616"
    using unat_word_ariths(1) [of a "x - a"] by simp
  then have x: "unat x = 8 * k + d" using d k lt by simp
  show ?thesis
    using x l kl lt d(2) by (auto simp: unat_sub_if')
qed

lemma unat_ent:
  assumes "page_aligned p" and "unat i < 512"
  shows "unat (p + 8 * i) = unat p + 8 * unat i"
proof -
  have "8 * i = of_nat (8 * unat i)" by simp
  moreover have "8 * unat i < 4096" using assms(2) by simp
  ultimately show ?thesis using unat_page_add [OF assms(1), of "8 * unat i"] by simp
qed

lemma ent_page:
  assumes "page_aligned p" and "unat i < 512"
  shows "PGROUNDDOWN (p + 8 * i) = p"
proof -
  have "p + 8 * i = p + of_nat (8 * unat i)" by simp
  then show ?thesis using PGROUNDDOWN_add [OF assms(1), of "8 * unat i"] assms(2) by simp
qed

lemma ent_mod8:
  assumes "page_aligned p" and "unat i < 512"
  shows "unat (p + 8 * i) mod 8 = 0"
proof -
  obtain k where "unat p = 4096 * k" using assms(1) by (rule page_alignedE)
  then have "unat (p + 8 * i) = 8 * (512 * k + unat i)" using unat_ent [OF assms] by simp
  then show ?thesis by simp
qed

lemma ent_inj:
  assumes "page_aligned p" "unat i < 512" "page_aligned q" "unat j < 512"
  shows "p + 8 * i = q + 8 * j \<longleftrightarrow> p = q \<and> i = j"
  using assms ent_page unat_ent by (metis add_left_cancel nat_mult_eq_cancel1 word_unat_eq_iff
      zero_less_numeral)

lemma rd64_ent_upd [mem_simps]:
  assumes "page_aligned p" "unat i < 512" "page_aligned q" "unat j < 512"
  shows "rd64 (wr64 m (p + 8 * i) v) (q + 8 * j) =
    (if p = q \<and> i = j then v else rd64 m (q + 8 * j))"
proof (cases "p = q \<and> i = j")
  case False
  then have "q + 8 * j \<noteq> p + 8 * i" using ent_inj [OF assms] by metis
  then have "rd64 (wr64 m (p + 8 * i) v) (q + 8 * j) = rd64 m (q + 8 * j)"
    using far8 [OF ent_mod8 [OF assms(3,4)] ent_mod8 [OF assms(1,2)]] by (intro rd64_wr64_far) auto
  with False show ?thesis by auto
qed (simp add: rd64_wr64)

lemma ent_near:
  assumes "page_aligned p" and "unat i < 512" and "unat (x - (p + 8 * i)) < 8"
  shows "PGROUNDDOWN x = p"
proof -
  obtain d where d: "unat (x - (p + 8 * i)) = d" "d < 8" using assms(3) by blast
  have "x = p + (8 * i + (x - (p + 8 * i)))" by simp
  also have "8 * i + (x - (p + 8 * i)) = of_nat (8 * unat i + d)"
    by (simp add: d(1) [symmetric])
  finally have "x = p + of_nat (8 * unat i + d)" .
  moreover have "8 * unat i + d < 4096" using d(2) assms(2) by linarith
  ultimately show ?thesis using PGROUNDDOWN_add [OF assms(1)] by metis
qed

lemma rd64_ent_cong:
  assumes "page_aligned p" and "unat i < 512" and "\<And>x. PGROUNDDOWN x = p \<Longrightarrow> m x = m' x"
  shows "rd64 m (p + 8 * i) = rd64 m' (p + 8 * i)"
  by (rule rd64_cong) (use assms ent_near in blast)

lemma wr64_ent_frame [mem_simps]:
  assumes "page_aligned p" and "unat i < 512" and "PGROUNDDOWN x \<noteq> p"
  shows "wr64 m (p + 8 * i) v x = m x"
  using ent_near [OF assms(1,2), of x] assms(3) by (intro wr64_far) force

section \<open>Properties\<close>

text \<open>A page table entry written by \<open>mappages\<close> decodes to the frame it was built from, with exactly the
  requested permission and the valid bit.\<close>

theorem pte_roundtrip:
  assumes "page_aligned pa" and "perm_bits perm"
  shows "PTE2PA (PA2PTE pa OR perm OR PTE_V) = pa \<and>
    PTE_FLAGS (PA2PTE pa OR perm OR PTE_V) = (perm OR PTE_V) \<and> valid (PA2PTE pa OR perm OR PTE_V)"
proof -
  have "PTE_FLAGS (PA2PTE pa OR perm OR PTE_V) = (perm OR PTE_V)"
  proof (rule bit_word_eqI)
    fix n assume "n < LENGTH(64)"
    then show "bit (PTE_FLAGS (PA2PTE pa OR perm OR PTE_V)) n = bit (perm OR PTE_V) n"
      using perm_bits_bit [OF assms(2), of n]
      unfolding PTE_FLAGS_def bit_and_iff bit_3FF by (auto simp: PA2PTE_def PTE_V_def bit_simps)
  qed
  then show ?thesis using PTE2PA_PA2PTE [OF assms] by simp
qed

theorem pte_roundtrip_witness:
  "PTE2PA (PA2PTE 0x80103000 OR (PTE_R OR PTE_W) OR PTE_V) = 0x80103000 \<and>
   PTE_FLAGS (PA2PTE 0x80103000 OR (PTE_R OR PTE_W) OR PTE_V) = 7"
proof -
  have "page_aligned 0x80103000" "perm_bits (PTE_R OR PTE_W)"
    by (simp_all add: page_aligned_def perm_bits_def PTE_FLAGS_def PTE_R_def PTE_W_def)
  from pte_roundtrip [OF this] show ?thesis by (simp add: PTE_R_def PTE_W_def PTE_V_def)
qed

lemma unat_KSTACK: "p < NPROC \<Longrightarrow> unat (KSTACK p) = 274877902848 - 8192 * (p + 1)"
proof -
  assume p: "p < NPROC"
  have "unat ((of_nat p + 1) * 2 * 4096 :: u64) = 8192 * (p + 1)"
  proof -
    have "(of_nat p + 1) * 2 * 4096 = (of_nat (8192 * (p + 1)) :: u64)" by simp
    then have "unat ((of_nat p + 1) * 2 * 4096 :: u64) = 8192 * (p + 1) mod 18446744073709551616"
      by (simp only: unat_of_nat) simp
    then show ?thesis using p by (simp add: NPROC_def)
  qed
  moreover have "unat TRAMPOLINE = 274877902848" by (simp add: TRAMPOLINE_def MAXVA_def)
  ultimately show ?thesis using p by (simp add: KSTACK_def unat_sub word_le_nat_alt NPROC_def)
qed

text \<open>The kernel stacks of different processes are different pages below the trampoline, and the page
  above and the page below each of them belong to no stack and not to the trampoline: an overflow hits an
  unmapped page.\<close>

theorem kstack_guard_pages:
  assumes "p < NPROC" and "q < NPROC"
  shows "(KSTACK p = KSTACK q \<longleftrightarrow> p = q) \<and> KSTACK p - PGSIZE \<noteq> KSTACK q \<and> KSTACK p + PGSIZE \<noteq> KSTACK q \<and>
    KSTACK p + PGSIZE \<noteq> TRAMPOLINE \<and> KSTACK p < TRAMPOLINE \<and> page_aligned (KSTACK p)"
proof -
  note u = unat_KSTACK [OF assms(1)] unat_KSTACK [OF assms(2)]
  have T: "unat TRAMPOLINE = 274877902848" by (simp add: TRAMPOLINE_def MAXVA_def)
  have pq: "p < 64" "q < 64" using assms by (simp_all add: NPROC_def)
  have up: "unat (KSTACK p + 4096) = unat (KSTACK p) + 4096"
    using u(1) by (simp add: unat_word_ariths)
  have dn: "unat (KSTACK p - 4096) = unat (KSTACK p) - 4096"
    using u(1) pq by (simp add: unat_sub word_le_nat_alt)
  have al: "unat (KSTACK p) = 4096 * (67108863 - 2 * (p + 1))" using u(1) by simp
  have "KSTACK p = KSTACK q \<longleftrightarrow> p = q" using u pq by (auto simp: word_unat_eq_iff)
  moreover have "KSTACK p - 4096 \<noteq> KSTACK q"
  proof
    assume "KSTACK p - 4096 = KSTACK q"
    then have "unat (KSTACK p) - 4096 = unat (KSTACK q)" using dn by simp
    then have "67108863 - 2 * (p + 1) - 1 = 67108863 - 2 * (q + 1)" using u pq by simp
    then show False using pq by presburger
  qed
  moreover have "KSTACK p + 4096 \<noteq> KSTACK q"
  proof
    assume "KSTACK p + 4096 = KSTACK q"
    then have "unat (KSTACK p) + 4096 = unat (KSTACK q)" using up by simp
    then have "67108863 - 2 * (p + 1) + 1 = 67108863 - 2 * (q + 1)" using u pq by simp
    then show False using pq by presburger
  qed
  moreover have "KSTACK p + 4096 \<noteq> TRAMPOLINE" using up u(1) T by (auto simp: word_unat_eq_iff)
  moreover have "KSTACK p < TRAMPOLINE" using u(1) T by (simp add: word_less_nat_alt)
  moreover have "page_aligned (KSTACK p)" by (simp only: page_aligned_unat al) simp
  ultimately show ?thesis by blast
qed

theorem kstack_guard_pages_witness:
  "KSTACK 3 \<noteq> KSTACK 4 \<and> KSTACK 3 - PGSIZE \<noteq> KSTACK 4 \<and> KSTACK 3 + PGSIZE \<noteq> TRAMPOLINE"
  using kstack_guard_pages [of 3 4] by (simp add: NPROC_def)

end
