(* ===== verification/AddrSpace.thy ===== *)
theory AddrSpace
  imports Pagetable
begin

text \<open>
  Page tables as address spaces. \<open>translate m root va\<close> is the valid leaf entry that maps
  \<open>va\<close>, if any. A well-formed table is a tree: every table page is reached along one path of
  indices only, and no table page is free. For such a table the routines of
  \<^verbatim>\<open>kernel/vm.c\<close> act on the map \<open>translate\<close> as their names say: \<open>walk\<close> never changes it,
  \<open>mappages\<close> adds exactly the requested pages, \<open>uvmunmap\<close> removes exactly the requested pages.
\<close>

section \<open>Tables as trees\<close>

definition child :: "memory \<Rightarrow> u64 \<Rightarrow> u64 \<Rightarrow> u64 option" where
  "child m p i = (let e = rd64 m (p + 8 * i) in if valid e then Some (PTE2PA e) else None)"

fun node :: "memory \<Rightarrow> u64 \<Rightarrow> u64 list \<Rightarrow> u64 option" where
  "node m p [] = Some p"
| "node m p (i # is) = (case child m p i of None \<Rightarrow> None | Some q \<Rightarrow> node m q is)"

definition good_path :: "u64 list \<Rightarrow> bool" where
  "good_path xs \<longleftrightarrow> length xs \<le> 2 \<and> (\<forall>i \<in> set xs. unat i < 512)"

definition pt_wf :: "memory \<Rightarrow> u64 \<Rightarrow> u64 set \<Rightarrow> bool" where
  "pt_wf m root F \<longleftrightarrow>
     (\<forall>xs ys p. good_path xs \<and> good_path ys \<and> node m root xs = Some p \<and> node m root ys = Some p
        \<longrightarrow> xs = ys) \<and>
     (\<forall>xs p. good_path xs \<and> node m root xs = Some p \<longrightarrow> page_aligned p \<and> p \<noteq> 0 \<and> p \<notin> F)"

definition tables :: "memory \<Rightarrow> u64 \<Rightarrow> u64 set" where
  "tables m root = {p. \<exists>xs. good_path xs \<and> node m root xs = Some p}"

definition tpath :: "u64 \<Rightarrow> u64 list" where
  "tpath va = [PX 2 va, PX 1 va]"

definition pte_slot :: "memory \<Rightarrow> u64 \<Rightarrow> u64 \<Rightarrow> u64" where
  "pte_slot m root va =
     (case node m root (tpath va) of None \<Rightarrow> 0 | Some l0 \<Rightarrow> l0 + 8 * PX 0 va)"

definition translate :: "memory \<Rightarrow> u64 \<Rightarrow> u64 \<Rightarrow> u64 option" where
  "translate m root va =
     (if va \<ge> MAXVA then None
      else case node m root (tpath va) of None \<Rightarrow> None
      | Some l0 \<Rightarrow> (let e = rd64 m (l0 + 8 * PX 0 va) in if valid e then Some e else None))"

lemma good_path_Nil [simp]: "good_path []"
  and good_path_tpath [simp]: "good_path (tpath va)"
  by (simp_all add: good_path_def tpath_def)

lemma pt_wf_inj: "pt_wf m root F \<Longrightarrow> good_path xs \<Longrightarrow> good_path ys \<Longrightarrow>
    node m root xs = Some p \<Longrightarrow> node m root ys = Some p \<Longrightarrow> xs = ys"
  by (auto simp: pt_wf_def)

lemma pt_wf_page: "pt_wf m root F \<Longrightarrow> good_path xs \<Longrightarrow> node m root xs = Some p \<Longrightarrow>
    page_aligned p \<and> p \<noteq> 0 \<and> p \<notin> F"
  by (auto simp: pt_wf_def)

lemma good_path_cases:
  assumes "good_path xs"
  obtains "xs = []" | i where "xs = [i]" "unat i < 512"
  | i j where "xs = [i, j]" "unat i < 512" "unat j < 512"
  using assms by (cases xs rule: remdups_adj.cases) (auto simp: good_path_def)

lemma child_cong:
  assumes "page_aligned p" and "unat i < 512" and "\<And>x. PGROUNDDOWN x = p \<Longrightarrow> m' x = m x"
  shows "child m' p i = child m p i"
  using rd64_ent_cong [of p i m' m] assms by (simp add: child_def)

lemma child_upd:
  assumes "page_aligned p" "unat i < 512" "page_aligned q" "unat j < 512"
  shows "child (wr64 m (p + 8 * i) v) q j =
    (if q = p \<and> j = i then (if valid v then Some (PTE2PA v) else None) else child m q j)"
  using rd64_ent_upd [OF assms, of m v] by (auto simp: child_def)

text \<open>The path to a table page depends on the pages at depth 0 and 1 only.\<close>

lemma node_cong:
  assumes wf: "pt_wf m root F" and xs: "good_path xs"
    and eq: "\<And>ys p i. length ys \<le> 1 \<Longrightarrow> good_path ys \<Longrightarrow> node m root ys = Some p \<Longrightarrow>
      unat i < 512 \<Longrightarrow> child m' p i = child m p i"
  shows "node m' root xs = node m root xs"
  using xs
proof (cases rule: good_path_cases)
  case (2 i)
  then show ?thesis using eq [of "[]" root i] by (simp split: option.split)
next
  case (3 i j)
  have "child m' root i = child m root i" using eq [of "[]" root i] 3 by simp
  moreover have "child m' q j = child m q j" if "child m root i = Some q" for q
    using eq [of "[i]" q j] 3 that by (simp add: good_path_def)
  ultimately show ?thesis using 3 by (simp split: option.split)
qed simp

section \<open>Virtual pages and their indices\<close>

lemma PX_div: "unat (PX l va) = unat va div 2 ^ (12 + 9 * l) mod 512"
proof -
  have "PX l va = take_bit 9 (drop_bit (12 + 9 * l) va)"
    by (simp add: PX_def take_bit_eq_mask mask_eq_exp_minus_1)
  then have "unat (PX l va) = take_bit 9 (drop_bit (12 + 9 * l) (unat va))"
    using take_bit_nat_eq_self [of "unat va" 64] unat_lt_2p64 [of va]
    by (simp add: unsigned_take_bit_eq unsigned_drop_bit_eq)
  then show ?thesis by (simp add: take_bit_eq_mod drop_bit_eq_div)
qed

lemma vpn_split:
  assumes "n < 512 * 512 * 512"
  shows "n = (n div 262144 mod 512) * 262144 + (n div 512 mod 512) * 512 + n mod (512 :: nat)"
proof -
  have a: "n div 262144 < 512" using assms by (simp add: div_less_iff_less_mult)
  have "n div 512 = (n div 512) div 512 * 512 + n div 512 mod 512" by simp
  moreover have "(n div 512) div 512 = n div 262144" by (simp add: div_mult2_eq [symmetric])
  ultimately show ?thesis using a div_mult_mod_eq [of n 512] mod_less [OF a] by linarith
qed

lemma PX_same_page:
  assumes "va < MAXVA" and "vb < MAXVA"
  shows "tpath va = tpath vb \<and> PX 0 va = PX 0 vb \<longleftrightarrow> PGROUNDDOWN va = PGROUNDDOWN vb"
proof -
  let ?n = "\<lambda>v :: u64. unat v div 4096"
  have b: "?n v < 512 * 512 * 512" if "v < MAXVA" for v
    using that by (simp add: MAXVA_def word_less_nat_alt div_less_iff_less_mult)
  have px: "unat (PX 0 v) = ?n v mod 512" "unat (PX 1 v) = ?n v div 512 mod 512"
    "unat (PX 2 v) = ?n v div 262144 mod 512" for v
    by (simp_all add: PX_div div_mult2_eq [symmetric])
  have "tpath va = tpath vb \<and> PX 0 va = PX 0 vb \<longleftrightarrow> ?n va = ?n vb"
  proof
    assume "tpath va = tpath vb \<and> PX 0 va = PX 0 vb"
    then have e: "PX 0 va = PX 0 vb" "PX 1 va = PX 1 vb" "PX 2 va = PX 2 vb"
      by (simp_all add: tpath_def)
    have "?n va mod 512 = ?n vb mod 512" "?n va div 512 mod 512 = ?n vb div 512 mod 512"
      "?n va div 262144 mod 512 = ?n vb div 262144 mod 512"
      by (simp_all only: px [symmetric] e)
    then show "?n va = ?n vb"
      using vpn_split [OF b [OF assms(1)]] vpn_split [OF b [OF assms(2)]] by presburger
  next
    assume n: "?n va = ?n vb"
    have "PX 0 va = PX 0 vb" "PX 1 va = PX 1 vb" "PX 2 va = PX 2 vb"
      by (simp_all only: word_unat_eq_iff px n)
    then show "tpath va = tpath vb \<and> PX 0 va = PX 0 vb" by (simp add: tpath_def)
  qed
  also have "\<dots> \<longleftrightarrow> PGROUNDDOWN va = PGROUNDDOWN vb"
    by (simp add: word_unat_eq_iff page_simps)
  finally show ?thesis .
qed

section \<open>Memory updates and the map they induce\<close>

lemma tablesI: "good_path xs \<Longrightarrow> node m root xs = Some p \<Longrightarrow> p \<in> tables m root"
  by (auto simp: tables_def)

lemma pt_wf_nodes:
  assumes "pt_wf m root F" and "\<And>ys. good_path ys \<Longrightarrow> node m' root ys = node m root ys"
    and "F' \<subseteq> F \<union> - tables m root"
  shows "pt_wf m' root F'"
  unfolding pt_wf_def
proof (intro conjI allI impI; elim conjE)
  fix xs p assume "good_path xs" "node m' root xs = Some p"
  then have n: "node m root xs = Some p" "good_path xs" using assms(2) by simp_all
  then have "p \<in> tables m root" by (rule tablesI [rotated])
  with pt_wf_page [OF assms(1) n(2,1)] assms(3)
  show "page_aligned p" "p \<noteq> 0" "p \<notin> F'" by auto
qed (use assms(2) pt_wf_inj [OF assms(1)] in metis)

lemma translate_cong:
  assumes "\<And>ys. good_path ys \<Longrightarrow> node m' root ys = node m root ys"
    and "\<And>l0. node m root (tpath va) = Some l0 \<Longrightarrow>
      rd64 m' (l0 + 8 * PX 0 va) = rd64 m (l0 + 8 * PX 0 va)"
  shows "translate m' root va = translate m root va"
  using assms by (auto simp: translate_def split: option.split)

text \<open>Writes outside the table pages.\<close>

lemma node_frame:
  assumes wf: "pt_wf m root F" and eq: "\<And>x. PGROUNDDOWN x \<in> tables m root \<Longrightarrow> m' x = m x"
    and ys: "good_path ys"
  shows "node m' root ys = node m root ys"
proof (rule node_cong [OF wf ys])
  fix zs p and i :: u64
  assume "good_path zs" "node m root zs = Some p" "unat i < 512"
  then show "child m' p i = child m p i"
    using pt_wf_page [OF wf] tablesI eq by (intro child_cong) auto
qed

lemma translate_frame:
  assumes wf: "pt_wf m root F" and eq: "\<And>x. PGROUNDDOWN x \<in> tables m root \<Longrightarrow> m' x = m x"
  shows "translate m' root va = translate m root va"
proof (rule translate_cong)
  show "node m' root ys = node m root ys" if "good_path ys" for ys
    using wf eq that by (rule node_frame)
  show "rd64 m' (l0 + 8 * PX 0 va) = rd64 m (l0 + 8 * PX 0 va)"
    if "node m root (tpath va) = Some l0" for l0
    using pt_wf_page [OF wf _ that] tablesI [OF _ that] eq by (intro rd64_ent_cong) auto
qed

lemma same_page_below:
  assumes "PGROUNDDOWN vb = PGROUNDDOWN va" and "va < MAXVA"
  shows "vb < MAXVA"
proof -
  have "unat vb div 4096 = unat va div 4096"
    using assms(1) by (simp add: word_unat_eq_iff page_simps)
  then have "unat vb < 67108864 * 4096 \<longleftrightarrow> unat va < 67108864 * 4096"
    by (metis div_less_iff_less_mult zero_less_numeral)
  with assms(2) show ?thesis by (simp add: MAXVA_def word_less_nat_alt)
qed

lemma translate_same_page:
  assumes "PGROUNDDOWN v = PGROUNDDOWN w"
  shows "translate m root v = translate m root w"
proof (cases "w < MAXVA")
  case True
  then have "v < MAXVA" using assms same_page_below by blast
  with True PX_same_page [of v w] assms show ?thesis
    by (simp add: translate_def not_le [symmetric] cong: option.case_cong)
next
  case False
  then have "\<not> v < MAXVA" using assms same_page_below by metis
  with False show ?thesis by (simp add: translate_def not_less)
qed

lemma PGROUNDDOWN_idem [simp]: "PGROUNDDOWN (PGROUNDDOWN v) = PGROUNDDOWN v"
  by (simp add: page_simps)

text \<open>Writing a leaf entry changes the map at that page only.\<close>

lemma node_leaf:
  assumes wf: "pt_wf m root F" and l0: "node m root (tpath va) = Some l0" and ys: "good_path ys"
  shows "node (wr64 m (l0 + 8 * PX 0 va) v) root ys = node m root ys"
proof (rule node_cong [OF wf ys])
  fix zs p and i :: u64
  assume zs: "length zs \<le> 1" "good_path zs" "node m root zs = Some p" "unat i < 512"
  have "p \<noteq> l0"
    using pt_wf_inj [OF wf zs(2) good_path_tpath, of p va] zs(1,3) l0 by (auto simp: tpath_def)
  then show "child (wr64 m (l0 + 8 * PX 0 va) v) p i = child m p i"
    using pt_wf_page [OF wf zs(2,3)] pt_wf_page [OF wf good_path_tpath l0] zs(4)
    by (simp add: child_upd)
qed

lemma translate_leaf:
  assumes wf: "pt_wf m root F" and l0: "node m root (tpath va) = Some l0"
    and va: "va < MAXVA"
  shows "translate (wr64 m (l0 + 8 * PX 0 va) v) root =
    (\<lambda>vb. if PGROUNDDOWN vb = PGROUNDDOWN va then (if valid v then Some v else None)
     else translate m root vb)"
proof
  fix vb
  have al: "page_aligned l0" using pt_wf_page [OF wf good_path_tpath l0] by simp
  show "translate (wr64 m (l0 + 8 * PX 0 va) v) root vb =
    (if PGROUNDDOWN vb = PGROUNDDOWN va then (if valid v then Some v else None)
     else translate m root vb)"
  proof (cases "vb < MAXVA")
    case False
    have "PGROUNDDOWN vb \<noteq> PGROUNDDOWN va"
      using same_page_below [of vb va] False va by blast
    with False show ?thesis by (simp add: translate_def not_less)
  next
    case True
    have iff: "PGROUNDDOWN vb = PGROUNDDOWN va \<longleftrightarrow> tpath vb = tpath va \<and> PX 0 vb = PX 0 va"
      using PX_same_page [OF True va] by simp
    show ?thesis
    proof (cases "node m root (tpath vb)")
      case None
      then have "tpath vb \<noteq> tpath va" using l0 by auto
      with None show ?thesis using True node_leaf [OF wf l0, of "tpath vb" v]
        by (simp add: translate_def iff)
    next
      case (Some q)
      then have "page_aligned q" using pt_wf_page [OF wf good_path_tpath] by blast
      moreover have "q = l0 \<longleftrightarrow> tpath vb = tpath va"
        using pt_wf_inj [OF wf good_path_tpath good_path_tpath Some, of va] l0 Some
        by (metis option.inject)
      ultimately have "rd64 (wr64 m (l0 + 8 * PX 0 va) v) (q + 8 * PX 0 vb) =
          (if PGROUNDDOWN vb = PGROUNDDOWN va then v else rd64 m (q + 8 * PX 0 vb))"
        using al iff by (subst rd64_ent_upd) auto
      moreover have "node (wr64 m (l0 + 8 * PX 0 va) v) root (tpath vb) = Some q"
        using node_leaf [OF wf l0] Some by simp
      ultimately show ?thesis
        using True Some by (simp add: translate_def not_le [symmetric])
    qed
  qed
qed

text \<open>Hanging a fresh, cleared page below a table adds one node and no mapping.\<close>

lemma rd64_zero:
  assumes "page_aligned p" and "unat i < 512" and "\<And>x. PGROUNDDOWN x = p \<Longrightarrow> m x = 0"
  shows "rd64 m (p + 8 * i) = 0"
  using rd64_ent_cong [OF assms(1,2), of m "\<lambda>_. 0"] assms(3) by (simp add: rd64_def)

definition fresh_table ::
  "memory \<Rightarrow> u64 \<Rightarrow> u64 set \<Rightarrow> u64 list \<Rightarrow> u64 \<Rightarrow> u64 \<Rightarrow> u64 \<Rightarrow> memory \<Rightarrow> bool" where
  "fresh_table m root F xs p i pg m' \<longleftrightarrow>
     pt_wf m root F \<and> good_path (xs @ [i]) \<and> node m root xs = Some p \<and> child m p i = None \<and>
     page_aligned pg \<and> pg \<noteq> 0 \<and> pg \<notin> tables m root \<and>
     m' = wr64 (memset m pg 0 4096) (p + 8 * i) (PA2PTE pg OR PTE_V)"

lemma fresh_tableD:
  assumes "fresh_table m root F xs p i pg m'"
  shows "pt_wf m root F" "good_path (xs @ [i])" "node m root xs = Some p" "child m p i = None"
    "page_aligned pg" "pg \<noteq> 0" "pg \<notin> tables m root"
    "m' = wr64 (memset m pg 0 4096) (p + 8 * i) (PA2PTE pg OR PTE_V)"
    "length xs \<le> 1" "unat i < 512" "good_path xs" "page_aligned p" "p \<noteq> pg" "p \<in> tables m root"
proof -
  show *: "pt_wf m root F" "good_path (xs @ [i])" "node m root xs = Some p" "child m p i = None"
    "page_aligned pg" "pg \<noteq> 0" "pg \<notin> tables m root"
    "m' = wr64 (memset m pg 0 4096) (p + 8 * i) (PA2PTE pg OR PTE_V)"
    using assms by (simp_all add: fresh_table_def)
  then show x: "length xs \<le> 1" "unat i < 512" "good_path xs" by (auto simp: good_path_def)
  show "page_aligned p" using pt_wf_page [OF *(1) x(3) *(3)] by simp
  show t: "p \<in> tables m root" using tablesI [OF x(3) *(3)] .
  show "p \<noteq> pg" using t *(7) by auto
qed

lemma child_fresh_table:
  assumes ft: "fresh_table m root F xs p i pg m'" and q: "q \<in> tables m root" and j: "unat j < 512"
  shows "child m' q j = (if q = p \<and> j = i then Some pg else child m q j)"
proof -
  note f = fresh_tableD [OF ft]
  have al: "page_aligned q" "q \<noteq> pg"
    using q f(7) pt_wf_page [OF f(1)] by (auto simp: tables_def)
  have "child (memset m pg 0 4096) q j = child m q j"
    using al f(5) j by (intro child_cong) (auto simp: mem_simps)
  moreover have "PTE2PA (PA2PTE pg OR PTE_V) = pg"
    using PTE2PA_PA2PTE [OF f(5), of 0] by (simp add: perm_bits_def PTE_FLAGS_def)
  ultimately show ?thesis
    unfolding f(8) using al f(10,12) j by (simp add: child_upd)
qed

lemma rd64_fresh_table:
  assumes ft: "fresh_table m root F xs p i pg m'" and j: "unat j < 512"
  shows "rd64 m' (pg + 8 * j) = 0"
proof -
  note f = fresh_tableD [OF ft]
  have "rd64 m' (pg + 8 * j) = rd64 (memset m pg 0 4096) (pg + 8 * j)"
    unfolding f(8) using rd64_ent_upd [OF f(12,10,5) j] f(13) by simp
  also have "\<dots> = 0" using f(5) j by (intro rd64_zero) (simp_all add: mem_simps)
  finally show ?thesis .
qed

lemma node_fresh_table:
  assumes ft: "fresh_table m root F xs p i pg m'" and ys: "good_path ys"
  shows "node m' root ys = (if ys = xs @ [i] then Some pg else node m root ys)"
proof -
  note f = fresh_tableD [OF ft]
  have rt: "root \<in> tables m root" using tablesI [of "[]" m root root] by simp
  have eq: "root = p \<longleftrightarrow> xs = []"
    using pt_wf_inj [OF f(1) f(11) good_path_Nil f(3)] f(3) by auto
  have c: "child m' root a = (if xs = [] \<and> a = i then Some pg else child m root a)"
    if "unat a < 512" for a
    using child_fresh_table [OF ft rt that] eq by simp
  show ?thesis using ys
  proof (cases rule: good_path_cases)
    case (2 a)
    then show ?thesis using c [OF 2(2)] by (auto split: option.split)
  next
    case (3 a b)
    have new: "child m' pg b = None"
      using rd64_fresh_table [OF ft 3(3)] by (simp add: child_def)
    have other: "child m' q b = (if [a, b] = xs @ [i] then Some pg else child m q b)"
      if q: "child m root a = Some q" for q
    proof -
      have g: "good_path [a]" "node m root [a] = Some q" using 3 q by (auto simp: good_path_def)
      have "q = p \<longleftrightarrow> xs = [a]"
        using pt_wf_inj [OF f(1) f(11) g(1) f(3)] g(2) f(3) by auto
      then show ?thesis using child_fresh_table [OF ft tablesI [OF g] 3(3)] by auto
    qed
    consider "xs = []" "a = i" | "xs = []" "a \<noteq> i" | x where "xs = [x]"
      using f(9) by (cases xs) auto
    then show ?thesis
    proof cases
      case 1
      then show ?thesis using 3 c [OF 3(2)] new f(4) eq by simp
    next
      case 2
      then show ?thesis using 3 c [OF 3(2)] other
        by (cases "child m root a") (simp_all split: option.split)
    next
      case (3 x)
      then have "child m root a \<noteq> None" if "a = x" using that f(3) by (auto split: option.splits)
      then show ?thesis
        using 3 \<open>ys = [a, b]\<close> c [OF \<open>unat a < 512\<close>] other
        by (cases "child m root a") (auto split: option.split)
    qed
  qed simp
qed

lemma tables_fresh_table:
  assumes "fresh_table m root F xs p i pg m'"
  shows "tables m' root = insert pg (tables m root)"
proof -
  note f = fresh_tableD [OF assms]
  have "node m root (xs @ [i]) = None"
    using f(3,4,9) by (cases xs) (auto split: option.splits)
  then show ?thesis
    using node_fresh_table [OF assms] f(2) unfolding tables_def
    by (auto split: if_splits) (metis option.distinct(1))
qed

lemma pt_wf_fresh_table:
  assumes ft: "fresh_table m root F xs p i pg m'" and "F' \<subseteq> F - {pg}"
  shows "pt_wf m' root F'"
  unfolding pt_wf_def
proof (intro conjI allI impI; elim conjE)
  note f = fresh_tableD [OF ft]
  note n = node_fresh_table [OF ft]
  show "xs = ys" if "good_path xs" "good_path ys" "node m' root xs = Some q" "node m' root ys = Some q"
    for xs ys q
    using that n pt_wf_inj [OF f(1)] tablesI f(7) by (metis option.inject)
  fix ys q assume "good_path ys" "node m' root ys = Some q"
  then have "q = pg \<or> (good_path ys \<and> node m root ys = Some q)"
    using n by (auto split: if_splits)
  then show "page_aligned q" "q \<noteq> 0" "q \<notin> F'"
    using f(5,6) pt_wf_page [OF f(1), of ys q] assms(2) by blast+
qed

lemma translate_fresh_table:
  assumes ft: "fresh_table m root F xs p i pg m'"
  shows "translate m' root = translate m root"
proof
  fix va
  note f = fresh_tableD [OF ft]
  have nn: "node m root (xs @ [i]) = None"
    using f(3,4,9) by (cases xs) (auto split: option.splits)
  have n: "node m' root (tpath va) = (if tpath va = xs @ [i] then Some pg else node m root (tpath va))"
    using node_fresh_table [OF ft] by simp
  have z: "rd64 m' (pg + 8 * PX 0 va) = 0" using rd64_fresh_table [OF ft] by simp
  have "rd64 m' (q + 8 * PX 0 va) = rd64 m (q + 8 * PX 0 va)"
    if q: "node m root (tpath va) = Some q" for q
  proof -
    have qt: "q \<in> tables m root" "page_aligned q" "q \<noteq> pg" "q \<noteq> p"
      using tablesI [OF good_path_tpath q] pt_wf_page [OF f(1) good_path_tpath q] f(7)
        pt_wf_inj [OF f(1) f(11) good_path_tpath f(3), of va] q f(9) by (auto simp: tpath_def)
    then have "rd64 m' (q + 8 * PX 0 va) = rd64 (memset m pg 0 4096) (q + 8 * PX 0 va)"
      unfolding f(8) using rd64_ent_upd [OF f(12,10) qt(2) PX_less] by simp
    also have "\<dots> = rd64 m (q + 8 * PX 0 va)"
      using qt f(5) by (intro rd64_ent_cong) (auto simp: mem_simps)
    finally show ?thesis .
  qed
  with n nn z show "translate m' root va = translate m root va"
    by (auto simp: translate_def split: option.split)
qed

section \<open>walk\<close>

text \<open>\<open>grows root s ps t qs\<close>: a routine that started with free pages \<open>ps\<close> and ended with \<open>qs\<close>
  took the missing pages off the front of the pool, wrote to those and to table pages of
  \<open>root\<close> only, and kept the table well formed, with all its old nodes.\<close>

definition pt_ready :: "'z mem_st_scheme \<Rightarrow> u64 list \<Rightarrow> u64 \<Rightarrow> bool" where
  "pt_ready s ps root \<longleftrightarrow> kmem_inv s ps \<and> pt_wf (mem s) root (set ps)"

definition grows ::
  "u64 \<Rightarrow> 'z mem_st_scheme \<Rightarrow> u64 list \<Rightarrow> 'z mem_st_scheme \<Rightarrow> u64 list \<Rightarrow> bool" where
  "grows root s ps t qs \<longleftrightarrow> pt_ready t qs root \<and> t = s\<lparr>mem := mem t, freelist := freelist t\<rparr> \<and>
     (\<forall>ys q. good_path ys \<and> node (mem s) root ys = Some q \<longrightarrow> node (mem t) root ys = Some q) \<and>
     (\<exists>as. ps = as @ qs \<and> tables (mem t) root \<subseteq> tables (mem s) root \<union> set as \<and>
       (\<forall>x. PGROUNDDOWN x \<notin> tables (mem s) root \<union> set as \<longrightarrow> mem t x = mem s x))"

lemma growsD:
  assumes "grows root s ps t qs"
  shows "pt_ready t qs root" "kmem_inv t qs" "pt_wf (mem t) root (set qs)"
    "t = s\<lparr>mem := mem t, freelist := freelist t\<rparr>"
    "good_path ys \<Longrightarrow> node (mem s) root ys = Some q \<Longrightarrow> node (mem t) root ys = Some q"
  using assms by (auto simp: grows_def pt_ready_def)

lemma grows_refl: "pt_ready s ps root \<Longrightarrow> grows root s ps s ps"
  by (simp add: grows_def)

lemma grows_trans:
  assumes 1: "grows root s ps t qs" and 2: "grows root t qs u rs"
  shows "grows root s ps u rs"
proof -
  obtain as where as: "ps = as @ qs" "tables (mem t) root \<subseteq> tables (mem s) root \<union> set as"
    "\<And>x. PGROUNDDOWN x \<notin> tables (mem s) root \<union> set as \<Longrightarrow> mem t x = mem s x"
    using 1 by (auto simp: grows_def)
  obtain bs where bs: "qs = bs @ rs" "tables (mem u) root \<subseteq> tables (mem t) root \<union> set bs"
    "\<And>x. PGROUNDDOWN x \<notin> tables (mem t) root \<union> set bs \<Longrightarrow> mem u x = mem t x"
    using 2 by (auto simp: grows_def)
  have "u = s\<lparr>mem := mem u, freelist := freelist u\<rparr>"
    using growsD(4) [OF 1] growsD(4) [OF 2] by (rule same_mem_trans)
  moreover have "mem u x = mem s x" if "PGROUNDDOWN x \<notin> tables (mem s) root \<union> set (as @ bs)" for x
    using that as(2) as(3) [of x] bs(3) [of x] by auto
  ultimately show ?thesis unfolding grows_def
    using growsD(1) [OF 2] growsD(5) [OF 1] growsD(5) [OF 2] as bs(1,2)
    by (intro conjI exI [of _ "as @ bs"]) auto
qed

lemma walk_level_spec:
  assumes r: "pt_ready s ps root" and p: "node (mem s) root xs = Some p" and i: "good_path (xs @ [i])"
  shows "returns (walk_level p i alloc) s (\<lambda>r t. \<exists>qs. grows root s ps t qs \<and>
    translate (mem t) root = translate (mem s) root \<and> r = node (mem t) root (xs @ [i]) \<and>
    (\<not> alloc \<longrightarrow> t = s \<and> qs = ps) \<and> (alloc \<and> r = None \<longrightarrow> qs = []))"
proof -
  have wf: "pt_wf (mem s) root (set ps)" and inv: "kmem_inv s ps" using r by (simp_all add: pt_ready_def)
  have node: "node (mem s) root (xs @ [i]) = child (mem s) p i"
    using p i by (cases xs) (auto simp: good_path_def split: option.splits)
  show ?thesis
  proof (cases "child (mem s) p i")
    case (Some q)
    then show ?thesis using node grows_refl [OF r]
      by (auto simp: returns_def walk_level_def rd_pte_def child_def Let_def split: if_splits)
  next
    case None
    then have nv: "\<not> valid (rd64 (mem s) (p + 8 * i))" by (simp add: child_def Let_def split: if_splits)
    consider "\<not> alloc" | "alloc" "ps = []" | pg qs where "alloc" "ps = pg # qs"
      by (cases ps) auto
    then show ?thesis
    proof cases
      case 1
      then show ?thesis using nv None node grows_refl [OF r]
        by (simp add: returns_def walk_level_def rd_pte_def)
    next
      case 2
      then have "kalloc s = Ret 0 s" using inv kpool.alloc_empty by blast
      then show ?thesis using 2 nv None node grows_refl [OF r]
        by (simp add: returns_def walk_level_def rd_pte_def kbind_def)
    next
      case (3 pg qs)
      let ?m = "wr64 (memset (mem s) pg 0 4096) (p + 8 * i) (PA2PTE pg OR PTE_V)"
      let ?u = "s\<lparr>mem := ?m, freelist := rd64 (mem s) pg\<rparr>"
      have hd: "freelist s = pg" "pg \<noteq> 0" "kpage (ld_end s) pg" "pg \<notin> set qs"
        using kmem_inv_head [of s pg qs] inv 3 by auto
      then have al: "page_aligned pg" by blast
      have run: "walk_level p i alloc s = Ret (Some pg) ?u"
        using kalloc_some [OF kmem_inv_ready [OF inv]] hd nv 3 al
        by (simp add: walk_level_def rd_pte_def wr_pte_def on_mem_def kbind_def mem_simps cong: if_cong)
      have "pg \<notin> tables (mem s) root"
        using pt_wf_page [OF wf] 3(2) by (auto simp: tables_def)
      then have ft: "fresh_table (mem s) root (set ps) xs p i pg ?m"
        using wf i p None al hd by (simp add: fresh_table_def)
      note f = fresh_tableD [OF ft]
      have fr0: "?m x = mem s x" if "PGROUNDDOWN x \<noteq> p" "PGROUNDDOWN x \<noteq> pg" for x
        using that f(10,12) al by (simp add: wr64_ent_frame mem_simps)
      have "p \<notin> set qs" using pt_wf_page [OF wf f(11,3)] 3 by auto
      then have fr: "?m x = memset (mem s) pg 5 4096 x" if "PGROUNDDOWN x \<in> set qs" for x
        using that hd(4) fr0 [of x] by (auto simp: memset_page [OF al])
      have "kmem_inv (s\<lparr>mem := memset (mem s) pg 5 4096, freelist := rd64 (mem s) pg\<rparr>\<lparr>mem := ?m\<rparr>) qs"
        using kmem_inv_kalloc [of s pg qs] inv 3(2) fr by (intro kmem_inv_frame) simp_all
      then have "pt_ready ?u qs root"
        using pt_wf_fresh_table [OF ft, of "set qs"] 3(2) hd(4) by (auto simp: pt_ready_def)
      moreover have "node ?m root ys = Some q" if "good_path ys" "node (mem s) root ys = Some q" for ys q
        using node_fresh_table [OF ft that(1)] that node None by auto
      moreover have "?m x = mem s x" if "PGROUNDDOWN x \<notin> tables (mem s) root" "PGROUNDDOWN x \<noteq> pg" for x
        using that f(14) by (intro fr0) auto
      ultimately have "grows root s ps ?u qs"
        using tables_fresh_table [OF ft] 3(2)
        by (auto simp: grows_def intro!: exI [of _ "[pg]"])
      then show ?thesis
        using run translate_fresh_table [OF ft] node_fresh_table [OF ft i] 3(1)
        by (auto simp: returns_def)
    qed
  qed
qed

lemma tpath_append: "[PX 2 va] @ [PX 1 va] = tpath va"
  by (simp add: tpath_def)

lemma good_path_first [simp]: "good_path [PX 2 va]"
  by (simp add: good_path_def)

text \<open>\<open>walk\<close> returns the address of the entry for \<open>va\<close>; it never changes the map, and with
  \<open>alloc\<close> it fails only when no page is free.\<close>

lemma walk_spec:
  assumes r: "pt_ready s ps root" and va: "va < MAXVA"
  shows "returns (walk root va alloc) s (\<lambda>r t. \<exists>qs. grows root s ps t qs \<and>
    translate (mem t) root = translate (mem s) root \<and> r = pte_slot (mem t) root va \<and>
    (\<not> alloc \<longrightarrow> t = s \<and> qs = ps) \<and> (alloc \<and> node (mem t) root (tpath va) = None \<longrightarrow> qs = []))"
proof -
  have w: "walk root va alloc = kbind (walk_level root (PX 2 va) alloc) (\<lambda>r.
      case r of None \<Rightarrow> kret 0 | Some p1 \<Rightarrow> kbind (walk_level p1 (PX 1 va) alloc) (\<lambda>r.
      case r of None \<Rightarrow> kret 0 | Some l0 \<Rightarrow> kret (l0 + 8 * PX 0 va)))"
    using va by (simp add: walk_def numeral_2_eq_2 not_le [symmetric] cong: option.case_cong)
  obtain r1 t qs where 1: "walk_level root (PX 2 va) alloc s = Ret r1 t" "grows root s ps t qs"
      "translate (mem t) root = translate (mem s) root" "r1 = node (mem t) root [PX 2 va]"
      "\<not> alloc \<longrightarrow> t = s \<and> qs = ps" "alloc \<and> r1 = None \<longrightarrow> qs = []"
    using walk_level_spec [OF r, of "[]" root "PX 2 va" alloc] by (auto elim!: returnsE)
  show ?thesis
  proof (cases r1)
    case None
    then have "node (mem t) root (tpath va) = None"
      using 1(4) by (simp add: tpath_def split: option.splits)
    then show ?thesis
      using 1 None by (auto simp: w returns_def kbind_def pte_slot_def)
  next
    case (Some p1)
    then have "node (mem t) root [PX 2 va] = Some p1" using 1(4) by simp
    from walk_level_spec [OF growsD(1) [OF 1(2)] this, of "PX 1 va" alloc, unfolded tpath_append]
    obtain r2 u rs where 2: "walk_level p1 (PX 1 va) alloc t = Ret r2 u" "grows root t qs u rs"
      "translate (mem u) root = translate (mem t) root" "r2 = node (mem u) root (tpath va)"
      "\<not> alloc \<longrightarrow> u = t \<and> rs = qs" "alloc \<and> r2 = None \<longrightarrow> rs = []"
      by (auto elim!: returnsE)
    have "walk root va alloc s = Ret (pte_slot (mem u) root va) u"
      using 1(1) 2(1,4) Some by (auto simp: w kbind_def pte_slot_def split: option.split)
    then show ?thesis
      using 1 2 grows_trans [OF 1(2) 2(2)] by (auto simp: returns_def)
  qed
qed

lemma pte_slot_nz:
  assumes "pt_wf m root F" and "node m root (tpath va) = Some l0"
  shows "pte_slot m root va = l0 + 8 * PX 0 va" "pte_slot m root va \<noteq> 0"
proof -
  have p: "page_aligned l0" "l0 \<noteq> 0" using pt_wf_page [OF assms(1) good_path_tpath assms(2)] by auto
  show s: "pte_slot m root va = l0 + 8 * PX 0 va" using assms(2) by (simp add: pte_slot_def)
  have "PGROUNDDOWN (pte_slot m root va) = l0" using ent_page [OF p(1) PX_less] s by simp
  moreover have "PGROUNDDOWN 0 = 0" by (simp add: PGROUNDDOWN_id)
  ultimately show "pte_slot m root va \<noteq> 0" using p(2) by metis
qed

lemma pte_slot_0: "pt_wf m root F \<Longrightarrow> pte_slot m root va = 0 \<longleftrightarrow> node m root (tpath va) = None"
  using pte_slot_nz by (cases "node m root (tpath va)") (auto simp: pte_slot_def)

lemma walk_noalloc:
  "pt_ready s ps root \<Longrightarrow> va < MAXVA \<Longrightarrow> walk root va False s = Ret (pte_slot (mem s) root va) s"
  using walk_spec [of s ps root va False] by (auto elim: returnsE)

text \<open>When the tables on the way are there, \<open>walk\<close> is the same lookup with \<open>alloc\<close>.\<close>

lemma walk_level_child: "child (mem s) p i = Some q \<Longrightarrow> walk_level p i alloc s = Ret (Some q) s"
  by (auto simp: walk_level_def rd_pte_def child_def Let_def split: if_splits)

lemma walk_existing:
  assumes "pt_ready s ps root" and "va < MAXVA" and "node (mem s) root (tpath va) = Some l0"
  shows "walk root va alloc s = Ret (pte_slot (mem s) root va) s"
proof -
  obtain p1 where c: "child (mem s) root (PX 2 va) = Some p1" "child (mem s) p1 (PX 1 va) = Some l0"
    using assms(3) by (auto simp: tpath_def split: option.splits)
  then show ?thesis using assms(2,3)
    by (simp add: walk_def numeral_2_eq_2 not_le [symmetric] kbind_def walk_level_child pte_slot_def)
qed

text \<open>Storing a leaf entry at the slot \<open>walk\<close> returned.\<close>

lemma leaf_store:
  assumes r: "pt_ready s ps root" and l0: "node (mem s) root (tpath va) = Some l0" and va: "va < MAXVA"
    and t: "t = s\<lparr>mem := wr64 (mem s) (pte_slot (mem s) root va) v\<rparr>"
  shows "grows root s ps t ps"
    and "translate (mem t) root = (\<lambda>vb. if PGROUNDDOWN vb = PGROUNDDOWN va
      then (if valid v then Some v else None) else translate (mem s) root vb)"
proof -
  have wf: "pt_wf (mem s) root (set ps)" and inv: "kmem_inv s ps" using r by (simp_all add: pt_ready_def)
  have m: "mem t = wr64 (mem s) (l0 + 8 * PX 0 va) v" using t pte_slot_nz(1) [OF wf l0] by simp
  have l: "page_aligned l0" "l0 \<notin> set ps" "l0 \<in> tables (mem s) root"
    using pt_wf_page [OF wf good_path_tpath l0] tablesI [OF good_path_tpath l0] by auto
  have n: "node (mem t) root ys = node (mem s) root ys" if "good_path ys" for ys
    unfolding m using node_leaf [OF wf l0 that] .
  have fr: "mem t x = mem s x" if "PGROUNDDOWN x \<noteq> l0" for x
    using that l(1) by (simp add: m wr64_ent_frame)
  have tt: "tables (mem t) root = tables (mem s) root" using n by (auto simp: tables_def)
  have "kmem_inv (s\<lparr>mem := mem t\<rparr>) ps"
    using inv by (rule kmem_inv_frame) (use fr l(2) in metis)
  moreover have "pt_wf (mem t) root (set ps)" using wf n by (rule pt_wf_nodes) auto
  ultimately have "pt_ready t ps root" using t by (simp add: pt_ready_def)
  moreover have "t = s\<lparr>mem := mem t, freelist := freelist t\<rparr>" using t by simp
  moreover have "mem t x = mem s x" if "PGROUNDDOWN x \<notin> tables (mem s) root" for x
    using that l(3) by (intro fr) auto
  ultimately show "grows root s ps t ps" using n tt by (simp add: grows_def)
  show "translate (mem t) root = (\<lambda>vb. if PGROUNDDOWN vb = PGROUNDDOWN va
      then (if valid v then Some v else None) else translate (mem s) root vb)"
    unfolding m by (rule translate_leaf [OF wf l0 va])
qed

section \<open>mappages and uvmunmap\<close>

text \<open>The map after \<open>k\<close> pages from \<open>a\<close> on got the entries \<open>f 0, f 1, \<dots>\<close>, and after they lost
  their entries.\<close>

definition in_pages :: "u64 \<Rightarrow> nat \<Rightarrow> u64 \<Rightarrow> bool" where
  "in_pages a k v \<longleftrightarrow> unat a \<le> unat v \<and> unat v < unat a + 4096 * k"

definition map_range ::
  "u64 \<Rightarrow> nat \<Rightarrow> (nat \<Rightarrow> u64) \<Rightarrow> (u64 \<Rightarrow> u64 option) \<Rightarrow> (u64 \<Rightarrow> u64 option)" where
  "map_range a k f T = (\<lambda>v. if in_pages a k v then Some (f ((unat v - unat a) div 4096)) else T v)"

definition unmap_range :: "u64 \<Rightarrow> nat \<Rightarrow> (u64 \<Rightarrow> u64 option) \<Rightarrow> (u64 \<Rightarrow> u64 option)" where
  "unmap_range a k T = (\<lambda>v. if in_pages a k v then None else T v)"

lemma in_pages_0 [simp]: "\<not> in_pages a 0 v"
  by (simp add: in_pages_def)

lemma map_range_0 [simp]: "map_range a 0 f T = T"
  and unmap_range_0 [simp]: "unmap_range a 0 T = T"
  by (simp_all add: map_range_def unmap_range_def)

lemma page_iff_range:
  assumes "page_aligned a"
  shows "PGROUNDDOWN v = a \<longleftrightarrow> unat a \<le> unat v \<and> unat v < unat a + 4096"
proof -
  obtain k where k: "unat a = 4096 * k" using assms by (rule page_alignedE)
  have "PGROUNDDOWN v = a \<longleftrightarrow> unat v div 4096 = k"
    using k by (auto simp: word_unat_eq_iff page_simps)
  also have "\<dots> \<longleftrightarrow> 4096 * k \<le> unat v \<and> unat v < 4096 * k + 4096"
    by (auto simp: div_nat_eqI)
  finally show ?thesis using k by simp
qed

lemma in_pages_Suc:
  assumes "page_aligned a" and "unat a < 2 ^ 38"
  shows "in_pages a (Suc k) v \<longleftrightarrow> PGROUNDDOWN v = a \<or> in_pages (a + 4096) k v"
    and "in_pages (a + 4096) k v \<Longrightarrow> PGROUNDDOWN v \<noteq> a"
    and "in_pages (a + 4096) k v \<Longrightarrow>
      (unat v - unat a) div 4096 = Suc ((unat v - unat (a + 4096)) div 4096)"
proof -
  have u: "unat (a + 4096) = unat a + 4096" using assms(2) by (simp add: unat_word_ariths)
  show "in_pages a (Suc k) v \<longleftrightarrow> PGROUNDDOWN v = a \<or> in_pages (a + 4096) k v"
    "in_pages (a + 4096) k v \<Longrightarrow> PGROUNDDOWN v \<noteq> a"
    using page_iff_range [OF assms(1), of v] u by (auto simp: in_pages_def)
  assume "in_pages (a + 4096) k v"
  then have "unat v - unat a = (unat v - unat (a + 4096)) + 4096"
    using u by (auto simp: in_pages_def)
  then show "(unat v - unat a) div 4096 = Suc ((unat v - unat (a + 4096)) div 4096)" by simp
qed

lemma map_range_Suc:
  assumes "page_aligned a" and "unat a < 2 ^ 38"
  shows "map_range (a + 4096) k (\<lambda>i. f (Suc i))
      (\<lambda>v. if PGROUNDDOWN v = PGROUNDDOWN a then Some (f 0) else T v) = map_range a (Suc k) f T"
proof
  fix v
  have "(unat v - unat a) div 4096 = 0" if "PGROUNDDOWN v = a"
    using that page_iff_range [OF assms(1), of v] by auto
  then show "map_range (a + 4096) k (\<lambda>i. f (Suc i))
      (\<lambda>v. if PGROUNDDOWN v = PGROUNDDOWN a then Some (f 0) else T v) v = map_range a (Suc k) f T v"
    using in_pages_Suc [OF assms, of k v] assms(1) by (auto simp: map_range_def page_simps)
qed

lemma unmap_range_Suc:
  assumes "page_aligned a" and "unat a < 2 ^ 38"
  shows "unmap_range (a + 4096) k (\<lambda>v. if PGROUNDDOWN v = PGROUNDDOWN a then None else T v) =
    unmap_range a (Suc k) T"
  using in_pages_Suc [OF assms, of k] assms(1) by (auto simp: unmap_range_def page_simps)

text \<open>The entry \<open>mappages\<close> writes for the \<open>i\<close>-th page.\<close>

definition new_pte :: "u64 \<Rightarrow> u64 \<Rightarrow> nat \<Rightarrow> u64" where
  "new_pte pa perm i = PA2PTE (pa + 4096 * of_nat i) OR perm OR PTE_V"

lemma mappages_loop_step:
  assumes r: "pt_ready s ps root" and a: "a < MAXVA" and free: "translate (mem s) root a = None"
  obtains (full) t where "grows root s ps t []" "translate (mem t) root = translate (mem s) root"
      "mappages_loop root a b pa perm s = Ret (-1) t"
  | (mapped) t qs where "grows root s ps t qs"
      "translate (mem t) root = (\<lambda>v. if PGROUNDDOWN v = PGROUNDDOWN a then Some (new_pte pa perm 0)
         else translate (mem s) root v)"
      "mappages_loop root a b pa perm s =
        (if a = b then Ret 0 t else mappages_loop root (a + 4096) b (pa + 4096) perm t)"
proof -
  obtain w qs where w: "walk root a True s = Ret (pte_slot (mem w) root a) w" "grows root s ps w qs"
    "translate (mem w) root = translate (mem s) root"
    "node (mem w) root (tpath a) = None \<longrightarrow> qs = []"
    using walk_spec [OF r a, of True] by (auto elim!: returnsE)
  note g = growsD [OF w(2)]
  show thesis
  proof (cases "node (mem w) root (tpath a)")
    case None
    then have "mappages_loop root a b pa perm s = Ret (-1) w"
      using w(1) pte_slot_0 [OF g(3)] by (simp add: mappages_loop.simps [of root a] kbind_def)
    with None w show thesis by (intro full [of w]) auto
  next
    case (Some l0)
    let ?v = "new_pte pa perm 0"
    let ?t = "w\<lparr>mem := wr64 (mem w) (pte_slot (mem w) root a) ?v\<rparr>"
    have sl: "pte_slot (mem w) root a = l0 + 8 * PX 0 a" "pte_slot (mem w) root a \<noteq> 0"
      using pte_slot_nz [OF g(3) Some] by auto
    have "\<not> valid (rd64 (mem w) (pte_slot (mem w) root a))"
    proof -
      have "translate (mem w) root a = None" using free w(3) by simp
      then show ?thesis
        using Some a unfolding translate_def sl(1) by (simp add: Let_def not_le [symmetric] split: if_splits)
    qed
    then have "mappages_loop root a b pa perm s =
        (if a = b then Ret 0 ?t else mappages_loop root (a + 4096) b (pa + 4096) perm ?t)"
      using w(1) sl(2) by (auto simp: mappages_loop.simps [of root a b pa perm s] kbind_def rd_pte_def
          wr_pte_def on_mem_def new_pte_def)
    moreover note ls = leaf_store [OF g(1) Some a refl, of ?v]
    ultimately show thesis
      using grows_trans [OF w(2) ls(1)] w(3) by (intro mapped [of ?t qs]) (auto simp: new_pte_def)
  qed
qed

lemma new_pte_Suc: "new_pte (pa + 4096) perm = (\<lambda>i. new_pte pa perm (Suc i))"
proof
  fix i
  have "pa + 4096 + 4096 * of_nat i = pa + 4096 * of_nat (Suc i)" by (simp add: distrib_left)
  then show "new_pte (pa + 4096) perm i = new_pte pa perm (Suc i)" by (simp only: new_pte_def)
qed

lemma in_pages_self: "0 < k \<Longrightarrow> in_pages a k a"
  by (simp add: in_pages_def)

lemma mappages_loop_spec:
  assumes "pt_ready s ps root" and "page_aligned a" and "unat a + 4096 * n < 2 ^ 38"
    and "b = a + 4096 * of_nat n"
    and "\<And>v. in_pages a (Suc n) v \<Longrightarrow> translate (mem s) root v = None"
  shows "returns (mappages_loop root a b pa perm) s (\<lambda>r t. \<exists>qs k. grows root s ps t qs \<and>
    translate (mem t) root = map_range a k (new_pte pa perm) (translate (mem s) root) \<and>
    (r = 0 \<and> k = Suc n \<or> r = -1 \<and> k \<le> n \<and> qs = []))"
  using assms
proof (induction n arbitrary: s ps a pa)
  case 0
  have a: "a < MAXVA" "unat a < 2 ^ 38" using "0.prems"(3) by (simp_all add: MAXVA_def word_less_nat_alt)
  have f: "translate (mem s) root a = None" using "0.prems"(5) in_pages_self by simp
  have one: "map_range a (Suc 0) (new_pte pa perm) T =
      (\<lambda>v. if PGROUNDDOWN v = PGROUNDDOWN a then Some (new_pte pa perm 0) else T v)" for T
    using map_range_Suc [OF "0.prems"(2) a(2), of 0 "new_pte pa perm" T] by simp
  show ?case
    by (rule mappages_loop_step [OF "0.prems"(1) a(1) f, of b pa perm])
      (use "0.prems"(4) one in \<open>auto simp: returns_def intro!: exI [of _ 0] exI [of _ "Suc 0"]\<close>)
next
  case (Suc n)
  have a: "a < MAXVA" "unat a < 2 ^ 38" using Suc.prems(3) by (simp_all add: MAXVA_def word_less_nat_alt)
  have u: "unat (a + 4096) = unat a + 4096" using a(2) by (simp add: unat_word_ariths)
  have f: "translate (mem s) root a = None" using Suc.prems(5) in_pages_self by simp
  have ub: "unat (4096 * of_nat (Suc n) :: u64) = 4096 * Suc n"
    using Suc.prems(3) by (simp add: unat_word_ariths unat_of_nat del: of_nat_Suc)
  have ne: "a \<noteq> b"
    using Suc.prems(4) ub by (metis add_cancel_right_right nat.distinct(1) mult_is_0 unat_0
        zero_neq_numeral)
  show ?case
  proof (rule mappages_loop_step [OF Suc.prems(1) a(1) f, of b pa perm])
    fix t assume "grows root s ps t []" "translate (mem t) root = translate (mem s) root"
      "mappages_loop root a b pa perm s = Ret (-1) t"
    then show ?thesis by (auto simp: returns_def intro!: exI [of _ 0])
  next
    fix t qs
    assume g: "grows root s ps t qs" and tr: "translate (mem t) root =
        (\<lambda>v. if PGROUNDDOWN v = PGROUNDDOWN a then Some (new_pte pa perm 0)
         else translate (mem s) root v)"
      and run: "mappages_loop root a b pa perm s =
        (if a = b then Ret 0 t else mappages_loop root (a + 4096) b (pa + 4096) perm t)"
    have "translate (mem t) root v = None" if "in_pages (a + 4096) (Suc n) v" for v
      using that Suc.prems(5) in_pages_Suc [OF Suc.prems(2) a(2), of "Suc n" v] Suc.prems(2)
      by (simp add: tr page_simps)
    moreover have "b = (a + 4096) + 4096 * of_nat n"
      using Suc.prems(4) by (simp add: distrib_left)
    ultimately have "returns (mappages_loop root (a + 4096) b (pa + 4096) perm) t
        (\<lambda>r t'. \<exists>rs k. grows root t qs t' rs \<and> translate (mem t') root =
          map_range (a + 4096) k (new_pte (pa + 4096) perm) (translate (mem t) root) \<and>
         (r = 0 \<and> k = Suc n \<or> r = -1 \<and> k \<le> n \<and> rs = []))"
      using Suc.prems(2,3) u growsD(1) [OF g] by (intro Suc.IH) (simp_all add: page_simps)
    then obtain r t' rs k where i: "mappages_loop root (a + 4096) b (pa + 4096) perm t = Ret r t'"
        "grows root t qs t' rs" "translate (mem t') root =
          map_range (a + 4096) k (\<lambda>i. new_pte pa perm (Suc i)) (translate (mem t) root)"
        "r = 0 \<and> k = Suc n \<or> r = -1 \<and> k \<le> n \<and> rs = []"
      unfolding new_pte_Suc by (rule returnsE) blast
    have "translate (mem t') root = map_range a (Suc k) (new_pte pa perm) (translate (mem s) root)"
      unfolding i(3) tr by (rule map_range_Suc [OF Suc.prems(2) a(2)])
    then show ?thesis
      using run ne i grows_trans [OF g i(2)]
      by (auto simp: returns_def intro!: exI [of _ rs] exI [of _ "Suc k"])
  qed
qed

text \<open>The number of pages a range of bytes touches.\<close>

definition npages_of :: "u64 \<Rightarrow> u64 \<Rightarrow> nat" where
  "npages_of va sz = Suc ((unat va + unat sz - 1) div 4096 - unat va div 4096)"

lemma mappages_spec:
  assumes "pt_ready s ps root" and "sz \<noteq> 0" and "unat va + unat sz \<le> 2 ^ 38"
    and "\<And>v. in_pages (PGROUNDDOWN va) (npages_of va sz) v \<Longrightarrow> translate (mem s) root v = None"
  shows "returns (mappages root va sz pa perm) s (\<lambda>r t. \<exists>qs k. grows root s ps t qs \<and>
    translate (mem t) root = map_range (PGROUNDDOWN va) k (new_pte pa perm) (translate (mem s) root) \<and>
    (r = 0 \<and> k = npages_of va sz \<or> r = -1 \<and> k < npages_of va sz \<and> qs = []))"
proof -
  define n where "n = (unat va + unat sz - 1) div 4096 - unat va div 4096"
  have np: "npages_of va sz = Suc n" by (simp only: npages_of_def n_def)
  have sz: "0 < unat sz" using assms(2) by (simp add: unat_gt_0)
  have le: "unat va div 4096 \<le> (unat va + unat sz - 1) div 4096" using sz by (intro div_le_mono) simp
  have e: "unat (va + sz - 1) = unat va + unat sz - 1"
    using assms(3) sz unat_diff_1 [of "va + sz"] by (simp add: unat_word_ariths)
  have n: "unat (4096 * of_nat n :: u64) = 4096 * n"
  proof -
    have "(unat va + unat sz - 1) div 4096 \<le> 2 ^ 38 div 4096"
      using assms(3) by (intro div_le_mono) simp
    then have "n \<le> 67108864" by (simp add: n_def)
    then show ?thesis by (simp add: unat_word_ariths unat_of_nat)
  qed
  have top: "(unat va + unat sz - 1) div 4096 * 4096 = unat (PGROUNDDOWN va) + 4096 * n"
    using le by (simp add: page_simps n_def diff_mult_distrib2)
  have lt: "unat (PGROUNDDOWN va) + 4096 * n < 2 ^ 38"
    using top assms(3) sz div_times_less_eq_dividend [of "unat va + unat sz - 1" 4096] by linarith
  have "PGROUNDDOWN (va + sz - 1) = PGROUNDDOWN va + 4096 * of_nat n"
  proof -
    have "unat (PGROUNDDOWN va + 4096 * of_nat n) = unat (PGROUNDDOWN va) + 4096 * n"
      using lt n by (simp add: unat_word_ariths(1))
    moreover have "unat (PGROUNDDOWN (va + sz - 1)) = (unat va + unat sz - 1) div 4096 * 4096"
      by (simp only: unat_PGROUNDDOWN e)
    ultimately show ?thesis using top by (simp add: word_unat_eq_iff)
  qed
  then show ?thesis
    using mappages_loop_spec [OF assms(1) PGROUNDDOWN_aligned lt _ assms(4), of _ pa perm] assms(2)
    by (simp add: mappages_def np less_Suc_eq_le)
qed

text \<open>\<open>shrinks root s ps t fs\<close>: a routine that freed the pages \<open>fs\<close>, one by one, wrote to them and
  to table pages only and kept every table page in its place.\<close>

definition shrinks ::
  "u64 \<Rightarrow> 'z mem_st_scheme \<Rightarrow> u64 list \<Rightarrow> 'z mem_st_scheme \<Rightarrow> u64 list \<Rightarrow> bool" where
  "shrinks root s ps t fs \<longleftrightarrow> pt_ready t (rev fs @ ps) root \<and>
     t = s\<lparr>mem := mem t, freelist := freelist t\<rparr> \<and>
     (\<forall>ys. good_path ys \<longrightarrow> node (mem t) root ys = node (mem s) root ys) \<and>
     (\<forall>x. PGROUNDDOWN x \<notin> tables (mem s) root \<union> set fs \<longrightarrow> mem t x = mem s x)"

lemma shrinks_tables: "shrinks root s ps t fs \<Longrightarrow> tables (mem t) root = tables (mem s) root"
  by (auto simp: shrinks_def tables_def)

lemma shrinks_ld_end:
  assumes "shrinks root s ps t fs"
  shows "ld_end t = ld_end s"
proof -
  have "t = s\<lparr>mem := mem t, freelist := freelist t\<rparr>" using assms by (simp add: shrinks_def)
  then have "ld_end t = ld_end (s\<lparr>mem := mem t, freelist := freelist t\<rparr>)" by metis
  then show ?thesis by simp
qed

lemma shrinks_trans:
  assumes 1: "shrinks root s ps t fs" and 2: "shrinks root t (rev fs @ ps) u gs"
  shows "shrinks root s ps u (fs @ gs)"
proof -
  have "u = s\<lparr>mem := mem u, freelist := freelist u\<rparr>"
    using 1 2 unfolding shrinks_def by (blast intro: same_mem_trans)
  moreover have "mem u x = mem s x" if "PGROUNDDOWN x \<notin> tables (mem s) root \<union> set (fs @ gs)" for x
    using that 1 2 shrinks_tables [OF 1] by (simp add: shrinks_def)
  ultimately show ?thesis using 1 2 by (simp add: shrinks_def)
qed

definition freeable :: "'z mem_st_scheme \<Rightarrow> u64 list \<Rightarrow> u64 \<Rightarrow> u64 \<Rightarrow> bool" where
  "freeable s ps root p \<longleftrightarrow> kpage (ld_end s) p \<and> p \<notin> set ps \<and> p \<notin> tables (mem s) root"

lemma kfree_shrinks:
  assumes r: "pt_ready s ps root" and p: "freeable s ps root p"
  obtains t where "kfree p s = Ret () t" "shrinks root s ps t [p]"
    "translate (mem t) root = translate (mem s) root"
proof -
  let ?m = "wr64 (memset (mem s) p 1 4096) p (freelist s)"
  let ?t = "s\<lparr>mem := ?m, freelist := p\<rparr>"
  have wf: "pt_wf (mem s) root (set ps)" and inv: "kmem_inv s ps" using r by (simp_all add: pt_ready_def)
  have pp: "kpage (ld_end s) p" "p \<notin> set ps" "p \<notin> tables (mem s) root" "page_aligned p"
    using p by (auto simp: freeable_def)
  have fr: "?m x = mem s x" if "PGROUNDDOWN x \<noteq> p" for x
    using that pp(4) by (simp add: wr64_page_frame mem_simps)
  then have frt: "?m x = mem s x" if "PGROUNDDOWN x \<in> tables (mem s) root" for x
    using that pp(3) by metis
  have n: "node ?m root ys = node (mem s) root ys" if "good_path ys" for ys
    using node_frame [OF wf frt that] .
  have "pt_wf ?m root (insert p (set ps))"
    using wf n by (rule pt_wf_nodes) (use pp(3) in auto)
  moreover have "kmem_inv ?t (p # ps)" using inv pp(1,2) by (rule kmem_inv_kfree) simp
  ultimately have "shrinks root s ps ?t [p]"
    using n fr by (simp add: shrinks_def pt_ready_def)
  moreover have "kfree p s = Ret () ?t" using kfree_ok [OF kmem_inv_ready [OF inv] pp(1)] .
  moreover have "translate ?m root = translate (mem s) root"
    using translate_frame [OF wf frt] by blast
  ultimately show thesis by (intro that [of ?t]) simp_all
qed

lemma leaf_shrinks:
  assumes r: "pt_ready s ps root" and l0: "node (mem s) root (tpath va) = Some l0" and va: "va < MAXVA"
    and t: "t = s\<lparr>mem := wr64 (mem s) (pte_slot (mem s) root va) v\<rparr>"
  shows "shrinks root s ps t []"
proof -
  have wf: "pt_wf (mem s) root (set ps)" using r by (simp add: pt_ready_def)
  note g = leaf_store [OF r l0 va t]
  have "node (mem t) root ys = node (mem s) root ys" if "good_path ys" for ys
    using node_leaf [OF wf l0 that] pte_slot_nz(1) [OF wf l0] t by simp
  then show ?thesis using g(1) by (auto simp: shrinks_def grows_def)
qed

lemma uvmunmap_loop_step:
  assumes r: "pt_ready s ps root" and a: "a < MAXVA" "a < lim"
    and e: "translate (mem s) root a = Some e" "PTE_FLAGS e \<noteq> PTE_V"
    and f: "do_free \<Longrightarrow> freeable s ps root (PTE2PA e)"
  obtains t where "uvmunmap_loop root a lim do_free s = uvmunmap_loop root (a + 4096) lim do_free t"
    "shrinks root s ps t (if do_free then [PTE2PA e] else [])"
    "translate (mem t) root =
       (\<lambda>v. if PGROUNDDOWN v = PGROUNDDOWN a then None else translate (mem s) root v)"
proof -
  have wf: "pt_wf (mem s) root (set ps)" using r by (simp add: pt_ready_def)
  obtain l0 where l0: "node (mem s) root (tpath a) = Some l0"
      and ee: "rd64 (mem s) (pte_slot (mem s) root a) = e" "valid e"
    using e(1) by (auto simp: translate_def pte_slot_def Let_def split: if_splits option.splits)
  have nz: "pte_slot (mem s) root a \<noteq> 0" using pte_slot_nz(2) [OF wf l0] .
  obtain s1 where s1: "kwhen do_free (kfree (PTE2PA e)) s = Ret () s1"
      "shrinks root s ps s1 (if do_free then [PTE2PA e] else [])"
      "translate (mem s1) root = translate (mem s) root"
  proof (cases do_free)
    case True
    obtain t where "kfree (PTE2PA e) s = Ret () t" "shrinks root s ps t [PTE2PA e]"
      "translate (mem t) root = translate (mem s) root"
      using kfree_shrinks [OF r f [OF True]] .
    with True show thesis by (intro that [of t]) simp_all
  next
    case False
    then show thesis using that [of s] r by (simp add: shrinks_def)
  qed
  have r1: "pt_ready s1 (rev (if do_free then [PTE2PA e] else []) @ ps) root"
    and l1: "node (mem s1) root (tpath a) = Some l0"
    using s1(2) l0 by (simp_all add: shrinks_def)
  have sl: "pte_slot (mem s1) root a = pte_slot (mem s) root a" using l0 l1 by (simp add: pte_slot_def)
  let ?t = "s1\<lparr>mem := wr64 (mem s1) (pte_slot (mem s1) root a) 0\<rparr>"
  have "uvmunmap_loop root a lim do_free s = uvmunmap_loop root (a + 4096) lim do_free ?t"
    using a walk_noalloc [OF r a(1)] nz ee e(2) s1(1) sl
    by (simp add: uvmunmap_loop.simps [of root a lim do_free s] kbind_def rd_pte_def wr_pte_def on_mem_def)
  moreover have "shrinks root s ps ?t ((if do_free then [PTE2PA e] else []) @ [])"
    using s1(2) leaf_shrinks [OF r1 l1 a(1) refl] by (rule shrinks_trans)
  moreover have "translate (mem ?t) root =
      (\<lambda>v. if PGROUNDDOWN v = PGROUNDDOWN a then None else translate (mem s) root v)"
    using leaf_store(2) [OF r1 l1 a(1) refl, of 0] unfolding s1(3) by simp
  ultimately show thesis by (intro that [of ?t]) simp_all
qed

text \<open>The frames the pages of a range are mapped to.\<close>

fun frames :: "(u64 \<Rightarrow> u64 option) \<Rightarrow> u64 \<Rightarrow> nat \<Rightarrow> u64 list" where
  "frames T a 0 = []"
| "frames T a (Suc n) = PTE2PA (the (T a)) # frames T (a + 4096) n"

lemma frames_cong:
  "page_aligned a \<Longrightarrow> unat a + 4096 * n \<le> 2 ^ 38 \<Longrightarrow>
   (\<And>v. in_pages a n v \<Longrightarrow> T v = T' v) \<Longrightarrow> frames T a n = frames T' a n"
proof (induction n arbitrary: a)
  case (Suc n)
  have "frames T (a + 4096) n = frames T' (a + 4096) n"
  proof (rule Suc.IH)
    show "page_aligned (a + 4096)" using Suc.prems(1) by (simp add: page_simps)
    show "unat (a + 4096) + 4096 * n \<le> 2 ^ 38"
      using Suc.prems(2) by (simp add: unat_word_ariths)
    show "T v = T' v" if "in_pages (a + 4096) n v" for v
      using that Suc.prems in_pages_Suc(1) [of a n v] by simp
  qed
  then show ?case using Suc.prems(3) [of a] in_pages_self [of "Suc n" a] by simp
qed simp

lemma uvmunmap_loop_spec:
  assumes "pt_ready s ps root" and "page_aligned a" and "unat a + 4096 * n \<le> 2 ^ 38"
    and "lim = a + 4096 * of_nat n"
    and "\<And>v. in_pages a n v \<Longrightarrow> \<exists>e. translate (mem s) root v = Some e \<and> PTE_FLAGS e \<noteq> PTE_V"
    and "fs = frames (translate (mem s) root) a n"
    and "do_free \<Longrightarrow> distinct fs \<and> (\<forall>p \<in> set fs. freeable s ps root p)"
  shows "returns (uvmunmap_loop root a lim do_free) s (\<lambda>_ t.
    shrinks root s ps t (if do_free then fs else []) \<and>
    translate (mem t) root = unmap_range a n (translate (mem s) root))"
  using assms
proof (induction n arbitrary: s ps a fs)
  case 0
  then show ?case by (simp add: uvmunmap_loop.simps [of root a a] returns_def shrinks_def)
next
  case (Suc n)
  have a: "a < MAXVA" "unat a < 2 ^ 38" using Suc.prems(3) by (simp_all add: MAXVA_def word_less_nat_alt)
  have u: "unat (a + 4096) = unat a + 4096" using a(2) by (simp add: unat_word_ariths)
  have ub: "unat (4096 * of_nat (Suc n) :: u64) = 4096 * Suc n"
    using Suc.prems(3) by (simp add: unat_word_ariths unat_of_nat del: of_nat_Suc)
  then have lim: "a < lim"
    using Suc.prems(3,4) by (simp add: word_less_nat_alt unat_word_ariths(1) del: of_nat_Suc)
  obtain e where e: "translate (mem s) root a = Some e" "PTE_FLAGS e \<noteq> PTE_V"
    using Suc.prems(5) [of a] in_pages_self by blast
  let ?T = "translate (mem s) root" and ?rest = "frames (translate (mem s) root) (a + 4096) n"
  have fs: "fs = PTE2PA e # ?rest" using Suc.prems(6) e(1) by simp
  have "freeable s ps root (PTE2PA e)" if do_free using Suc.prems(7) [OF that] fs by simp
  then obtain t where t: "uvmunmap_loop root a lim do_free s = uvmunmap_loop root (a + 4096) lim do_free t"
    "shrinks root s ps t (if do_free then [PTE2PA e] else [])"
    "translate (mem t) root = (\<lambda>v. if PGROUNDDOWN v = PGROUNDDOWN a then None else ?T v)"
    using uvmunmap_loop_step [OF Suc.prems(1) a(1) lim e, of do_free] by blast
  have al: "page_aligned (a + 4096)" using Suc.prems(2) by (simp add: page_simps)
  have le: "unat (a + 4096) + 4096 * n \<le> 2 ^ 38" using Suc.prems(3) u by simp
  have keep: "translate (mem t) root v = ?T v" if "in_pages (a + 4096) n v" for v
    using that in_pages_Suc(2) [OF Suc.prems(2) a(2)] Suc.prems(2) t(3) by (simp add: page_simps)
  have rest: "?rest = frames (translate (mem t) root) (a + 4096) n"
    using keep by (intro frames_cong [OF al le]) simp
  let ?ps = "rev (if do_free then [PTE2PA e] else []) @ ps"
  have fb: "distinct ?rest \<and> (\<forall>p \<in> set ?rest. freeable t ?ps root p)" if do_free
    using Suc.prems(7) [OF that] that fs shrinks_tables [OF t(2)] shrinks_ld_end [OF t(2)]
    by (auto simp: freeable_def)
  have "returns (uvmunmap_loop root (a + 4096) lim do_free) t (\<lambda>_ u.
      shrinks root t ?ps u (if do_free then ?rest else []) \<and>
      translate (mem u) root = unmap_range (a + 4096) n (translate (mem t) root))"
  proof (rule Suc.IH [OF _ al le _ _ rest fb])
    show "pt_ready t ?ps root" using t(2) by (simp add: shrinks_def)
    show "lim = a + 4096 + 4096 * of_nat n" using Suc.prems(4) by (simp add: distrib_left)
    show "\<exists>e. translate (mem t) root v = Some e \<and> PTE_FLAGS e \<noteq> PTE_V"
      if "in_pages (a + 4096) n v" for v
      using that Suc.prems(5) [of v] in_pages_Suc(1) [OF Suc.prems(2) a(2)] keep [OF that] by simp
  qed
  then obtain u where u: "uvmunmap_loop root (a + 4096) lim do_free t = Ret () u"
      "shrinks root t ?ps u (if do_free then ?rest else [])"
      "translate (mem u) root = unmap_range (a + 4096) n (translate (mem t) root)"
    by (auto elim!: returnsE)
  have "translate (mem u) root = unmap_range a (Suc n) ?T"
    unfolding u(3) t(3) by (rule unmap_range_Suc [OF Suc.prems(2) a(2)])
  moreover have "shrinks root s ps u (if do_free then fs else [])"
    using shrinks_trans [OF t(2) u(2)] fs by (simp split: if_splits)
  ultimately show ?case using t(1) u(1) by (simp add: returns_def)
qed

lemma uvmunmap_spec:
  assumes "pt_ready s ps root" and "page_aligned va" and "unat va + 4096 * unat n \<le> 2 ^ 38"
    and "\<And>v. in_pages va (unat n) v \<Longrightarrow> \<exists>e. translate (mem s) root v = Some e \<and> PTE_FLAGS e \<noteq> PTE_V"
    and "fs = frames (translate (mem s) root) va (unat n)"
    and "do_free \<Longrightarrow> distinct fs \<and> (\<forall>p \<in> set fs. freeable s ps root p)"
  shows "returns (uvmunmap root va n do_free) s (\<lambda>_ t.
    shrinks root s ps t (if do_free then fs else []) \<and>
    translate (mem t) root = unmap_range va (unat n) (translate (mem s) root))"
proof -
  have eq: "uvmunmap root va n do_free = uvmunmap_loop root va (va + 4096 * of_nat (unat n)) do_free"
    using assms(2) by (simp add: uvmunmap_def page_aligned_def mult.commute)
  show ?thesis unfolding eq
    by (rule uvmunmap_loop_spec [OF assms(1-3) refl assms(4,5)]) (use assms(6) in blast)+
qed

section \<open>The interface of an address space\<close>

text \<open>What \<open>exec\<close>, \<open>fork\<close> and the process table rely on: a view from virtual addresses to
  entries, mapping a run of unused pages, and unmapping a run of mapped ones.\<close>

locale addr_space =
  fixes ready :: "'s \<Rightarrow> bool"
    and view :: "'s \<Rightarrow> u64 \<Rightarrow> u64 option"
    and map_pages :: "u64 \<Rightarrow> u64 \<Rightarrow> u64 \<Rightarrow> u64 \<Rightarrow> (int, 's) kop"
    and unmap_pages :: "u64 \<Rightarrow> u64 \<Rightarrow> (unit, 's) kop"
  assumes map_pages: "ready s \<Longrightarrow> page_aligned va \<Longrightarrow> n \<noteq> 0 \<Longrightarrow> unat va + 4096 * unat n \<le> 2 ^ 38 \<Longrightarrow>
      (\<And>v. in_pages va (unat n) v \<Longrightarrow> view s v = None) \<Longrightarrow>
      returns (map_pages va n pa perm) s (\<lambda>r t. ready t \<and>
        (\<exists>k. view t = map_range va k (new_pte pa perm) (view s) \<and>
          (r = 0 \<and> k = unat n \<or> r = -1 \<and> k < unat n)))"
    and unmap_pages: "ready s \<Longrightarrow> page_aligned va \<Longrightarrow> unat va + 4096 * unat n \<le> 2 ^ 38 \<Longrightarrow>
      (\<And>v. in_pages va (unat n) v \<Longrightarrow> \<exists>e. view s v = Some e \<and> PTE_FLAGS e \<noteq> PTE_V) \<Longrightarrow>
      returns (unmap_pages va n) s (\<lambda>_ t. ready t \<and> view t = unmap_range va (unat n) (view s))"
begin

text \<open>Mapping a run of unused pages with some permission and unmapping it again restores the view.\<close>

lemma map_then_unmap:
  assumes "ready s" "page_aligned va" "n \<noteq> 0" "unat va + 4096 * unat n \<le> 2 ^ 38"
    and free: "\<And>v. in_pages va (unat n) v \<Longrightarrow> view s v = None"
    and leaf: "\<And>i. PTE_FLAGS (new_pte pa perm i) \<noteq> PTE_V"
    and ok: "map_pages va n pa perm s = Ret 0 t"
  shows "returns (unmap_pages va n) t (\<lambda>_ u. ready u \<and> view u = view s)"
proof -
  have t: "ready t" "view t = map_range va (unat n) (new_pte pa perm) (view s)"
    using map_pages [OF assms(1-4) free, of pa perm] ok by (auto simp: returns_def)
  have "\<exists>e. view t v = Some e \<and> PTE_FLAGS e \<noteq> PTE_V" if "in_pages va (unat n) v" for v
    using that leaf by (auto simp: t(2) map_range_def)
  from unmap_pages [OF t(1) assms(2,4) this]
  have "returns (unmap_pages va n) t (\<lambda>_ u. ready u \<and> view u = unmap_range va (unat n) (view t))" .
  moreover have "unmap_range va (unat n) (view t) = view s"
    using free by (auto simp: t(2) unmap_range_def map_range_def fun_eq_iff)
  ultimately show ?thesis by simp
qed

end

lemma npages_of_aligned:
  assumes "page_aligned va" and "n \<noteq> 0" and "unat va + 4096 * unat n \<le> 2 ^ 38"
  shows "npages_of va (n * 4096) = unat n" "unat (n * 4096) = 4096 * unat n" "n * 4096 \<noteq> 0"
proof -
  obtain k where k: "unat va = 4096 * k" using assms(1) by (rule page_alignedE)
  show u: "unat (n * 4096) = 4096 * unat n" using assms(3) by (simp add: unat_word_ariths)
  have n: "0 < unat n" using assms(2) by (simp add: unat_gt_0)
  then show "n * 4096 \<noteq> 0" using u by (metis mult_is_0 not_gr0 unat_0 zero_neq_numeral)
  have "(unat va + unat (n * 4096) - 1) div 4096 = k + unat n - 1"
    using n k u by (cases "unat n") (simp_all add: div_nat_eqI)
  then show "npages_of va (n * 4096) = unat n" using n k by (simp add: npages_of_def)
qed

interpretation pt: addr_space "\<lambda>s. \<exists>ps. pt_ready s ps root" "\<lambda>s. translate (mem s) root"
  "\<lambda>va n pa perm. mappages root va (n * 4096) pa perm" "\<lambda>va n. uvmunmap root va n False" for root
proof (unfold_locales, goal_cases)
  case (1 s va n pa perm)
  then obtain ps where r: "pt_ready s ps root" by blast
  note np = npages_of_aligned [OF 1(2-4)]
  have "returns (mappages root va (n * 4096) pa perm) s (\<lambda>r t. \<exists>qs k. grows root s ps t qs \<and>
      translate (mem t) root = map_range (PGROUNDDOWN va) k (new_pte pa perm) (translate (mem s) root) \<and>
      (r = 0 \<and> k = npages_of va (n * 4096) \<or> r = -1 \<and> k < npages_of va (n * 4096) \<and> qs = []))"
    using 1 np by (intro mappages_spec [OF r]) (simp_all add: page_simps)
  then show ?case
  proof (rule returns_mono, elim exE conjE)
    fix r t qs k
    assume h: "grows root s ps t qs" "translate (mem t) root =
        map_range (PGROUNDDOWN va) k (new_pte pa perm) (translate (mem s) root)"
      "r = 0 \<and> k = npages_of va (n * 4096) \<or> r = -1 \<and> k < npages_of va (n * 4096) \<and> qs = []"
    then show "(\<exists>ps. pt_ready t ps root) \<and> (\<exists>k. translate (mem t) root =
        map_range va k (new_pte pa perm) (translate (mem s) root) \<and>
        (r = 0 \<and> k = unat n \<or> r = -1 \<and> k < unat n))"
      using growsD(1) [OF h(1)] by (simp only: np(1) PGROUNDDOWN_id [OF 1(2)]) blast
  qed
next
  case (2 s va n)
  then obtain ps where "pt_ready s ps root" by blast
  from uvmunmap_spec [OF this 2(2-4) refl, of False] show ?case
    by (auto simp: shrinks_def elim!: returns_mono)
qed

section \<open>A concrete address space\<close>

text \<open>A machine with one three-level table at \<open>0x80100000\<close>: virtual page 1 is mapped to the frame
  \<open>0x80103000\<close>, virtual page 2 to \<open>0x80105000\<close>, both for the user. No page is free.\<close>

definition demo_root :: u64 where "demo_root = 0x80100000"

definition demo_pte :: "u64 \<Rightarrow> u64" where
  "demo_pte pa = PA2PTE pa OR (PTE_R OR PTE_W OR PTE_U) OR PTE_V"

definition demo_m0 :: memory where "demo_m0 = (\<lambda>_. 0)"

definition demo_m1 :: memory where
  "demo_m1 = wr64 (memset demo_m0 0x80101000 0 4096) (demo_root + 8 * 0) (PA2PTE 0x80101000 OR PTE_V)"

definition demo_m2 :: memory where
  "demo_m2 = wr64 (memset demo_m1 0x80102000 0 4096) (0x80101000 + 8 * 0) (PA2PTE 0x80102000 OR PTE_V)"

definition demo_m3 :: memory where
  "demo_m3 = wr64 demo_m2 (0x80102000 + 8 * PX 0 0x1000) (demo_pte 0x80103000)"

definition demo_mem :: memory where
  "demo_mem = wr64 demo_m3 (0x80102000 + 8 * PX 0 0x2000) (demo_pte 0x80105000)"

definition demo :: mem_st where
  "demo = \<lparr>hart = 0, cpus = cpus boot_state, locks = locks boot_state, mem = demo_mem, freelist = 0,
     ld_end = 0x80080000, ld_etext = 0x80010000, ld_trampoline = 0x80010000,
     kernel_pagetable = 0, satp = 0\<rparr>"

lemma child_zero [simp]: "child demo_m0 p i = None"
  by (simp add: child_def demo_m0_def rd64_def)

lemma node_zero: "node demo_m0 root ys = (if ys = [] then Some root else None)"
  by (cases ys) simp_all

lemma pt_wf_zero: "page_aligned root \<Longrightarrow> root \<noteq> 0 \<Longrightarrow> pt_wf demo_m0 root {}"
  by (simp add: pt_wf_def node_zero)

lemma demo_path: "tpath 0x1000 = [0, 0]" "tpath 0x2000 = [0, 0]" "PX 0 0x1000 = 1" "PX 0 0x2000 = 2"
  by (simp_all add: tpath_def PX_def drop_bit_eq_div)

lemma demo_fresh1: "fresh_table demo_m0 demo_root {} [] demo_root 0 0x80101000 demo_m1"
  unfolding fresh_table_def
proof (intro conjI)
  show "pt_wf demo_m0 demo_root {}"
    by (rule pt_wf_zero) (simp_all add: demo_root_def page_aligned_def)
  show "0x80101000 \<notin> tables demo_m0 demo_root"
    by (auto simp: tables_def node_zero demo_root_def split: if_splits)
qed (simp_all add: demo_m1_def good_path_def page_aligned_def)

lemma demo_tables1: "tables demo_m1 demo_root = {0x80101000, demo_root}"
  using tables_fresh_table [OF demo_fresh1] by (auto simp: tables_def node_zero split: if_splits)

lemma demo_fresh2: "fresh_table demo_m1 demo_root {} [0] 0x80101000 0 0x80102000 demo_m2"
  unfolding fresh_table_def
proof (intro conjI)
  show "pt_wf demo_m1 demo_root {}" by (rule pt_wf_fresh_table [OF demo_fresh1]) simp
  show "node demo_m1 demo_root [0] = Some 0x80101000"
    using node_fresh_table [OF demo_fresh1, of "[0]"] by (simp add: good_path_def)
  show "child demo_m1 0x80101000 0 = None"
    using rd64_fresh_table [OF demo_fresh1, of 0] by (simp add: child_def)
  show "0x80102000 \<notin> tables demo_m1 demo_root" unfolding demo_tables1 by (simp add: demo_root_def)
qed (simp_all add: demo_m2_def good_path_def page_aligned_def)

lemma demo_tables2: "tables demo_m2 demo_root = {0x80102000, 0x80101000, demo_root}"
  using tables_fresh_table [OF demo_fresh2] demo_tables1 by simp

lemma demo_wf2: "pt_wf demo_m2 demo_root {}"
  by (rule pt_wf_fresh_table [OF demo_fresh2]) simp

lemma demo_node2: "node demo_m2 demo_root [0, 0] = Some 0x80102000"
  using node_fresh_table [OF demo_fresh2, of "[0, 0]"] by (simp add: good_path_def)

lemma demo_node3: "good_path ys \<Longrightarrow> node demo_m3 demo_root ys = node demo_m2 demo_root ys"
  unfolding demo_m3_def
  by (rule node_leaf [OF demo_wf2]) (simp_all only: demo_node2 demo_path)

lemma demo_wf3: "pt_wf demo_m3 demo_root {}"
  using demo_wf2 demo_node3 by (rule pt_wf_nodes) auto

lemma demo_node: "good_path ys \<Longrightarrow> node demo_mem demo_root ys = node demo_m2 demo_root ys"
proof -
  assume ys: "good_path ys"
  have "node demo_m3 demo_root (tpath 0x2000) = Some 0x80102000"
    using demo_node3 [of "tpath 0x2000", OF good_path_tpath] demo_node2 by (simp only: demo_path)
  from node_leaf [OF demo_wf3 this ys] show "node demo_mem demo_root ys = node demo_m2 demo_root ys"
    unfolding demo_mem_def using demo_node3 [OF ys] by simp
qed

lemma demo_tables: "tables demo_mem demo_root = {0x80102000, 0x80101000, demo_root}"
  unfolding demo_tables2 [symmetric] using demo_node by (auto simp: tables_def)

lemma demo_ready: "pt_ready demo [] demo_root"
proof -
  have "pt_wf demo_mem demo_root {}" using demo_wf2 demo_node by (rule pt_wf_nodes) auto
  moreover have "kmem_inv demo []"
    by (simp add: kmem_inv_def demo_def boot_state_def cpu_ok_def sie_def free_lock_def)
  ultimately show ?thesis by (simp add: pt_ready_def demo_def)
qed

lemma demo_translate: "translate demo_mem demo_root = (\<lambda>v.
    if PGROUNDDOWN v = 0x2000 then Some (demo_pte 0x80105000)
    else if PGROUNDDOWN v = 0x1000 then Some (demo_pte 0x80103000) else None)"
proof -
  have "translate demo_m0 demo_root = (\<lambda>_. None)"
    by (auto simp: translate_def node_zero tpath_def fun_eq_iff)
  then have 2: "translate demo_m2 demo_root = (\<lambda>_. None)"
    using translate_fresh_table [OF demo_fresh1] translate_fresh_table [OF demo_fresh2] by simp
  have va: "(0x1000 :: u64) < MAXVA" "(0x2000 :: u64) < MAXVA"
    by (simp_all add: MAXVA_def word_less_nat_alt)
  have pg: "PGROUNDDOWN 0x1000 = 0x1000" "PGROUNDDOWN 0x2000 = 0x2000"
    by (simp_all add: PGROUNDDOWN_id page_aligned_def)
  have v: "valid (demo_pte pa)" for pa by (simp add: demo_pte_def)
  have n2: "node demo_m2 demo_root (tpath 0x1000) = Some 0x80102000"
    using demo_node2 by (simp only: demo_path)
  have n3: "node demo_m3 demo_root (tpath 0x2000) = Some 0x80102000"
    using demo_node3 [of "tpath 0x2000", OF good_path_tpath] demo_node2 by (simp only: demo_path)
  have m3: "translate demo_m3 demo_root =
      (\<lambda>v. if PGROUNDDOWN v = 0x1000 then Some (demo_pte 0x80103000) else None)"
    using translate_leaf [OF demo_wf2 n2 va(1), of "demo_pte 0x80103000"] v
    unfolding demo_m3_def 2 pg by simp
  show ?thesis
    using translate_leaf [OF demo_wf3 n3 va(2), of "demo_pte 0x80105000"] v
    unfolding demo_mem_def pg m3 by simp
qed

section \<open>Properties\<close>

text \<open>\<open>walk\<close> without \<open>alloc\<close> is a pure lookup, and with \<open>alloc\<close> it never changes what the
  table maps: it only adds empty table pages, and it gives up only when the pool is empty.\<close>

theorem walk_keeps_map:
  assumes "pt_ready s ps root" and "va < MAXVA"
  shows "returns (walk root va alloc) s (\<lambda>pte t. \<exists>qs. pt_ready t qs root \<and>
    translate (mem t) root = translate (mem s) root \<and> pte = pte_slot (mem t) root va \<and>
    (alloc \<and> pte = 0 \<longrightarrow> qs = []) \<and> (\<not> alloc \<longrightarrow> t = s))"
  by (rule returns_mono [OF walk_spec [OF assms, of alloc]])
    (use growsD(1,3) pte_slot_0 in blast)

theorem walk_keeps_map_witness:
  "returns (walk demo_root 0x5000 True) demo (\<lambda>pte t. \<exists>qs. pt_ready t qs demo_root \<and>
    translate (mem t) demo_root = translate demo_mem demo_root \<and>
    pte = pte_slot (mem t) demo_root 0x5000)"
proof -
  have "(0x5000 :: u64) < MAXVA" by (simp add: MAXVA_def word_less_nat_alt)
  from returns_mono [OF walk_keeps_map [OF demo_ready this, of True]] show ?thesis
    by (rule returns_mono) (auto simp: demo_def)
qed

text \<open>(C1) \<open>mappages\<close> maps exactly the pages the range \<open>[va, va + sz)\<close> touches, to consecutive frames from
  \<open>pa\<close> on with the given permission, and leaves every other translation alone; it returns -1
  only when the pool ran out, with a prefix of the pages mapped.\<close>

theorem mappages_exact:
  assumes "pt_ready s ps root" and "sz \<noteq> 0" and "unat va + unat sz \<le> 2 ^ 38"
    and "\<And>v. in_pages (PGROUNDDOWN va) (npages_of va sz) v \<Longrightarrow> translate (mem s) root v = None"
  shows "returns (mappages root va sz pa perm) s (\<lambda>r t. \<exists>qs k. pt_ready t qs root \<and>
    translate (mem t) root = map_range (PGROUNDDOWN va) k (new_pte pa perm) (translate (mem s) root) \<and>
    (r = 0 \<and> k = npages_of va sz \<or> r = -1 \<and> k < npages_of va sz \<and> qs = []))"
  by (rule returns_mono [OF mappages_spec [OF assms]]) (use growsD(1) in blast)+

lemma demo_unmapped:
  assumes "in_pages 0x3000 1 v"
  shows "translate (mem demo) demo_root v = None"
proof -
  have "PGROUNDDOWN v = 0x3000"
    using assms page_iff_range [of "0x3000" v] by (simp add: in_pages_def page_aligned_def)
  then show ?thesis by (simp add: demo_def demo_translate)
qed

theorem mappages_exact_witness:
  "returns (mappages demo_root 0x3000 0x1000 0x80107000 (PTE_R OR PTE_U)) demo (\<lambda>r t. \<exists>qs k.
    pt_ready t qs demo_root \<and> translate (mem t) demo_root =
      map_range 0x3000 k (new_pte 0x80107000 (PTE_R OR PTE_U)) (translate demo_mem demo_root) \<and>
    (r = 0 \<and> k = 1 \<or> r = -1 \<and> k < 1 \<and> qs = []))"
proof -
  have p: "PGROUNDDOWN 0x3000 = 0x3000" by (simp add: PGROUNDDOWN_id page_aligned_def)
  have n: "npages_of 0x3000 0x1000 = 1" by (simp add: npages_of_def)
  have "returns (mappages demo_root 0x3000 0x1000 0x80107000 (PTE_R OR PTE_U)) demo (\<lambda>r t. \<exists>qs k.
    pt_ready t qs demo_root \<and> translate (mem t) demo_root =
      map_range (PGROUNDDOWN 0x3000) k (new_pte 0x80107000 (PTE_R OR PTE_U)) (translate (mem demo) demo_root) \<and>
    (r = 0 \<and> k = npages_of 0x3000 0x1000 \<or> r = -1 \<and> k < npages_of 0x3000 0x1000 \<and> qs = []))"
    by (rule mappages_exact [OF demo_ready]) (use demo_unmapped p n in simp_all)
  then show ?thesis unfolding p n by (simp add: demo_def)
qed

text \<open>Mapping over a page that is mapped already is a panic, never a silent overwrite.\<close>

theorem mappages_remap_panics:
  assumes "pt_ready s ps root" and "sz \<noteq> 0" and "translate (mem s) root va = Some e"
  shows "mappages root va sz pa perm s = Panic ''mappages: remap''"
proof -
  let ?va = "PGROUNDDOWN va"
  have e: "translate (mem s) root ?va = Some e"
    using assms(3) translate_same_page [of ?va va] by (simp add: PGROUNDDOWN_id page_simps)
  then have lt: "?va < MAXVA" by (auto simp: translate_def not_le split: if_splits)
  obtain w qs where w: "walk root ?va True s = Ret (pte_slot (mem w) root ?va) w" "grows root s ps w qs"
    "translate (mem w) root = translate (mem s) root"
    using walk_spec [OF assms(1) lt, of True] by (auto elim!: returnsE)
  have "translate (mem w) root ?va = Some e" using w(3) e by simp
  then obtain l0 where "node (mem w) root (tpath ?va) = Some l0"
      "rd64 (mem w) (pte_slot (mem w) root ?va) = e" "valid e"
    by (auto simp: translate_def pte_slot_def Let_def split: if_splits option.splits)
  with w(1) pte_slot_nz(2) [OF growsD(3) [OF w(2)]] show ?thesis
    using assms(2) by (simp add: mappages_def mappages_loop.simps [of root ?va] kbind_def rd_pte_def)
qed

theorem mappages_remap_panics_witness:
  "mappages demo_root 0x2000 0x1000 0x80107000 PTE_R demo = Panic ''mappages: remap''"
proof (rule mappages_remap_panics [OF demo_ready])
  show "translate (mem demo) demo_root 0x2000 = Some (demo_pte 0x80105000)"
    by (simp add: demo_def demo_translate PGROUNDDOWN_id page_aligned_def)
qed simp

text \<open>(C4) \<open>uvmunmap\<close> with \<open>do_free\<close> removes exactly the pages of the range from the map and returns their
  frames to the page pool; all other translations stay.\<close>

theorem uvmunmap_exact:
  assumes "pt_ready s ps root" and "page_aligned va" and "unat va + 4096 * unat n \<le> 2 ^ 38"
    and "\<And>v. in_pages va (unat n) v \<Longrightarrow> \<exists>e. translate (mem s) root v = Some e \<and> PTE_FLAGS e \<noteq> PTE_V"
    and "distinct (frames (translate (mem s) root) va (unat n))"
    and "\<And>p. p \<in> set (frames (translate (mem s) root) va (unat n)) \<Longrightarrow> freeable s ps root p"
  shows "returns (uvmunmap root va n True) s (\<lambda>_ t.
    pt_ready t (rev (frames (translate (mem s) root) va (unat n)) @ ps) root \<and>
    translate (mem t) root = unmap_range va (unat n) (translate (mem s) root))"
proof (rule returns_mono [OF uvmunmap_spec [OF assms(1-4) refl, of True]])
  show "distinct (frames (translate (mem s) root) va (unat n)) \<and>
    (\<forall>p \<in> set (frames (translate (mem s) root) va (unat n)). freeable s ps root p)"
    using assms(5,6) by blast
qed (simp_all add: shrinks_def)

lemma demo_page: "in_pages 0x1000 (Suc 0) v \<longleftrightarrow> PGROUNDDOWN v = 0x1000"
  using page_iff_range [of "0x1000" v] by (simp add: in_pages_def page_aligned_def)

lemma demo_pte_facts:
  "PTE2PA (demo_pte 0x80103000) = 0x80103000" "PTE_FLAGS (demo_pte 0x80103000) = 23"
  "PTE2PA (demo_pte 0x80105000) = 0x80105000" "demo_pte 0x80103000 AND PTE_U = 16"
  "demo_pte 0x80105000 AND PTE_U = 16"
  by (simp_all add: demo_pte_def PTE2PA_def PA2PTE_def PTE_FLAGS_def PTE_V_def PTE_R_def PTE_W_def
      PTE_U_def drop_bit_eq_div push_bit_eq_mult)

theorem uvmunmap_exact_witness:
  "returns (uvmunmap demo_root 0x1000 1 True) demo (\<lambda>_ t. pt_ready t [0x80103000] demo_root \<and>
    translate (mem t) demo_root = unmap_range 0x1000 1 (translate demo_mem demo_root))"
proof -
  have T: "translate (mem demo) demo_root 0x1000 = Some (demo_pte 0x80103000)"
    by (simp add: demo_def demo_translate PGROUNDDOWN_id page_aligned_def)
  then have F: "frames (translate (mem demo) demo_root) 0x1000 (unat (1 :: u64)) = [0x80103000]"
    by (simp add: demo_pte_facts)
  have "returns (uvmunmap demo_root 0x1000 1 True) demo (\<lambda>_ t.
      pt_ready t (rev (frames (translate (mem demo) demo_root) 0x1000 (unat (1 :: u64))) @ []) demo_root \<and>
      translate (mem t) demo_root = unmap_range 0x1000 (unat (1 :: u64)) (translate (mem demo) demo_root))"
  proof (rule uvmunmap_exact [OF demo_ready])
    show "\<exists>e. translate (mem demo) demo_root v = Some e \<and> PTE_FLAGS e \<noteq> PTE_V"
      if "in_pages 0x1000 (unat (1 :: u64)) v" for v
      using that by (simp add: demo_page demo_def demo_translate demo_pte_facts PTE_V_def)
    have "freeable demo [] demo_root 0x80103000"
    proof -
      have "0x80103000 \<notin> tables demo_mem demo_root" unfolding demo_tables by (simp add: demo_root_def)
      then show ?thesis
        by (simp add: freeable_def demo_def kpage_def page_aligned_def PHYSTOP_def KERNELBASE_def)
    qed
    then show "freeable demo [] demo_root p"
      if "p \<in> set (frames (translate (mem demo) demo_root) 0x1000 (unat (1 :: u64)))" for p
      using that by (simp only: F) simp
    show "distinct (frames (translate (mem demo) demo_root) 0x1000 (unat (1 :: u64)))"
      by (simp only: F) simp
  qed (simp_all add: page_aligned_def)
  then show ?thesis by (simp only: F) (simp add: demo_def)
qed

text \<open>(C35) Round trip: mapping unused pages with a leaf permission and unmapping them again
  restores the translation of every address.\<close>

theorem mappages_uvmunmap_roundtrip:
  assumes "pt_ready s ps root" and "page_aligned va" and "n \<noteq> 0" and "unat va + 4096 * unat n \<le> 2 ^ 38"
    and "\<And>v. in_pages va (unat n) v \<Longrightarrow> translate (mem s) root v = None"
    and "\<And>i. PTE_FLAGS (new_pte pa perm i) \<noteq> PTE_V"
    and "mappages root va (n * 4096) pa perm s = Ret 0 t"
  shows "returns (uvmunmap root va n False) t (\<lambda>_ u. translate (mem u) root = translate (mem s) root)"
proof -
  have "\<exists>ps. pt_ready s ps root" using assms(1) by blast
  from pt.map_then_unmap [OF this assms(2-7)] show ?thesis
    by (rule returns_mono) blast+
qed

lemma demo_map3: "mappages demo_root 0x3000 (1 * 4096) 0x80107000 PTE_R demo =
  Ret 0 (demo\<lparr>mem := wr64 demo_mem (pte_slot demo_mem demo_root 0x3000) (new_pte 0x80107000 PTE_R 0)\<rparr>)"
proof -
  have p: "PGROUNDDOWN 0x3000 = 0x3000" "PGROUNDDOWN 0x3FFF = 0x3000"
    by (simp_all add: PGROUNDDOWN_div)
  have tp: "tpath 0x3000 = tpath 0x2000" by (simp add: tpath_def PX_def drop_bit_eq_div)
  have l0: "node (mem demo) demo_root (tpath 0x3000) = Some 0x80102000"
    using demo_node [of "tpath 0x2000", OF good_path_tpath] demo_node2 tp
    by (simp add: demo_def demo_path del: node.simps)
  have va: "(0x3000 :: u64) < MAXVA" by (simp add: MAXVA_def word_less_nat_alt)
  have "translate (mem demo) demo_root 0x3000 = None" by (simp add: demo_def demo_translate p)
  then have "\<not> valid (rd64 (mem demo) (pte_slot (mem demo) demo_root 0x3000))"
    using l0 va by (simp add: translate_def pte_slot_def Let_def not_le [symmetric] split: if_splits)
  moreover have "pte_slot (mem demo) demo_root 0x3000 \<noteq> 0"
    using pte_slot_nz(2) [OF _ l0, of "{}"] demo_ready by (simp add: pt_ready_def)
  ultimately show ?thesis
    using walk_existing [OF demo_ready va l0, of True]
    by (simp add: mappages_def p mappages_loop.simps [of demo_root "0x3000"] kbind_def rd_pte_def wr_pte_def
        on_mem_def new_pte_def) (simp add: demo_def)
qed

theorem mappages_uvmunmap_roundtrip_witness:
  "\<exists>t. mappages demo_root 0x3000 (1 * 4096) 0x80107000 PTE_R demo = Ret 0 t \<and>
    returns (uvmunmap demo_root 0x3000 1 False) t
      (\<lambda>_ u. translate (mem u) demo_root = translate demo_mem demo_root)"
proof -
  have f: "PTE_FLAGS (new_pte 0x80107000 PTE_R i) \<noteq> PTE_V" for i
  proof
    assume "PTE_FLAGS (new_pte 0x80107000 PTE_R i) = PTE_V"
    moreover have "bit (PTE_FLAGS (new_pte 0x80107000 PTE_R i)) 1"
      by (simp add: PTE_FLAGS_def new_pte_def PTE_R_def bit_and_iff bit_or_iff bit_3FF)
    moreover have "\<not> bit PTE_V 1" by (simp add: PTE_V_def)
    ultimately show False by metis
  qed
  from mappages_uvmunmap_roundtrip [OF demo_ready _ _ _ _ f demo_map3]
  show ?thesis using demo_map3 demo_unmapped by (simp add: page_aligned_def) (simp add: demo_def)
qed

end
