(* ===== verification/Usercopy.thy ===== *)
theory Usercopy
  imports AddrSpace
begin

text \<open>
  Copies between kernel buffers and user memory: \<open>walkaddr\<close>, \<open>copyin\<close> and \<open>copyinstr\<close> of
  \<^verbatim>\<open>kernel/vm.c\<close> and \<open>copyoutpg\<close> of \<^verbatim>\<open>kernel/spaceswap.c\<close>. A kernel buffer is an array of
  bytes (a list) with an offset for the moving pointer; a store past its end is a fault.
  The specification is the byte \<open>ubyte m root va\<close> a user load at \<open>va\<close> would return.
\<close>

section \<open>Routines\<close>

lemma walkaddr_dec:
  assumes "walkaddr pt (PGROUNDDOWN va) s = Ret pa t" and "pa \<noteq> 0"
  shows "2 ^ 39 - unat (PGROUNDDOWN va + 4096) < 2 ^ 39 - unat va"
proof -
  have "PGROUNDDOWN va < MAXVA" using assms by (auto simp: walkaddr_def not_le split: if_splits)
  then have lt: "unat va div 4096 * 4096 < 274877906944"
    by (simp add: word_less_nat_alt MAXVA_def page_simps)
  moreover have "unat va < unat va div 4096 * 4096 + 4096"
    using div_mult_mod_eq [of "unat va" 4096] mod_less_divisor [of 4096 "unat va"] by linarith
  ultimately show ?thesis by (simp add: unat_word_ariths page_simps)
qed

text \<open>Every copy cuts its chunk to what is left: \<open>if (n > len) n = len\<close>.\<close>

definition clip :: "u64 \<Rightarrow> u64 \<Rightarrow> u64" where
  "clip n len = (if n > len then len else n)"

lemma unat_clip: "unat (clip n len) = min (unat n) (unat len)"
  by (auto simp: clip_def word_less_nat_alt)

text \<open>\<^verbatim>\<open>spaceswap.c: copyoutpg\<close>. \<open>src\<close> is what the source pointer has before it.\<close>

function copyoutpg :: "u64 \<Rightarrow> u64 \<Rightarrow> u8 list \<Rightarrow> u64 \<Rightarrow> (int, 'z mem_st_scheme) kop" where
  "copyoutpg pagetable dstva src len s =
     (if len > 0 then
        kbind (walkaddr pagetable (PGROUNDDOWN dstva)) (\<lambda>pa0 t.
        if pa0 = 0 then Ret (-1) t
        else
          let n = clip (PGSIZE - (dstva - PGROUNDDOWN dstva)) len in
          if length src < unat n then Fault ''copyoutpg: src''
          else kbind (on_mem (\<lambda>m. wr_bytes m (pa0 + (dstva - PGROUNDDOWN dstva)) (take (unat n) src)))
            (\<lambda>_. copyoutpg pagetable (PGROUNDDOWN dstva + PGSIZE) (drop (unat n) src) (len - n)) t) s
      else Ret 0 s)"
  by pat_completeness auto
termination
  by (relation "measure (\<lambda>(pt, va, src, len, s). 2 ^ 39 - unat va)") (auto dest: walkaddr_dec)

declare copyoutpg.simps [simp del]

text \<open>A kernel array as the target of a copy.\<close>

definition put :: "u8 list \<Rightarrow> nat \<Rightarrow> u8 list \<Rightarrow> u8 list" where
  "put buf i bs = take i buf @ bs @ drop (i + length bs) buf"

text \<open>\<^verbatim>\<open>vm.c: copyin\<close>. The chunk length is written as the source has it, with \<open>srcva + va0\<close>.
  The third parameter of \<open>memmove\<close> is a 32-bit \<open>uint\<close>.\<close>

function copyin ::
  "u64 \<Rightarrow> u8 list \<Rightarrow> nat \<Rightarrow> u64 \<Rightarrow> u64 \<Rightarrow> (int \<times> u8 list, 'z mem_st_scheme) kop" where
  "copyin pagetable dst i srcva len s =
     (if len > 0 then
        kbind (walkaddr pagetable (PGROUNDDOWN srcva)) (\<lambda>pa0 t.
        if pa0 = 0 then Panic ''copyin:pa0 == 0''
        else
          let n = clip (PGSIZE - (srcva + PGROUNDDOWN srcva)) len;
              bs = rd_bytes (mem t) (pa0 + (srcva - PGROUNDDOWN srcva)) (unat (ucast n :: u32)) in
          if length dst < i + length bs then Fault ''copyin: dst''
          else copyin pagetable (put dst i bs) (i + unat n) (PGROUNDDOWN srcva + PGSIZE) (len - n) t) s
      else Ret (0, dst) s)"
  by pat_completeness auto
termination
  by (relation "measure (\<lambda>(pt, dst, i, va, len, s). 2 ^ 39 - unat va)") (auto dest: walkaddr_dec)

declare copyin.simps [simp del]

text \<open>\<^verbatim>\<open>vm.c: copyinstr\<close>. The inner loop copies the bytes \<open>p\<close> of one page up to a NUL; it returns
  whether it met the NUL, and the buffer and offset it leaves.\<close>

fun copyinstr_page :: "u8 list \<Rightarrow> nat \<Rightarrow> u8 list \<Rightarrow> (bool \<times> u8 list \<times> nat) option" where
  "copyinstr_page dst i [] = Some (False, dst, i)"
| "copyinstr_page dst i (c # p) =
     (if length dst \<le> i then None
      else if c = 0 then Some (True, dst[i := 0], i)
      else copyinstr_page (dst[i := c]) (Suc i) p)"

function copyinstr ::
  "u64 \<Rightarrow> u8 list \<Rightarrow> nat \<Rightarrow> u64 \<Rightarrow> u64 \<Rightarrow> (int \<times> u8 list, 'z mem_st_scheme) kop" where
  "copyinstr pagetable dst i srcva max' s =
     (if max' > 0 then
        kbind (walkaddr pagetable (PGROUNDDOWN srcva)) (\<lambda>pa0 t.
        if pa0 = 0 then Ret (-1, dst) t
        else
          let n = clip (PGSIZE - (srcva - PGROUNDDOWN srcva)) max' in
          case copyinstr_page dst i
                 (rd_bytes (mem t) (pa0 + (srcva - PGROUNDDOWN srcva)) (unat n)) of
            None \<Rightarrow> Fault ''copyinstr: dst''
          | Some (got_null, dst', i') \<Rightarrow>
              if got_null then Ret (0, dst') t
              else copyinstr pagetable dst' i' (PGROUNDDOWN srcva + PGSIZE) (max' - n) t) s
      else Ret (-1, dst) s)"
  by pat_completeness auto
termination
  by (relation "measure (\<lambda>(pt, dst, i, va, max', s). 2 ^ 39 - unat va)") (auto dest: walkaddr_dec)

declare copyinstr.simps [simp del]

section \<open>User bytes\<close>

definition uaddr :: "memory \<Rightarrow> u64 \<Rightarrow> u64 \<Rightarrow> u64 option" where
  "uaddr m root va = (case translate m root va of
     Some e \<Rightarrow> if e AND PTE_U \<noteq> 0 \<and> PTE2PA e \<noteq> 0
       then Some (PTE2PA e + (va - PGROUNDDOWN va)) else None
   | None \<Rightarrow> None)"

definition ubyte :: "memory \<Rightarrow> u64 \<Rightarrow> u64 \<Rightarrow> u8 option" where
  "ubyte m root va = map_option m (uaddr m root va)"

lemma page_off: "unat (v - PGROUNDDOWN v) = unat v mod 4096"
proof -
  have "unat (v - PGROUNDDOWN v) = unat v - unat (PGROUNDDOWN v)"
    using PGROUNDDOWN_le [of v] by (simp add: unat_sub)
  then show ?thesis by (simp add: page_simps minus_div_mult_eq_mod)
qed

text \<open>On a mapped user page \<open>walkaddr\<close> returns the frame.\<close>

lemma walkaddr_ok:
  assumes r: "pt_ready s ps root" and a: "uaddr (mem s) root va = Some a"
  obtains pa where "walkaddr root (PGROUNDDOWN va) s = Ret pa s" "pa \<noteq> 0" "page_aligned pa"
    "\<And>v. PGROUNDDOWN v = PGROUNDDOWN va \<Longrightarrow> uaddr (mem s) root v = Some (pa + (v - PGROUNDDOWN v))"
proof -
  let ?va = "PGROUNDDOWN va"
  have wf: "pt_wf (mem s) root (set ps)" using r by (simp add: pt_ready_def)
  obtain e where e: "translate (mem s) root ?va = Some e" "e AND PTE_U \<noteq> 0" "PTE2PA e \<noteq> 0"
    using a translate_same_page [of ?va va] by (auto simp: uaddr_def split: option.splits if_splits)
  then have lt: "?va < MAXVA" by (auto simp: translate_def not_le split: if_splits)
  obtain l0 where l0: "node (mem s) root (tpath ?va) = Some l0"
      and ee: "rd64 (mem s) (pte_slot (mem s) root ?va) = e" "valid e"
    using e(1) by (auto simp: translate_def pte_slot_def Let_def split: if_splits option.splits)
  have "walkaddr root ?va s = Ret (PTE2PA e) s"
    using lt walk_noalloc [OF r lt] pte_slot_nz(2) [OF wf l0] ee e
    by (simp add: walkaddr_def kbind_def rd_pte_def)
  moreover have "uaddr (mem s) root v = Some (PTE2PA e + (v - PGROUNDDOWN v))"
    if "PGROUNDDOWN v = ?va" for v
    using translate_same_page [of v ?va] that e by (simp add: uaddr_def)
  ultimately show thesis using e(3) by (intro that [of "PTE2PA e"]) simp_all
qed

lemma page_off_add:
  assumes "unat v mod 4096 + i < 4096"
  shows "PGROUNDDOWN (v + of_nat i) = PGROUNDDOWN v"
    and "v + of_nat i - PGROUNDDOWN v = (v - PGROUNDDOWN v) + of_nat i"
proof -
  have v: "PGROUNDDOWN v + of_nat (unat v mod 4096) = v" by (simp add: page_off [symmetric])
  have "PGROUNDDOWN v + of_nat (unat v mod 4096 + i) = v + of_nat i"
    by (simp only: of_nat_add add.assoc [symmetric] v)
  then show "PGROUNDDOWN (v + of_nat i) = PGROUNDDOWN v"
    using PGROUNDDOWN_add [OF PGROUNDDOWN_aligned assms, of v] by (simp only:)
qed simp

lemma next_page_off: "PGROUNDDOWN v + 4096 = v + of_nat (4096 - unat v mod 4096)"
proof -
  let ?r = "unat v mod 4096"
  have v: "PGROUNDDOWN v + of_nat ?r = v" by (simp add: page_off [symmetric])
  have "?r + (4096 - ?r) = 4096" using mod_less_divisor [of 4096 "unat v"] by linarith
  then have "(4096 :: u64) = of_nat ?r + of_nat (4096 - ?r)" by (metis of_nat_add of_nat_numeral)
  then have "PGROUNDDOWN v + 4096 = (PGROUNDDOWN v + of_nat ?r) + of_nat (4096 - ?r)"
    by (simp only: add.assoc)
  then show ?thesis by (simp only: v)
qed

lemma chunk_len: "unat (4096 - (v - PGROUNDDOWN v)) = 4096 - unat v mod 4096"
  by (simp add: unat_sub word_le_nat_alt page_off)

text \<open>The bytes of one page, read at its frame, are the user bytes.\<close>

definition ustring :: "memory \<Rightarrow> u64 \<Rightarrow> u64 \<Rightarrow> u8 list \<Rightarrow> bool" where
  "ustring m root va bs \<longleftrightarrow> (\<forall>i < length bs. ubyte m root (va + of_nat i) = Some (bs ! i))"

lemma ustring_Cons_mapped: "ustring m root va bs \<Longrightarrow> bs \<noteq> [] \<Longrightarrow> \<exists>a. uaddr m root va = Some a"
  by (auto simp: ustring_def ubyte_def dest: spec [of _ 0])

lemma ustring_drop:
  "ustring m root va bs \<Longrightarrow> n \<le> length bs \<Longrightarrow> ustring m root (va + of_nat n) (drop n bs)"
  unfolding ustring_def by (auto simp: add.assoc simp flip: of_nat_add)

lemma ustring_take: "ustring m root va bs \<Longrightarrow> ustring m root va (take n bs)"
  by (simp add: ustring_def)

lemma chunk_bytes:
  assumes us: "ustring m root va bs" and n: "length bs \<le> 4096 - unat va mod 4096"
    and pa: "\<And>v. PGROUNDDOWN v = PGROUNDDOWN va \<Longrightarrow> uaddr m root v = Some (pa + (v - PGROUNDDOWN v))"
  shows "rd_bytes m (pa + (va - PGROUNDDOWN va)) (length bs) = bs"
proof (rule nth_equalityI)
  fix i assume "i < length (rd_bytes m (pa + (va - PGROUNDDOWN va)) (length bs))"
  then have i: "i < length bs" by simp
  then have "unat va mod 4096 + i < 4096" using n by linarith
  note p = page_off_add [OF this]
  have "ubyte m root (va + of_nat i) = Some (m (pa + (va - PGROUNDDOWN va) + of_nat i))"
    using pa [OF p(1)] p by (simp add: ubyte_def add.assoc)
  with us i show "rd_bytes m (pa + (va - PGROUNDDOWN va)) (length bs) ! i = bs ! i"
    by (simp add: ustring_def rd_bytes_def)
qed simp

section \<open>What the copies do\<close>

lemma length_put [simp]: "i + length bs \<le> length buf \<Longrightarrow> length (put buf i bs) = length buf"
  by (simp add: put_def)

lemma put_Nil [simp]: "put buf i [] = buf"
  by (simp add: put_def)

lemma put_put:
  "i + length bs + length cs \<le> length buf \<Longrightarrow>
   put (put buf i bs) (i + length bs) cs = put buf i (bs @ cs)"
  by (cases bs) (auto simp: put_def min_def ac_simps)

lemma put_Cons: "i < length buf \<Longrightarrow> put (buf[i := c]) (Suc i) bs = put buf i (c # bs)"
  by (simp add: put_def upd_conv_take_nth_drop min_def add.commute)

lemma copyinstr_page_full:
  "0 \<notin> set p \<Longrightarrow> i + length p \<le> length dst \<Longrightarrow>
   copyinstr_page dst i p = Some (False, put dst i p, i + length p)"
  by (induction dst i p rule: copyinstr_page.induct) (auto simp: put_Cons)

lemma copyinstr_page_null:
  "0 \<notin> set p \<Longrightarrow> i + length p < length dst \<Longrightarrow>
   copyinstr_page dst i (p @ 0 # q) = Some (True, put dst i (p @ [0]), i + length p)"
proof (induction p arbitrary: dst i)
  case Nil
  then show ?case using put_Cons [of i dst 0 "[]"] by simp
qed (simp add: put_Cons)

lemma rd_bytes_take: "n \<le> k \<Longrightarrow> take n (rd_bytes m a k) = rd_bytes m a n"
  by (simp add: rd_bytes_def take_map)

lemma copyinstr_spec:
  assumes "pt_ready s ps root" and "ustring (mem s) root va (str @ [0])" and "0 \<notin> set str"
    and "length str < unat max'" and "i + length str < length dst"
  shows "copyinstr root dst i va max' s = Ret (0, put dst i (str @ [0])) s"
  using assms
proof (induction "length str" arbitrary: str va max' i dst rule: less_induct)
  case less
  obtain a where "uaddr (mem s) root va = Some a"
    using ustring_Cons_mapped [OF less.prems(2)] by auto
  then obtain pa where pa: "walkaddr root (PGROUNDDOWN va) s = Ret pa s" "pa \<noteq> 0"
      "\<And>v. PGROUNDDOWN v = PGROUNDDOWN va \<Longrightarrow> uaddr (mem s) root v = Some (pa + (v - PGROUNDDOWN v))"
    using walkaddr_ok [OF less.prems(1)] by metis
  define k0 where "k0 = 4096 - unat va mod 4096"
  have pos: "0 < k0" by (simp add: k0_def)
  define n where "n = clip (4096 - (va - PGROUNDDOWN va)) max'"
  have n: "unat n = min k0 (unat max')" by (simp add: n_def chunk_len unat_clip k0_def)
  have mx: "max' > 0" using less.prems(4) by (simp add: word_less_nat_alt)
  let ?p = "rd_bytes (mem s) (pa + (va - PGROUNDDOWN va)) (unat n)"
  have run: "copyinstr root dst i va max' s = (case copyinstr_page dst i ?p of
      None \<Rightarrow> Fault ''copyinstr: dst''
    | Some (got_null, dst', i') \<Rightarrow> if got_null then Ret (0, dst') s
        else copyinstr root dst' i' (PGROUNDDOWN va + PGSIZE) (max' - n) s)"
    using mx pa(1,2)
    by (simp add: copyinstr.simps [of root dst i va max' s] kbind_def n_def [symmetric] Let_def)
  show ?case
  proof (cases "length str < k0")
    case True
    then have "take (length (str @ [0])) ?p = str @ [0]"
      using chunk_bytes [OF less.prems(2) _ pa(3)] rd_bytes_take [of "length (str @ [0])" "unat n"]
        n less.prems(4) by (simp add: k0_def [symmetric])
    then obtain q where q: "?p = str @ 0 # q"
      using append_take_drop_id [of "length (str @ [0])" ?p] by (metis append.assoc append_Cons append_Nil)
    have "copyinstr_page dst i ?p = Some (True, put dst i (str @ [0]), i + length str)"
      unfolding q by (rule copyinstr_page_null [OF less.prems(3,5)])
    then show ?thesis using run by simp
  next
    case False
    then have k: "k0 \<le> length str" and nk: "unat n = k0" using n less.prems(4) by simp_all
    have "?p = take k0 str"
    proof -
      have us: "ustring (mem s) root va (take k0 str)"
        using ustring_take [OF less.prems(2), of k0] k by simp
      have len: "length (take k0 str) = k0" using k by simp
      then show ?thesis using chunk_bytes [OF us _ pa(3)] nk by (simp add: k0_def [symmetric])
    qed
    moreover have "copyinstr_page dst i (take k0 str) = Some (False, put dst i (take k0 str), i + k0)"
      using copyinstr_page_full [of "take k0 str" i dst] less.prems(3,5) k
        set_take_subset [of k0 str] by (auto simp: min_absorb2)
    ultimately have "copyinstr root dst i va max' s =
        copyinstr root (put dst i (take k0 str)) (i + k0) (PGROUNDDOWN va + PGSIZE) (max' - n) s"
      using run by simp
    also have "\<dots> = Ret (0, put (put dst i (take k0 str)) (i + k0) (drop k0 str @ [0])) s"
    proof (rule less.hyps)
      show "length (drop k0 str) < length str" using k pos by simp
      show "ustring (mem s) root (PGROUNDDOWN va + PGSIZE) (drop k0 str @ [0])"
        using ustring_drop [OF less.prems(2), of k0] k by (simp add: next_page_off k0_def [symmetric])
      show "0 \<notin> set (drop k0 str)" using less.prems(3) by (auto dest: in_set_dropD)
      have "unat (max' - n) = unat max' - unat n"
        using nk n by (intro unat_sub) (simp add: word_le_nat_alt)
      then show "length (drop k0 str) < unat (max' - n)" using nk less.prems(4) k by simp
      show "i + k0 + length (drop k0 str) < length (put dst i (take k0 str))"
        using less.prems(5) k by (simp add: min_def)
    qed (rule less.prems(1))
    also have "put (put dst i (take k0 str)) (i + k0) (drop k0 str @ [0]) = put dst i (str @ [0])"
      using put_put [of i "take k0 str" "drop k0 str @ [0]" dst] less.prems(5) k
        append_take_drop_id [of k0 str] by (simp add: min_absorb2 flip: append.assoc)
    finally show ?thesis .
  qed
qed

text \<open>\<open>copyin\<close> of a range inside one page: the chunk is the whole range, whichever value the
  page number gives the sum \<open>srcva + va0\<close>.\<close>

lemma copyin_chunk:
  assumes "unat va mod 4096 + unat len \<le> 4096" and "va < MAXVA"
  shows "unat len \<le> unat (4096 - (va + PGROUNDDOWN va))"
proof -
  obtain k where k: "unat (PGROUNDDOWN va) = 4096 * k" using PGROUNDDOWN_aligned page_alignedE by blast
  have va: "unat va = 4096 * k + unat va mod 4096"
    using k div_mult_mod_eq [of "unat va" 4096] by (simp add: page_simps mult.commute)
  have "unat va < 274877906944" using assms(2) by (simp add: word_less_nat_alt MAXVA_def)
  then have sum: "unat (va + PGROUNDDOWN va) = 8192 * k + unat va mod 4096"
    using k va by (simp add: unat_word_ariths)
  show ?thesis
  proof (cases "k = 0")
    case True
    then show ?thesis using sum assms(1) by (simp add: unat_sub_if')
  next
    case False
    then have "\<not> 8192 * k + unat va mod 4096 \<le> 4096" by simp
    moreover have "8192 * k + unat va mod 4096 < 549755813888 + 4096"
      using va \<open>unat va < 274877906944\<close> by linarith
    ultimately show ?thesis using sum assms(1) by (simp add: unat_sub_if')
  qed
qed

lemma copyin_in_page:
  assumes r: "pt_ready s ps root" and us: "ustring (mem s) root va bs"
    and len: "unat len = length bs" and page: "unat va mod 4096 + length bs \<le> 4096"
    and dst: "i + length bs \<le> length dst"
  shows "copyin root dst i va len s = Ret (0, put dst i bs) s"
proof (cases "bs = []")
  case True
  then have "len = 0" using len by (simp add: unat_eq_zero)
  then show ?thesis using True by (simp add: copyin.simps [of root dst i va 0 s])
next
  case False
  obtain a where a: "uaddr (mem s) root va = Some a" using ustring_Cons_mapped [OF us False] by auto
  then obtain pa where pa: "walkaddr root (PGROUNDDOWN va) s = Ret pa s" "pa \<noteq> 0"
      "\<And>v. PGROUNDDOWN v = PGROUNDDOWN va \<Longrightarrow> uaddr (mem s) root v = Some (pa + (v - PGROUNDDOWN v))"
    using walkaddr_ok [OF r] by metis
  have "va < MAXVA" using a by (auto simp: uaddr_def translate_def not_le split: if_splits)
  then have clip: "clip (4096 - (va + PGROUNDDOWN va)) len = len"
    using copyin_chunk [of va len] page len by (simp add: word_unat_eq_iff unat_clip)
  have n: "unat (ucast len :: u32) = length bs"
    using len page by (simp add: unsigned_ucast_eq take_bit_nat_eq_self)
  have "rd_bytes (mem s) (pa + (va - PGROUNDDOWN va)) (length bs) = bs"
    using page by (intro chunk_bytes [OF us _ pa(3)]) simp_all
  moreover have "0 < len" using len False by (simp add: word_less_nat_alt)
  ultimately show ?thesis
    using pa clip n dst len
    by (simp add: copyin.simps [of root dst i va len s] kbind_def Let_def copyin.simps [of root _ _ _ 0])
qed

text \<open>\<open>copyoutpg\<close>. The frames under the target range must hold no table and no free page, and
  different addresses of the range must have different frames bytes; every user page of a
  process satisfies this.\<close>

definition user_range :: "'z mem_st_scheme \<Rightarrow> u64 list \<Rightarrow> u64 \<Rightarrow> u64 \<Rightarrow> nat \<Rightarrow> bool" where
  "user_range s ps root va n \<longleftrightarrow>
     (\<forall>i < n. \<exists>a. uaddr (mem s) root (va + of_nat i) = Some a \<and>
        PGROUNDDOWN a \<notin> tables (mem s) root \<union> set ps) \<and>
     (\<forall>i < n. \<forall>j < n. uaddr (mem s) root (va + of_nat i) = uaddr (mem s) root (va + of_nat j) \<longrightarrow> i = j)"

lemma data_write:
  assumes r: "pt_ready s ps root"
    and fr: "\<And>x. PGROUNDDOWN x \<in> tables (mem s) root \<union> set ps \<Longrightarrow> m' x = mem s x"
  shows "pt_ready (s\<lparr>mem := m'\<rparr>) ps root" "uaddr m' root = uaddr (mem s) root"
    "tables m' root = tables (mem s) root"
proof -
  have wf: "pt_wf (mem s) root (set ps)" and inv: "kmem_inv s ps" using r by (simp_all add: pt_ready_def)
  have n: "node m' root ys = node (mem s) root ys" if "good_path ys" for ys
    using wf _ that by (rule node_frame) (use fr in simp)
  have "kmem_inv (s\<lparr>mem := m'\<rparr>) ps" using inv by (rule kmem_inv_frame) (use fr in simp)
  moreover have "pt_wf m' root (set ps)" using wf n by (rule pt_wf_nodes) auto
  ultimately show "pt_ready (s\<lparr>mem := m'\<rparr>) ps root" by (simp add: pt_ready_def)
  have "translate m' root v = translate (mem s) root v" for v
    using wf by (rule translate_frame) (use fr in simp)
  then show "uaddr m' root = uaddr (mem s) root" by (simp add: uaddr_def fun_eq_iff)
  show "tables m' root = tables (mem s) root" using n by (auto simp: tables_def)
qed

lemma wr_bytes_page:
  assumes "page_aligned pa" and "unat off + length bs \<le> 4096"
  shows "wr_bytes m (pa + off) bs =
    (\<lambda>x. if \<exists>i < length bs. x = pa + off + of_nat i then bs ! unat (x - (pa + off)) else m x)"
    and "i < length bs \<Longrightarrow> wr_bytes m (pa + off) bs (pa + off + of_nat i) = bs ! i"
    and "PGROUNDDOWN x \<noteq> pa \<Longrightarrow> wr_bytes m (pa + off) bs x = m x"
proof -
  have iff: "unat (x - (pa + off)) < length bs \<longleftrightarrow> (\<exists>i < length bs. x = pa + off + of_nat i)" for x
  proof
    assume "unat (x - (pa + off)) < length bs"
    then show "\<exists>i < length bs. x = pa + off + of_nat i"
      by (intro exI [of _ "unat (x - (pa + off))"]) simp
  next
    assume "\<exists>i < length bs. x = pa + off + of_nat i"
    then show "unat (x - (pa + off)) < length bs" using assms(2) by (auto simp: unat_of_nat)
  qed
  have len: "length bs \<le> 2 ^ 64" using assms(2) by simp
  show eq: "wr_bytes m (pa + off) bs =
    (\<lambda>x. if \<exists>i < length bs. x = pa + off + of_nat i then bs ! unat (x - (pa + off)) else m x)"
    by (simp add: wr_bytes_eq [OF len] iff)
  show "wr_bytes m (pa + off) bs (pa + off + of_nat i) = bs ! i" if "i < length bs"
    using that assms(2) by (auto simp: eq unat_of_nat)
  show "wr_bytes m (pa + off) bs x = m x" if "PGROUNDDOWN x \<noteq> pa"
  proof -
    have "\<not> (\<exists>i < length bs. x = pa + off + of_nat i)"
    proof
      assume "\<exists>i < length bs. x = pa + off + of_nat i"
      then obtain i where "i < length bs" "x = pa + of_nat (unat off + i)" by (auto simp: add.assoc)
      then have "PGROUNDDOWN x = pa" using PGROUNDDOWN_add [OF assms(1), of "unat off + i"] assms(2) by simp
      with that show False by simp
    qed
    then show ?thesis unfolding eq by (simp only: if_False)
  qed
qed

lemma copyoutpg_chunk:
  assumes r: "pt_ready s ps root" and ur: "user_range s ps root va (length src)" and ne: "src \<noteq> []"
    and len: "unat len = length src" and n: "n = min (4096 - unat va mod 4096) (length src)"
  obtains t where "copyoutpg root va src len s =
      copyoutpg root (PGROUNDDOWN va + 4096) (drop n src) (len - of_nat n) t"
    "t = s\<lparr>mem := mem t\<rparr>" "pt_ready t ps root" "uaddr (mem t) root = uaddr (mem s) root"
    "tables (mem t) root = tables (mem s) root" "ustring (mem t) root va (take n src)"
    "\<And>x. (\<And>i. i < n \<Longrightarrow> uaddr (mem s) root (va + of_nat i) \<noteq> Some x) \<Longrightarrow> mem t x = mem s x"
proof -
  let ?off = "va - PGROUNDDOWN va"
  obtain a where a: "uaddr (mem s) root va = Some a" "PGROUNDDOWN a \<notin> tables (mem s) root \<union> set ps"
    using ur ne by (auto simp: user_range_def dest: spec [of _ 0])
  obtain pa where pa: "walkaddr root (PGROUNDDOWN va) s = Ret pa s" "pa \<noteq> 0" "page_aligned pa"
    "\<And>v. PGROUNDDOWN v = PGROUNDDOWN va \<Longrightarrow> uaddr (mem s) root v = Some (pa + (v - PGROUNDDOWN v))"
    using walkaddr_ok [OF r a(1)] by metis
  have off: "unat ?off + length (take n src) \<le> 4096"
    using n mod_less_divisor [of 4096 "unat va"] by (simp add: page_off)
  have "unat ?off < 4096" by (simp add: page_off)
  from PGROUNDDOWN_add [OF pa(3) this] have "PGROUNDDOWN (pa + ?off) = pa"
    by (simp only: of_nat_unat ucast_id)
  then have "PGROUNDDOWN a = pa" using a(1) pa(4) [of va] by simp
  then have pn: "pa \<notin> tables (mem s) root \<union> set ps" using a(2) by simp
  let ?m = "wr_bytes (mem s) (pa + ?off) (take n src)"
  note wp = wr_bytes_page [OF pa(3) off, where m = "mem s"]
  have ua: "uaddr (mem s) root (va + of_nat i) = Some (pa + ?off + of_nat i)" if "i < n" for i
  proof -
    have "unat va mod 4096 + i < 4096" using that n by linarith
    from page_off_add [OF this] show ?thesis using pa(4) by (simp add: add.assoc)
  qed
  have fr: "?m x = mem s x" if "PGROUNDDOWN x \<in> tables (mem s) root \<union> set ps" for x
    using that pn wp(3) [of x] by metis
  have dw: "pt_ready (s\<lparr>mem := ?m\<rparr>) ps root" "uaddr ?m root = uaddr (mem s) root"
    "tables ?m root = tables (mem s) root"
    by (rule data_write [OF r]; erule fr)+
  have cl: "clip (4096 - ?off) len = of_nat n" "unat (clip (4096 - ?off) len) = n"
  proof -
    show u: "unat (clip (4096 - ?off) len) = n" by (simp add: unat_clip chunk_len len n)
    then show "clip (4096 - ?off) len = of_nat n" by (metis of_nat_unat ucast_id)
  qed
  have nl: "\<not> length src < n" using n by simp
  have "0 < len" using len ne by (simp add: word_less_nat_alt)
  then have "copyoutpg root va src len s =
      copyoutpg root (PGROUNDDOWN va + 4096) (drop n src) (len - of_nat n) (s\<lparr>mem := ?m\<rparr>)"
    using pa(1,2) nl
    by (simp add: copyoutpg.simps [of root va src len s] kbind_def on_mem_def Let_def cl(2))
      (simp add: cl(1))
  moreover have "ustring ?m root va (take n src)"
    using ua wp(2) unfolding ustring_def ubyte_def dw(2) by simp
  moreover have "?m x = mem s x" if "\<And>i. i < n \<Longrightarrow> uaddr (mem s) root (va + of_nat i) \<noteq> Some x" for x
    using that ua by (auto simp: wp(1))
  ultimately show thesis using dw by (intro that [of "s\<lparr>mem := ?m\<rparr>"]) simp_all
qed

lemma copyoutpg_0 [simp]: "copyoutpg root va src 0 s = Ret 0 s"
  by (simp add: copyoutpg.simps [of root va src 0 s])

lemma copyoutpg_spec:
  assumes "pt_ready s ps root" and "user_range s ps root va (length src)" and "unat len = length src"
  shows "\<exists>t. copyoutpg root va src len s = Ret 0 t \<and> pt_ready t ps root \<and> t = s\<lparr>mem := mem t\<rparr> \<and>
    uaddr (mem t) root = uaddr (mem s) root \<and> ustring (mem t) root va src \<and>
    (\<forall>x. (\<forall>i < length src. uaddr (mem s) root (va + of_nat i) \<noteq> Some x) \<longrightarrow> mem t x = mem s x)"
  using assms
proof (induction "length src" arbitrary: s va src len rule: less_induct)
  case less
  show ?case
  proof (cases "src = []")
    case True
    then have "len = 0" using less.prems(3) by (simp add: unat_eq_zero)
    then show ?thesis using True less.prems(1) by (auto simp: ustring_def)
  next
    case False
    define n where "n = min (4096 - unat va mod 4096) (length src)"
    obtain t where t: "copyoutpg root va src len s =
        copyoutpg root (PGROUNDDOWN va + 4096) (drop n src) (len - of_nat n) t"
      "t = s\<lparr>mem := mem t\<rparr>" "pt_ready t ps root" "uaddr (mem t) root = uaddr (mem s) root"
      "tables (mem t) root = tables (mem s) root" "ustring (mem t) root va (take n src)"
      "\<And>x. (\<And>i. i < n \<Longrightarrow> uaddr (mem s) root (va + of_nat i) \<noteq> Some x) \<Longrightarrow> mem t x = mem s x"
      using copyoutpg_chunk [OF less.prems(1,2) False less.prems(3) n_def] by blast
    have n: "0 < n" "n \<le> length src" using False by (auto simp: n_def)
    have ur1: "\<exists>a. uaddr (mem s) root (va + of_nat i) = Some a \<and>
        PGROUNDDOWN a \<notin> tables (mem s) root \<union> set ps" if "i < length src" for i
      using less.prems(2) that unfolding user_range_def by blast
    have ur2: "i = j" if "uaddr (mem s) root (va + of_nat i) = uaddr (mem s) root (va + of_nat j)"
      "i < length src" "j < length src" for i j
      using less.prems(2) that unfolding user_range_def by blast
    have un: "unat (of_nat n :: u64) = n" using n(2) less.prems(3) unat_lt_2p64 [of len]
      by (simp add: unat_of_nat)
    have len': "unat (len - of_nat n) = length (drop n src)"
      using n(2) less.prems(3) un by (simp add: unat_sub word_le_nat_alt)
    let ?va = "PGROUNDDOWN va + 4096"
    have sh: "?va + of_nat i = va + of_nat (n + i)" if "i < length (drop n src)" for i
    proof -
      have "n = 4096 - unat va mod 4096" using that by (simp add: n_def min_def split: if_splits)
      then have "?va = va + of_nat n" by (simp only: next_page_off)
      then show ?thesis by (simp only: of_nat_add add.assoc)
    qed
    have ur': "user_range t ps root ?va (length (drop n src))"
      unfolding user_range_def t(4,5)
    proof (intro conjI allI impI)
      fix i assume i: "i < length (drop n src)"
      then show "\<exists>a. uaddr (mem s) root (?va + of_nat i) = Some a \<and>
          PGROUNDDOWN a \<notin> tables (mem s) root \<union> set ps"
        unfolding sh [OF i] by (intro ur1) simp
      fix j assume j: "j < length (drop n src)"
        and eq: "uaddr (mem s) root (?va + of_nat i) = uaddr (mem s) root (?va + of_nat j)"
      have "n + i = n + j"
        using eq unfolding sh [OF i] sh [OF j] by (rule ur2) (use i j in simp_all)
      then show "i = j" by simp
    qed
    have "length (drop n src) < length src" using n by simp
    from less.hyps [OF this t(3) ur' len'] obtain u where u: "copyoutpg root ?va (drop n src) (len - of_nat n) t = Ret 0 u"
      "pt_ready u ps root" "u = t\<lparr>mem := mem u\<rparr>" "uaddr (mem u) root = uaddr (mem t) root"
      "ustring (mem u) root ?va (drop n src)"
      "\<And>x. (\<And>i. i < length (drop n src) \<Longrightarrow> uaddr (mem t) root (?va + of_nat i) \<noteq> Some x) \<Longrightarrow>
        mem u x = mem t x"
      by blast
    have keep: "mem u x = mem t x" if "i < n" "uaddr (mem s) root (va + of_nat i) = Some x" for i x
    proof (rule u(6))
      fix j assume j: "j < length (drop n src)"
      show "uaddr (mem t) root (?va + of_nat j) \<noteq> Some x"
      proof
        assume "uaddr (mem t) root (?va + of_nat j) = Some x"
        then have "uaddr (mem s) root (va + of_nat (n + j)) = uaddr (mem s) root (va + of_nat i)"
          using that(2) t(4) by (simp only: sh [OF j])
        then have "n + j = i" by (rule ur2) (use that(1) j n(2) in simp_all)
        with that(1) show False by simp
      qed
    qed
    have "ustring (mem u) root va src"
      unfolding ustring_def
    proof (intro allI impI)
      fix i assume i: "i < length src"
      show "ubyte (mem u) root (va + of_nat i) = Some (src ! i)"
      proof (cases "i < n")
        case True
        then show ?thesis
          using t(6) i keep [OF True] u(4) t(4) by (auto simp: ustring_def ubyte_def)
      next
        case False
        then have j: "i - n < length (drop n src)" using i by simp
        have "ubyte (mem u) root (?va + of_nat (i - n)) = Some (drop n src ! (i - n))"
          using u(5) j unfolding ustring_def by blast
        then show ?thesis unfolding sh [OF j] using False i by simp
      qed
    qed
    moreover have "mem u x = mem s x"
      if "\<forall>i < length src. uaddr (mem s) root (va + of_nat i) \<noteq> Some x" for x
    proof -
      have "mem u x = mem t x"
      proof (rule u(6))
        fix i assume i: "i < length (drop n src)"
        then have "n + i < length src" by simp
        with that show "uaddr (mem t) root (?va + of_nat i) \<noteq> Some x"
          unfolding sh [OF i] t(4) by blast
      qed
      also have "\<dots> = mem s x" using that n(2) by (intro t(7)) simp
      finally show ?thesis .
    qed
    moreover have "u = s\<lparr>mem := mem u\<rparr>" using t(2) u(3) by (rule mem_upd_trans)
    ultimately show ?thesis using t(1,4) u(1,2,4) by auto
  qed
qed

text \<open>Past the first page of the address space the chunk length of \<open>copyin\<close> wraps to a huge number, so
  one \<open>memmove\<close> takes the whole range from consecutive physical addresses.\<close>

lemma copyin_wraps:
  assumes "4096 \<le> unat va" and "va < MAXVA" and "unat len < 2 ^ 32"
  shows "clip (4096 - (va + PGROUNDDOWN va)) len = len"
proof -
  obtain k where k: "unat (PGROUNDDOWN va) = 4096 * k" using PGROUNDDOWN_aligned page_alignedE by blast
  have va: "unat va = 4096 * k + unat va mod 4096"
    using k div_mult_mod_eq [of "unat va" 4096] by (simp add: page_simps mult.commute)
  have lt: "unat va < 274877906944" using assms(2) by (simp add: word_less_nat_alt MAXVA_def)
  then have sum: "unat (va + PGROUNDDOWN va) = 8192 * k + unat va mod 4096"
    using k va by (simp add: unat_word_ariths)
  have r: "unat va mod 4096 < 4096" by simp
  have "1 \<le> k" using assms(1) va r by linarith
  then have "\<not> 8192 * k + unat va mod 4096 \<le> 4096" by simp
  moreover have "8192 * k + unat va mod 4096 < 549755818000" using va lt r by linarith
  ultimately have "unat len \<le> unat (4096 - (va + PGROUNDDOWN va))"
    using sum assms(3) by (simp add: unat_sub_if')
  then show ?thesis by (simp add: word_unat_eq_iff unat_clip)
qed

section \<open>Properties\<close>

text \<open>(C34) \<open>copyinstr\<close> fetches a NUL-terminated string of user memory, across any number of pages, whenever
  it fits into \<open>max\<close> bytes: it returns 0 and the buffer holds the string and its NUL.\<close>

theorem copyinstr_fetches:
  assumes "pt_ready s ps root" and "ustring (mem s) root va (str @ [0])" and "0 \<notin> set str"
    and "length str < unat max'" and "length str < length dst"
  shows "copyinstr root dst 0 va max' s = Ret (0, str @ [0] @ drop (length str + 1) dst) s"
  using copyinstr_spec [OF assms(1-4), of 0 dst] assms(5) by (simp add: put_def)

lemma demo_uaddr:
  "PGROUNDDOWN v = 0x1000 \<Longrightarrow> uaddr demo_mem demo_root v = Some (0x80103000 + (v - 0x1000))"
  "PGROUNDDOWN v = 0x2000 \<Longrightarrow> uaddr demo_mem demo_root v = Some (0x80105000 + (v - 0x2000))"
  by (simp_all add: uaddr_def demo_translate demo_pte_facts)

definition demo_write :: "u64 \<Rightarrow> u8 list \<Rightarrow> mem_st" where
  "demo_write a bs = demo\<lparr>mem := wr_bytes demo_mem a bs\<rparr>"

lemma demo_write_ready:
  assumes "page_aligned pa" "pa = 0x80103000 \<or> pa = 0x80105000" "unat off + length bs \<le> 4096"
  shows "pt_ready (demo_write (pa + off) bs) [] demo_root"
    and "uaddr (mem (demo_write (pa + off) bs)) demo_root = uaddr demo_mem demo_root"
proof -
  have "pa \<notin> tables demo_mem demo_root" unfolding demo_tables using assms(2) by (auto simp: demo_root_def)
  then have fr: "wr_bytes demo_mem (pa + off) bs x = mem demo x"
    if "PGROUNDDOWN x \<in> tables (mem demo) demo_root \<union> set []" for x
    using that wr_bytes_page(3) [OF assms(1,3), of x demo_mem] by (auto simp: demo_def)
  show "pt_ready (demo_write (pa + off) bs) [] demo_root"
    unfolding demo_write_def by (rule data_write [OF demo_ready]) (rule fr)
  have "uaddr (wr_bytes demo_mem (pa + off) bs) demo_root = uaddr (mem demo) demo_root"
    by (rule data_write [OF demo_ready]) (rule fr)
  then show "uaddr (mem (demo_write (pa + off) bs)) demo_root = uaddr demo_mem demo_root"
    by (simp add: demo_write_def demo_def)
qed

lemma demo_write_ustring:
  "ustring (mem (demo_write (0x80103000 + 8) [104, 105, 0])) demo_root 0x1008 [104, 105, 0]"
proof -
  have al: "page_aligned 0x80103000" by (simp add: page_aligned_def)
  have len: "unat (8 :: u64) + length [104, 105, 0 :: u8] \<le> 4096" by simp
  note u = demo_write_ready(2) [OF al disjI1 [OF refl] len]
  have b: "mem (demo_write (0x80103000 + 8) [104, 105, 0]) (0x80103000 + 8 + of_nat i) =
      [104, 105, 0] ! i" if "i < length [104, 105, 0 :: u8]" for i
    using wr_bytes_page(2) [OF al len that, of demo_mem] by (simp add: demo_write_def)
  have "uaddr demo_mem demo_root (0x1008 + of_nat i) = Some (0x80103000 + 8 + of_nat i)"
    if "i < 3" for i
  proof -
    have "PGROUNDDOWN (0x1000 + of_nat (8 + i)) = 0x1000"
      using that by (intro PGROUNDDOWN_add) (simp_all add: page_aligned_def)
    then have "PGROUNDDOWN (0x1008 + of_nat i) = 0x1000" by simp
    from demo_uaddr(1) [OF this] show ?thesis by simp
  qed
  then show ?thesis unfolding ustring_def ubyte_def u using b by auto
qed

theorem copyinstr_fetches_witness:
  "copyinstr demo_root [7, 7, 7, 7, 7] 0 0x1008 10 (demo_write (0x80103000 + 8) [104, 105, 0]) =
    Ret (0, [104, 105, 0, 7, 7]) (demo_write (0x80103000 + 8) [104, 105, 0])"
proof -
  have "pt_ready (demo_write (0x80103000 + 8) [104, 105, 0]) [] demo_root"
    by (rule demo_write_ready) (simp_all add: page_aligned_def)
  from copyinstr_fetches [OF this, where va = "0x1008" and str = "[104, 105]" and max' = 10 and
      dst = "[7, 7, 7, 7, 7]"] demo_write_ustring
  show ?thesis by simp
qed

text \<open>\<open>copyin\<close> of a range that stays inside one page delivers the user bytes.\<close>

theorem copyin_one_page:
  assumes "pt_ready s ps root" and "ustring (mem s) root va bs" and "unat len = length bs"
    and "unat va mod 4096 + length bs \<le> 4096" and "length bs \<le> length dst"
  shows "copyin root dst 0 va len s = Ret (0, bs @ drop (length bs) dst) s"
  using copyin_in_page [OF assms(1-4), of 0 dst] assms(5) by (simp add: put_def)

theorem copyin_one_page_witness:
  "copyin demo_root [7, 7, 7, 7, 7] 0 0x1008 3 (demo_write (0x80103000 + 8) [104, 105, 0]) =
    Ret (0, [104, 105, 0, 7, 7]) (demo_write (0x80103000 + 8) [104, 105, 0])"
proof -
  have "pt_ready (demo_write (0x80103000 + 8) [104, 105, 0]) [] demo_root"
    by (rule demo_write_ready) (simp_all add: page_aligned_def)
  from copyin_one_page [OF this demo_write_ustring, of 3 "[7, 7, 7, 7, 7]"] show ?thesis by simp
qed

text \<open>(C40) For a range above the first page, \<open>copyin\<close> takes all \<open>len\<close> bytes from consecutive physical
  addresses starting at the frame of the first byte (the sum \<open>srcva + va0\<close> makes the chunk length wrap):
  it never looks up the following pages.\<close>

theorem copyin_overruns_page:
  assumes "pt_ready s ps root" and "uaddr (mem s) root va = Some a" and "4096 \<le> unat va"
    and "0 < len" and "unat len < 2 ^ 32" and "unat len \<le> length dst"
  shows "copyin root dst 0 va len s =
    Ret (0, rd_bytes (mem s) a (unat len) @ drop (unat len) dst) s"
proof -
  obtain pa where pa: "walkaddr root (PGROUNDDOWN va) s = Ret pa s" "pa \<noteq> 0"
      "\<And>v. PGROUNDDOWN v = PGROUNDDOWN va \<Longrightarrow> uaddr (mem s) root v = Some (pa + (v - PGROUNDDOWN v))"
    using walkaddr_ok [OF assms(1,2)] by metis
  have a: "a = pa + (va - PGROUNDDOWN va)" using pa(3) [of va] assms(2) by simp
  have "va < MAXVA" using assms(2) by (auto simp: uaddr_def translate_def not_le split: if_splits)
  then have clip: "clip (4096 - (va + PGROUNDDOWN va)) len = len"
    using copyin_wraps assms(3,5) by blast
  have n: "unat (ucast len :: u32) = unat len"
    using assms(5) by (simp add: unsigned_ucast_eq take_bit_nat_eq_self)
  show ?thesis
    using pa clip n assms(4,6)
    by (simp add: copyin.simps [of root dst 0 va len s] kbind_def Let_def a put_def
        copyin.simps [of root _ _ _ 0])
qed

text \<open>A copy of two bytes from the last byte of virtual page 1: the second byte is taken from the frame
  after \<open>0x80103000\<close>, although virtual page 2 is the frame \<open>0x80105000\<close>.\<close>

theorem copyin_overruns_page_witness:
  "uaddr demo_mem demo_root 0x2000 = Some 0x80105000 \<and>
   copyin demo_root [7, 7] 0 0x1FFF 2 demo =
     Ret (0, [demo_mem 0x80103FFF, demo_mem 0x80104000]) demo"
proof -
  have p: "PGROUNDDOWN 0x1FFF = 0x1000" "PGROUNDDOWN 0x2000 = 0x2000"
    by (simp_all add: PGROUNDDOWN_div)
  have u: "uaddr (mem demo) demo_root 0x1FFF = Some 0x80103FFF"
    using demo_uaddr(1) [OF p(1)] by (simp add: demo_def)
  have "rd_bytes (mem demo) 0x80103FFF (unat (2 :: u64)) = [demo_mem 0x80103FFF, demo_mem 0x80104000]"
    by (simp add: rd_bytes_def upt_rec demo_def)
  with copyin_overruns_page [OF demo_ready u, of 2 "[7, 7]"] demo_uaddr(2) [OF p(2)]
  show ?thesis by simp
qed

text \<open>(C25) \<open>copyoutpg\<close> stores its source bytes at consecutive user addresses, across pages: afterwards a user
  load returns them, no translation changes, and no other byte of memory changes.\<close>

theorem copyoutpg_stores:
  assumes "pt_ready s ps root" and "user_range s ps root va (length src)" and "unat len = length src"
  shows "\<exists>t. copyoutpg root va src len s = Ret 0 t \<and> pt_ready t ps root \<and>
    (\<forall>i < length src. ubyte (mem t) root (va + of_nat i) = Some (src ! i)) \<and>
    uaddr (mem t) root = uaddr (mem s) root \<and>
    (\<forall>x. (\<forall>i < length src. uaddr (mem s) root (va + of_nat i) \<noteq> Some x) \<longrightarrow> mem t x = mem s x)"
  using copyoutpg_spec [OF assms] unfolding ustring_def by blast

lemma demo_range: "user_range demo [] demo_root 0x1FFF 2"
proof -
  have p: "PGROUNDDOWN 0x1FFF = 0x1000" "PGROUNDDOWN 0x2000 = 0x2000"
    by (simp_all add: PGROUNDDOWN_div)
  have u: "uaddr (mem demo) demo_root 0x1FFF = Some 0x80103FFF"
    "uaddr (mem demo) demo_root 0x2000 = Some 0x80105000"
    using demo_uaddr(1) [OF p(1)] demo_uaddr(2) [OF p(2)] by (simp_all add: demo_def)
  have q: "PGROUNDDOWN 0x80103FFF \<notin> tables (mem demo) demo_root"
    "PGROUNDDOWN 0x80105000 \<notin> tables (mem demo) demo_root"
    using demo_tables by (simp_all add: demo_def demo_root_def PGROUNDDOWN_div)
  show ?thesis using u q by (auto simp: user_range_def less_2_cases_iff)
qed

theorem copyoutpg_stores_witness:
  "\<exists>t. copyoutpg demo_root 0x1FFF [65, 66] 2 demo = Ret 0 t \<and>
    ubyte (mem t) demo_root 0x1FFF = Some 65 \<and> ubyte (mem t) demo_root 0x2000 = Some 66"
proof -
  have r: "user_range demo [] demo_root 0x1FFF (length [65, 66 :: u8])"
    using demo_range by (simp add: numeral_2_eq_2)
  have l: "unat (2 :: u64) = length [65, 66 :: u8]" by simp
  obtain t where t: "copyoutpg demo_root 0x1FFF [65, 66] 2 demo = Ret 0 t"
    "\<forall>i < length [65, 66 :: u8]. ubyte (mem t) demo_root (0x1FFF + of_nat i) = Some ([65, 66] ! i)"
    using copyoutpg_stores [OF demo_ready r l] by blast
  then show ?thesis using spec [OF t(2), of 0] spec [OF t(2), of 1] by simp
qed

end
