(* ===== verification/Proc.thy ===== *)
theory Proc
  imports Usercopy
begin

text \<open>
  The process table and the scheduler: \<open>struct proc\<close> and \<open>enum procstate\<close> of \<^verbatim>\<open>kernel/proc.h\<close>
  and the scheduling half of \<^verbatim>\<open>kernel/proc.c\<close>. A \<open>struct proc *\<close> into the array \<open>procs\<close> is an
  index; the null pointer is \<open>None\<close>. \<open>swtch\<close> saves one context and loads another, so a routine
  that calls it is modelled in two halves: up to the switch (it ends with outcome \<open>Switch\<close>), and
  from the switch back to the end (\<open>\<dots>_resume\<close>).
  The second part runs several harts and shows which processes can be running where.
\<close>

section \<open>State\<close>

datatype procstate = UNUSED | USED | SLEEPING | RUNNABLE | RUNNING | ZOMBIE

text \<open>Sleep channels are the addresses of kernel objects.\<close>

datatype chan = ProcCh nat | TicksCh | BufCh nat | InodeCh nat | ConsCh | UartCh | DiskFreeCh | DiskBufCh nat

record proc_context =
  ctx_ra :: u64
  ctx_sp :: u64
  ctx_s :: "u64 list"

record proc =
  pstate :: procstate
  pname :: "u8 list"
  pid :: u32
  killed :: int
  xstate :: u32
  parent :: "nat option"
  kstack :: u64
  chan :: "chan option"
  psz :: u64
  trapframe :: u64
  pagetable :: u64
  cont :: proc_context
  openfs :: "nat option list"
  pwd :: "nat option"

record proc_st = mem_st +
  procs :: "proc list"
  nextPid :: u32
  initp :: "nat option"
  ticks :: u32
  ld_forkret :: u64

abbreviation all_procs :: "nat list" where "all_procs \<equiv> [0..<NPROC]"

definition pget :: "nat \<Rightarrow> (proc \<Rightarrow> 'a) \<Rightarrow> ('a, 'z proc_st_scheme) kop" where
  "pget i f = kget (\<lambda>s. f (procs s ! i))"

definition pset :: "nat \<Rightarrow> (proc \<Rightarrow> proc) \<Rightarrow> (unit, 'z proc_st_scheme) kop" where
  "pset i f = kmod (\<lambda>s. s\<lparr>procs := (procs s)[i := f (procs s ! i)]\<rparr>)"

text \<open>The result of \<open>myproc()\<close> when the code goes on to follow it.\<close>

definition thisproc :: "(nat, 'z proc_st_scheme) kop" where
  "thisproc = kbind myproc (\<lambda>p. case p of None \<Rightarrow> kfault ''myproc() is null'' | Some i \<Rightarrow> kret i)"

section \<open>Routines\<close>

definition initproc_one :: "nat \<Rightarrow> (unit, 'z proc_st_scheme) kop" where
  "initproc_one p =
     kthen (initlock (ProcLk p) ''proc'') (pset p (\<lambda>k. k\<lparr>kstack := KSTACK p\<rparr>))"

fun initproc_loop :: "nat list \<Rightarrow> (unit, 'z proc_st_scheme) kop" where
  "initproc_loop [] = kret ()"
| "initproc_loop (p # ps) = kthen (initproc_one p) (initproc_loop ps)"

definition initproc :: "(unit, 'z proc_st_scheme) kop" where
  "initproc =
     kthen (initlock PidLk ''nextpid'') (
     kthen (initlock WaitLk ''wait_lock'') (initproc_loop all_procs))"

definition allocpid :: "(u32, 'z proc_st_scheme) kop" where
  "allocpid =
     kthen (acquire PidLk) (
     kbind (kget nextPid) (\<lambda>pid.
     kthen (kmod (\<lambda>s. s\<lparr>nextPid := nextPid s + 1\<rparr>)) (
     kthen (release PidLk) (kret pid))))"

text \<open>\<open>wakeup\<close>; a null channel is \<open>None\<close>.\<close>

definition wakeup_one :: "chan option \<Rightarrow> nat \<Rightarrow> (unit, 'z proc_st_scheme) kop" where
  "wakeup_one ch p =
     kbind myproc (\<lambda>me.
     kwhen (me \<noteq> Some p) (
       kthen (acquire (ProcLk p)) (
       kthen (kbind (pget p (\<lambda>k. pstate k = SLEEPING \<and> chan k = ch)) (\<lambda>b.
              kwhen b (pset p (\<lambda>k. k\<lparr>pstate := RUNNABLE\<rparr>)))) (
       release (ProcLk p)))))"

fun wakeup_loop :: "chan option \<Rightarrow> nat list \<Rightarrow> (unit, 'z proc_st_scheme) kop" where
  "wakeup_loop ch [] = kret ()"
| "wakeup_loop ch (p # ps) = kthen (wakeup_one ch p) (wakeup_loop ch ps)"

definition wakeup :: "chan option \<Rightarrow> (unit, 'z proc_st_scheme) kop" where
  "wakeup ch = wakeup_loop ch all_procs"

text \<open>\<open>sched\<close> up to \<open>swtch\<close>, and from the switch back on; \<open>intena\<close> lives on the process's stack
  across the switch.\<close>

definition sched :: "(unit, 'z proc_st_scheme) kop" where
  "sched =
     kbind thisproc (\<lambda>p.
     kbind (holdinglock (ProcLk p)) (\<lambda>h.
     if \<not> h then kpanic ''sched holdinglock''
     else kbind (pget p pstate) (\<lambda>st.
     if st = RUNNING then kpanic ''sched p.state is Running''
     else kbind intr_get (\<lambda>on.
     if on then kpanic ''sched interruptible''
     else (\<lambda>s. Switch s)))))"

definition sched_resume :: "bool \<Rightarrow> (unit, 'z proc_st_scheme) kop" where
  "sched_resume ie = kbind mycpu (\<lambda>c. on_cpu c (\<lambda>k. k\<lparr>intena := ie\<rparr>))"

definition sleep :: "chan \<Rightarrow> lockid \<Rightarrow> (unit, 'z proc_st_scheme) kop" where
  "sleep ch lk =
     kbind thisproc (\<lambda>pc.
     kthen (acquire (ProcLk pc)) (
     kthen (release lk) (
     kthen (pset pc (\<lambda>k. k\<lparr>chan := Some ch\<rparr>)) (
     kthen (pset pc (\<lambda>k. k\<lparr>pstate := SLEEPING\<rparr>)) sched))))"

definition sleep_resume :: "nat \<Rightarrow> bool \<Rightarrow> lockid \<Rightarrow> (unit, 'z proc_st_scheme) kop" where
  "sleep_resume pc ie lk =
     kthen (sched_resume ie) (
     kthen (pset pc (\<lambda>k. k\<lparr>chan := None\<rparr>)) (
     kthen (release (ProcLk pc)) (acquire lk)))"

definition yield :: "(unit, 'z proc_st_scheme) kop" where
  "yield =
     kbind thisproc (\<lambda>p.
     kthen (acquire (ProcLk p)) (
     kthen (pset p (\<lambda>k. k\<lparr>pstate := RUNNABLE\<rparr>)) sched))"

definition yield_resume :: "nat \<Rightarrow> bool \<Rightarrow> (unit, 'z proc_st_scheme) kop" where
  "yield_resume p ie = kthen (sched_resume ie) (release (ProcLk p))"

text \<open>\<open>scheduler\<close>: the start, one turn of its inner loop up to \<open>swtch\<close>, and the rest of the turn
  when the process switches back.\<close>

definition scheduler_start :: "(nat, 'z proc_st_scheme) kop" where
  "scheduler_start =
     kbind mycpu (\<lambda>c. kthen (on_cpu c (\<lambda>k. k\<lparr>cpu_p := None\<rparr>)) (kret c))"

definition scheduler_turn :: "nat \<Rightarrow> nat \<Rightarrow> (unit, 'z proc_st_scheme) kop" where
  "scheduler_turn c p =
     kthen (acquire (ProcLk p)) (
     kbind (pget p pstate) (\<lambda>st.
     if st = RUNNABLE then
       kthen (pset p (\<lambda>k. k\<lparr>pstate := RUNNING\<rparr>)) (
       kthen (on_cpu c (\<lambda>k. k\<lparr>cpu_p := Some p\<rparr>)) (\<lambda>s. Switch s))
     else release (ProcLk p)))"

definition scheduler_back :: "nat \<Rightarrow> nat \<Rightarrow> (unit, 'z proc_st_scheme) kop" where
  "scheduler_back c p =
     kthen (on_cpu c (\<lambda>k. k\<lparr>cpu_p := None\<rparr>)) (release (ProcLk p))"

definition freeproc :: "nat \<Rightarrow> (unit, 'z proc_st_scheme) kop" where
  "freeproc p =
     kbind (pget p trapframe) (\<lambda>tf.
     kthen (kwhen (tf \<noteq> 0) (kfree tf)) (
     pset p (\<lambda>k. k\<lparr>trapframe := 0, pid := 0, chan := None, parent := None,
       pname := (pname k)[0 := 0], killed := 0, pstate := UNUSED\<rparr>)))"

definition proc_pagetable :: "nat \<Rightarrow> (u64, 'z proc_st_scheme) kop" where
  "proc_pagetable p =
     kbind uvmcreate (\<lambda>pagetable.
     if pagetable = 0 then kpanic ''proc_pagetable: uvmcreate''
     else kbind (kget ld_trampoline) (\<lambda>trampoline.
     kbind (mappages pagetable TRAMPOLINE PGSIZE trampoline (PTE_R OR PTE_X)) (\<lambda>r1.
     if r1 < 0 then kpanic ''------proc_pagetable : trampoline''
     else kbind (pget p trapframe) (\<lambda>tf.
     kbind (mappages pagetable TRAPFRAME PGSIZE tf (PTE_R OR PTE_W)) (\<lambda>r2.
     if r2 < 0 then kpanic ''------proc_pagetable : p->trapframe''
     else kret pagetable)))))"

text \<open>\<open>allocproc\<close>; it returns with the lock of the new process held.\<close>

fun allocproc_loop :: "nat list \<Rightarrow> (nat option, 'z proc_st_scheme) kop" where
  "allocproc_loop [] = kret None"
| "allocproc_loop (p # ps) =
     kthen (acquire (ProcLk p)) (
     kbind (pget p pstate) (\<lambda>st.
     if st = UNUSED then
       kbind allocpid (\<lambda>n.
       kthen (pset p (\<lambda>k. k\<lparr>pid := n\<rparr>)) (
       kthen (pset p (\<lambda>k. k\<lparr>pstate := USED\<rparr>)) (
       kbind kalloc (\<lambda>tf.
       kthen (pset p (\<lambda>k. k\<lparr>trapframe := tf\<rparr>)) (
       if tf = 0 then kpanic ''alloc p->trapframe panic...''
       else kbind (proc_pagetable p) (\<lambda>pt.
       kthen (pset p (\<lambda>k. k\<lparr>pagetable := pt\<rparr>)) (
       if pt = 0 then
         kthen (freeproc p) (kthen (release (ProcLk p)) (kpanic ''alloproc proc_pagetable alloced panic''))
       else kbind (kget ld_forkret) (\<lambda>fr.
         kthen (pset p (\<lambda>k. k\<lparr>cont := \<lparr>ctx_ra = fr, ctx_sp = kstack k + PGSIZE,
           ctx_s = replicate 12 0\<rparr>\<rparr>)) (kret (Some p))))))))))
     else kthen (release (ProcLk p)) (allocproc_loop ps)))"

definition allocproc :: "(nat option, 'z proc_st_scheme) kop" where
  "allocproc = allocproc_loop all_procs"

text \<open>\<open>growproc\<close>. The local \<open>sz\<close> is a 32-bit \<open>uint\<close>; the first branch compares it with the
  result of \<open>uvmalloc\<close> (\<open>==\<close>) instead of assigning it.\<close>

definition growproc :: "u32 \<Rightarrow> (int, 'z proc_st_scheme) kop" where
  "growproc n =
     kbind thisproc (\<lambda>p.
     kbind (pget p (\<lambda>k. ucast (psz k) :: u32)) (\<lambda>sz.
     kbind (pget p pagetable) (\<lambda>pt.
     if sint n > 0 then
       kbind (uvmalloc pt (ucast sz) (ucast (sz + n))) (\<lambda>r.
       if \<not> (ucast sz = r) then kret (-1)
       else kthen (pset p (\<lambda>k. k\<lparr>psz := ucast sz\<rparr>)) (kret 0))
     else if sint n < 0 then
       kbind (uvmalloc pt (ucast sz) (ucast (sz + n))) (\<lambda>r.
       kthen (pset p (\<lambda>k. k\<lparr>psz := ucast (ucast r :: u32)\<rparr>)) (kret 0))
     else kthen (pset p (\<lambda>k. k\<lparr>psz := ucast sz\<rparr>)) (kret 0))))"

fun reparent_loop :: "nat \<Rightarrow> nat list \<Rightarrow> (unit, 'z proc_st_scheme) kop" where
  "reparent_loop p [] = kret ()"
| "reparent_loop p (pp # ps) =
     kbind (pget pp parent) (\<lambda>par.
     kthen (kwhen (par = Some p) (
       kbind (kget initp) (\<lambda>ip.
       kthen (pset pp (\<lambda>k. k\<lparr>parent := ip\<rparr>)) (wakeup (map_option ProcCh ip)))))
     (reparent_loop p ps))"

definition reparent :: "nat \<Rightarrow> (unit, 'z proc_st_scheme) kop" where
  "reparent p = reparent_loop p all_procs"

section \<open>wakeup, sleep and yield\<close>

definition wake :: "chan option \<Rightarrow> proc \<Rightarrow> proc" where
  "wake ch k = (if pstate k = SLEEPING \<and> chan k = ch then k\<lparr>pstate := RUNNABLE\<rparr> else k)"

definition cur :: "'z spin_st_scheme \<Rightarrow> nat option" where
  "cur s = cpu_p (cpus s ! hart s)"

lemma thisproc_ok [kstep]:
  assumes "cpu_ok (hart s) (cpus s)" and "cur s = Some p"
  shows "thisproc s = Ret p s"
  using assms by (simp add: thisproc_def kbind_def myproc_ok cur_def)

lemma wakeup_one_ok:
  assumes "cpu_ok (hart s) (cpus s)" and "cur s \<noteq> Some p \<Longrightarrow> free_lock (locks s) (ProcLk p)"
  shows "wakeup_one ch p s = Ret () (if cur s = Some p then s
    else s\<lparr>procs := (procs s)[p := wake ch (procs s ! p)]\<rparr>)"
  using assms
  by (simp add: wakeup_one_def kbind_def myproc_ok cur_def acquire_free release_held cpu_ok_hart
      pget_def pset_def wake_def kwhen_def)

lemma wakeup_loop_ok:
  assumes "cpu_ok (hart s) (cpus s)" and "distinct ps"
    and "\<And>p. p \<in> set ps \<Longrightarrow> cur s \<noteq> Some p \<Longrightarrow> free_lock (locks s) (ProcLk p)"
  shows "\<exists>ks. wakeup_loop ch ps s = Ret () (s\<lparr>procs := ks\<rparr>) \<and> length ks = length (procs s) \<and>
    (\<forall>i < length ks. ks ! i =
      (if i \<in> set ps \<and> cur s \<noteq> Some i then wake ch (procs s ! i) else procs s ! i))"
  using assms
proof (induction ps arbitrary: s)
  case Nil
  then show ?case by (intro exI [of _ "procs s"]) simp
next
  case (Cons p ps)
  let ?k = "if cur s = Some p then procs s else (procs s)[p := wake ch (procs s ! p)]"
  let ?t = "s\<lparr>procs := ?k\<rparr>"
  have one: "wakeup_one ch p s = Ret () ?t"
    using wakeup_one_ok [of s p ch] Cons.prems by auto
  obtain ks where ks: "wakeup_loop ch ps ?t = Ret () (?t\<lparr>procs := ks\<rparr>)" "length ks = length ?k"
    "\<And>i. i < length ks \<Longrightarrow> ks ! i =
      (if i \<in> set ps \<and> cur s \<noteq> Some i then wake ch (?k ! i) else ?k ! i)"
    using Cons.IH [of ?t] Cons.prems by (auto simp: cur_def)
  have "wakeup_loop ch (p # ps) s = Ret () (s\<lparr>procs := ks\<rparr>)"
    using one ks(1) by (simp add: kbind_def)
  moreover have "ks ! i = (if i \<in> set (p # ps) \<and> cur s \<noteq> Some i then wake ch (procs s ! i) else procs s ! i)"
    if "i < length ks" for i
    using ks(3) [OF that] Cons.prems(2) that ks(2)
    by (cases "i = p") (auto simp: nth_list_update_neq [symmetric])
  ultimately show ?case using ks(2) by (intro exI [of _ ks]) auto
qed

lemma wakeup_ok:
  assumes "cpu_ok (hart s) (cpus s)" and "length (procs s) = NPROC"
    and "\<And>p. p < NPROC \<Longrightarrow> cur s \<noteq> Some p \<Longrightarrow> free_lock (locks s) (ProcLk p)"
  obtains ks where "wakeup ch s = Ret () (s\<lparr>procs := ks\<rparr>)" "length ks = NPROC"
    "\<And>i. i < NPROC \<Longrightarrow> ks ! i = (if cur s = Some i then procs s ! i else wake ch (procs s ! i))"
proof -
  have "\<exists>ks. wakeup_loop ch all_procs s = Ret () (s\<lparr>procs := ks\<rparr>) \<and> length ks = length (procs s) \<and>
    (\<forall>i < length ks. ks ! i =
      (if i \<in> set all_procs \<and> cur s \<noteq> Some i then wake ch (procs s ! i) else procs s ! i))"
    using assms by (intro wakeup_loop_ok) simp_all
  then show thesis using that assms(2) by (auto simp: wakeup_def)
qed

text \<open>\<open>sleep\<close> gives up \<open>lk\<close> only once it holds the lock of its own process, and hands that lock to the
  scheduler.\<close>

lemma sched_switch:
  assumes "hart s < length (cpus s)" and "cur s = Some p" and "cpu_ok (hart s) (cpus s)"
    and "held_by (hart s) (locks s) (ProcLk p)" and "pstate (procs s ! p) \<noteq> RUNNING"
    and "\<not> sie (cpus s ! hart s)"
  shows "sched s = Switch s"
  using assms
  by (simp add: sched_def kbind_def thisproc_ok holdinglock_ok pget_def intr_get_def mycpu_ok sie_def)

lemma sleep_ok:
  assumes ok: "cpu_ok (hart s) (cpus s)" and p: "cur s = Some p" "p < length (procs s)"
    and free: "free_lock (locks s) (ProcLk p)" and lk: "held_by (hart s) (locks s) lk" "lk \<noteq> ProcLk p"
    and n: "1 \<le> noff (cpus s ! hart s)"
  shows "sleep ch lk s = Switch (s\<lparr>cpus := popc (hart s) (pushc (hart s) (cpus s)),
    locks := lock_off lk (lock_on (hart s) (ProcLk p) (locks s)),
    procs := (procs s)[p := (procs s ! p)\<lparr>chan := Some ch, pstate := SLEEPING\<rparr>]\<rparr>)"
proof -
  have h: "hart s < length (cpus s)" using ok by (rule cpu_ok_hart)
  let ?a = "s\<lparr>cpus := pushc (hart s) (cpus s), locks := lock_on (hart s) (ProcLk p) (locks s)\<rparr>"
  have acq: "acquire (ProcLk p) s = Ret () ?a" using ok free by (rule acquire_free)
  have rel: "release lk ?a = Ret () (?a\<lparr>locks := lock_off lk (locks ?a), cpus := popc (hart s) (cpus ?a)\<rparr>)"
    using release_held [of ?a lk] lk ok h by simp
  have cp: "popc (hart s) (pushc (hart s) (cpus s)) = cpus s" using ok by simp
  have off: "\<not> sie (cpus s ! hart s)" using ok n by (auto simp: cpu_ok_def split: if_splits)
  let ?b = "s\<lparr>cpus := cpus s, locks := lock_off lk (lock_on (hart s) (ProcLk p) (locks s)),
    procs := (procs s)[p := (procs s ! p)\<lparr>chan := Some ch, pstate := SLEEPING\<rparr>]\<rparr>"
  have "sched ?b = Switch ?b"
    using ok p off lk(2) h by (intro sched_switch [where p = p]) (simp_all add: cur_def)
  then show ?thesis
    using acq rel p cp ok by (simp add: sleep_def kbind_def thisproc_ok pset_def)
qed

section \<open>Several harts\<close>

text \<open>The last steps of \<open>fork\<close> and of \<open>exit\<close> on the process table.\<close>

definition fork_publish :: "nat \<Rightarrow> (unit, 'z proc_st_scheme) kop" where
  "fork_publish p =
     kthen (acquire (ProcLk p)) (
     kthen (pset p (\<lambda>k. k\<lparr>pstate := RUNNABLE\<rparr>)) (release (ProcLk p)))"

definition exit_zombie :: "nat \<Rightarrow> u32 \<Rightarrow> (unit, 'z proc_st_scheme) kop" where
  "exit_zombie p n =
     kthen (acquire (ProcLk p)) (
     kthen (pset p (\<lambda>k. k\<lparr>xstate := n\<rparr>)) (
     kthen (pset p (\<lambda>k. k\<lparr>pstate := ZOMBIE\<rparr>)) (
     kthen (release WaitLk) sched)))"

text \<open>A process resumes where it gave up the hart: in \<open>yield\<close>, in \<open>sleep\<close>, or, the first time, in
  \<open>forkret\<close>, which starts by releasing the lock the scheduler took.\<close>

inductive resumes :: "nat \<Rightarrow> proc_st \<Rightarrow> proc_st \<Rightarrow> bool" where
  "yield_resume p ie t = Ret () u \<Longrightarrow> resumes p t u"
| "sleep_resume p ie lk t = Ret () u \<Longrightarrow> \<forall>q. lk \<noteq> ProcLk q \<Longrightarrow> resumes p t u"
| "release (ProcLk p) t = Ret () u \<Longrightarrow> resumes p t u"

text \<open>The steps of the machine. \<open>m_table\<close> stands for every critical section on the lock of a
  process that is not running, such as those of \<open>allocproc\<close>, \<open>freeproc\<close> and \<open>fork\<close>.\<close>

inductive mstep :: "proc_st \<Rightarrow> proc_st \<Rightarrow> bool" where
  m_dispatch: "h < length (cpus s) \<Longrightarrow> p < NPROC \<Longrightarrow> cpu_p (cpus s ! h) = None \<Longrightarrow>
    scheduler_turn h p (s\<lparr>hart := h\<rparr>) = Switch t \<Longrightarrow> resumes p t u \<Longrightarrow> mstep s u"
| m_skip: "h < length (cpus s) \<Longrightarrow> p < NPROC \<Longrightarrow> cpu_p (cpus s ! h) = None \<Longrightarrow>
    scheduler_turn h p (s\<lparr>hart := h\<rparr>) = Ret () u \<Longrightarrow> mstep s u"
| m_yield: "h < length (cpus s) \<Longrightarrow> cpu_p (cpus s ! h) = Some p \<Longrightarrow>
    yield (s\<lparr>hart := h\<rparr>) = Switch t \<Longrightarrow>
    scheduler_back h p t = Ret () u \<Longrightarrow> mstep s u"
| m_sleep: "h < length (cpus s) \<Longrightarrow> cpu_p (cpus s ! h) = Some p \<Longrightarrow> \<forall>q. lk \<noteq> ProcLk q \<Longrightarrow>
    sleep ch lk (s\<lparr>hart := h\<rparr>) = Switch t \<Longrightarrow>
    scheduler_back h p t = Ret () u \<Longrightarrow> mstep s u"
| m_exit: "h < length (cpus s) \<Longrightarrow> cpu_p (cpus s ! h) = Some p \<Longrightarrow>
    exit_zombie p n (s\<lparr>hart := h\<rparr>) = Switch t \<Longrightarrow>
    scheduler_back h p t = Ret () u \<Longrightarrow> mstep s u"
| m_wakeup: "h < length (cpus s) \<Longrightarrow> wakeup_one ch p (s\<lparr>hart := h\<rparr>) = Ret () u \<Longrightarrow> mstep s u"
| m_table: "h < length (cpus s) \<Longrightarrow> acquire (ProcLk p) (s\<lparr>hart := h\<rparr>) = Ret () a \<Longrightarrow>
    pstate (procs a ! p) \<noteq> RUNNING \<Longrightarrow> pstate k \<noteq> RUNNING \<Longrightarrow>
    release (ProcLk p) (a\<lparr>procs := (procs a)[p := k]\<rparr>) = Ret () u \<Longrightarrow> mstep s u"
| m_lock: "h < length (cpus s) \<Longrightarrow> \<forall>q. lk \<noteq> ProcLk q \<Longrightarrow>
    acquire lk (s\<lparr>hart := h\<rparr>) = Ret () u \<or> release lk (s\<lparr>hart := h\<rparr>) = Ret () u \<Longrightarrow> mstep s u"

text \<open>What the invariant looks at: who runs on each hart, the process table and the process locks.\<close>

definition running_on :: "'z spin_st_scheme \<Rightarrow> nat option list" where
  "running_on s = map cpu_p (cpus s)"

definition sched_inv :: "proc_st \<Rightarrow> bool" where
  "sched_inv s \<longleftrightarrow> length (procs s) = NPROC \<and> (\<forall>p. locked (locks s (ProcLk p)) = 0) \<and>
     (\<forall>h < length (cpus s). \<forall>p. running_on s ! h = Some p \<longrightarrow>
        p < NPROC \<and> pstate (procs s ! p) = RUNNING) \<and>
     (\<forall>h < length (cpus s). \<forall>g < length (cpus s). \<forall>p.
        running_on s ! h = Some p \<and> running_on s ! g = Some p \<longrightarrow> h = g) \<and>
     (\<forall>p < NPROC. pstate (procs s ! p) = RUNNING \<longrightarrow> (\<exists>h < length (cpus s). running_on s ! h = Some p))"

text \<open>\<open>effect s u h cp ks\<close>: seen through \<open>sched_inv\<close>, the step wrote \<open>cp\<close> on hart \<open>h\<close> and the table \<open>ks\<close>.\<close>

definition effect :: "proc_st \<Rightarrow> proc_st \<Rightarrow> nat \<Rightarrow> nat option \<Rightarrow> proc list \<Rightarrow> bool" where
  "effect s u h cp ks \<longleftrightarrow> length (cpus u) = length (cpus s) \<and> running_on u = (running_on s)[h := cp] \<and>
     procs u = ks \<and> (\<forall>p. locked (locks u (ProcLk p)) = 0)"

lemma effect_idle:
  assumes "sched_inv s" and "effect s u h (running_on s ! h) ks" and "length ks = NPROC"
    and "\<And>p. p < NPROC \<Longrightarrow> pstate (ks ! p) = RUNNING \<longleftrightarrow> pstate (procs s ! p) = RUNNING"
  shows "sched_inv u"
  using assms unfolding effect_def sched_inv_def by simp

lemma effect_leave:
  assumes inv: "sched_inv s" and "effect s u h None (procs u)" and h: "h < length (cpus s)"
    and p: "running_on s ! h = Some p" and st: "pstate (procs u ! p) \<noteq> RUNNING"
    and other: "\<And>q. q < NPROC \<Longrightarrow> q \<noteq> p \<Longrightarrow> procs u ! q = procs s ! q" and len: "length (procs u) = NPROC"
  shows "sched_inv u"
proof -
  have e: "length (cpus u) = length (cpus s)" "running_on u = (running_on s)[h := None]"
    "\<And>p. locked (locks u (ProcLk p)) = 0" using assms(2) by (auto simp: effect_def)
  have l: "h < length (running_on s)" using h by (simp add: running_on_def)
  have on: "running_on u ! g = (if g = h then None else running_on s ! g)" for g
    using e(2) l by (cases "g = h") simp_all
  have uniq: "g = h" if "running_on s ! g = Some p" "g < length (cpus s)" for g
    using inv that h p unfolding sched_inv_def by blast
  have 1: "q < NPROC \<and> pstate (procs u ! q) = RUNNING"
    if "g < length (cpus s)" "running_on u ! g = Some q" for g q
  proof -
    have s: "running_on s ! g = Some q" "g \<noteq> h" using that(2) by (auto simp: on split: if_splits)
    then have "q \<noteq> p" using uniq that(1) by blast
    then show ?thesis using inv that(1) s(1) other [of q] unfolding sched_inv_def by auto
  qed
  have 2: "\<exists>g < length (cpus s). running_on u ! g = Some q"
    if q: "q < NPROC" "pstate (procs u ! q) = RUNNING" for q
  proof -
    have "q \<noteq> p" using q(2) st by blast
    then have "pstate (procs s ! q) = RUNNING" using q other by simp
    then obtain g where "g < length (cpus s)" "running_on s ! g = Some q"
      using inv q(1) unfolding sched_inv_def by blast
    then show ?thesis using \<open>q \<noteq> p\<close> p by (intro exI [of _ g]) (auto simp: on)
  qed
  have 3: "g = g'" if "g < length (cpus s)" "g' < length (cpus s)"
      "running_on u ! g = Some q" "running_on u ! g' = Some q" for g g' q
    using that inv unfolding sched_inv_def by (auto simp: on split: if_splits)
  show ?thesis unfolding sched_inv_def e(1) using len e(3) 1 2 3 by blast
qed

lemma effect_enter:
  assumes inv: "sched_inv s" and "effect s u h (Some p) (procs u)" and h: "h < length (cpus s)"
    and idle: "running_on s ! h = None" and p: "p < NPROC" "pstate (procs s ! p) \<noteq> RUNNING"
    and st: "pstate (procs u ! p) = RUNNING"
    and other: "\<And>q. q < NPROC \<Longrightarrow> q \<noteq> p \<Longrightarrow> procs u ! q = procs s ! q" and len: "length (procs u) = NPROC"
  shows "sched_inv u"
proof -
  have e: "length (cpus u) = length (cpus s)" "running_on u = (running_on s)[h := Some p]"
    "\<And>p. locked (locks u (ProcLk p)) = 0" using assms(2) by (auto simp: effect_def)
  have l: "h < length (running_on s)" using h by (simp add: running_on_def)
  have on: "running_on u ! g = (if g = h then Some p else running_on s ! g)" for g
    using e(2) l by (cases "g = h") simp_all
  have none: "running_on s ! g \<noteq> Some p" if "g < length (cpus s)" for g
    using inv that p unfolding sched_inv_def by blast
  have 1: "q < NPROC \<and> pstate (procs u ! q) = RUNNING"
    if "g < length (cpus s)" "running_on u ! g = Some q" for g q
  proof (cases "g = h")
    case True
    then show ?thesis using that(2) p(1) st by (simp add: on)
  next
    case False
    then have s: "running_on s ! g = Some q" using that(2) by (simp add: on)
    then have "q \<noteq> p" using none that(1) by blast
    then show ?thesis using inv that(1) s other [of q] unfolding sched_inv_def by auto
  qed
  have 2: "\<exists>g < length (cpus s). running_on u ! g = Some q"
    if q: "q < NPROC" "pstate (procs u ! q) = RUNNING" for q
  proof (cases "q = p")
    case True
    then show ?thesis using h by (intro exI [of _ h]) (simp add: on)
  next
    case False
    then have "pstate (procs s ! q) = RUNNING" using q other by simp
    then obtain g where "g < length (cpus s)" "running_on s ! g = Some q"
      using inv q(1) unfolding sched_inv_def by blast
    then show ?thesis using idle by (intro exI [of _ g]) (auto simp: on)
  qed
  have 3: "g = g'" if "g < length (cpus s)" "g' < length (cpus s)"
      "running_on u ! g = Some q" "running_on u ! g' = Some q" for g g' q
    using that inv none unfolding sched_inv_def by (auto simp: on split: if_splits)
  show ?thesis unfolding sched_inv_def e(1) using len e(3) 1 2 3 by blast
qed

text \<open>A critical section on the entry of a process that is not running.\<close>

lemma critical_inv:
  assumes inv: "sched_inv s" and "length (cpus u) = length (cpus s)" and "running_on u = running_on s"
    and "procs u = (procs s)[p := k]" and "pstate k = RUNNING \<longleftrightarrow> pstate (procs s ! p) = RUNNING"
    and "\<And>q. locked (locks u (ProcLk q)) = 0 \<or> locked (locks u (ProcLk q)) = locked (locks s (ProcLk q))"
  shows "sched_inv u"
proof (rule effect_idle [OF inv])
  have "locked (locks u (ProcLk q)) = 0" for q using assms(6) [of q] inv by (auto simp: sched_inv_def)
  then show "effect s u 0 (running_on s ! 0) ((procs s)[p := k])"
    using assms(2-4) by (simp add: effect_def)
  show "length ((procs s)[p := k]) = NPROC" using inv by (simp add: sched_inv_def)
  show "pstate ((procs s)[p := k] ! q) = RUNNING \<longleftrightarrow> pstate (procs s ! q) = RUNNING" if "q < NPROC" for q
    using that assms(5) inv by (cases "q = p") (simp_all add: sched_inv_def)
qed

text \<open>Routines that finish without giving up the hart.\<close>

lemma kbind_Switch_iff:
  "kbind m f s = Switch t \<longleftrightarrow> m s = Switch t \<or> (\<exists>x s'. m s = Ret x s' \<and> f x s' = Switch t)"
  by (auto simp: kbind_def split: outcome.splits)

lemma kbind_no_switch:
  "(\<And>u. m s \<noteq> Switch u) \<Longrightarrow> (\<And>x s' u. f x s' \<noteq> Switch u) \<Longrightarrow> kbind m f s \<noteq> Switch t"
  by (auto simp: kbind_Switch_iff)

lemma kbind_SwitchE:
  assumes "kbind m f s = Switch t" and "\<And>u. m s \<noteq> Switch u"
  obtains x s' where "m s = Ret x s'" and "f x s' = Switch t"
  using assms by (auto simp: kbind_Switch_iff)

lemma no_switch_cpu [simp]: "mycpu s \<noteq> Switch t" "on_cpu c f s \<noteq> Switch t"
  by (simp_all add: mycpu_def cpuid_def on_cpu_def)

lemma no_switch_intr [simp]: "intr_get s \<noteq> Switch t" "intr_off s \<noteq> Switch t" "intr_on s \<noteq> Switch t"
  by (simp_all add: intr_get_def intr_off_def intr_on_def kbind_no_switch)

lemma no_switch_off [simp]: "push_off s \<noteq> Switch t" "pop_off s \<noteq> Switch t"
  unfolding push_off_def pop_off_def kwhen_def by (intro kbind_no_switch; simp add: kbind_no_switch)+

lemma no_switch_hold [simp]: "holdinglock L s \<noteq> Switch t" "atmswap L s \<noteq> Switch t"
  by (simp_all add: holdinglock_def atmswap_def kbind_no_switch)

lemma no_switch_lock [simp]: "acquire L s \<noteq> Switch t" "release L s \<noteq> Switch t"
  by (simp_all add: acquire_def release_def kbind_no_switch)

lemma no_switch_proc [simp]: "myproc s \<noteq> Switch t" "thisproc s' \<noteq> Switch u" "pget p f s' \<noteq> Switch v"
  "pset p g s' \<noteq> Switch u"
  by (simp_all add: myproc_def thisproc_def kbind_no_switch pget_def pset_def split: option.split)

text \<open>Two states that differ in the interrupt fields of the harts only.\<close>

definition same :: "proc_st \<Rightarrow> proc_st \<Rightarrow> bool" where
  "same s t \<longleftrightarrow> hart t = hart s \<and> length (cpus t) = length (cpus s) \<and> running_on t = running_on s \<and>
     procs t = procs s \<and> locks t = locks s"

lemma map_update_same: "f x = f (cs ! h) \<Longrightarrow> map f (cs[h := x]) = map f cs"
  by (induction cs arbitrary: h) (auto split: nat.split)

lemma running_on_pushc [simp]: "map cpu_p (pushc h cs) = map cpu_p cs"
  by (simp add: pushc_def map_update_same)

lemma running_on_popc [simp]: "map cpu_p (popc h cs) = map cpu_p cs"
  by (simp add: popc_def map_update_same)

lemma myproc_RetD:
  fixes s :: proc_st
  assumes "hart s < length (cpus s)" and "myproc s = Ret p t"
  shows "same s t \<and> p = cur s"
proof -
  have c: "cpu_p (pushc (hart s) (cpus s) ! hart s) = cpu_p (cpus s ! hart s)"
    using assms(1) by (simp add: pushc_def)
  obtain u where "pop_off (s\<lparr>cpus := pushc (hart s) (cpus s)\<rparr>) = Ret () u"
      "t = u" "p = cpu_p (pushc (hart s) (cpus s) ! hart s)"
    using assms by (auto simp: myproc_def kbind_def push_off_ok mycpu_ok split: outcome.splits)
  with pop_off_RetD [OF _ this(1)] c assms(1) show ?thesis
    by (auto simp: same_def running_on_def cur_def)
qed

lemma thisproc_RetD:
  fixes s :: proc_st
  assumes "hart s < length (cpus s)" and "thisproc s = Ret p t"
  shows "same s t \<and> cur s = Some p"
  using assms myproc_RetD [OF assms(1)]
  by (auto simp: thisproc_def kbind_Ret_iff split: option.splits)

lemma sched_SwitchD:
  fixes s :: proc_st
  assumes "hart s < length (cpus s)" and "sched s = Switch t"
  shows "same s t \<and> (\<exists>p. cur s = Some p \<and> held_by (hart s) (locks s) (ProcLk p) \<and>
    pstate (procs s ! p) \<noteq> RUNNING)"
proof -
  obtain p u where p: "thisproc s = Ret p u"
    and r: "kbind (holdinglock (ProcLk p)) (\<lambda>h. if \<not> h then kpanic ''sched holdinglock''
       else kbind (pget p pstate) (\<lambda>st. if st = RUNNING then kpanic ''sched p.state is Running''
       else kbind intr_get (\<lambda>on. if on then kpanic ''sched interruptible'' else (\<lambda>s. Switch s)))) u =
       (Switch t :: (unit, proc_st) outcome)"
    using assms(2) unfolding sched_def by (rule kbind_SwitchE) simp_all
  have u: "same s u" "cur s = Some p" using thisproc_RetD [OF assms(1) p] by auto
  then have "hart u < length (cpus u)" using assms(1) by (simp add: same_def)
  with r have "t = u \<and> held_by (hart u) (locks u) (ProcLk p) \<and> pstate (procs u ! p) \<noteq> RUNNING"
    by (auto simp: kbind_Switch_iff kbind_Ret_iff holdinglock_ok pget_def intr_get_def mycpu_ok split: if_splits)
  then show ?thesis using u by (auto simp: same_def)
qed

lemma proc_locked_on [simp]:
  "locked (lock_on h L ls L') = (if L' = L then 1 else locked (ls L'))"
  "locked (lock_off L ls L') = (if L' = L then 0 else locked (ls L'))"
  by (simp_all add: lock_on_def lock_off_def)

lemma back_RetD:
  fixes t :: proc_st
  assumes "hart t = h" and "h < length (cpus t)" and "scheduler_back h p t = Ret () u"
  shows "length (cpus u) = length (cpus t) \<and> running_on u = (running_on t)[h := None] \<and> procs u = procs t \<and>
    locks u = lock_off (ProcLk p) (locks t)"
proof -
  let ?v = "t\<lparr>cpus := (cpus t)[h := (cpus t ! h)\<lparr>cpu_p := None\<rparr>]\<rparr>"
  have "release (ProcLk p) ?v = Ret () u"
    using assms(3) by (simp add: scheduler_back_def on_cpu_def)
  from release_RetD(2) [OF _ this] assms(1,2) show ?thesis
    by (auto simp: running_on_def map_update)
qed

text \<open>A process that gives up its hart: it takes its own lock, changes its entry, drops another
  lock perhaps, and switches.\<close>

definition gives_up :: "proc_st \<Rightarrow> nat \<Rightarrow> nat \<Rightarrow> proc_st \<Rightarrow> bool" where
  "gives_up s h p t \<longleftrightarrow> hart t = h \<and> length (cpus t) = length (cpus s) \<and> running_on t = running_on s \<and>
     (\<exists>k. procs t = (procs s)[p := k] \<and> (p < length (procs s) \<longrightarrow> pstate k \<noteq> RUNNING)) \<and>
     (\<forall>q. q \<noteq> p \<longrightarrow> locked (locks t (ProcLk q)) = locked (locks s (ProcLk q)))"

lemma gives_up_inv:
  assumes inv: "sched_inv s" and h: "h < length (cpus s)" "cpu_p (cpus s ! h) = Some p"
    and g: "gives_up s h p t" and b: "scheduler_back h p t = Ret () u"
  shows "sched_inv u"
proof -
  obtain k where k: "procs t = (procs s)[p := k]" "p < length (procs s) \<longrightarrow> pstate k \<noteq> RUNNING"
    using g by (auto simp: gives_up_def)
  have t: "hart t = h" "h < length (cpus t)" using g h(1) by (simp_all add: gives_up_def)
  note bk = back_RetD [OF t b]
  have on: "running_on s ! h = Some p" using h by (simp add: running_on_def)
  have p: "p < NPROC" and len: "length (procs s) = NPROC"
    using inv h(1) on by (auto simp: sched_inv_def)
  show ?thesis
  proof (rule effect_leave [OF inv _ h(1) on])
    show "effect s u h None (procs u)"
      using bk g inv by (auto simp: effect_def gives_up_def sched_inv_def)
    show "pstate (procs u ! p) \<noteq> RUNNING" using bk k p len by simp
    show "procs u ! q = procs s ! q" if "q \<noteq> p" for q using bk k that by simp
    show "length (procs u) = NPROC" using bk k len by simp
  qed
qed

lemma acquire_same:
  fixes s :: proc_st
  assumes "hart s < length (cpus s)" and "acquire L s = Ret x t"
  shows "hart t = hart s \<and> length (cpus t) = length (cpus s) \<and> running_on t = running_on s \<and>
    procs t = procs s \<and> locks t = lock_on (hart s) L (locks s)"
  using acquire_RetD(2) [OF assms] by (simp add: running_on_def)

lemma release_same:
  fixes s :: proc_st
  assumes "hart s < length (cpus s)" and "release L s = Ret x t"
  shows "hart t = hart s \<and> length (cpus t) = length (cpus s) \<and> running_on t = running_on s \<and>
    procs t = procs s \<and> locks t = lock_off L (locks s)"
  using release_RetD(2) [OF assms] by (simp add: running_on_def)

lemma yield_gives_up:
  assumes "h < length (cpus s)" and "cpu_p (cpus s ! h) = Some p" and "yield (s\<lparr>hart := h\<rparr>) = Switch t"
  shows "gives_up s h p t"
proof -
  let ?s = "s\<lparr>hart := h\<rparr>"
  have h: "hart ?s < length (cpus ?s)" using assms(1) by simp
  obtain p' a where a: "thisproc ?s = Ret p' a" and r1: "kthen (acquire (ProcLk p'))
      (kthen (pset p' (\<lambda>k. k\<lparr>pstate := RUNNABLE\<rparr>)) sched) a = Switch t"
    using assms(3) unfolding yield_def by (rule kbind_SwitchE) simp_all
  have sa: "same ?s a" "p' = p" using thisproc_RetD [OF h a] assms(2) by (auto simp: cur_def)
  then have ha: "hart a < length (cpus a)" using h by (simp add: same_def)
  obtain x b where b: "acquire (ProcLk p) a = Ret x b"
      and r2: "kthen (pset p (\<lambda>k. k\<lparr>pstate := RUNNABLE\<rparr>)) sched b = Switch t"
    using r1 unfolding sa(2) by (rule kbind_SwitchE) simp_all
  note sb = acquire_same [OF ha b]
  let ?c = "b\<lparr>procs := (procs b)[p := (procs b ! p)\<lparr>pstate := RUNNABLE\<rparr>]\<rparr>"
  have "sched ?c = Switch t" using r2 by (simp add: pset_def)
  moreover have "hart ?c < length (cpus ?c)" using sb ha by simp
  ultimately have "same ?c t" using sched_SwitchD by blast
  then show ?thesis
    using sb sa by (auto simp: gives_up_def same_def running_on_def intro!: exI)
qed

lemma sleep_gives_up:
  assumes "h < length (cpus s)" and "cpu_p (cpus s ! h) = Some p" and lk: "\<forall>q. lk \<noteq> ProcLk q"
    and "sleep ch lk (s\<lparr>hart := h\<rparr>) = Switch t"
  shows "gives_up s h p t"
proof -
  let ?s = "s\<lparr>hart := h\<rparr>"
  have h: "hart ?s < length (cpus ?s)" using assms(1) by simp
  obtain p' a where a: "thisproc ?s = Ret p' a" and r1: "kthen (acquire (ProcLk p')) (kthen (release lk)
      (kthen (pset p' (\<lambda>k. k\<lparr>chan := Some ch\<rparr>)) (kthen (pset p' (\<lambda>k. k\<lparr>pstate := SLEEPING\<rparr>)) sched))) a = Switch t"
    using assms(4) unfolding sleep_def by (rule kbind_SwitchE) simp_all
  have sa: "same ?s a" "p' = p" using thisproc_RetD [OF h a] assms(2) by (auto simp: cur_def)
  then have ha: "hart a < length (cpus a)" using h by (simp add: same_def)
  obtain x b where b: "acquire (ProcLk p) a = Ret x b" and r2: "kthen (release lk)
      (kthen (pset p (\<lambda>k. k\<lparr>chan := Some ch\<rparr>)) (kthen (pset p (\<lambda>k. k\<lparr>pstate := SLEEPING\<rparr>)) sched)) b = Switch t"
    using r1 unfolding sa(2) by (rule kbind_SwitchE) simp_all
  note sb = acquire_same [OF ha b]
  then have hb: "hart b < length (cpus b)" using ha by simp
  obtain y c where c: "release lk b = Ret y c" and r3: "kthen (pset p (\<lambda>k. k\<lparr>chan := Some ch\<rparr>))
      (kthen (pset p (\<lambda>k. k\<lparr>pstate := SLEEPING\<rparr>)) sched) c = Switch t"
    using r2 by (rule kbind_SwitchE) simp_all
  note sc = release_same [OF hb c]
  let ?d = "c\<lparr>procs := (procs c)[p := (procs c ! p)\<lparr>chan := Some ch\<rparr>]\<rparr>"
  let ?e = "?d\<lparr>procs := (procs ?d)[p := (procs ?d ! p)\<lparr>pstate := SLEEPING\<rparr>]\<rparr>"
  have "sched ?e = Switch t" using r3 by (simp add: pset_def)
  moreover have "hart ?e < length (cpus ?e)" using sb sc hb by simp
  ultimately have "same ?e t" using sched_SwitchD by blast
  then show ?thesis
    using sb sc sa lk by (auto simp: gives_up_def same_def running_on_def intro!: exI)
qed

lemma exit_gives_up:
  assumes "h < length (cpus s)" and "exit_zombie p n (s\<lparr>hart := h\<rparr>) = Switch t"
  shows "gives_up s h p t"
proof -
  let ?s = "s\<lparr>hart := h\<rparr>"
  have h: "hart ?s < length (cpus ?s)" using assms(1) by simp
  obtain x b where b: "acquire (ProcLk p) ?s = Ret x b" and r2: "kthen (pset p (\<lambda>k. k\<lparr>xstate := n\<rparr>))
      (kthen (pset p (\<lambda>k. k\<lparr>pstate := ZOMBIE\<rparr>)) (kthen (release WaitLk) sched)) b = Switch t"
    using assms(2) unfolding exit_zombie_def by (rule kbind_SwitchE) simp_all
  note sb = acquire_same [OF h b]
  let ?c = "b\<lparr>procs := (procs b)[p := (procs b ! p)\<lparr>xstate := n\<rparr>]\<rparr>"
  let ?d = "?c\<lparr>procs := (procs ?c)[p := (procs ?c ! p)\<lparr>pstate := ZOMBIE\<rparr>]\<rparr>"
  have r3: "kthen (release WaitLk) sched ?d = Switch t" using r2 by (simp add: pset_def)
  obtain y e where e: "release WaitLk ?d = Ret y e" and r4: "sched e = Switch t"
    using r3 by (rule kbind_SwitchE) simp_all
  have hd: "hart ?d < length (cpus ?d)" using sb h by simp
  note se = release_same [OF hd e]
  then have "hart e < length (cpus e)" using hd by simp
  with r4 have "same e t" using sched_SwitchD by blast
  then show ?thesis
    using sb se by (auto simp: gives_up_def same_def running_on_def intro!: exI)
qed

lemma resumes_same:
  assumes "resumes p t u" and "hart t < length (cpus t)"
  shows "length (cpus u) = length (cpus t) \<and> running_on u = running_on t \<and>
    (procs u = procs t \<or> procs u = (procs t)[p := (procs t ! p)\<lparr>chan := None\<rparr>]) \<and>
    (\<forall>q. q \<noteq> p \<longrightarrow> locked (locks u (ProcLk q)) = locked (locks t (ProcLk q))) \<and>
    locked (locks u (ProcLk p)) = 0"
proof -
  let ?a = "\<lambda>ie. t\<lparr>cpus := (cpus t)[hart t := (cpus t ! hart t)\<lparr>intena := ie\<rparr>]\<rparr>"
  have r: "sched_resume ie t = Ret () (?a ie)" for ie
    using assms(2) by (simp add: sched_resume_def kbind_def mycpu_ok on_cpu_def)
  have on: "running_on (?a ie) = running_on t" for ie by (simp add: running_on_def map_update_same)
  show ?thesis using assms(1)
  proof (cases rule: resumes.cases)
    case (1 ie)
    then have "release (ProcLk p) (?a ie) = Ret () u" using r by (simp add: yield_resume_def kbind_def)
    from release_same [OF _ this] assms(2) on show ?thesis by simp
  next
    case (2 ie lk)
    let ?b = "(?a ie)\<lparr>procs := (procs t)[p := (procs t ! p)\<lparr>chan := None\<rparr>]\<rparr>"
    obtain c where c: "release (ProcLk p) ?b = Ret () c" "acquire lk c = Ret () u"
      using 2(1) r by (auto simp: sleep_resume_def kbind_Ret_iff pset_def)
    have hb: "hart ?b < length (cpus ?b)" using assms(2) by simp
    note sc = release_same [OF hb c(1)]
    then have "hart c < length (cpus c)" using hb by simp
    from acquire_same [OF this c(2)] sc 2(2) on show ?thesis by (auto simp: running_on_def)
  next
    case 3
    from release_same [OF assms(2) 3] show ?thesis by simp
  qed
qed

lemma turn_SwitchD:
  fixes s :: proc_st
  assumes "h < length (cpus s)" and "scheduler_turn h p (s\<lparr>hart := h\<rparr>) = Switch t"
  shows "hart t = h \<and> length (cpus t) = length (cpus s) \<and> running_on t = (running_on s)[h := Some p] \<and>
    pstate (procs s ! p) = RUNNABLE \<and> procs t = (procs s)[p := (procs s ! p)\<lparr>pstate := RUNNING\<rparr>] \<and>
    locks t = lock_on h (ProcLk p) (locks s)"
proof -
  let ?s = "s\<lparr>hart := h\<rparr>"
  have h: "hart ?s < length (cpus ?s)" using assms(1) by simp
  obtain x b where b: "acquire (ProcLk p) ?s = Ret x b" and r: "kbind (pget p pstate) (\<lambda>st. if st = RUNNABLE then
       kthen (pset p (\<lambda>k. k\<lparr>pstate := RUNNING\<rparr>)) (
       kthen (on_cpu h (\<lambda>k. k\<lparr>cpu_p := Some p\<rparr>)) (\<lambda>s. Switch s))
     else release (ProcLk p)) b = Switch t"
    using assms(2) unfolding scheduler_turn_def by (rule kbind_SwitchE) simp_all
  have st: "pstate (procs b ! p) = RUNNABLE" and t: "t = b\<lparr>procs := (procs b)[p := (procs b ! p)\<lparr>pstate := RUNNING\<rparr>],
      cpus := (cpus b)[h := (cpus b ! h)\<lparr>cpu_p := Some p\<rparr>]\<rparr>"
    using r by (auto simp: pget_def pset_def on_cpu_def split: if_splits)
  from acquire_same [OF h b] st t show ?thesis by (auto simp: running_on_def map_update)
qed

lemma mstep_inv:
  assumes "mstep s u" and inv: "sched_inv s"
  shows "sched_inv u"
  using assms(1)
proof (cases rule: mstep.cases)
  case (m_dispatch h p t)
  note d = turn_SwitchD [OF m_dispatch(1,4)]
  have "hart t < length (cpus t)" using d m_dispatch(1) by simp
  note r = resumes_same [OF m_dispatch(5) this]
  have len: "length (procs s) = NPROC" using inv by (simp add: sched_inv_def)
  show ?thesis
  proof (rule effect_enter [OF inv _ m_dispatch(1) _ m_dispatch(2)])
    show "effect s u h (Some p) (procs u)"
      using d r inv by (auto simp: effect_def sched_inv_def split: if_splits)
    show "running_on s ! h = None" using m_dispatch(1,3) by (simp add: running_on_def)
    show "pstate (procs s ! p) \<noteq> RUNNING" using d by simp
    show "pstate (procs u ! p) = RUNNING" using d r m_dispatch(2) len by auto
    show "procs u ! q = procs s ! q" if "q \<noteq> p" for q using d r that by auto
    show "length (procs u) = NPROC" using d r len by auto
  qed
next
  case (m_skip h p)
  let ?s = "s\<lparr>hart := h\<rparr>"
  have h: "hart ?s < length (cpus ?s)" using m_skip(1) by simp
  obtain b where b: "acquire (ProcLk p) ?s = Ret () b" "release (ProcLk p) b = Ret () u"
    using m_skip(4) by (auto simp: scheduler_turn_def kbind_Ret_iff pget_def pset_def on_cpu_def split: if_splits)
  note sb = acquire_same [OF h b(1)]
  have "hart b < length (cpus b)" using sb h by simp
  note su = release_same [OF this b(2)]
  show ?thesis
  proof (rule effect_idle [OF inv])
    show "effect s u h (running_on s ! h) (procs s)"
      using sb su inv by (auto simp: effect_def sched_inv_def running_on_def)
  qed (use inv in \<open>simp_all add: sched_inv_def\<close>)
next
  case (m_yield h p t)
  then show ?thesis using gives_up_inv [OF inv] yield_gives_up by blast
next
  case (m_sleep h p lk ch t)
  then show ?thesis using gives_up_inv [OF inv] sleep_gives_up by blast
next
  case (m_exit h p n t)
  then show ?thesis using gives_up_inv [OF inv] exit_gives_up by blast
next
  case (m_wakeup h ch p)
  let ?s = "s\<lparr>hart := h\<rparr>"
  have h: "hart ?s < length (cpus ?s)" using m_wakeup(1) by simp
  obtain me a where a: "myproc ?s = Ret me a" and r: "kwhen (me \<noteq> Some p) (kthen (acquire (ProcLk p)) (
       kthen (kbind (pget p (\<lambda>k. pstate k = SLEEPING \<and> chan k = ch)) (\<lambda>b.
              kwhen b (pset p (\<lambda>k. k\<lparr>pstate := RUNNABLE\<rparr>)))) (release (ProcLk p)))) a = Ret () u"
    using m_wakeup(2) unfolding wakeup_one_def by (rule kbind_RetE)
  have sa: "same ?s a" using myproc_RetD [OF h a] by simp
  show ?thesis
  proof (cases "me = Some p")
    case True
    then show ?thesis
      using r sa by (intro critical_inv [OF inv, where p = p and k = "procs s ! p"])
        (simp_all add: same_def running_on_def)
  next
    case False
    have ha: "hart a < length (cpus a)" using sa h by (simp add: same_def)
    obtain b where b: "acquire (ProcLk p) a = Ret () b"
        "release (ProcLk p) (b\<lparr>procs := (procs b)[p := wake ch (procs b ! p)]\<rparr>) = Ret () u"
      using r False by (auto simp: kbind_Ret_iff pget_def pset_def wake_def kwhen_def split: if_splits)
    note sb = acquire_same [OF ha b(1)]
    have "hart (b\<lparr>procs := (procs b)[p := wake ch (procs b ! p)]\<rparr>) <
        length (cpus (b\<lparr>procs := (procs b)[p := wake ch (procs b ! p)]\<rparr>))" using sb ha by simp
    from release_same [OF this b(2)] sb sa show ?thesis
      by (intro critical_inv [OF inv, where p = p and k = "wake ch (procs s ! p)"])
        (auto simp: same_def running_on_def wake_def)
  qed
next
  case (m_table h p a k)
  let ?s = "s\<lparr>hart := h\<rparr>"
  have h: "hart ?s < length (cpus ?s)" using m_table(1) by simp
  note sa = acquire_same [OF h m_table(2)]
  have "hart (a\<lparr>procs := (procs a)[p := k]\<rparr>) < length (cpus (a\<lparr>procs := (procs a)[p := k]\<rparr>))"
    using sa h by simp
  from release_same [OF this m_table(5)] sa m_table(3,4) show ?thesis
    by (intro critical_inv [OF inv, where p = p and k = k]) (auto simp: running_on_def)
next
  case (m_lock h lk)
  let ?s = "s\<lparr>hart := h\<rparr>"
  have h: "hart ?s < length (cpus ?s)" using m_lock(1) by simp
  from m_lock(3) show ?thesis
  proof
    assume "acquire lk ?s = Ret () u"
    from acquire_same [OF h this] m_lock(2) show ?thesis
      by (intro critical_inv [OF inv, where p = 0 and k = "procs s ! 0"]) (auto simp: running_on_def)
  next
    assume "release lk ?s = Ret () u"
    from release_same [OF h this] m_lock(2) show ?thesis
      by (intro critical_inv [OF inv, where p = 0 and k = "procs s ! 0"]) (auto simp: running_on_def)
  qed
qed

text \<open>At boot every process entry is unused and no hart runs a process.\<close>

definition boot_machine :: "proc_st \<Rightarrow> bool" where
  "boot_machine s \<longleftrightarrow> length (procs s) = NPROC \<and> length (cpus s) = NCPU \<and>
     (\<forall>k \<in> set (procs s). pstate k = UNUSED) \<and> (\<forall>c \<in> set (cpus s). cpu_p c = None) \<and>
     (\<forall>L. locked (locks s L) = 0)"

inductive machine_reach :: "proc_st \<Rightarrow> bool" where
  machine_boot: "boot_machine s \<Longrightarrow> machine_reach s"
| machine_step: "machine_reach s \<Longrightarrow> mstep s t \<Longrightarrow> machine_reach t"

lemma machine_reach_inv: "machine_reach s \<Longrightarrow> sched_inv s"
proof (induction rule: machine_reach.induct)
  case (machine_boot s)
  then show ?case
    unfolding boot_machine_def sched_inv_def running_on_def
    by (metis list_all_length nth_map nth_mem option.distinct(1) procstate.distinct(7))
next
  case (machine_step s t)
  then show ?case using mstep_inv by blast
qed

section \<open>Properties\<close>

text \<open>(C2) On a machine with several harts no process ever runs on two of them: in every reachable state
  the current processes of different harts differ, each of them is in state RUNNING, and every process in
  state RUNNING is the current process of some hart.\<close>

theorem process_on_one_hart:
  assumes "machine_reach s" and "h < length (cpus s)" and "cpu_p (cpus s ! h) = Some p"
  shows "pstate (procs s ! p) = RUNNING \<and>
    (\<forall>g < length (cpus s). cpu_p (cpus s ! g) = Some p \<longrightarrow> g = h) \<and>
    (\<forall>q < NPROC. pstate (procs s ! q) = RUNNING \<longrightarrow> (\<exists>g < length (cpus s). cpu_p (cpus s ! g) = Some q))"
proof -
  have inv: "sched_inv s" using machine_reach_inv [OF assms(1)] .
  have on: "running_on s ! g = cpu_p (cpus s ! g)" if "g < length (cpus s)" for g
    using that by (simp add: running_on_def)
  show ?thesis using inv assms(2,3) on unfolding sched_inv_def by (metis (no_types, lifting))
qed

definition unused_proc :: proc where
  "unused_proc = \<lparr>pstate = UNUSED, pname = replicate 16 0, pid = 0, killed = 0, xstate = 0, parent = None,
     kstack = 0, chan = None, psz = 0, trapframe = 0, pagetable = 0,
     cont = \<lparr>ctx_ra = 0, ctx_sp = 0, ctx_s = replicate 12 0\<rparr>, openfs = replicate 16 None, pwd = None\<rparr>"

definition boot_pm :: proc_st where
  "boot_pm = \<lparr>hart = 0, cpus = cpus boot_state, locks = locks boot_state, mem = (\<lambda>_. 0), freelist = 0,
     ld_end = 0x80080000, ld_etext = 0x80010000, ld_trampoline = 0x80010000, kernel_pagetable = 0, satp = 0,
     procs = replicate 64 unused_proc, nextPid = 1, initp = None, ticks = 0, ld_forkret = 0\<rparr>"

definition ready_pm :: proc_st where
  "ready_pm = boot_pm\<lparr>procs := (replicate 64 unused_proc)[0 := unused_proc\<lparr>pstate := RUNNABLE\<rparr>]\<rparr>"

lemma boot_pm_facts:
  "cpu_ok 0 (cpus boot_pm)" "free_lock (locks boot_pm) L" "length (cpus boot_pm) = 8" "hart boot_pm = 0"
  "length (procs boot_pm) = NPROC" "cpu_p (cpus boot_pm ! 0) = None" "h < 8 \<Longrightarrow> cpu_p (cpus boot_pm ! h) = None"
  by (simp_all add: boot_pm_def boot_state_def cpu_ok_def sie_def free_lock_def NPROC_def)

lemma boot_reach: "machine_reach boot_pm"
  by (rule machine_boot)
    (simp add: boot_machine_def boot_pm_def boot_state_def NPROC_def NCPU_def unused_proc_def)

lemma ready_reach: "machine_reach ready_pm"
proof (rule machine_step [OF boot_reach])
  let ?a = "boot_pm\<lparr>cpus := pushc 0 (cpus boot_pm), locks := lock_on 0 (ProcLk 0) (locks boot_pm)\<rparr>"
  let ?k = "unused_proc\<lparr>pstate := RUNNABLE\<rparr>"
  have eq: "boot_pm\<lparr>hart := 0\<rparr> = boot_pm" by (simp add: boot_pm_def)
  have acq: "acquire (ProcLk 0) (boot_pm\<lparr>hart := 0\<rparr>) = Ret () ?a"
    unfolding eq using acquire_free [of boot_pm "ProcLk 0"] boot_pm_facts by simp
  have rel: "release (ProcLk 0) (?a\<lparr>procs := (procs ?a)[0 := ?k]\<rparr>) = Ret () ready_pm"
    using boot_pm_facts by (subst release_held) (simp_all add: ready_pm_def, simp_all add: boot_pm_def)
  have un: "pstate (procs ?a ! 0) \<noteq> RUNNING" by (simp add: boot_pm_def unused_proc_def)
  show "mstep boot_pm ready_pm"
    by (rule m_table [OF _ acq un _ rel]) (simp_all add: boot_pm_facts)
qed

lemma running_reach: "\<exists>s. machine_reach s \<and> length (cpus s) = 8 \<and> cpu_p (cpus s ! 0) = Some 0"
proof -
  let ?a = "ready_pm\<lparr>cpus := pushc 0 (cpus ready_pm), locks := lock_on 0 (ProcLk 0) (locks ready_pm)\<rparr>"
  let ?t = "?a\<lparr>procs := (procs ready_pm)[0 := (procs ready_pm ! 0)\<lparr>pstate := RUNNING\<rparr>],
    cpus := (cpus ?a)[0 := (cpus ?a ! 0)\<lparr>cpu_p := Some 0\<rparr>]\<rparr>"
  have f: "cpu_ok 0 (cpus ready_pm)" "\<And>L. free_lock (locks ready_pm) L" "length (cpus ready_pm) = 8"
    "hart ready_pm = 0" "cpu_p (cpus ready_pm ! 0) = None"
    using boot_pm_facts by (simp_all add: ready_pm_def)
  have eq: "ready_pm\<lparr>hart := 0\<rparr> = ready_pm" using f(4) by (cases ready_pm) simp
  have st: "pstate (procs ready_pm ! 0) = RUNNABLE" by (simp add: ready_pm_def)
  have sw: "scheduler_turn 0 0 (ready_pm\<lparr>hart := 0\<rparr>) = Switch ?t"
    unfolding eq using acquire_free [of ready_pm "ProcLk 0"] f st
    by (simp add: scheduler_turn_def kbind_def pget_def pset_def on_cpu_def)
  have n: "1 \<le> noff (cpus ?t ! 0)" "\<not> sie (cpus ?t ! 0)"
    using pushc_self [of 0 "cpus ready_pm"] f by (simp_all add: cpu_ok_def sie_def)
  obtain u where u: "release (ProcLk 0) ?t = Ret () u"
    using release_held [of ?t "ProcLk 0"] f n by simp
  have h: "hart ?t < length (cpus ?t)" using f by simp
  have "mstep ready_pm u"
    by (rule m_dispatch [OF _ _ _ sw resumes.intros(3) [OF u]]) (use f in \<open>simp_all add: NPROC_def\<close>)
  then have "machine_reach u" using ready_reach machine_step by blast
  moreover have "running_on u = running_on ?t" "length (cpus u) = 8"
    using release_same [OF h u] f by simp_all
  moreover have "running_on ?t ! 0 = Some 0" using f by (simp add: running_on_def)
  ultimately show ?thesis by (metis (no_types, lifting) nth_map running_on_def zero_less_numeral)
qed

theorem process_on_one_hart_witness:
  "\<exists>s. machine_reach s \<and> cpu_p (cpus s ! 0) = Some 0 \<and> pstate (procs s ! 0) = RUNNING \<and>
    cpu_p (cpus s ! 1) \<noteq> Some 0"
proof -
  obtain s where s: "machine_reach s" "length (cpus s) = 8" "cpu_p (cpus s ! 0) = Some 0"
    using running_reach by blast
  have "0 < length (cpus s)" "1 < length (cpus s)" using s(2) by simp_all
  with process_on_one_hart [OF s(1) _ s(3)] s show ?thesis
    by (intro exI [of _ s]) (auto dest: spec [of _ "Suc 0"])
qed

text \<open>\<open>wakeup(chan)\<close> makes runnable exactly the processes other than the caller that sleep on \<open>chan\<close>, and
  leaves every other entry of the table, all locks and the interrupt state as they were.\<close>

theorem wakeup_exact:
  assumes "cpu_ok (hart s) (cpus s)" and "length (procs s) = NPROC"
    and "\<And>p. p < NPROC \<Longrightarrow> cur s \<noteq> Some p \<Longrightarrow> free_lock (locks s) (ProcLk p)"
  shows "\<exists>ks. wakeup ch s = Ret () (s\<lparr>procs := ks\<rparr>) \<and> length ks = NPROC \<and>
    (\<forall>i < NPROC. ks ! i = (if cur s \<noteq> Some i \<and> pstate (procs s ! i) = SLEEPING \<and> chan (procs s ! i) = ch
      then (procs s ! i)\<lparr>pstate := RUNNABLE\<rparr> else procs s ! i))"
proof -
  obtain ks where "wakeup ch s = Ret () (s\<lparr>procs := ks\<rparr>)" "length ks = NPROC"
    "\<And>i. i < NPROC \<Longrightarrow> ks ! i = (if cur s = Some i then procs s ! i else wake ch (procs s ! i))"
    using wakeup_ok [OF assms] by blast
  then show ?thesis by (intro exI [of _ ks]) (simp add: wake_def)
qed

definition sleepy_pm :: proc_st where
  "sleepy_pm = boot_pm\<lparr>procs := (replicate 64 unused_proc)[3 := unused_proc\<lparr>pstate := SLEEPING, chan := Some TicksCh\<rparr>]\<rparr>"

theorem wakeup_exact_witness:
  "\<exists>ks. wakeup (Some TicksCh) sleepy_pm = Ret () (sleepy_pm\<lparr>procs := ks\<rparr>) \<and>
    pstate (ks ! 3) = RUNNABLE \<and> pstate (ks ! 4) = UNUSED"
proof -
  have f: "cpu_ok (hart sleepy_pm) (cpus sleepy_pm)" "length (procs sleepy_pm) = NPROC"
    "\<And>p. free_lock (locks sleepy_pm) (ProcLk p)" "cur sleepy_pm = None"
    using boot_pm_facts by (simp_all add: sleepy_pm_def cur_def NPROC_def)
  have k: "procs sleepy_pm ! 3 = unused_proc\<lparr>pstate := SLEEPING, chan := Some TicksCh\<rparr>"
    "procs sleepy_pm ! 4 = unused_proc"
    by (simp_all add: sleepy_pm_def)
  obtain ks where ks: "wakeup (Some TicksCh) sleepy_pm = Ret () (sleepy_pm\<lparr>procs := ks\<rparr>)"
    "\<forall>i < NPROC. ks ! i = (if cur sleepy_pm \<noteq> Some i \<and> pstate (procs sleepy_pm ! i) = SLEEPING \<and>
       chan (procs sleepy_pm ! i) = Some TicksCh
      then (procs sleepy_pm ! i)\<lparr>pstate := RUNNABLE\<rparr> else procs sleepy_pm ! i)"
    using wakeup_exact [OF f(1,2) f(3)] by blast
  have "ks ! 3 = (procs sleepy_pm ! 3)\<lparr>pstate := RUNNABLE\<rparr>" "ks ! 4 = procs sleepy_pm ! 4"
    using ks(2) f(4) k by (simp_all add: NPROC_def unused_proc_def)
  then show ?thesis using ks(1) k by (intro exI [of _ ks]) (simp add: unused_proc_def)
qed


text \<open>Process 0 runs on hart 0 and holds \<open>wait_lock\<close>.\<close>

definition holder_pm :: proc_st where
  "holder_pm = boot_pm\<lparr>cpus := (cpus boot_pm)[0 := \<lparr>cpu_p = Some 0, noff = 1, intena = False, sstatus = 0\<rparr>],
     locks := lock_on 0 WaitLk (locks boot_pm)\<rparr>"


text \<open>\<open>growproc(n)\<close> with \<open>n > 0\<close> fails although the pages were allocated: when \<open>uvmalloc\<close> succeeds with the
  new size, the caller gets -1 and the recorded size of the process stays the old one.\<close>

theorem growproc_grow_fails:
  assumes "cpu_ok (hart s) (cpus s)" and "cur s = Some p" and "0 < sint n"
    and "psz (procs s ! p) = ucast (sz :: u32)" and "sz + n \<noteq> sz"
    and "uvmalloc (pagetable (procs s ! p)) (ucast sz) (ucast (sz + n)) s = Ret (ucast (sz + n)) t"
  shows "growproc n s = Ret (-1) t"
proof -
  have inj: "(ucast sz :: u64) = ucast (sz + n) \<longleftrightarrow> sz = sz + n"
    by (metis unat_ucast_32_64 word_unat_eq_iff)
  have cast: "(ucast (ucast sz :: u64) :: u32) = sz"
    by (rule bit_word_eqI) (simp add: bit_simps)
  show ?thesis
    using assms inj by (simp add: growproc_def kbind_def thisproc_ok pget_def cast)
qed

lemma uvmalloc_same_page:
  assumes "oldsz \<le> newsz" and "newsz \<le> PGROUNDUP oldsz"
  shows "uvmalloc pt oldsz newsz s = Ret newsz s"
  using assms by (simp add: uvmalloc_def not_less [symmetric] uvmalloc_loop.simps [of pt "PGROUNDUP oldsz"])

definition small_pm :: proc_st where
  "small_pm = boot_pm\<lparr>cpus := (cpus boot_pm)[0 := \<lparr>cpu_p = Some 0, noff = 0, intena = False, sstatus = 0\<rparr>],
     procs := (replicate 64 unused_proc)[0 := unused_proc\<lparr>pstate := RUNNING, psz := 100\<rparr>]\<rparr>"

lemma small_pm_facts: "cpu_ok (hart small_pm) (cpus small_pm)" "cur small_pm = Some 0"
  "psz (procs small_pm ! 0) = 100"
  by (simp_all add: small_pm_def boot_pm_def boot_state_def cpu_ok_def sie_def cur_def)

theorem growproc_grow_fails_witness: "growproc 8 small_pm = Ret (-1) small_pm"
proof (rule growproc_grow_fails [OF small_pm_facts(1,2), where sz = 100])
  show "psz (procs small_pm ! 0) = ucast (100 :: u32)" using small_pm_facts(3) by simp
  show "uvmalloc (pagetable (procs small_pm ! 0)) (ucast (100 :: u32)) (ucast (100 + 8 :: u32)) small_pm =
      Ret (ucast (100 + 8 :: u32)) small_pm"
    by (rule uvmalloc_same_page) (simp_all add: PGROUNDUP_down PGROUNDDOWN_div)
qed simp_all

text \<open>\<open>growproc(n)\<close> with \<open>n < 0\<close> reports success and shrinks nothing: the recorded size, the page table and
  memory stay as they are.\<close>

theorem growproc_never_shrinks:
  assumes "cpu_ok (hart s) (cpus s)" and "cur s = Some p" and "sint n < 0"
    and "psz (procs s ! p) = ucast (sz :: u32)" and "unat (sz + n) < unat sz"
  shows "growproc n s = Ret 0 s"
proof -
  have cast: "(ucast (ucast sz :: u64) :: u32) = sz"
    by (rule bit_word_eqI) (simp add: bit_simps)
  have "(ucast (sz + n) :: u64) < ucast sz"
    using assms(5) by (simp add: word_less_nat_alt unat_ucast_32_64)
  then have "uvmalloc pt (ucast sz) (ucast (sz + n)) t = Ret (ucast sz) t" for pt and t :: "'a proc_st_scheme"
    by (simp add: uvmalloc_def)
  moreover have "(procs s)[p := (procs s ! p)\<lparr>psz := ucast sz\<rparr>] = procs s"
    using assms(4) by (metis (no_types, lifting) list_update_id proc.surjective proc.update_convs(9))
  ultimately show ?thesis
    using assms by (simp add: growproc_def kbind_def thisproc_ok pget_def pset_def cast)
qed

theorem growproc_never_shrinks_witness: "growproc (- 8) small_pm = Ret 0 small_pm"
proof (rule growproc_never_shrinks [OF small_pm_facts(1,2), where sz = 100])
  show "psz (procs small_pm ! 0) = ucast (100 :: u32)" using small_pm_facts(3) by simp
qed simp_all

end
