(* ===== verification/Ring.thy ===== *)
theory Ring
  imports Prelude
begin

text \<open>
  Ring buffers with free-running indices, as the UART transmitter (\<^verbatim>\<open>kernel/memlayout.c\<close>) and
  the console input (\<^verbatim>\<open>kernel/console.c\<close>) keep them: an array of \<open>n\<close> slots, a read index \<open>r\<close>
  and a write index \<open>w\<close> that only ever grow and wrap at the width of their type; slot \<open>i % n\<close>
  belongs to index \<open>i\<close>. The queue they stand for is \<open>ring_view\<close>. The interface \<open>bounded_queue\<close>
  is what the drivers rely on.
\<close>

definition slot :: "nat \<Rightarrow> 'l::len word \<Rightarrow> nat" where
  "slot n i = unat i mod n"

definition ring_view :: "nat \<Rightarrow> 'a list \<Rightarrow> 'l::len word \<Rightarrow> 'l word \<Rightarrow> 'a list" where
  "ring_view n buf r w = map (\<lambda>i. buf ! slot n (r + of_nat i)) [0..<unat (w - r)]"

text \<open>The size divides the range of the index type, so that slots stay in step when an index wraps.\<close>

definition ring_ok :: "nat \<Rightarrow> 'a list \<Rightarrow> 'l::len word \<Rightarrow> 'l word \<Rightarrow> bool" where
  "ring_ok n buf r w \<longleftrightarrow> length buf = n \<and> 0 < n \<and> n dvd 2 ^ LENGTH('l) \<and> n < 2 ^ LENGTH('l) \<and>
     unat (w - r) \<le> n"

lemma slot_add:
  assumes "n dvd 2 ^ LENGTH('l)"
  shows "slot n (r + of_nat i :: 'l::len word) = (slot n r + i) mod n"
proof -
  have "unat (r + of_nat i) = (unat r + i) mod 2 ^ LENGTH('l)"
    by (simp add: unat_word_ariths unat_of_nat mod_add_right_eq)
  then have "slot n (r + of_nat i) = (unat r + i) mod n"
    using assms by (simp add: slot_def mod_mod_cancel)
  then show ?thesis by (simp add: slot_def mod_add_left_eq)
qed

lemma slot_inj:
  assumes "n dvd 2 ^ LENGTH('l)" and "i < n" "j < n" "i \<noteq> j"
  shows "slot n (r + of_nat i :: 'l::len word) \<noteq> slot n (r + of_nat j)"
proof
  assume "slot n (r + of_nat i) = slot n (r + of_nat j)"
  then have "(slot n r + i) mod n = (slot n r + j) mod n" using slot_add [OF assms(1), of r] by simp
  then have "i mod n = j mod n" by (simp add: nat_mod_eq_iff)
  with assms show False by simp
qed

lemma length_ring_view [simp]: "length (ring_view n buf r w) = unat (w - r)"
  by (simp add: ring_view_def)

lemma ring_view_Nil [simp]: "ring_view n buf r w = [] \<longleftrightarrow> r = w"
  by (auto simp: ring_view_def unat_eq_zero)

lemma unat_Suc_diff:
  assumes "unat (w - r :: 'l::len word) < n" and "n < 2 ^ LENGTH('l)"
  shows "unat (w + 1 - r) = Suc (unat (w - r))"
proof -
  have "w + 1 - r = 1 + (w - r)" by simp
  moreover have "1 + unat (w - r) < 2 ^ LENGTH('l)" using assms by simp
  ultimately have "unat (w + 1 - r) = 1 + unat (w - r)" by (simp only: unat_word_ariths) simp
  then show ?thesis by simp
qed

text \<open>Storing at the write index appends; reading at the read index takes the oldest element.\<close>

lemma ring_push:
  assumes ok: "ring_ok n buf r (w :: 'l::len word)" and room: "unat (w - r) < n"
  shows "ring_view n (buf[slot n w := c]) r (w + 1) = ring_view n buf r w @ [c]"
    and "ring_ok n (buf[slot n w := c]) r (w + 1)"
proof -
  have d: "n dvd 2 ^ LENGTH('l)" "n < 2 ^ LENGTH('l)" "length buf = n" "0 < n"
    using ok by (simp_all add: ring_ok_def)
  let ?k = "unat (w - r)"
  have w: "w = r + of_nat ?k" by simp
  have k: "unat (w + 1 - r) = Suc ?k" using room d(2) by (rule unat_Suc_diff)
  have old: "buf[slot n w := c] ! slot n (r + of_nat i) = buf ! slot n (r + of_nat i)" if "i < ?k" for i
    using slot_inj [OF d(1) _ room, of i r] that room w by (metis nth_list_update_neq order_less_trans nat_neq_iff)
  have new: "buf[slot n w := c] ! slot n (r + of_nat ?k) = c"
    using d(3,4) w by (metis nth_list_update_eq mod_less_divisor slot_def)
  show "ring_view n (buf[slot n w := c]) r (w + 1) = ring_view n buf r w @ [c]"
    unfolding ring_view_def k using old new by simp
  show "ring_ok n (buf[slot n w := c]) r (w + 1)" using ok room k by (simp add: ring_ok_def)
qed

lemma ring_pop:
  assumes ok: "ring_ok n buf r (w :: 'l::len word)" and some: "r \<noteq> w"
  shows "ring_view n buf r w = buf ! slot n r # ring_view n buf (r + 1) w"
    and "ring_ok n buf (r + 1) w"
proof -
  have nz: "unat (w - r) \<noteq> 0" using some by (simp add: unat_eq_zero)
  have "w - (r + 1) = (w - r) - 1" by simp
  moreover have "w - r \<noteq> 0" using some by simp
  ultimately have k: "unat (w - (r + 1)) = unat (w - r) - 1" by (simp only: unat_minus_one not_False_eq_True)
  have "ring_view n buf r w = map (\<lambda>i. buf ! slot n (r + of_nat i)) (0 # map Suc [0..<unat (w - r) - 1])"
    unfolding ring_view_def using nz by (simp add: upt_conv_Cons map_Suc_upt)
  also have "\<dots> = buf ! slot n r # ring_view n buf (r + 1) w"
    unfolding ring_view_def k by (simp add: add.assoc)
  finally show "ring_view n buf r w = buf ! slot n r # ring_view n buf (r + 1) w" .
  show "ring_ok n buf (r + 1) w" using ok k unfolding ring_ok_def by linarith
qed

text \<open>Slices of a ring: an intermediate index splits the view, and stepping the write index back drops
  the youngest element.\<close>

lemma ring_split:
  assumes "unat (w - r) \<le> unat (e - r :: 'l::len word)"
  shows "ring_view n buf r e = ring_view n buf r w @ ring_view n buf w e"
proof -
  have "unat ((w - r) + (e - w)) = unat (w - r) + unat (e - w)"
  proof (subst unat_plus_if', rule if_P)
    have "e - w = (e - r) - (w - r)" by simp
    then have "unat (e - w) = unat (e - r) - unat (w - r)"
      using assms by (metis unat_sub word_le_nat_alt)
    then show "unat (w - r) + unat (e - w) < 2 ^ LENGTH('l)"
      using assms unsigned_less [of "e - r", where ?'a = nat] by simp
  qed
  then have k: "unat (e - r) = unat (w - r) + unat (e - w)" by simp
  have "map (\<lambda>i. buf ! slot n (r + of_nat i)) [unat (w - r)..<unat (w - r) + unat (e - w)] =
      map (\<lambda>i. buf ! slot n (w + of_nat i)) [0..<unat (e - w)]"
    by (rule nth_equalityI) (simp_all add: add.assoc [symmetric])
  then show ?thesis
    by (simp only: ring_view_def k upt_add_eq_append [OF le0] map_append)
qed

lemma ring_butlast:
  assumes "w \<noteq> (e :: 'l::len word)"
  shows "ring_view n buf w (e - 1) = butlast (ring_view n buf w e)"
    and "unat (e - 1 - w) = unat (e - w) - 1"
proof -
  have "e - 1 - w = (e - w) - 1" by simp
  moreover have "e - w \<noteq> 0" using assms by simp
  ultimately show k: "unat (e - 1 - w) = unat (e - w) - 1" by (simp only: unat_minus_one not_False_eq_True)
  show "ring_view n buf w (e - 1) = butlast (ring_view n buf w e)"
    unfolding ring_view_def k by (cases "unat (e - w)") (simp_all add: butlast_append)
qed

section \<open>The interface\<close>

text \<open>A queue of at most \<open>cap\<close> elements inside a larger state.\<close>

locale bounded_queue =
  fixes cap :: nat
    and inv :: "'s \<Rightarrow> bool"
    and view :: "'s \<Rightarrow> 'a list"
    and push :: "'a \<Rightarrow> 's \<Rightarrow> 's"
    and pop :: "'s \<Rightarrow> 'a \<times> 's"
  assumes inv_cap: "inv s \<Longrightarrow> length (view s) \<le> cap"
    and push_view: "inv s \<Longrightarrow> length (view s) < cap \<Longrightarrow> inv (push c s) \<and> view (push c s) = view s @ [c]"
    and pop_view: "inv s \<Longrightarrow> view s \<noteq> [] \<Longrightarrow> inv (snd (pop s)) \<and> view s = fst (pop s) # view (snd (pop s))"
begin

fun pop_n :: "nat \<Rightarrow> 's \<Rightarrow> 'a list \<times> 's" where
  "pop_n 0 s = ([], s)"
| "pop_n (Suc n) s = (let (c, t) = pop s; (cs, u) = pop_n n t in (c # cs, u))"

lemma push_many:
  "inv s \<Longrightarrow> length (view s) + length cs \<le> cap \<Longrightarrow>
   inv (fold push cs s) \<and> view (fold push cs s) = view s @ cs"
proof (induction cs arbitrary: s)
  case (Cons c cs)
  then have "inv (push c s) \<and> view (push c s) = view s @ [c]" by (intro push_view) simp_all
  then show ?case using Cons.IH [of "push c s"] Cons.prems by simp
qed simp

lemma pop_n_view:
  "inv s \<Longrightarrow> n \<le> length (view s) \<Longrightarrow>
   fst (pop_n n s) = take n (view s) \<and> view (snd (pop_n n s)) = drop n (view s) \<and> inv (snd (pop_n n s))"
proof (induction n arbitrary: s)
  case (Suc n)
  then have p: "inv (snd (pop s))" "view s = fst (pop s) # view (snd (pop s))"
    using pop_view [OF Suc.prems(1)] Suc.prems(2) by fastforce+
  then have "n \<le> length (view (snd (pop s)))" using Suc.prems(2) by (metis length_Cons Suc_le_mono)
  from Suc.IH [OF p(1) this] p(2) show ?case
    by (metis (mono_tags, lifting) case_prod_unfold drop_Suc_Cons fst_conv pop_n.simps(2) snd_conv take_Suc_Cons)
qed simp

text \<open>First in, first out: what is pushed into an empty queue comes out in the same order.\<close>

lemma fifo:
  assumes "inv s" and "view s = []" and "length cs \<le> cap"
  shows "fst (pop_n (length cs) (fold push cs s)) = cs"
  using push_many [OF assms(1), of cs] pop_n_view [of "fold push cs s" "length cs"] assms(2,3) by simp

end

end
