(* ===== verification/Tty.thy ===== *)
theory Tty
  imports Proc Ring
begin

text \<open>
  The serial line and the console: \<^verbatim>\<open>kernel/memlayout.c\<close> (the UART driver), \<^verbatim>\<open>kernel/console.c\<close>,
  \<^verbatim>\<open>kernel/print.c\<close>, and \<open>either_copyin\<close>, \<open>either_copyout\<close> of \<^verbatim>\<open>kernel/spaceswap.c\<close>.
  The UART is a device: \<open>uart_in\<close> are the bytes it has received and not yet delivered, \<open>uart_out\<close>
  the bytes stored into its transmit register so far, \<open>tx_room\<close> how many more bytes it takes before
  its status register reports it busy, \<open>uart_ctl\<close> the stores to its control registers. A polling loop
  on the status register ends because the device drains on its own.
\<close>

section \<open>State\<close>

definition UART_TX_BUF_SIZE :: nat where "UART_TX_BUF_SIZE = 32"
definition INPUT_MAX :: nat where "INPUT_MAX = 128"
definition BACKSPACE :: int where "BACKSPACE = 0x100"

record tty_st = proc_st +
  uart_tx_buf :: "u8 list"
  uart_tx_w :: u64
  uart_tx_r :: u64
  cons_buf :: "u8 list"
  cons_r :: u32
  cons_w :: u32
  cons_e :: u32
  panicked :: bool
  pr_locking :: bool
  uart_in :: "u8 list"
  uart_out :: "u8 list"
  tx_room :: nat
  uart_ctl :: "(nat \<times> u8) list"

section \<open>Copies that may be to or from user space\<close>

definition either_copyout :: "bool \<Rightarrow> u64 \<Rightarrow> u8 list \<Rightarrow> u64 \<Rightarrow> (int, 'z proc_st_scheme) kop" where
  "either_copyout user_dst dst src len =
     kbind myproc (\<lambda>p.
     if user_dst then
       (case p of None \<Rightarrow> kfault ''myproc() is null''
        | Some i \<Rightarrow> kbind (pget i pagetable) (\<lambda>pt. copyoutpg pt dst src len))
     else if length src < unat (ucast len :: u32) then kfault ''either_copyout: src''
     else kthen (on_mem (\<lambda>m. wr_bytes m dst (take (unat (ucast len :: u32)) src))) (kret 0))"

definition either_copyin :: "u8 list \<Rightarrow> bool \<Rightarrow> u64 \<Rightarrow> u64 \<Rightarrow> (int \<times> u8 list, 'z proc_st_scheme) kop" where
  "either_copyin dst user_src src len =
     kbind myproc (\<lambda>p.
     if user_src then
       (case p of None \<Rightarrow> kfault ''myproc() is null''
        | Some i \<Rightarrow> kbind (pget i pagetable) (\<lambda>pt. copyin pt dst 0 src len))
     else kbind (kget (\<lambda>s. rd_bytes (mem s) src (unat (ucast len :: u32)))) (\<lambda>bs.
       if length dst < length bs then kfault ''either_copyin: dst''
       else kret (0, put dst 0 bs)))"

section \<open>UART\<close>

definition write_reg :: "nat \<Rightarrow> u8 \<Rightarrow> (unit, 'z tty_st_scheme) kop" where
  "write_reg r v = kmod (\<lambda>s. s\<lparr>uart_ctl := uart_ctl s @ [(r, v)]\<rparr>)"

text \<open>Registers and bits of the UART (\<^verbatim>\<open>memlayout.h\<close>).\<close>

definition IER :: nat where "IER = 1"
definition IER_RX_ENABLE :: u8 where "IER_RX_ENABLE = push_bit 0 1"
definition IER_TX_ENABLE :: u8 where "IER_TX_ENABLE = push_bit 1 1"
definition LCR :: nat where "LCR = 3"
definition LCR_EIGHT_BITS :: u8 where "LCR_EIGHT_BITS = push_bit 0 3"
definition LCR_BAUD_LATCH :: u8 where "LCR_BAUD_LATCH = push_bit 7 1"
definition FCR :: nat where "FCR = 2"
definition FCR_FIFO_ENABLE :: u8 where "FCR_FIFO_ENABLE = push_bit 0 1"
definition FCR_FIFO_CLEAR :: u8 where "FCR_FIFO_CLEAR = push_bit 1 3"

definition uartinit :: "(unit, 'z tty_st_scheme) kop" where
  "uartinit =
     kthen (write_reg IER 0) (
     kthen (write_reg LCR LCR_BAUD_LATCH) (
     kthen (write_reg 0 3) (
     kthen (write_reg 1 0) (
     kthen (write_reg LCR LCR_EIGHT_BITS) (
     kthen (write_reg FCR (FCR_FIFO_ENABLE OR FCR_FIFO_CLEAR)) (
     kthen (write_reg IER (IER_TX_ENABLE OR IER_RX_ENABLE)) (
     initlock UartTxLk ''uart'')))))))"

text \<open>A store to the transmit register.\<close>

definition tx_byte :: "u8 \<Rightarrow> (unit, 'z tty_st_scheme) kop" where
  "tx_byte c = kmod (\<lambda>s. s\<lparr>uart_out := uart_out s @ [c], tx_room := tx_room s - 1\<rparr>)"

text \<open>\<open>uartputc_sync\<close>; its argument is an \<open>int\<close> that the register cuts to a byte.\<close>

definition uartputc_sync :: "int \<Rightarrow> (unit, 'z tty_st_scheme) kop" where
  "uartputc_sync c =
     kthen push_off (
     kbind (kget panicked) (\<lambda>p.
     if p then (\<lambda>s. Spin)
     else kthen (tx_byte (word_of_int c)) pop_off))"

definition consputc :: "int \<Rightarrow> (unit, 'z tty_st_scheme) kop" where
  "consputc c =
     (if c = BACKSPACE then
        kthen (uartputc_sync 8) (kthen (uartputc_sync 32) (uartputc_sync 8))
      else uartputc_sync c)"

definition uart_putc :: "u8 \<Rightarrow> (unit, 'z tty_st_scheme) kop" where
  "uart_putc c = consputc (uint c)"

fun uart_putstr_loop :: "u8 list \<Rightarrow> (unit, 'z tty_st_scheme) kop" where
  "uart_putstr_loop [] = kfault ''uart_putstr: no NUL''"
| "uart_putstr_loop (c # s) = (if c = 0 then kret () else kthen (uart_putc c) (uart_putstr_loop s))"

definition uart_putstr :: "u8 list \<Rightarrow> (unit, 'z tty_st_scheme) kop" where
  "uart_putstr s = kbind (kget panicked) (\<lambda>p. if p then (\<lambda>s. Spin) else uart_putstr_loop s)"

definition uartgetc :: "(int, 'z tty_st_scheme) kop" where
  "uartgetc = (\<lambda>s. case uart_in s of [] \<Rightarrow> Ret (-1) s
     | c # cs \<Rightarrow> Ret (uint c) (s\<lparr>uart_in := cs\<rparr>))"

text \<open>One turn of \<open>uartstart\<close>'s loop; \<open>True\<close> means go on. The loop ends at the latest when the ring is
  empty, so as many turns as it holds bytes, plus one, are enough.\<close>

definition uartstart_turn :: "(bool, 'z tty_st_scheme) kop" where
  "uartstart_turn =
     kbind (kget (\<lambda>s. uart_tx_r s = uart_tx_w s \<or> tx_room s = 0)) (\<lambda>stop.
     if stop then kret False
     else kbind (kget (\<lambda>s. uart_tx_buf s ! slot UART_TX_BUF_SIZE (uart_tx_r s))) (\<lambda>c.
       kthen (kmod (\<lambda>s. s\<lparr>uart_tx_r := uart_tx_r s + 1\<rparr>)) (
       kthen (wakeup (Some UartCh)) (
       kthen (tx_byte c) (kret True)))))"

fun uartstart_loop :: "nat \<Rightarrow> (unit, 'z tty_st_scheme) kop" where
  "uartstart_loop 0 = kret ()"
| "uartstart_loop (Suc n) =
     kbind uartstart_turn (\<lambda>more. if more then uartstart_loop n else kret ())"

definition uartstart :: "(unit, 'z tty_st_scheme) kop" where
  "uartstart = kbind (kget (\<lambda>s. unat (uart_tx_w s - uart_tx_r s))) (\<lambda>n. uartstart_loop (Suc n))"

text \<open>\<open>uartputc\<close>: the body of its loop, which goes to sleep when the ring is full; after the wakeup the
  loop starts again.\<close>

definition uartputc_body :: "u8 \<Rightarrow> (unit, 'z tty_st_scheme) kop" where
  "uartputc_body c =
     kbind (kget (\<lambda>s. uart_tx_w s = uart_tx_r s + of_nat UART_TX_BUF_SIZE)) (\<lambda>full.
     if full then sleep UartCh UartTxLk
     else kthen (kmod (\<lambda>s. s\<lparr>uart_tx_buf := (uart_tx_buf s)[slot UART_TX_BUF_SIZE (uart_tx_w s) := c],
            uart_tx_w := uart_tx_w s + 1\<rparr>)) (
          kthen uartstart (release UartTxLk)))"

definition uartputc :: "u8 \<Rightarrow> (unit, 'z tty_st_scheme) kop" where
  "uartputc c =
     kthen (acquire UartTxLk) (
     kbind (kget panicked) (\<lambda>p. if p then (\<lambda>s. Spin) else uartputc_body c))"

definition uartputc_resume :: "nat \<Rightarrow> bool \<Rightarrow> u8 \<Rightarrow> (unit, 'z tty_st_scheme) kop" where
  "uartputc_resume pc ie c = kthen (sleep_resume pc ie UartTxLk) (uartputc_body c)"

section \<open>Console\<close>

fun consolewrite_loop :: "bool \<Rightarrow> u64 \<Rightarrow> nat \<Rightarrow> nat \<Rightarrow> (int, 'z tty_st_scheme) kop" where
  "consolewrite_loop user_src src i 0 = kret (int i)"
| "consolewrite_loop user_src src i (Suc n) =
     kbind (either_copyin [0] user_src (src + of_nat i) 1) (\<lambda>(r, c).
     if r = -1 then kret (int i)
     else kthen (uartputc (hd c)) (consolewrite_loop user_src src (Suc i) n))"

definition consolewrite :: "bool \<Rightarrow> u64 \<Rightarrow> int \<Rightarrow> (int, 'z tty_st_scheme) kop" where
  "consolewrite user_src src n = consolewrite_loop user_src src 0 (nat n)"

text \<open>The rest of \<open>consolewrite\<close> when \<open>uartputc\<close> slept on its \<open>i\<close>-th byte.\<close>

definition consolewrite_resume ::
  "nat \<Rightarrow> bool \<Rightarrow> u8 \<Rightarrow> bool \<Rightarrow> u64 \<Rightarrow> nat \<Rightarrow> nat \<Rightarrow> (int, 'z tty_st_scheme) kop" where
  "consolewrite_resume pc ie c user_src src i n =
     kthen (uartputc_resume pc ie c) (consolewrite_loop user_src src (Suc i) n)"

text \<open>\<open>consoleread\<close>. When the input is empty it sleeps (\<open>sleep\<close> never returns directly: it ends in
  \<open>Switch\<close>, and \<open>consoleread_resume\<close> goes on); \<open>n\<close> is what is left of \<open>target\<close>.\<close>

fun consoleread_loop :: "bool \<Rightarrow> u64 \<Rightarrow> nat \<Rightarrow> nat \<Rightarrow> (int, 'z tty_st_scheme) kop" where
  "consoleread_loop user_dst dst target 0 = kthen (release ConsLk) (kret (int target))"
| "consoleread_loop user_dst dst target (Suc n) =
     kbind (kget (\<lambda>s. cons_r s = cons_w s)) (\<lambda>empty.
     if empty then
       kbind thisproc (\<lambda>p. kbind (pget p killed) (\<lambda>k.
       if k \<noteq> 0 then kthen (release ConsLk) (kret (-1))
       else kthen (sleep ConsCh ConsLk) (kret 0)))
     else
       kbind (kget (\<lambda>s. cons_buf s ! slot INPUT_MAX (cons_r s))) (\<lambda>c.
       kthen (kmod (\<lambda>s. s\<lparr>cons_r := cons_r s + 1\<rparr>)) (
       if c = 4 then
         kthen (kwhen (Suc n < target) (kmod (\<lambda>s. s\<lparr>cons_r := cons_r s - 1\<rparr>))) (
         kthen (release ConsLk) (kret (int target - int (Suc n))))
       else
         kbind (either_copyout user_dst dst [c] 1) (\<lambda>r.
         if r = -1 then kthen (release ConsLk) (kret (int target - int (Suc n)))
         else if c = 10 then kthen (release ConsLk) (kret (int target - int n))
         else consoleread_loop user_dst (dst + 1) target n))))"

definition consoleread :: "bool \<Rightarrow> u64 \<Rightarrow> int \<Rightarrow> (int, 'z tty_st_scheme) kop" where
  "consoleread user_dst dst n =
     kthen (acquire ConsLk) (
     if n \<le> 0 then kthen (release ConsLk) (kret 0)
     else consoleread_loop user_dst dst (nat n) (nat n))"

definition consoleread_resume ::
  "nat \<Rightarrow> bool \<Rightarrow> bool \<Rightarrow> u64 \<Rightarrow> nat \<Rightarrow> nat \<Rightarrow> (int, 'z tty_st_scheme) kop" where
  "consoleread_resume pc ie user_dst dst target n =
     kthen (sleep_resume pc ie ConsLk) (consoleread_loop user_dst dst target n)"

text \<open>\<open>consoleintr\<close>. The loop of Control-U walks back to the start of the line; as many turns as there are
  edited bytes are enough.\<close>

fun kill_line :: "nat \<Rightarrow> (unit, 'z tty_st_scheme) kop" where
  "kill_line 0 = kret ()"
| "kill_line (Suc n) =
     kbind (kget (\<lambda>s. cons_e s \<noteq> cons_w s \<and> cons_buf s ! slot INPUT_MAX (cons_e s - 1) \<noteq> 10)) (\<lambda>go.
     if go then
       kthen (kmod (\<lambda>s. s\<lparr>cons_e := cons_e s - 1\<rparr>)) (
       kthen (consputc BACKSPACE) (kill_line n))
     else kret ())"

definition cons_put :: "u8 \<Rightarrow> 'z tty_st_scheme \<Rightarrow> 'z tty_st_scheme" where
  "cons_put c s = s\<lparr>cons_buf := (cons_buf s)[slot INPUT_MAX (cons_e s) := c], cons_e := cons_e s + 1\<rparr>"

definition consoleintr_key :: "int \<Rightarrow> (unit, 'z tty_st_scheme) kop" where
  "consoleintr_key c' =
     kthen (consputc c') (
     kthen (kmod (cons_put (word_of_int c'))) (
     kbind (kget (\<lambda>s. c' = 10 \<or> c' = 4 \<or> cons_e s = cons_r s + of_nat INPUT_MAX)) (\<lambda>line.
     kwhen line (kthen (kmod (\<lambda>s. s\<lparr>cons_w := cons_e s\<rparr>)) (wakeup (Some ConsCh))))))"

definition consoleintr :: "int \<Rightarrow> (unit, 'z tty_st_scheme) kop" where
  "consoleintr c =
     kthen (acquire ConsLk) (
     kthen (
       if c = 21 then kbind (kget (\<lambda>s. unat (cons_e s - cons_w s))) (\<lambda>n. kill_line n)
       else if c = 8 \<or> c = 127 then
         kbind (kget (\<lambda>s. cons_e s \<noteq> cons_w s)) (\<lambda>b.
         kwhen b (kthen (kmod (\<lambda>s. s\<lparr>cons_e := cons_e s - 1\<rparr>)) (consputc BACKSPACE)))
       else
         kbind (kget (\<lambda>s. c \<noteq> 0 \<and> cons_e s - cons_r s < of_nat INPUT_MAX)) (\<lambda>b.
         kwhen b (consoleintr_key (if c = 13 then 10 else c))))
     (release ConsLk))"

text \<open>\<open>uartinterrupt\<close>: drain the receiver, then restart the transmitter.\<close>

fun uart_drain :: "nat \<Rightarrow> (unit, 'z tty_st_scheme) kop" where
  "uart_drain 0 = kret ()"
| "uart_drain (Suc n) =
     kbind uartgetc (\<lambda>c. if c = -1 then kret () else kthen (consoleintr c) (uart_drain n))"

definition uartinterrupt :: "(unit, 'z tty_st_scheme) kop" where
  "uartinterrupt =
     kbind (kget (\<lambda>s. length (uart_in s))) (\<lambda>n.
     kthen (uart_drain (Suc n)) (
     kthen (acquire UartTxLk) (
     kthen uartstart (
     release UartTxLk))))"

section \<open>The two rings are bounded queues\<close>

definition tx_ok :: "'z tty_st_scheme \<Rightarrow> bool" where
  "tx_ok s \<longleftrightarrow> ring_ok UART_TX_BUF_SIZE (uart_tx_buf s) (uart_tx_r s) (uart_tx_w s)"

definition tx_view :: "'z tty_st_scheme \<Rightarrow> u8 list" where
  "tx_view s = ring_view UART_TX_BUF_SIZE (uart_tx_buf s) (uart_tx_r s) (uart_tx_w s)"

definition tx_push :: "u8 \<Rightarrow> 'z tty_st_scheme \<Rightarrow> 'z tty_st_scheme" where
  "tx_push c s = s\<lparr>uart_tx_buf := (uart_tx_buf s)[slot UART_TX_BUF_SIZE (uart_tx_w s) := c],
     uart_tx_w := uart_tx_w s + 1\<rparr>"

definition tx_pop :: "'z tty_st_scheme \<Rightarrow> u8 \<times> 'z tty_st_scheme" where
  "tx_pop s = (uart_tx_buf s ! slot UART_TX_BUF_SIZE (uart_tx_r s), s\<lparr>uart_tx_r := uart_tx_r s + 1\<rparr>)"

definition in_ok :: "'z tty_st_scheme \<Rightarrow> bool" where
  "in_ok s \<longleftrightarrow> ring_ok INPUT_MAX (cons_buf s) (cons_r s) (cons_e s)"

definition in_view :: "'z tty_st_scheme \<Rightarrow> u8 list" where
  "in_view s = ring_view INPUT_MAX (cons_buf s) (cons_r s) (cons_e s)"

definition in_pop :: "'z tty_st_scheme \<Rightarrow> u8 \<times> 'z tty_st_scheme" where
  "in_pop s = (cons_buf s ! slot INPUT_MAX (cons_r s), s\<lparr>cons_r := cons_r s + 1\<rparr>)"

interpretation txq: bounded_queue UART_TX_BUF_SIZE tx_ok tx_view tx_push tx_pop
proof
  fix s :: "'a tty_st_scheme" and c
  assume ok: "tx_ok s"
  then show "length (tx_view s) \<le> UART_TX_BUF_SIZE" by (simp add: tx_ok_def tx_view_def ring_ok_def)
  show "tx_ok (tx_push c s) \<and> tx_view (tx_push c s) = tx_view s @ [c]" if "length (tx_view s) < UART_TX_BUF_SIZE"
    using ring_push [OF ok [unfolded tx_ok_def], of c] that by (simp add: tx_view_def tx_push_def tx_ok_def)
  show "tx_ok (snd (tx_pop s)) \<and> tx_view s = fst (tx_pop s) # tx_view (snd (tx_pop s))" if "tx_view s \<noteq> []"
    using ring_pop [OF ok [unfolded tx_ok_def]] that
    by (simp add: tx_view_def tx_pop_def tx_ok_def)
qed

interpretation inq: bounded_queue INPUT_MAX in_ok in_view cons_put in_pop
proof
  fix s :: "'a tty_st_scheme" and c
  assume ok: "in_ok s"
  then show "length (in_view s) \<le> INPUT_MAX" by (simp add: in_ok_def in_view_def ring_ok_def)
  show "in_ok (cons_put c s) \<and> in_view (cons_put c s) = in_view s @ [c]" if "length (in_view s) < INPUT_MAX"
    using ring_push [OF ok [unfolded in_ok_def], of c] that by (simp add: in_view_def cons_put_def in_ok_def)
  show "in_ok (snd (in_pop s)) \<and> in_view s = fst (in_pop s) # in_view (snd (in_pop s))" if "in_view s \<noteq> []"
    using ring_pop [OF ok [unfolded in_ok_def]] that
    by (simp add: in_view_def in_pop_def in_ok_def)
qed

section \<open>The transmitter\<close>

text \<open>What the drivers need of the rest of the kernel in order to call \<open>wakeup\<close>.\<close>

definition wakers_ok :: "'z proc_st_scheme \<Rightarrow> bool" where
  "wakers_ok s \<longleftrightarrow> cpu_ok (hart s) (cpus s) \<and> length (procs s) = NPROC \<and>
     (\<forall>p < NPROC. cur s \<noteq> Some p \<longrightarrow> free_lock (locks s) (ProcLk p))"

text \<open>Everything the driver has been given, in order: what is on the wire and what still waits.\<close>

definition tx_stream :: "'z tty_st_scheme \<Rightarrow> u8 list" where
  "tx_stream s = uart_out s @ tx_view s"

lemma wakeup_wakers:
  assumes "wakers_ok s"
  obtains ks where "wakeup ch s = Ret () (s\<lparr>procs := ks\<rparr>)" "length ks = NPROC"
    "\<And>i. i < NPROC \<Longrightarrow> ks ! i = (if cur s = Some i then procs s ! i else wake ch (procs s ! i))"
  using assms wakeup_ok [of s ch] unfolding wakers_ok_def by blast

lemma wakers_ok_frame [simp]:
  "wakers_ok (s\<lparr>uart_tx_r := a\<rparr>) = wakers_ok s"
  "wakers_ok (s\<lparr>uart_out := o', tx_room := n\<rparr>) = wakers_ok s"
  "length ks = NPROC \<Longrightarrow> length (procs s) = NPROC \<Longrightarrow> wakers_ok (s\<lparr>procs := ks\<rparr>) = wakers_ok s"
  by (simp_all add: wakers_ok_def cur_def)

lemma uartstart_turn_stop:
  "uart_tx_r s = uart_tx_w s \<or> tx_room s = 0 \<Longrightarrow> uartstart_turn s = Ret False s"
  by (auto simp: uartstart_turn_def)

lemma uartstart_turn_go:
  assumes wk: "wakers_ok s" and "tx_ok s" and "uart_tx_r s \<noteq> uart_tx_w s" "tx_room s \<noteq> 0"
  obtains t where "uartstart_turn s = Ret True t" "wakers_ok t" "tx_ok t" "tx_stream t = tx_stream s"
    "length (tx_view s) = Suc (length (tx_view t))"
    "\<exists>r ks ts. t = s\<lparr>uart_tx_r := r, procs := ks, uart_out := ts, tx_room := tx_room s - 1\<rparr> \<and>
       length ks = NPROC"
proof -
  let ?a = "snd (tx_pop s)"
  have "tx_view s \<noteq> []" using assms(3) by (simp add: tx_view_def)
  then have pop: "tx_ok ?a" "tx_view s = fst (tx_pop s) # tx_view ?a" using txq.pop_view assms(2) by blast+
  have a: "wakers_ok ?a" "?a = s\<lparr>uart_tx_r := uart_tx_r s + 1\<rparr>" using wk by (simp_all add: tx_pop_def)
  obtain ks where ks: "wakeup (Some UartCh) ?a = Ret () (?a\<lparr>procs := ks\<rparr>)" "length ks = NPROC"
    using wakeup_wakers [OF a(1)] by metis
  define t where "t = s\<lparr>uart_tx_r := uart_tx_r s + 1, procs := ks, uart_out := uart_out s @ [fst (tx_pop s)],
      tx_room := tx_room s - 1\<rparr>"
  show thesis
  proof (rule that [of t])
    show "uartstart_turn s = Ret True t"
      using assms(3,4) ks(1) by (simp add: uartstart_turn_def kbind_def tx_byte_def tx_pop_def t_def)
    show "wakers_ok t" using wk ks(2) by (simp add: t_def wakers_ok_def cur_def)
    show "tx_ok t" using pop(1) by (simp add: t_def tx_ok_def tx_pop_def)
    have v: "tx_view t = tx_view ?a" by (simp add: t_def tx_view_def tx_pop_def)
    then show "tx_stream t = tx_stream s" using pop(2) by (simp add: tx_stream_def) (simp add: t_def)
    show "length (tx_view s) = Suc (length (tx_view t))" using v pop(2) by simp
    show "\<exists>r ks ts. t = s\<lparr>uart_tx_r := r, procs := ks, uart_out := ts, tx_room := tx_room s - 1\<rparr> \<and>
       length ks = NPROC"
      using ks(2) by (auto simp: t_def)
  qed
qed

text \<open>\<open>uartstart\<close> keeps the stream and stops only when the ring is empty or the device is full.\<close>

lemma uartstart_loop_spec:
  assumes "wakers_ok s" and "tx_ok s" and "length (tx_view s) < n"
  shows "\<exists>r ks ts m. let t = s\<lparr>uart_tx_r := r, procs := ks, uart_out := ts, tx_room := m\<rparr> in
    uartstart_loop n s = Ret () t \<and> length ks = NPROC \<and> tx_ok t \<and> tx_stream t = tx_stream s \<and>
    (tx_view t = [] \<or> m = 0) \<and> length (tx_view t) \<le> length (tx_view s)"
  using assms
proof (induction n arbitrary: s)
  case (Suc n)
  show ?case
  proof (cases "uart_tx_r s = uart_tx_w s \<or> tx_room s = 0")
    case True
    then have "uartstart_loop (Suc n) s = Ret () s" by (simp add: kbind_def uartstart_turn_stop)
    moreover have "tx_view s = [] \<or> tx_room s = 0" using True by (auto simp: tx_view_def)
    ultimately show ?thesis using Suc.prems
      by (intro exI [of _ "uart_tx_r s"] exI [of _ "procs s"] exI [of _ "uart_out s"] exI [of _ "tx_room s"])
        (simp add: wakers_ok_def)
  next
    case False
    then obtain t where t: "uartstart_turn s = Ret True t" "wakers_ok t" "tx_ok t" "tx_stream t = tx_stream s"
      "length (tx_view s) = Suc (length (tx_view t))"
      "\<exists>r ks ts. t = s\<lparr>uart_tx_r := r, procs := ks, uart_out := ts, tx_room := tx_room s - 1\<rparr> \<and>
         length ks = NPROC"
      using uartstart_turn_go [OF Suc.prems(1,2)] by blast
    obtain r ks ts m where u: "uartstart_loop n t = Ret () (t\<lparr>uart_tx_r := r, procs := ks, uart_out := ts, tx_room := m\<rparr>)"
      "length ks = NPROC" "tx_ok (t\<lparr>uart_tx_r := r, procs := ks, uart_out := ts, tx_room := m\<rparr>)"
      "tx_stream (t\<lparr>uart_tx_r := r, procs := ks, uart_out := ts, tx_room := m\<rparr>) = tx_stream t"
      "tx_view (t\<lparr>uart_tx_r := r, procs := ks, uart_out := ts, tx_room := m\<rparr>) = [] \<or> m = 0"
      "length (tx_view (t\<lparr>uart_tx_r := r, procs := ks, uart_out := ts, tx_room := m\<rparr>)) \<le> length (tx_view t)"
      using Suc.IH [OF t(2,3)] Suc.prems(3) t(5) by (auto simp: Let_def)
    have eq: "t\<lparr>uart_tx_r := r, procs := ks, uart_out := ts, tx_room := m\<rparr> =
        s\<lparr>uart_tx_r := r, procs := ks, uart_out := ts, tx_room := m\<rparr>"
      using t(6) by auto
    have "uartstart_loop (Suc n) s = Ret () (s\<lparr>uart_tx_r := r, procs := ks, uart_out := ts, tx_room := m\<rparr>)"
      using t(1) u(1) eq by (simp add: kbind_def)
    then show ?thesis
      using u(2-6) t(4,5) unfolding eq Let_def
      by (intro exI [of _ r] exI [of _ ks] exI [of _ ts] exI [of _ m]) simp
  qed
qed simp

lemma uartstart_spec:
  assumes "wakers_ok s" and "tx_ok s"
  obtains r ks ts m where "uartstart s = Ret () (s\<lparr>uart_tx_r := r, procs := ks, uart_out := ts, tx_room := m\<rparr>)"
    "length ks = NPROC" "tx_ok (s\<lparr>uart_tx_r := r, procs := ks, uart_out := ts, tx_room := m\<rparr>)"
    "tx_stream (s\<lparr>uart_tx_r := r, procs := ks, uart_out := ts, tx_room := m\<rparr>) = tx_stream s"
    "tx_view (s\<lparr>uart_tx_r := r, procs := ks, uart_out := ts, tx_room := m\<rparr>) = [] \<or> m = 0"
    "length (tx_view (s\<lparr>uart_tx_r := r, procs := ks, uart_out := ts, tx_room := m\<rparr>)) \<le> length (tx_view s)"
  using uartstart_loop_spec [OF assms, of "Suc (length (tx_view s))"]
  by (auto simp: uartstart_def Let_def tx_view_def)

text \<open>A spinlock held by this hart can be put back when the rest of the state has moved on.\<close>

lemma release_after:
  assumes "cpu_ok (hart s) (cpus s)" and "free_lock (locks s) L"
    and "hart t = hart s" "cpus t = pushc (hart s) (cpus s)" "locks t = lock_on (hart s) L (locks s)"
  shows "release L t = Ret () (t\<lparr>locks := locks s, cpus := cpus s\<rparr>)"
  using assms by (simp add: release_held cpu_ok_hart)

lemma wakers_ok_section:
  assumes "wakers_ok s" and "\<And>p. L \<noteq> ProcLk p"
  shows "wakers_ok (s\<lparr>cpus := pushc (hart s) (cpus s), locks := lock_on (hart s) L (locks s)\<rparr>)"
  using assms pushc_facts(4) [of "hart s" "cpus s"]
  by (simp add: wakers_ok_def cur_def) (metis free_lock_on)

lemma tx_full_iff:
  assumes "tx_ok s"
  shows "uart_tx_w s = uart_tx_r s + of_nat UART_TX_BUF_SIZE \<longleftrightarrow> length (tx_view s) = UART_TX_BUF_SIZE"
proof -
  have "uart_tx_w s = uart_tx_r s + 32 \<longleftrightarrow> uart_tx_w s - uart_tx_r s = 32" by (auto simp: algebra_simps)
  also have "\<dots> \<longleftrightarrow> unat (uart_tx_w s - uart_tx_r s) = 32" by (simp add: word_unat_eq_iff)
  finally show ?thesis by (simp add: UART_TX_BUF_SIZE_def tx_view_def)
qed

lemma uartputc_room:
  assumes wk: "wakers_ok s" and lk: "free_lock (locks s) UartTxLk" and np: "\<not> panicked s"
    and ok: "tx_ok s" and room: "length (tx_view s) < UART_TX_BUF_SIZE"
  obtains t where "uartputc c s = Ret () t" "tx_stream t = tx_stream s @ [c]" "tx_ok t"
    "tx_view t = [] \<or> tx_room t = 0" "length (tx_view t) \<le> Suc (length (tx_view s))"
    "locks t = locks s" "cpus t = cpus s" "wakers_ok t"
proof -
  have cp: "cpu_ok (hart s) (cpus s)" using wk by (simp add: wakers_ok_def)
  define a where "a = s\<lparr>cpus := pushc (hart s) (cpus s), locks := lock_on (hart s) UartTxLk (locks s)\<rparr>"
  define b where "b = tx_push c a"
  have acq: "acquire UartTxLk s = Ret () a" unfolding a_def using cp lk by (rule acquire_free)
  have same: "tx_view a = tx_view s" "tx_ok a = tx_ok s" "tx_stream a = tx_stream s" "panicked a = panicked s"
    by (simp_all add: a_def tx_view_def tx_ok_def tx_stream_def)
  have nf: "\<not> uart_tx_w a = uart_tx_r a + of_nat UART_TX_BUF_SIZE"
    using tx_full_iff [of a] same ok room by simp
  have b: "tx_ok b" "tx_view b = tx_view s @ [c]"
    using txq.push_view [of a c] ok room same by (simp_all add: b_def)
  have bs: "tx_stream b = tx_stream s @ [c]" using b(2) by (simp add: tx_stream_def) (simp add: b_def a_def tx_push_def)
  have wb: "wakers_ok b"
    using wakers_ok_section [OF wk, of UartTxLk] by (simp add: b_def a_def tx_push_def wakers_ok_def cur_def)
  obtain r ks ts m where u: "uartstart b = Ret () (b\<lparr>uart_tx_r := r, procs := ks, uart_out := ts, tx_room := m\<rparr>)"
    "length ks = NPROC" "tx_ok (b\<lparr>uart_tx_r := r, procs := ks, uart_out := ts, tx_room := m\<rparr>)"
    "tx_stream (b\<lparr>uart_tx_r := r, procs := ks, uart_out := ts, tx_room := m\<rparr>) = tx_stream b"
    "tx_view (b\<lparr>uart_tx_r := r, procs := ks, uart_out := ts, tx_room := m\<rparr>) = [] \<or> m = 0"
    "length (tx_view (b\<lparr>uart_tx_r := r, procs := ks, uart_out := ts, tx_room := m\<rparr>)) \<le> length (tx_view b)"
    using uartstart_spec [OF wb b(1)] .
  define v where "v = b\<lparr>uart_tx_r := r, procs := ks, uart_out := ts, tx_room := m\<rparr>"
  note u = u [folded v_def]
  have rel: "release UartTxLk v = Ret () (v\<lparr>locks := locks s, cpus := cpus s\<rparr>)"
    by (rule release_after [OF cp lk]) (simp_all add: v_def b_def a_def tx_push_def)
  show thesis
  proof (rule that)
    show "uartputc c s = Ret () (v\<lparr>locks := locks s, cpus := cpus s\<rparr>)"
      using acq np same nf u(1) rel
      by (simp add: uartputc_def uartputc_body_def kbind_def b_def [unfolded tx_push_def, symmetric])
    have e: "tx_stream (v\<lparr>locks := locks s, cpus := cpus s\<rparr>) = tx_stream v"
      "tx_ok (v\<lparr>locks := locks s, cpus := cpus s\<rparr>) = tx_ok v"
      "tx_view (v\<lparr>locks := locks s, cpus := cpus s\<rparr>) = tx_view v"
      by (simp_all add: tx_stream_def tx_ok_def tx_view_def)
    show "tx_stream (v\<lparr>locks := locks s, cpus := cpus s\<rparr>) = tx_stream s @ [c]"
      using u(4) bs by (simp only: e)
    show "tx_ok (v\<lparr>locks := locks s, cpus := cpus s\<rparr>)" using u(3) by (simp only: e)
    show "tx_view (v\<lparr>locks := locks s, cpus := cpus s\<rparr>) = [] \<or> tx_room (v\<lparr>locks := locks s, cpus := cpus s\<rparr>) = 0"
      using u(5) unfolding e by (simp add: v_def)
    show "length (tx_view (v\<lparr>locks := locks s, cpus := cpus s\<rparr>)) \<le> Suc (length (tx_view s))"
      using u(6) b(2) by (simp only: e) simp
    show "wakers_ok (v\<lparr>locks := locks s, cpus := cpus s\<rparr>)"
      using wk u(2) by (simp add: wakers_ok_def cur_def v_def b_def a_def tx_push_def)
  qed simp_all
qed

lemma uartputc_full:
  assumes wk: "wakers_ok s" and lk: "free_lock (locks s) UartTxLk" and np: "\<not> panicked s"
    and ok: "tx_ok s" and full: "length (tx_view s) = UART_TX_BUF_SIZE"
    and p: "cur s = Some p" "p < NPROC" "free_lock (locks s) (ProcLk p)"
  shows "uartputc c s = Switch (s\<lparr>cpus := pushc (hart s) (cpus s), locks := lock_on (hart s) (ProcLk p) (locks s),
    procs := (procs s)[p := (procs s ! p)\<lparr>chan := Some UartCh, pstate := SLEEPING\<rparr>]\<rparr>)"
proof -
  have cp: "cpu_ok (hart s) (cpus s)" "length (procs s) = NPROC" using wk by (simp_all add: wakers_ok_def)
  define a where "a = s\<lparr>cpus := pushc (hart s) (cpus s), locks := lock_on (hart s) UartTxLk (locks s)\<rparr>"
  have acq: "acquire UartTxLk s = Ret () a" unfolding a_def using cp(1) lk by (rule acquire_free)
  have "tx_view a = tx_view s" "tx_ok a = tx_ok s" by (simp_all add: a_def tx_view_def tx_ok_def)
  then have f: "uart_tx_w a = uart_tx_r a + of_nat UART_TX_BUF_SIZE"
    using tx_full_iff [of a] ok full by simp
  have "sleep UartCh UartTxLk a = Switch (a\<lparr>cpus := popc (hart a) (pushc (hart a) (cpus a)),
    locks := lock_off UartTxLk (lock_on (hart a) (ProcLk p) (locks a)),
    procs := (procs a)[p := (procs a ! p)\<lparr>chan := Some UartCh, pstate := SLEEPING\<rparr>]\<rparr>)"
    by (rule sleep_ok) (use cp p in \<open>simp_all add: a_def cur_def\<close>)
  moreover have "panicked a = panicked s" by (simp add: a_def)
  ultimately show ?thesis
    using acq np f cp lk by (simp add: uartputc_def uartputc_body_def kbind_def) (simp add: a_def)
qed

section \<open>The console's line discipline\<close>

text \<open>The committed lines a reader may take, and the line being edited. A line never holds a newline or
  an end-of-file mark: these commit it.\<close>

definition committed :: "'z tty_st_scheme \<Rightarrow> u8 list" where
  "committed s = ring_view INPUT_MAX (cons_buf s) (cons_r s) (cons_w s)"

definition editing :: "'z tty_st_scheme \<Rightarrow> u8 list" where
  "editing s = ring_view INPUT_MAX (cons_buf s) (cons_w s) (cons_e s)"

definition cons_ok :: "'z tty_st_scheme \<Rightarrow> bool" where
  "cons_ok s \<longleftrightarrow> in_ok s \<and> unat (cons_w s - cons_r s) \<le> unat (cons_e s - cons_r s) \<and> 10 \<notin> set (editing s)"

text \<open>The specification of one key on a pair of lists: Control-U drops the line, Control-H and delete its
  last character, a carriage return is a newline, and newline, Control-D or a full buffer commit.\<close>

definition line_edit :: "int \<Rightarrow> u8 list \<times> u8 list \<Rightarrow> u8 list \<times> u8 list" where
  "line_edit c = (\<lambda>(com, line).
     if c = 21 then (com, [])
     else if c = 8 \<or> c = 127 then (com, butlast line)
     else if c = 0 \<or> length com + length line \<ge> INPUT_MAX then (com, line)
     else let c' = (if c = 13 then 10 else c); line' = line @ [word_of_int c'] in
       if c' = 10 \<or> c' = 4 \<or> length com + length line' = INPUT_MAX then (com @ line', []) else (com, line'))"

lemma consputc_ok:
  assumes "cpu_ok (hart s) (cpus s)" and "\<not> panicked s"
  obtains ts m where "consputc c s = Ret () (s\<lparr>uart_out := ts, tx_room := m\<rparr>)"
proof -
  have sync: "uartputc_sync d t = Ret () (t\<lparr>uart_out := uart_out t @ [word_of_int d], tx_room := tx_room t - 1\<rparr>)"
    if "cpu_ok (hart t) (cpus t)" "\<not> panicked t" for d and t :: "'a tty_st_scheme"
    using that by (simp add: uartputc_sync_def kbind_def push_off_ok pop_off_ok cpu_ok_hart tx_byte_def)
  show thesis
  proof (cases "c = BACKSPACE")
    case True
    then have "consputc c s = Ret () (s\<lparr>uart_out := uart_out s @ [8, 32, 8], tx_room := tx_room s - 1 - 1 - 1\<rparr>)"
      using assms by (simp add: consputc_def kbind_def sync)
    then show thesis by (rule that)
  next
    case False
    then have "consputc c s = Ret () (s\<lparr>uart_out := uart_out s @ [word_of_int c], tx_room := tx_room s - 1\<rparr>)"
      using assms by (simp add: consputc_def sync)
    then show thesis by (rule that)
  qed
qed

lemma in_view_split: "cons_ok s \<Longrightarrow> in_view s = committed s @ editing s"
  unfolding cons_ok_def in_view_def committed_def editing_def by (intro ring_split) simp

lemma cons_ok_lengths:
  "cons_ok s \<Longrightarrow> length (committed s) + length (editing s) = unat (cons_e s - cons_r s)"
  using arg_cong [OF in_view_split [of s], of length] by (simp add: in_view_def)

lemma ring_last:
  assumes "w \<noteq> (e :: 'l::len word)"
  shows "last (ring_view n buf w e) = buf ! slot n (e - 1)"
proof -
  have k: "unat (e - w) \<noteq> 0" using assms by (simp add: unat_eq_zero)
  then have "of_nat (unat (e - w) - 1) = e - w - 1" by (simp add: of_nat_diff)
  then have "w + of_nat (unat (e - w) - 1) = e - 1" by simp
  moreover have "last [0..<unat (e - w)] = unat (e - w) - 1" using k by simp
  ultimately show ?thesis using k by (simp add: ring_view_def last_map)
qed

lemma cons_step_back:
  assumes ok: "cons_ok s" and ne: "cons_e s \<noteq> cons_w s"
  shows "cons_ok (s\<lparr>cons_e := cons_e s - 1\<rparr>)" and "editing (s\<lparr>cons_e := cons_e s - 1\<rparr>) = butlast (editing s)"
    and "committed (s\<lparr>cons_e := cons_e s - 1\<rparr>) = committed s"
proof -
  show ed: "editing (s\<lparr>cons_e := cons_e s - 1\<rparr>) = butlast (editing s)"
    using ring_butlast(1) [of "cons_w s" "cons_e s"] ne by (simp add: editing_def)
  show "committed (s\<lparr>cons_e := cons_e s - 1\<rparr>) = committed s" by (simp add: committed_def)
  have "length (editing s) \<noteq> 0" using ne by (simp add: editing_def unat_eq_zero)
  then have pos: "unat (cons_w s - cons_r s) < unat (cons_e s - cons_r s)"
    using cons_ok_lengths [OF ok] unfolding committed_def length_ring_view by linarith
  then have re: "cons_r s \<noteq> cons_e s" by auto
  show "cons_ok (s\<lparr>cons_e := cons_e s - 1\<rparr>)"
    using ok ed pos ring_butlast(2) [OF re] by (auto simp: cons_ok_def in_ok_def ring_ok_def dest: in_set_butlastD)
qed

lemma kill_line_spec:
  assumes "cons_ok s" and "cpu_ok (hart s) (cpus s)" and "\<not> panicked s" and "n = length (editing s)"
  shows "\<exists>ts m. let t = s\<lparr>cons_e := cons_w s, uart_out := ts, tx_room := m\<rparr> in
    kill_line n s = Ret () t \<and> cons_ok t \<and> committed t = committed s \<and> editing t = []"
  using assms
proof (induction n arbitrary: s)
  case 0
  then have "cons_e s = cons_w s" by (simp add: editing_def unat_eq_zero)
  then show ?case using 0
    by (intro exI [of _ "uart_out s"] exI [of _ "tx_room s"]) (simp add: editing_def committed_def cons_ok_def in_ok_def)
next
  case (Suc n)
  have ne: "cons_e s \<noteq> cons_w s" using Suc.prems(4) by (auto simp: editing_def)
  have "last (editing s) = cons_buf s ! slot INPUT_MAX (cons_e s - 1)"
    using ring_last [of "cons_w s" "cons_e s"] ne by (simp add: editing_def)
  moreover have "last (editing s) \<in> set (editing s)" using Suc.prems(4) by (intro last_in_set) auto
  ultimately have nl: "cons_buf s ! slot INPUT_MAX (cons_e s - 1) \<noteq> 10" using Suc.prems(1) by (auto simp: cons_ok_def)
  let ?a = "s\<lparr>cons_e := cons_e s - 1\<rparr>"
  obtain ts m where pc: "consputc BACKSPACE ?a = Ret () (?a\<lparr>uart_out := ts, tx_room := m\<rparr>)"
    by (rule consputc_ok [of ?a BACKSPACE]) (use Suc.prems in simp_all)
  let ?b = "?a\<lparr>uart_out := ts, tx_room := m\<rparr>"
  have same: "editing ?b = editing ?a" "committed ?b = committed ?a" "cons_ok ?b = cons_ok ?a"
    by (simp_all add: editing_def committed_def cons_ok_def in_ok_def)
  have b: "cons_ok ?b" "editing ?b = butlast (editing s)" "committed ?b = committed s"
    unfolding same by (rule cons_step_back [OF Suc.prems(1) ne])+
  have nb: "n = length (editing ?b)" using Suc.prems(4) unfolding b(2) by simp
  have cb: "cpu_ok (hart ?b) (cpus ?b)" "\<not> panicked ?b" using Suc.prems(2,3) by simp_all
  obtain ts' m' where u: "kill_line n ?b = Ret () (?b\<lparr>cons_e := cons_w ?b, uart_out := ts', tx_room := m'\<rparr>)"
    "cons_ok (?b\<lparr>cons_e := cons_w ?b, uart_out := ts', tx_room := m'\<rparr>)"
    "committed (?b\<lparr>cons_e := cons_w ?b, uart_out := ts', tx_room := m'\<rparr>) = committed ?b"
    "editing (?b\<lparr>cons_e := cons_w ?b, uart_out := ts', tx_room := m'\<rparr>) = []"
    using Suc.IH [OF b(1) cb nb] unfolding Let_def by blast
  have "kill_line (Suc n) s = kill_line n ?b" using ne nl pc by (simp add: kbind_def)
  then show ?case using u b(3) by (intro exI [of _ ts'] exI [of _ m']) (simp add: Let_def)
qed

lemma cons_put_spec:
  assumes ok: "cons_ok s" and room: "unat (cons_e s - cons_r s) < INPUT_MAX"
  shows "in_ok (cons_put c s)" and "editing (cons_put c s) = editing s @ [c]"
    and "committed (cons_put c s) = committed s"
    and "unat (cons_e (cons_put c s) - cons_r s) = Suc (unat (cons_e s - cons_r s))"
proof -
  have l: "length (in_view s) < INPUT_MAX" using room by (simp add: in_view_def)
  have i: "in_ok s" using ok by (simp add: cons_ok_def)
  show "in_ok (cons_put c s)" using inq.push_view [OF i l] by blast
  have w: "unat (cons_e s - cons_w s) < INPUT_MAX"
    using cons_ok_lengths [OF ok] room by (simp add: editing_def)
  have r: "ring_ok INPUT_MAX (cons_buf s) (cons_w s) (cons_e s)"
    using i w by (simp add: in_ok_def ring_ok_def)
  show e: "editing (cons_put c s) = editing s @ [c]"
    using ring_push(1) [OF r w] by (simp add: editing_def cons_put_def)
  show u: "unat (cons_e (cons_put c s) - cons_r s) = Suc (unat (cons_e s - cons_r s))"
    unfolding cons_put_def using unat_Suc_diff [OF room] by (simp add: INPUT_MAX_def)
  have "in_view (cons_put c s) = committed (cons_put c s) @ editing (cons_put c s)"
    unfolding in_view_def committed_def editing_def
  proof (rule ring_split)
    have "unat (cons_w s - cons_r s) \<le> unat (cons_e s - cons_r s)" using ok by (simp add: cons_ok_def)
    then show "unat (cons_w (cons_put c s) - cons_r (cons_put c s)) \<le> unat (cons_e (cons_put c s) - cons_r (cons_put c s))"
      using u by (simp add: cons_put_def)
  qed
  then show "committed (cons_put c s) = committed s"
    using inq.push_view [OF i l, of c] in_view_split [OF ok] e by simp
qed

lemma console_frame [simp]:
  "committed (s\<lparr>uart_out := ts, tx_room := m\<rparr>) = committed s" "editing (s\<lparr>uart_out := ts, tx_room := m\<rparr>) = editing s"
  "cons_ok (s\<lparr>uart_out := ts, tx_room := m\<rparr>) = cons_ok s"
  "committed (s\<lparr>cpus := cs, locks := ls\<rparr>) = committed s" "editing (s\<lparr>cpus := cs, locks := ls\<rparr>) = editing s"
  "cons_ok (s\<lparr>cpus := cs, locks := ls\<rparr>) = cons_ok s"
  "committed (s\<lparr>locks := ls, cpus := cs\<rparr>) = committed s" "editing (s\<lparr>locks := ls, cpus := cs\<rparr>) = editing s"
  "cons_ok (s\<lparr>locks := ls, cpus := cs\<rparr>) = cons_ok s"
  "committed (s\<lparr>procs := ks\<rparr>) = committed s" "editing (s\<lparr>procs := ks\<rparr>) = editing s"
  "cons_ok (s\<lparr>procs := ks\<rparr>) = cons_ok s"
  by (simp_all add: committed_def editing_def cons_ok_def in_ok_def)

text \<open>What a step of the console leaves alone: the hart, its nesting and the locks.\<close>

definition tty_step :: "'z tty_st_scheme \<Rightarrow> 'z tty_st_scheme \<Rightarrow> bool" where
  "tty_step s t \<longleftrightarrow> hart t = hart s \<and> cpus t = cpus s \<and> locks t = locks s \<and> length (procs t) = length (procs s) \<and>
     panicked t = panicked s"

lemma full_iff: "e = r + of_nat INPUT_MAX \<longleftrightarrow> unat (e - r :: u32) = INPUT_MAX"
proof -
  have "e = r + 128 \<longleftrightarrow> e - r = 128" by (auto simp: algebra_simps)
  also have "\<dots> \<longleftrightarrow> unat (e - r) = 128" by (simp add: word_unat_eq_iff)
  finally show ?thesis by (simp add: INPUT_MAX_def)
qed

lemma cons_commit_spec:
  assumes wk: "wakers_ok s" and ok: "in_ok s" and sp: "in_view s = committed s @ editing s"
  obtains t where "kthen (kmod (\<lambda>s. s\<lparr>cons_w := cons_e s\<rparr>)) (wakeup (Some ConsCh)) s = Ret () t"
    "tty_step s t" "cons_ok t" "committed t = committed s @ editing s" "editing t = []"
proof -
  let ?a = "s\<lparr>cons_w := cons_e s\<rparr>"
  have "wakers_ok ?a" using wk by (simp add: wakers_ok_def cur_def)
  then obtain ks where ks: "wakeup (Some ConsCh) ?a = Ret () (?a\<lparr>procs := ks\<rparr>)" "length ks = NPROC"
    by (rule wakeup_wakers)
  have a: "committed ?a = in_view s" "editing ?a = []" by (simp_all add: committed_def editing_def in_view_def)
  then have "cons_ok ?a" using ok by (simp add: cons_ok_def in_ok_def)
  then show thesis
    using that [of "?a\<lparr>procs := ks\<rparr>"] ks wk a sp by (simp add: tty_step_def wakers_ok_def)
qed

lemma consoleintr_key_spec:
  assumes wk: "wakers_ok s" and ok: "cons_ok s" and np: "\<not> panicked s" and c: "0 < c" "c < 256" "c \<noteq> 13"
    and room: "unat (cons_e s - cons_r s) < INPUT_MAX"
  obtains t where "consoleintr_key c s = Ret () t" "tty_step s t" "cons_ok t"
    "(committed t, editing t) = (if c = 10 \<or> c = 4 \<or> length (committed s) + length (editing s @ [word_of_int c]) = INPUT_MAX
       then (committed s @ editing s @ [word_of_int c], []) else (committed s, editing s @ [word_of_int c]))"
proof -
  obtain ts m where pc: "consputc c s = Ret () (s\<lparr>uart_out := ts, tx_room := m\<rparr>)"
    by (rule consputc_ok [of s c]) (use wk np in \<open>simp_all add: wakers_ok_def\<close>)
  define a where "a = s\<lparr>uart_out := ts, tx_room := m\<rparr>"
  have a: "cons_ok a" "unat (cons_e a - cons_r a) < INPUT_MAX" "committed a = committed s" "editing a = editing s"
    using ok room by (simp_all add: a_def)
  define d where "d = cons_put (word_of_int c) a"
  note put = cons_put_spec [OF a(1,2), of "word_of_int c", folded d_def]
  have st: "tty_step s d" by (simp add: tty_step_def d_def a_def cons_put_def)
  have wd: "wakers_ok d" using wk by (simp add: wakers_ok_def cur_def d_def a_def cons_put_def)
  have rd: "cons_r d = cons_r a" "cons_w d = cons_w a" by (simp_all add: d_def cons_put_def)
  have len: "length (committed s) + length (editing s @ [word_of_int c]) = unat (cons_e d - cons_r d)"
    using cons_ok_lengths [OF a(1)] put(4) a(3,4) rd by simp
  have full: "cons_e d = cons_r d + of_nat INPUT_MAX \<longleftrightarrow>
      length (committed s) + length (editing s @ [word_of_int c]) = INPUT_MAX"
    unfolding len by (rule full_iff)
  have le: "unat (cons_w d - cons_r d) \<le> unat (cons_e d - cons_r d)"
    using a(1) put(4) rd by (simp add: cons_ok_def)
  then have sp: "in_view d = committed d @ editing d"
    unfolding in_view_def committed_def editing_def by (rule ring_split)
  let ?L = "c = 10 \<or> c = 4 \<or> cons_e d = cons_r d + of_nat INPUT_MAX"
  have run: "consoleintr_key c s = kwhen ?L (kthen (kmod (\<lambda>s. s\<lparr>cons_w := cons_e s\<rparr>)) (wakeup (Some ConsCh))) d"
    using pc by (simp add: consoleintr_key_def kbind_def d_def a_def)
  show thesis
  proof (cases ?L)
    case True
    obtain t where "kthen (kmod (\<lambda>s. s\<lparr>cons_w := cons_e s\<rparr>)) (wakeup (Some ConsCh)) d = Ret () t"
      "tty_step d t" "cons_ok t" "committed t = committed d @ editing d" "editing t = []"
      using cons_commit_spec [OF wd put(1) sp] .
    then show thesis using that [of t] run True st put(2,3) a(3,4) full by (simp add: tty_step_def)
  next
    case False
    have "word_of_int c \<noteq> (10 :: u8)"
    proof
      assume "word_of_int c = (10 :: u8)"
      then have "uint (word_of_int c :: u8) = uint (10 :: u8)" by simp
      then have "c mod 256 = 10" by (simp add: uint_word_of_int)
      with c False show False by simp
    qed
    moreover have "10 \<notin> set (editing a)" using a(1) by (simp add: cons_ok_def)
    ultimately have "cons_ok d" using put(1,2) le by (simp add: cons_ok_def)
    then show thesis using that [of d] run False st put(2,3) a(3,4) full by simp
  qed
qed

lemma consoleintr_spec:
  assumes wk: "wakers_ok s" and lk: "free_lock (locks s) ConsLk" and np: "\<not> panicked s"
    and ok: "cons_ok s" and c: "0 \<le> c" "c < 256"
  obtains t where "consoleintr c s = Ret () t" "cons_ok t" "tty_step s t"
    "(committed t, editing t) = line_edit c (committed s, editing s)"
proof -
  note result = that
  have cp: "cpu_ok (hart s) (cpus s)" using wk by (simp add: wakers_ok_def)
  define a where "a = s\<lparr>cpus := pushc (hart s) (cpus s), locks := lock_on (hart s) ConsLk (locks s)\<rparr>"
  have acq: "acquire ConsLk s = Ret () a" unfolding a_def using cp lk by (rule acquire_free)
  have a: "cons_ok a" "committed a = committed s" "editing a = editing s" "\<not> panicked a" "cpu_ok (hart a) (cpus a)"
    "wakers_ok a"
    using ok np cp wakers_ok_section [OF wk, of ConsLk] by (simp_all add: a_def)
  have fin: thesis
    if body: "consoleintr c s = kthen m (release ConsLk) a" and u: "m a = Ret () u" "tty_step a u" "cons_ok u"
      and e: "(committed u, editing u) = line_edit c (committed s, editing s)"
    for u and m :: "(unit, 'a tty_st_scheme) kop"
  proof -
    have "release ConsLk u = Ret () (u\<lparr>locks := locks s, cpus := cpus s\<rparr>)"
      using u(2) by (intro release_after [OF cp lk]) (simp_all add: tty_step_def a_def)
    then show thesis
      using result [of "u\<lparr>locks := locks s, cpus := cpus s\<rparr>"] body u e by (simp add: kbind_def tty_step_def a_def)
  qed
  have len: "length (committed a) + length (editing a) = unat (cons_e a - cons_r a)" by (rule cons_ok_lengths [OF a(1)])
  consider (kill) "c = 21" | (erase) "c = 8 \<or> c = 127" | (key) "c \<noteq> 21" "c \<noteq> 8" "c \<noteq> 127" by blast
  then show thesis
  proof cases
    case kill
    obtain ts m where k: "kill_line (length (editing a)) a = Ret () (a\<lparr>cons_e := cons_w a, uart_out := ts, tx_room := m\<rparr>)"
      "cons_ok (a\<lparr>cons_e := cons_w a, uart_out := ts, tx_room := m\<rparr>)"
      "committed (a\<lparr>cons_e := cons_w a, uart_out := ts, tx_room := m\<rparr>) = committed a"
      "editing (a\<lparr>cons_e := cons_w a, uart_out := ts, tx_room := m\<rparr>) = []"
      using kill_line_spec [OF a(1,5,4) refl] unfolding Let_def by blast
    show thesis
      by (rule fin [where m = "kill_line (length (editing a))", OF _ k(1) _ k(2)])
        (use kill acq k(3,4) a(2) in \<open>simp_all add: consoleintr_def kbind_def tty_step_def line_edit_def editing_def\<close>)
  next
    case erase
    let ?m = "kbind (kget (\<lambda>s. cons_e s \<noteq> cons_w s)) (\<lambda>b.
      kwhen b (kthen (kmod (\<lambda>s. s\<lparr>cons_e := cons_e s - 1\<rparr>)) (consputc BACKSPACE))) :: (unit, 'a tty_st_scheme) kop"
    have body: "consoleintr c s = kthen ?m (release ConsLk) a" using erase acq by (auto simp: consoleintr_def kbind_def)
    have spec: "line_edit c (committed s, editing s) = (committed s, butlast (editing s))"
      using erase by (auto simp: line_edit_def)
    show thesis
    proof (cases "cons_e a = cons_w a")
      case True
      then have "editing a = []" by (simp add: editing_def)
      with True show thesis using a(2,3) spec
        by (intro fin [OF body, of a] a(1)) (simp_all add: tty_step_def)
    next
      case False
      let ?b = "a\<lparr>cons_e := cons_e a - 1\<rparr>"
      obtain ts m where pc: "consputc BACKSPACE ?b = Ret () (?b\<lparr>uart_out := ts, tx_room := m\<rparr>)"
        by (rule consputc_ok [of ?b BACKSPACE]) (use a in simp_all)
      note b = cons_step_back [OF a(1) False]
      show thesis
      proof (rule fin [OF body])
        show "?m a = Ret () (?b\<lparr>uart_out := ts, tx_room := m\<rparr>)" using pc False by (simp add: kbind_def)
        show "cons_ok (?b\<lparr>uart_out := ts, tx_room := m\<rparr>)" using b(1) unfolding console_frame .
        show "(committed (?b\<lparr>uart_out := ts, tx_room := m\<rparr>), editing (?b\<lparr>uart_out := ts, tx_room := m\<rparr>)) =
            line_edit c (committed s, editing s)"
          unfolding console_frame spec using b(2,3) a(2,3) by simp
      qed (simp add: tty_step_def)
    qed
  next
    case key
    let ?m = "kbind (kget (\<lambda>s. c \<noteq> 0 \<and> cons_e s - cons_r s < of_nat INPUT_MAX)) (\<lambda>b.
      kwhen b (consoleintr_key (if c = 13 then 10 else c))) :: (unit, 'a tty_st_scheme) kop"
    have body: "consoleintr c s = kthen ?m (release ConsLk) a" using key acq by (simp add: consoleintr_def kbind_def)
    have room: "cons_e a - cons_r a < of_nat INPUT_MAX \<longleftrightarrow> unat (cons_e a - cons_r a) < INPUT_MAX"
      by (simp add: word_less_nat_alt INPUT_MAX_def)
    show thesis
    proof (cases "c = 0 \<or> \<not> unat (cons_e a - cons_r a) < INPUT_MAX")
      case True
      then have "line_edit c (committed s, editing s) = (committed s, editing s)"
        using key len a(2,3) by (auto simp: line_edit_def)
      then show thesis using True room a(2,3)
        by (intro fin [OF body, of a] a(1)) (auto simp: tty_step_def)
    next
      case False
      define d where "d = (if c = 13 then 10 else c)"
      have d: "0 < d" "d < 256" "d \<noteq> 13" using False c by (auto simp: d_def)
      obtain t where t: "consoleintr_key d a = Ret () t" "tty_step a t" "cons_ok t"
        "(committed t, editing t) = (if d = 10 \<or> d = 4 \<or> length (committed a) + length (editing a @ [word_of_int d]) = INPUT_MAX
           then (committed a @ editing a @ [word_of_int d], []) else (committed a, editing a @ [word_of_int d]))"
        by (rule consoleintr_key_spec [OF a(6,1,4) d]) (use False in blast)+
      have "?m a = Ret () t" using t(1) False room by (simp add: d_def)
      moreover have "(committed t, editing t) = line_edit c (committed s, editing s)"
        using key False len a(2,3) t(4) by (simp add: line_edit_def d_def [symmetric])
      ultimately show thesis using t by (intro fin [OF body])
    qed
  qed
qed

section \<open>Properties\<close>

definition boot_tty :: tty_st where
  "boot_tty = proc_st.extend boot_pm \<lparr>uart_tx_buf = replicate 32 0, uart_tx_w = 0, uart_tx_r = 0,
     cons_buf = replicate 128 0, cons_r = 0, cons_w = 0, cons_e = 0, panicked = False, pr_locking = False,
     uart_in = [], uart_out = [], tx_room = 1, uart_ctl = []\<rparr>"

lemma boot_tty_facts:
  "wakers_ok boot_tty" "free_lock (locks boot_tty) L" "\<not> panicked boot_tty" "tx_ok boot_tty" "cons_ok boot_tty"
  "tx_view boot_tty = []" "committed boot_tty = []" "editing boot_tty = []" "uart_out boot_tty = []"
proof -
  have d: "32 dvd (18446744073709551616 :: nat)" "128 dvd (4294967296 :: nat)" by presburger+
  show "wakers_ok boot_tty" "free_lock (locks boot_tty) L" "\<not> panicked boot_tty" "tx_view boot_tty = []"
    "committed boot_tty = []" "editing boot_tty = []" "uart_out boot_tty = []"
    by (simp_all add: boot_tty_def proc_st.defs boot_pm_def wakers_ok_def boot_state_def cpu_ok_def sie_def
        free_lock_def NPROC_def tx_view_def committed_def editing_def ring_view_def)
  show "tx_ok boot_tty" "cons_ok boot_tty"
    using d by (simp_all add: boot_tty_def proc_st.defs tx_ok_def cons_ok_def in_ok_def ring_ok_def ring_view_def
        editing_def UART_TX_BUF_SIZE_def INPUT_MAX_def)
qed

text \<open>The transmit path is a queue: with room in the ring \<open>uartputc(c)\<close> returns, the bytes on the wire
  followed by those in the ring are what they were with \<open>c\<close> added at the end, and it stops with the ring
  empty or the device busy. With a full ring it sleeps, keeps the ring and gives the lock back.\<close>

theorem uartputc_stream:
  assumes "wakers_ok s" and "free_lock (locks s) UartTxLk" and "\<not> panicked s" and "tx_ok s"
    and "cur s = Some p" "p < NPROC" "free_lock (locks s) (ProcLk p)"
  shows "if length (tx_view s) < UART_TX_BUF_SIZE
    then \<exists>t. uartputc c s = Ret () t \<and> tx_ok t \<and> tx_stream t = tx_stream s @ [c] \<and>
      (tx_view t = [] \<or> tx_room t = 0) \<and> locks t = locks s
    else \<exists>t. uartputc c s = Switch t \<and> tx_stream t = tx_stream s \<and> free_lock (locks t) UartTxLk \<and>
      pstate (procs t ! p) = SLEEPING \<and> chan (procs t ! p) = Some UartCh"
proof (cases "length (tx_view s) < UART_TX_BUF_SIZE")
  case True
  then show ?thesis using uartputc_room [OF assms(1-4) True, of c] by (metis (no_types, lifting))
next
  case False
  then have "length (tx_view s) = UART_TX_BUF_SIZE" using txq.inv_cap [OF assms(4)] by simp
  from uartputc_full [OF assms(1-4) this assms(5-7), of c] False assms(1,2,6) show ?thesis
    by (simp add: tx_stream_def tx_view_def wakers_ok_def)
qed

definition run_tty :: tty_st where
  "run_tty = boot_tty\<lparr>cpus := (cpus boot_tty)[0 := \<lparr>cpu_p = Some 0, noff = 0, intena = False, sstatus = 0\<rparr>]\<rparr>"

lemma run_tty_facts:
  "wakers_ok run_tty" "free_lock (locks run_tty) L" "\<not> panicked run_tty" "tx_ok run_tty" "cons_ok run_tty"
  "tx_view run_tty = []" "committed run_tty = []" "editing run_tty = []" "uart_out run_tty = []" "cur run_tty = Some 0"
proof -
  have c: "hart boot_tty = 0" "length (cpus boot_tty) = 8"
    by (simp_all add: boot_tty_def proc_st.defs boot_pm_def boot_state_def)
  show "wakers_ok run_tty"
    using boot_tty_facts(1,2) c by (simp add: run_tty_def wakers_ok_def cpu_ok_def sie_def)
qed (use boot_tty_facts in \<open>simp_all add: run_tty_def tx_ok_def cons_ok_def in_ok_def tx_view_def committed_def editing_def\<close>,
    simp add: cur_def boot_tty_def proc_st.defs boot_pm_def boot_state_def)

theorem uartputc_stream_witness:
  "\<exists>t. uartputc 65 run_tty = Ret () t \<and> tx_stream t = [65] \<and> locks t = locks run_tty"
proof -
  have "length (tx_view run_tty) < UART_TX_BUF_SIZE" by (simp add: run_tty_facts UART_TX_BUF_SIZE_def)
  moreover have "(0 :: nat) < NPROC" by (simp add: NPROC_def)
  moreover have "tx_stream run_tty = []" by (simp add: tx_stream_def run_tty_facts)
  ultimately show ?thesis
    using uartputc_stream [OF run_tty_facts(1,2,3,4,10) _ run_tty_facts(2), of 65] by simp blast
qed

text \<open>(C5) The console implements the line discipline: seen as the committed input and the line being edited,
  \<open>consoleintr(c)\<close> does exactly what \<open>line_edit\<close> says for every byte the UART can deliver. In
  particular erasing never reaches committed input, a full buffer commits the line, and the ring stays
  well-formed.\<close>

theorem console_line_discipline:
  assumes "wakers_ok s" and "free_lock (locks s) ConsLk" and "\<not> panicked s" and "cons_ok s"
    and "0 \<le> c" and "c < 256"
  shows "\<exists>t. consoleintr c s = Ret () t \<and> cons_ok t \<and> locks t = locks s \<and>
    (committed t, editing t) = line_edit c (committed s, editing s)"
proof -
  obtain t where "consoleintr c s = Ret () t" "cons_ok t" "tty_step s t"
    "(committed t, editing t) = line_edit c (committed s, editing s)"
    using consoleintr_spec [OF assms] .
  then show ?thesis by (intro exI [of _ t]) (simp add: tty_step_def)
qed

theorem console_line_discipline_witness:
  "\<exists>t. consoleintr 13 run_tty = Ret () t \<and> committed t = [10] \<and> editing t = []"
proof -
  have "line_edit 13 ([], []) = ([10], [])" by (simp add: line_edit_def INPUT_MAX_def)
  then show ?thesis using console_line_discipline [OF run_tty_facts(1,2,3,5), of 13] run_tty_facts(7,8) by auto
qed

end
