(* ===== verification/Print.thy ===== *)
theory Print
  imports Tty "HOL-Library.Signed_Division"
begin

text \<open>
  Formatted output of the kernel: \<^verbatim>\<open>kernel/print.c\<close>. The variable arguments of \<open>printf\<close> are a list of
  tagged values; a conversion that finds no argument, or one of another type, has no defined behaviour. A
  read of the format string past its end is a fault, and so is a read of \<open>nums\<close> at a negative index, which
  is what \<open>val % 10\<close> gives for most negative \<open>val\<close>.
\<close>

section \<open>Routines\<close>

definition nums :: "u8 list" where
  "nums = [48, 49, 50, 51, 52, 53, 54, 55, 56, 57, 97, 98, 99, 100, 101, 102]"

definition printinit :: "(unit, 'z tty_st_scheme) kop" where
  "printinit =
     kthen uartinit (
     kthen (initlock PrLk ''pr'') (
     kmod (\<lambda>s. s\<lparr>pr_locking := True\<rparr>)))"

text \<open>The digit loop of \<open>printInt\<close>: \<open>buf\<close> holds the digits stored so far (at most 16), the least
  significant first; \<open>%\<close> and \<open>/\<close> are C's, which truncate towards zero.\<close>

function digits_loop :: "int \<Rightarrow> u8 list \<Rightarrow> u8 list option" where
  "digits_loop val buf =
     (let d = val smod 10; val' = val sdiv 10 in
      if d < 0 \<or> 16 \<le> length buf then None
      else let buf' = buf @ [nums ! nat d] in
        if val' > 0 then digits_loop val' buf' else Some buf')"
  by pat_completeness auto
termination
  by (relation "measure (\<lambda>(val, buf). 16 - length buf)") auto

declare digits_loop.simps [simp del]

fun put_chars :: "u8 list \<Rightarrow> (unit, 'z tty_st_scheme) kop" where
  "put_chars [] = kret ()"
| "put_chars (c # cs) = kthen (uart_putc c) (put_chars cs)"

definition printInt :: "u32 \<Rightarrow> (unit, 'z tty_st_scheme) kop" where
  "printInt val =
     (case digits_loop (sint val) [] of
        None \<Rightarrow> kfault ''printInt: nums[val % 10]''
      | Some buf \<Rightarrow> put_chars (rev buf))"

fun ptr_digits :: "nat \<Rightarrow> u64 \<Rightarrow> u8 list" where
  "ptr_digits 0 ptr = []"
| "ptr_digits (Suc n) ptr = nums ! unat (drop_bit 60 ptr) # ptr_digits n (push_bit 4 ptr)"

definition printPtr :: "u64 \<Rightarrow> (unit, 'z tty_st_scheme) kop" where
  "printPtr ptr = kthen (uart_putc 48) (kthen (uart_putc 120) (put_chars (ptr_digits 16 ptr)))"

definition print :: "u8 list \<Rightarrow> (unit, 'z tty_st_scheme) kop" where
  "print s = uart_putstr s"

datatype va = VInt u32 | VStr "u8 list option" | VPtr u64

text \<open>One conversion of \<open>printf\<close>: the character after \<open>%\<close> and the arguments left.\<close>

definition convert :: "u8 \<Rightarrow> va list \<Rightarrow> (va list, 'z tty_st_scheme) kop" where
  "convert nxt ap =
     (if nxt = 100 then
        (case ap of VInt v # ap' \<Rightarrow> kthen (printInt v) (kret ap') | _ \<Rightarrow> kfault ''va_arg int'')
      else if nxt = 115 then
        (case ap of VStr v # ap' \<Rightarrow> kthen (case v of None \<Rightarrow> kret () | Some str \<Rightarrow> print str) (kret ap')
         | _ \<Rightarrow> kfault ''va_arg char*'')
      else if nxt = 112 then
        (case ap of VPtr v # ap' \<Rightarrow> kthen (printPtr v) (kret ap') | _ \<Rightarrow> kfault ''va_arg uint64'')
      else kthen (uart_putc nxt) (kret ap))"

text \<open>The loop of \<open>printf\<close>. After a \<open>%\<close> at the very end the loop counter steps over the terminating NUL.\<close>

fun printf_loop :: "u8 list \<Rightarrow> va list \<Rightarrow> (unit, 'z tty_st_scheme) kop" where
  "printf_loop [] ap = kfault ''printf: read past the format''"
| "printf_loop [c] ap = (if c = 0 then kret () else if c = 37 then kfault ''printf: read past the format''
     else kthen (uart_putc c) (printf_loop [] ap))"
| "printf_loop (c # nxt # s) ap =
     (if c = 0 then kret ()
      else if c \<noteq> 37 then kthen (uart_putc c) (printf_loop (nxt # s) ap)
      else if nxt = 0 then kthen (uart_putc c) (printf_loop s ap)
      else kbind (convert nxt ap) (\<lambda>ap'. printf_loop s ap'))"

definition printf :: "u8 list \<Rightarrow> va list \<Rightarrow> (unit, 'z tty_st_scheme) kop" where
  "printf s ap =
     kbind (kget pr_locking) (\<lambda>locking.
     kthen (kwhen locking (acquire PrLk)) (
     kthen (printf_loop s ap) (
     kwhen locking (release PrLk))))"

text \<open>\<open>panic\<close>: it prints and then loops for ever, which is the outcome \<open>Panic\<close>.\<close>

definition panic :: "u8 list \<Rightarrow> (unit, 'z tty_st_scheme) kop" where
  "panic str =
     kthen (kmod (\<lambda>s. s\<lparr>pr_locking := False\<rparr>)) (
     kthen (print (map of_char ''panic:'' @ [0])) (
     kthen (print str) (
     kthen (print [10, 0]) (
     kthen (kmod (\<lambda>s. s\<lparr>panicked := True\<rparr>)) (
     kpanic (map (\<lambda>c. char_of (unat c)) (cstr str)))))))"

text \<open>A string literal of the source as a NUL-terminated character array.\<close>

definition lit :: "string \<Rightarrow> u8 list" where
  "lit s = map of_char s @ [0]"

section \<open>What is printed\<close>

text \<open>Characters put on the wire by a state change that touches nothing else.\<close>

definition emitted :: "u8 list \<Rightarrow> 'z tty_st_scheme \<Rightarrow> 'z tty_st_scheme" where
  "emitted cs s = s\<lparr>uart_out := uart_out s @ cs, tx_room := tx_room s - length cs\<rparr>"

lemma emitted_emitted [simp]: "emitted ds (emitted cs s) = emitted (cs @ ds) s"
  by (simp add: emitted_def)

lemma emitted_Nil [simp]: "emitted [] s = s"
  by (simp add: emitted_def)

lemma emitted_sel [simp]:
  "cpus (emitted cs s) = cpus s" "hart (emitted cs s) = hart s" "panicked (emitted cs s) = panicked s"
  "locks (emitted cs s) = locks s" "uart_out (emitted cs s) = uart_out s @ cs"
  "pr_locking (emitted cs s) = pr_locking s"
  by (simp_all add: emitted_def)

lemma uart_putc_ok:
  assumes "cpu_ok (hart s) (cpus s)" and "\<not> panicked s"
  shows "uart_putc c s = Ret () (emitted [c] s)"
proof -
  have "uint c \<noteq> BACKSPACE" using unsigned_less [of c, where ?'a = int] by (simp add: BACKSPACE_def)
  then show ?thesis
    using assms by (simp add: uart_putc_def consputc_def uartputc_sync_def kbind_def push_off_ok pop_off_ok
        cpu_ok_hart tx_byte_def emitted_def)
qed

lemma put_chars_ok:
  assumes "cpu_ok (hart s) (cpus s)" and "\<not> panicked s"
  shows "put_chars cs s = Ret () (emitted cs s)"
  using assms by (induction cs arbitrary: s) (simp_all add: kbind_def uart_putc_ok)

lemma uart_putstr_loop_ok:
  assumes "cpu_ok (hart s) (cpus s)" and "\<not> panicked s" and "0 \<in> set str"
  shows "uart_putstr_loop str s = Ret () (emitted (cstr str) s)"
  using assms by (induction str arbitrary: s) (auto simp: kbind_def uart_putc_ok cstr_def)

lemma print_ok:
  assumes "cpu_ok (hart s) (cpus s)" and "\<not> panicked s" and "0 \<in> set str"
  shows "print str s = Ret () (emitted (cstr str) s)"
  using assms by (simp add: print_def uart_putstr_def uart_putstr_loop_ok)

text \<open>The decimal notation of a number.\<close>

fun decimal :: "nat \<Rightarrow> u8 list" where
  "decimal n = (if n < 10 then [48 + of_nat n] else decimal (n div 10) @ [48 + of_nat (n mod 10)])"

declare decimal.simps [simp del]

lemma nums_digit: "d < 10 \<Longrightarrow> nums ! d = 48 + of_nat d"
proof -
  assume "d < 10"
  then have "d \<in> {0, 1, 2, 3, 4, 5, 6, 7, 8, 9}" by auto
  then show ?thesis by (auto simp: nums_def numeral_eq_Suc)
qed

lemma digits_loop_decimal:
  assumes "length buf + length (decimal n) \<le> 16"
  shows "digits_loop (int n) buf = Some (buf @ rev (decimal n))"
  using assms
proof (induction n arbitrary: buf rule: less_induct)
  case (less n)
  have c: "int n smod 10 = int (n mod 10)" "int n sdiv 10 = int (n div 10)"
    by (cases n; simp add: signed_modulo_int_def signed_divide_int_def zmod_int zdiv_int)+
  have d: "nums ! (n mod 10) = 48 + of_nat (n mod 10)" by (simp add: nums_digit)
  show ?case
  proof (cases "n < 10")
    case True
    then have "decimal n = [48 + of_nat n]" by (simp add: decimal.simps)
    then show ?thesis using True less.prems d by (subst digits_loop.simps) (simp add: c Let_def)
  next
    case False
    then have dn: "decimal n = decimal (n div 10) @ [48 + of_nat (n mod 10)]"
      by (subst decimal.simps) simp
    have "digits_loop (int (n div 10)) (buf @ [48 + of_nat (n mod 10)]) =
        Some ((buf @ [48 + of_nat (n mod 10)]) @ rev (decimal (n div 10)))"
      using less.prems False dn by (intro less.IH) auto
    moreover have "0 < n div 10" using False by (simp add: div_greater_zero_iff)
    moreover have "length buf < 16" using less.prems dn by simp
    ultimately show ?thesis using dn d by (subst digits_loop.simps) (simp add: c Let_def)
  qed
qed

lemma length_decimal: "n < 10 ^ k \<Longrightarrow> 0 < k \<Longrightarrow> length (decimal n) \<le> k"
proof (induction k arbitrary: n)
  case (Suc k)
  show ?case
  proof (cases "n < 10")
    case True
    then show ?thesis by (simp add: decimal.simps)
  next
    case False
    then have "0 < k" using Suc.prems by (cases k) auto
    moreover have "n div 10 < 10 ^ k" using Suc.prems by (simp add: div_less_iff_less_mult mult.commute)
    ultimately have "length (decimal (n div 10)) \<le> k" using Suc.IH by blast
    then show ?thesis using False by (subst decimal.simps) simp
  qed
qed simp

lemma sint_u32: "sint (w :: u32) = (if unat w < 2147483648 then int (unat w) else int (unat w) - 4294967296)"
proof -
  have "sint (word_of_int (uint w) :: u32) = (uint w + 2147483648) mod 4294967296 - 2147483648"
    by (subst int_word_sint) simp
  then have s: "sint w = (uint w + 2147483648) mod 4294967296 - 2147483648" by simp
  have r: "0 \<le> uint w" "uint w < 4294967296" using unsigned_less [of w, where ?'a = int] by simp_all
  have m: "(x + 2147483648) mod 4294967296 - 2147483648 = (if x < 2147483648 then x else x - 4294967296)"
    if "0 \<le> x" "x < 4294967296" for x :: int
  proof (cases "x < 2147483648")
    case True
    then show ?thesis using that by (simp add: mod_pos_pos_trivial)
  next
    case False
    have "(x + 2147483648) mod 4294967296 = ((x - 2147483648) + 4294967296) mod 4294967296" by (simp add: add.commute)
    also have "\<dots> = x - 2147483648" using that False by (simp only: mod_add_self2) (rule mod_pos_pos_trivial, simp_all)
    finally show ?thesis using False by simp
  qed
  have "sint w = (if uint w < 2147483648 then uint w else uint w - 4294967296)"
    unfolding s by (rule m [OF r])
  moreover have u: "uint w = int (unat w)" by simp
  moreover have "int (unat w) < 2147483648 \<longleftrightarrow> unat w < 2147483648" by linarith
  ultimately show ?thesis by (simp only:)
qed

lemma printInt_ok:
  assumes "cpu_ok (hart s) (cpus s)" and "\<not> panicked s" and "0 \<le> sint val"
  shows "printInt val s = Ret () (emitted (decimal (unat val)) s)"
proof -
  have lt: "unat val < 4294967296" using unsigned_less [of val, where ?'a = nat] by simp
  then have v: "sint val = int (unat val)" "unat val < 10 ^ 10"
    using assms(3) by (simp_all add: sint_u32 split: if_splits)
  then have "digits_loop (sint val) [] = Some ([] @ rev (decimal (unat val)))"
    using length_decimal [of "unat val" 10] unfolding v(1) by (intro digits_loop_decimal) simp
  then show ?thesis using assms by (simp add: printInt_def put_chars_ok)
qed

lemma printInt_negative:
  assumes "sint val < 0" and "sint val smod 10 \<noteq> 0"
  shows "printInt val s = Fault ''printInt: nums[val % 10]''"
proof -
  have "sint val smod 10 < 0"
    using assms by (simp add: signed_modulo_int_def sgn_if split: if_splits)
  then have "digits_loop (sint val) [] = None" by (subst digits_loop.simps) (simp add: Let_def)
  then show ?thesis by (simp add: printInt_def)
qed

end
