(* ===== verification/Sleeplock.thy ===== *)
theory Sleeplock
  imports Print
begin

text \<open>
  Sleep locks: \<^verbatim>\<open>kernel/sleeplock.c\<close>. A \<open>struct sleeplock *\<close> points into a buffer or an inode, so it is
  passed as a reference: the name of the spinlock inside it, the sleep channel that is its address, and how
  to read and change it in the state. Before that, the single-threaded view of the kernel that the file
  system is run in: a \<^emph>\<open>calm\<close> state is one in which one process runs, no spinlock is held and nobody
  sleeps.
\<close>

section \<open>Calm states\<close>

definition calm :: "nat \<Rightarrow> 'z proc_st_scheme \<Rightarrow> bool" where
  "calm p s \<longleftrightarrow> cpu_ok (hart s) (cpus s) \<and> cur s = Some p \<and> p < NPROC \<and> length (procs s) = NPROC \<and>
     (\<forall>L. free_lock (locks s) L) \<and> pstate (procs s ! p) = RUNNING \<and> chan (procs s ! p) = None \<and>
     (\<forall>q < NPROC. pstate (procs s ! q) \<noteq> SLEEPING)"

lemma calm_frame:
  assumes "calm p s" and "hart t = hart s" "cpus t = cpus s" "locks t = locks s" "procs t = procs s"
  shows "calm p t"
  using assms by (simp add: calm_def cur_def)

lemma calm_simps:
  assumes "calm p s"
  shows "cpu_ok (hart s) (cpus s)" "cur s = Some p" "p < NPROC" "length (procs s) = NPROC"
    "free_lock (locks s) L" "pstate (procs s ! p) = RUNNING" "chan (procs s ! p) = None"
    "q < NPROC \<Longrightarrow> pstate (procs s ! q) \<noteq> SLEEPING"
  using assms by (simp_all add: calm_def)

lemma calm_thisproc: "calm p s \<Longrightarrow> thisproc s = Ret p s"
  by (simp add: calm_def thisproc_ok)

lemma calm_myproc: "calm p s \<Longrightarrow> myproc s = Ret (Some p) s"
  by (simp add: calm_def myproc_ok cur_def)

text \<open>Inside a critical section, and a critical section as a whole.\<close>

definition inside :: "lockid \<Rightarrow> 'z spin_st_scheme \<Rightarrow> 'z spin_st_scheme" where
  "inside L s = s\<lparr>cpus := pushc (hart s) (cpus s), locks := lock_on (hart s) L (locks s)\<rparr>"

lemma calm_acquire: "calm p s \<Longrightarrow> acquire L s = Ret () (inside L s)"
  by (simp add: calm_def inside_def acquire_free)

lemma inside_sel [simp]:
  "hart (inside L s) = hart s" "procs (inside L s') = procs s'" "mem (inside L s'') = mem s''"
  by (simp_all add: inside_def)

lemma calm_release:
  assumes "calm p s" and "hart t = hart s" "cpus t = cpus (inside L s)" "locks t = locks (inside L s)"
  shows "release L t = Ret () (t\<lparr>locks := locks s, cpus := cpus s\<rparr>)"
  using assms calm_simps(1,5) [OF assms(1)] by (intro release_after) (simp_all add: inside_def)

lemma wakeup_nobody:
  assumes "wakers_ok s" and "\<And>q. q < NPROC \<Longrightarrow> pstate (procs s ! q) = SLEEPING \<Longrightarrow> chan (procs s ! q) \<noteq> ch"
  shows "wakeup ch s = Ret () s"
proof -
  obtain ks where ks: "wakeup ch s = Ret () (s\<lparr>procs := ks\<rparr>)" "length ks = NPROC"
    "\<And>i. i < NPROC \<Longrightarrow> ks ! i = (if cur s = Some i then procs s ! i else wake ch (procs s ! i))"
    using wakeup_wakers [OF assms(1), of ch] by blast
  have "ks = procs s"
    using ks(2,3) assms by (intro nth_equalityI) (auto simp: wakers_ok_def wake_def)
  then show ?thesis using ks(1) by simp
qed

lemma calm_wakers: "calm p s \<Longrightarrow> wakers_ok s"
  by (simp add: calm_def wakers_ok_def)

lemma inside_wakers:
  assumes "calm p s" and "\<And>q. L \<noteq> ProcLk q"
  shows "wakers_ok (inside L s)"
  unfolding inside_def using wakers_ok_section [OF calm_wakers [OF assms(1)]] assms(2) by blast

lemma inside_wakeup:
  assumes "calm p s" and "\<And>q. L \<noteq> ProcLk q" and "hart t = hart s" "cpus t = cpus (inside L s)"
    "locks t = locks (inside L s)" "procs t = procs s"
  shows "wakeup ch t = Ret () t"
proof (rule wakeup_nobody)
  show "wakers_ok t" using inside_wakers [OF assms(1,2)] assms(3-6) by (simp add: wakers_ok_def cur_def)
qed (use assms calm_simps(8) [OF assms(1)] in auto)

lemma inside_thisproc:
  assumes "calm p s" and "hart t = hart s" "cpus t = cpus (inside L s)"
  shows "thisproc t = Ret p t"
  using assms calm_simps(1,2) [OF assms(1)]
  by (intro thisproc_ok) (simp_all add: inside_def cur_def)

text \<open>A thread going to sleep out of a critical section, the hart handed back to the scheduler, and the thread
  being dispatched again.\<close>

definition dozing :: "chan \<Rightarrow> nat \<Rightarrow> proc list \<Rightarrow> proc list" where
  "dozing ch p ks = ks[p := (ks ! p)\<lparr>chan := Some ch, pstate := SLEEPING\<rparr>]"

definition asleep :: "chan \<Rightarrow> nat \<Rightarrow> 'z proc_st_scheme \<Rightarrow> 'z proc_st_scheme" where
  "asleep ch p s = s\<lparr>cpus := pushc (hart s) (cpus s), locks := lock_on (hart s) (ProcLk p) (locks s),
     procs := dozing ch p (procs s)\<rparr>"

definition no_proc :: "nat \<Rightarrow> cpu list \<Rightarrow> cpu list" where
  "no_proc h cs = cs[h := (cs ! h)\<lparr>cpu_p := None\<rparr>]"

definition parked :: "chan \<Rightarrow> nat \<Rightarrow> 'z proc_st_scheme \<Rightarrow> 'z proc_st_scheme" where
  "parked ch p s = s\<lparr>cpus := no_proc (hart s) (cpus s), procs := dozing ch p (procs s)\<rparr>"

lemma calm_sleep:
  assumes c: "calm p s" and L: "\<And>q. L \<noteq> ProcLk q"
  shows "sleep ch L (inside L s) = Switch (asleep ch p s)"
proof -
  let ?a = "inside L s"
  have "sleep ch L ?a = Switch (?a\<lparr>cpus := popc (hart ?a) (pushc (hart ?a) (cpus ?a)),
    locks := lock_off L (lock_on (hart ?a) (ProcLk p) (locks ?a)),
    procs := (procs ?a)[p := (procs ?a ! p)\<lparr>chan := Some ch, pstate := SLEEPING\<rparr>]\<rparr>)"
    using calm_simps [OF c] L L [symmetric]
    by (intro sleep_ok) (simp_all add: inside_def cur_def)
  moreover have "lock_off L (lock_on (hart s) (ProcLk p) (lock_on (hart s) L (locks s))) =
      lock_on (hart s) (ProcLk p) (locks s)"
    using L [of p] calm_simps(5) [OF c] by (simp add: lock_off_on_other)
  ultimately show ?thesis
    using calm_simps(1) [OF c] by (simp add: inside_def asleep_def dozing_def)
qed

lemma cpu_p_pushc:
  assumes "h < length cs"
  shows "(pushc h cs)[h := (pushc h cs ! h)\<lparr>cpu_p := q\<rparr>] = pushc h (cs[h := (cs ! h)\<lparr>cpu_p := q\<rparr>])"
  using assms by (cases "cs ! h") (simp add: pushc_def sie_def)

lemma no_proc_facts:
  assumes "cpu_ok h cs"
  shows "cpu_ok h (no_proc h cs)" and "cpu_p (no_proc h cs ! h) = None" and "length (no_proc h cs) = length cs"
  using assms by (auto simp: cpu_ok_def no_proc_def sie_def split: if_splits)

lemma scheduler_back_asleep:
  assumes c: "calm p s"
  shows "scheduler_back (hart s) p (asleep ch p s) = Ret () (parked ch p s)"
proof -
  let ?h = "hart s" and ?cs = "cpus s"
  have ok: "cpu_ok ?h ?cs" and h: "?h < length ?cs" using calm_simps(1) [OF c] by (auto dest: cpu_ok_hart)
  let ?a = "(asleep ch p s)\<lparr>cpus := pushc ?h (no_proc ?h ?cs)\<rparr>"
  have "on_cpu ?h (\<lambda>k. k\<lparr>cpu_p := None\<rparr>) (asleep ch p s) = Ret () ?a"
    using cpu_p_pushc [OF h, of None] by (simp add: on_cpu_def asleep_def no_proc_def)
  moreover have "release (ProcLk p) ?a = Ret () (?a\<lparr>locks := lock_off (ProcLk p) (locks ?a), cpus := popc ?h (cpus ?a)\<rparr>)"
    using release_held [of ?a "ProcLk p"] no_proc_facts [OF ok] h by (simp add: asleep_def)
  ultimately show ?thesis
    using no_proc_facts [OF ok] calm_simps(5) [OF c] by (simp add: scheduler_back_def kbind_def asleep_def parked_def)
qed

lemma dispatch_again:
  assumes c: "calm p s" and L: "\<And>q. L \<noteq> ProcLk q"
    and t: "hart t = hart s" "cpus t = no_proc (hart s) (cpus s)" "locks t = locks s"
      "procs t = (procs s)[p := (procs s ! p)\<lparr>chan := Some ch, pstate := RUNNABLE\<rparr>]"
    and ie: "ie = intena (pushc (hart s) (cpus s) ! hart s)"
  shows "\<exists>u. scheduler_turn (hart s) p t = Switch u \<and>
    sleep_resume p ie L u = Ret () (inside L (t\<lparr>cpus := cpus s, locks := locks s, procs := procs s\<rparr>))"
proof -
  let ?h = "hart s" and ?cs = "cpus s"
  have ok: "cpu_ok ?h ?cs" and h: "?h < length ?cs" using calm_simps(1) [OF c] by (auto dest: cpu_ok_hart)
  have pl: "p < length (procs s)" using calm_simps(3,4) [OF c] by simp
  define k where "k = (procs s ! p)\<lparr>chan := Some ch, pstate := RUNNING\<rparr>"
  define u where "u = t\<lparr>cpus := pushc ?h ?cs, locks := lock_on ?h (ProcLk p) (locks s), procs := (procs s)[p := k]\<rparr>"
  have cp: "(no_proc ?h ?cs)[?h := (no_proc ?h ?cs ! ?h)\<lparr>cpu_p := Some p\<rparr>] = ?cs"
  proof -
    have "(?cs ! ?h)\<lparr>cpu_p := Some p\<rparr> = ?cs ! ?h" using calm_simps(2) [OF c] by (simp add: cur_def)
    then show ?thesis using h by (simp add: no_proc_def)
  qed
  have acq: "acquire (ProcLk p) t = Ret () (t\<lparr>cpus := pushc ?h (no_proc ?h ?cs), locks := lock_on ?h (ProcLk p) (locks s)\<rparr>)"
    using acquire_free [of t "ProcLk p"] t no_proc_facts [OF ok] calm_simps(5) [OF c] by simp
  have turn: "scheduler_turn ?h p t = Switch u"
    using acq t pl cpu_p_pushc [of ?h "no_proc ?h ?cs" "Some p"] h cp
    by (simp add: scheduler_turn_def kbind_def pget_def pset_def on_cpu_def u_def k_def no_proc_facts [OF ok])
  let ?v = "u\<lparr>procs := procs s\<rparr>"
  have ks: "(procs s)[p := k\<lparr>chan := None\<rparr>] = procs s"
  proof -
    have "k\<lparr>chan := None\<rparr> = procs s ! p" using calm_simps(6,7) [OF c] by (simp add: k_def)
    then show ?thesis by simp
  qed
  have si: "sched_resume ie u = Ret () u"
    using h t(1) ie by (simp add: sched_resume_def kbind_def mycpu_ok on_cpu_def u_def)
  have rel: "release (ProcLk p) ?v = Ret () (?v\<lparr>locks := locks s, cpus := ?cs\<rparr>)"
    using release_held [of ?v "ProcLk p"] ok h t(1) calm_simps(5) [OF c] by (simp add: u_def)
  let ?w = "t\<lparr>cpus := ?cs, locks := locks s, procs := procs s\<rparr>"
  have w: "?v\<lparr>locks := locks s, cpus := ?cs\<rparr> = ?w" by (simp add: u_def)
  have "calm p ?w" by (rule calm_frame [OF c]) (simp_all add: t(1))
  then have "acquire L ?w = Ret () (inside L ?w)" by (rule calm_acquire)
  then have "sleep_resume p ie L u = Ret () (inside L ?w)"
    using si rel w ks pl by (simp add: sleep_resume_def kbind_def pset_def) (simp add: u_def)
  then show ?thesis using turn by blast
qed

section \<open>Routines\<close>

record sleeplock =
  sl_locked :: u32
  sl_name :: string
  sl_pid :: u32

record 's slref =
  sl_spin :: lockid
  sl_chan :: chan
  sl_get :: "'s \<Rightarrow> sleeplock"
  sl_upd :: "(sleeplock \<Rightarrow> sleeplock) \<Rightarrow> 's \<Rightarrow> 's"

definition sleep_initlock :: "('z proc_st_scheme) slref \<Rightarrow> string \<Rightarrow> (unit, 'z proc_st_scheme) kop" where
  "sleep_initlock sl name =
     kthen (initlock (sl_spin sl) name) (
     kmod (sl_upd sl (\<lambda>k. k\<lparr>sl_locked := 0, sl_name := name, sl_pid := 0\<rparr>)))"

text \<open>\<open>sleep_lock\<close>: a thread that finds the lock taken sleeps, and looks again when it has been woken.\<close>

definition sleep_lock_body :: "('z proc_st_scheme) slref \<Rightarrow> (unit, 'z proc_st_scheme) kop" where
  "sleep_lock_body sl =
     kbind (kget (\<lambda>s. sl_locked (sl_get sl s) \<noteq> 0)) (\<lambda>busy.
     if busy then sleep (sl_chan sl) (sl_spin sl)
     else kthen (kmod (sl_upd sl (\<lambda>k. k\<lparr>sl_locked := 1\<rparr>))) (
          kbind thisproc (\<lambda>p. kbind (pget p pid) (\<lambda>n.
          kthen (kmod (sl_upd sl (\<lambda>k. k\<lparr>sl_pid := n\<rparr>))) (release (sl_spin sl))))))"

definition sleep_lock :: "('z proc_st_scheme) slref \<Rightarrow> (unit, 'z proc_st_scheme) kop" where
  "sleep_lock sl = kthen (acquire (sl_spin sl)) (sleep_lock_body sl)"

definition sleep_lock_resume :: "('z proc_st_scheme) slref \<Rightarrow> nat \<Rightarrow> bool \<Rightarrow> (unit, 'z proc_st_scheme) kop" where
  "sleep_lock_resume sl pc ie = kthen (sleep_resume pc ie (sl_spin sl)) (sleep_lock_body sl)"

definition sleep_unlock :: "('z proc_st_scheme) slref \<Rightarrow> (unit, 'z proc_st_scheme) kop" where
  "sleep_unlock sl =
     kthen (acquire (sl_spin sl)) (
     kthen (kmod (sl_upd sl (\<lambda>k. k\<lparr>sl_locked := 0, sl_pid := 0\<rparr>))) (
     kthen (wakeup (Some (sl_chan sl))) (
     release (sl_spin sl))))"

definition holdingsleep :: "('z proc_st_scheme) slref \<Rightarrow> (bool, 'z proc_st_scheme) kop" where
  "holdingsleep sl =
     kthen (acquire (sl_spin sl)) (
     kbind (kget (sl_get sl)) (\<lambda>k.
     kbind (if sl_locked k \<noteq> 0 then kbind thisproc (\<lambda>p. pget p (\<lambda>q. sl_pid k = pid q)) else kret False) (\<lambda>r.
     kthen (release (sl_spin sl)) (kret r))))"

section \<open>The interface of a reference\<close>

text \<open>A reference reads what was last written through it, touches neither harts nor spinlocks nor the process
  table, and its writes do not depend on them.\<close>

locale sleep_ref =
  fixes sl :: "('z proc_st_scheme) slref"
    and ok :: "'z proc_st_scheme \<Rightarrow> bool"
  assumes get_upd: "ok s \<Longrightarrow> sl_get sl (sl_upd sl f s) = f (sl_get sl s)"
    and ok_upd: "ok s \<Longrightarrow> ok (sl_upd sl f s)"
    and upd_upd: "sl_upd sl g (sl_upd sl f s) = sl_upd sl (g \<circ> f) s"
    and upd_base: "hart (sl_upd sl f s) = hart s" "cpus (sl_upd sl f s) = cpus s"
      "locks (sl_upd sl f s) = locks s" "procs (sl_upd sl f s) = procs s"
    and get_frame: "sl_get sl (s\<lparr>cpus := cs, locks := ls\<rparr>) = sl_get sl s"
    and upd_frame: "(sl_upd sl f (s\<lparr>cpus := cs, locks := ls\<rparr>))\<lparr>locks := ls', cpus := cs'\<rparr> =
       (sl_upd sl f s)\<lparr>locks := ls', cpus := cs'\<rparr>"
    and spin_not_proc: "sl_spin sl \<noteq> ProcLk q"
begin

lemma upd_same: "(sl_upd sl f s)\<lparr>locks := locks s, cpus := cpus s\<rparr> = sl_upd sl f s"
  using upd_base(2,3) [of f s] by (metis (no_types, lifting) spin_st.surjective spin_st.update_convs(2,3))

lemma sleep_lock_free:
  assumes c: "calm p s" and free: "sl_locked (sl_get sl s) = 0"
  shows "sleep_lock sl s = Ret () (sl_upd sl (\<lambda>k. k\<lparr>sl_locked := 1, sl_pid := pid (procs s ! p)\<rparr>) s)"
proof -
  let ?a = "inside (sl_spin sl) s"
  let ?b = "sl_upd sl (\<lambda>k. k\<lparr>sl_locked := 1\<rparr>) ?a"
  let ?f = "\<lambda>k. k\<lparr>sl_locked := 1, sl_pid := pid (procs s ! p)\<rparr>"
  have u: "sl_upd sl (\<lambda>k. k\<lparr>sl_pid := pid (procs s ! p)\<rparr>) ?b = sl_upd sl ?f ?a"
    by (simp add: upd_upd comp_def)
  have me: "thisproc ?b = Ret p ?b" by (rule inside_thisproc [OF c]) (simp_all add: upd_base)
  have rel: "release (sl_spin sl) (sl_upd sl ?f ?a) = Ret () ((sl_upd sl ?f ?a)\<lparr>locks := locks s, cpus := cpus s\<rparr>)"
    by (rule calm_release [OF c]) (simp_all add: upd_base)
  have "(sl_upd sl ?f ?a)\<lparr>locks := locks s, cpus := cpus s\<rparr> = sl_upd sl ?f s"
    unfolding inside_def by (simp only: upd_frame upd_same)
  then show ?thesis
    using me u rel free get_frame [where s = s]
    by (simp add: sleep_lock_def sleep_lock_body_def kbind_def calm_acquire [OF c] pget_def upd_base)
      (simp add: inside_def)
qed

lemma sleep_lock_taken:
  assumes c: "calm p s" and "sl_locked (sl_get sl s) \<noteq> 0"
  shows "sleep_lock sl s = Switch (asleep (sl_chan sl) p s)"
proof -
  have "sl_get sl (inside (sl_spin sl) s) = sl_get sl s" unfolding inside_def by (rule get_frame)
  then show ?thesis
    using calm_sleep [OF c spin_not_proc] assms(2)
    by (simp add: sleep_lock_def sleep_lock_body_def kbind_def calm_acquire [OF c])
qed

lemma sleep_unlock_ok:
  assumes c: "calm p s"
  shows "sleep_unlock sl s = Ret () (sl_upd sl (\<lambda>k. k\<lparr>sl_locked := 0, sl_pid := 0\<rparr>) s)"
proof -
  let ?a = "inside (sl_spin sl) s" and ?f = "\<lambda>k. k\<lparr>sl_locked := 0, sl_pid := 0\<rparr>"
  have wk: "wakeup (Some (sl_chan sl)) (sl_upd sl ?f ?a) = Ret () (sl_upd sl ?f ?a)"
    by (rule inside_wakeup [OF c spin_not_proc]) (simp_all add: upd_base)
  have rel: "release (sl_spin sl) (sl_upd sl ?f ?a) = Ret () ((sl_upd sl ?f ?a)\<lparr>locks := locks s, cpus := cpus s\<rparr>)"
    by (rule calm_release [OF c]) (simp_all add: upd_base)
  have "(sl_upd sl ?f ?a)\<lparr>locks := locks s, cpus := cpus s\<rparr> = sl_upd sl ?f s"
    unfolding inside_def by (simp only: upd_frame upd_same)
  then show ?thesis using wk rel by (simp add: sleep_unlock_def kbind_def calm_acquire [OF c])
qed

lemma holdingsleep_ok:
  assumes c: "calm p s"
  shows "holdingsleep sl s = Ret (sl_locked (sl_get sl s) \<noteq> 0 \<and> sl_pid (sl_get sl s) = pid (procs s ! p)) s"
proof -
  let ?a = "inside (sl_spin sl) s"
  have g: "sl_get sl ?a = sl_get sl s" unfolding inside_def by (rule get_frame)
  have rel: "release (sl_spin sl) ?a = Ret () (?a\<lparr>locks := locks s, cpus := cpus s\<rparr>)"
    by (rule calm_release [OF c]) simp_all
  have "?a\<lparr>locks := locks s, cpus := cpus s\<rparr> = s" by (simp add: inside_def)
  moreover have "thisproc ?a = Ret p ?a" by (rule inside_thisproc [OF c]) simp_all
  ultimately show ?thesis
    using g rel by (simp add: holdingsleep_def kbind_def calm_acquire [OF c] pget_def)
qed

text \<open>Whoever has taken the lock is its holder, until it is given back.\<close>

lemma lock_holding:
  assumes c: "calm p s" and "ok s" and "sl_locked (sl_get sl s) = 0" and "sleep_lock sl s = Ret () t"
  shows "holdingsleep sl t = Ret True t" and "calm p t"
proof -
  have t: "t = sl_upd sl (\<lambda>k. k\<lparr>sl_locked := 1, sl_pid := pid (procs s ! p)\<rparr>) s"
    using sleep_lock_free [OF c assms(3)] assms(4) by simp
  show ct: "calm p t" unfolding t by (rule calm_frame [OF c]) (simp_all add: upd_base)
  show "holdingsleep sl t = Ret True t"
    using holdingsleep_ok [OF ct] get_upd [OF assms(2)] by (simp add: t upd_base)
qed

text \<open>Taking a lock and giving it back leaves everything but the lock as it was.\<close>

lemma lock_unlock:
  assumes c: "calm p s" and "sl_locked (sl_get sl s) = 0"
  shows "kthen (sleep_lock sl) (sleep_unlock sl) s = Ret () (sl_upd sl (\<lambda>k. k\<lparr>sl_locked := 0, sl_pid := 0\<rparr>) s)"
proof -
  let ?t = "sl_upd sl (\<lambda>k. k\<lparr>sl_locked := 1, sl_pid := pid (procs s ! p)\<rparr>) s"
  have "calm p ?t" by (rule calm_frame [OF c]) (simp_all add: upd_base)
  then show ?thesis
    using sleep_lock_free [OF assms] sleep_unlock_ok [of p ?t] by (simp add: kbind_def upd_upd comp_def)
qed

end

end
