(* ===== verification/Virtio.thy ===== *)
theory Virtio
  imports Sleeplock
begin

text \<open>
  The disk: \<^verbatim>\<open>kernel/virt.c\<close> and the structures of \<^verbatim>\<open>kernel/virt.h\<close>, with \<open>struct buf\<close> of
  \<^verbatim>\<open>kernel/fs.h\<close>, whose data the device reads and writes. A descriptor's address is one of the three
  objects the driver points it at: a request header, the data of a buffer, a status byte. The device
  itself is hardware: \<open>virtio_serve\<close> does what the virtio specification says a block device does with a
  chain of three descriptors (\<open>sectors\<close> are the 512-byte sectors of the platter, \<open>dev_seen\<close> is how far it
  has read the available ring). Writes to the memory-mapped registers are kept as a trace.

  \<open>virt_disk_rw\<close> sleeps until the interrupt. Its two halves are \<open>virt_disk_rw_start\<close> (to the call of
  \<open>sleep\<close>) and \<open>virt_disk_rw_finish\<close>; \<open>virt_disk_rw\<close> runs the whole call in the schedule where meanwhile only
  the device and its interrupt handler are active, through the scheduler's and \<open>sleep\<close>'s own code.
\<close>

section \<open>State\<close>

definition NUM :: nat where "NUM = 8"
definition BSIZE :: nat where "BSIZE = 1024"
definition VRING_DESC_F_NEXT :: u16 where "VRING_DESC_F_NEXT = 1"
definition VRING_DESC_F_WRITE :: u16 where "VRING_DESC_F_WRITE = 2"
definition VIRTIO_BLK_T_IN :: u32 where "VIRTIO_BLK_T_IN = 0"
definition VIRTIO_BLK_T_OUT :: u32 where "VIRTIO_BLK_T_OUT = 1"

datatype daddr = ANull | AReq nat | ABuf nat | AStatus nat

record virt_desc =
  d_addr :: daddr
  d_len :: u32
  d_flags :: u16
  d_next :: u16

record virt_blk_req =
  rq_type :: u32
  rq_reserved :: u32
  rq_sector :: u64

record vdisk =
  vfree :: "bool list"
  desc :: "virt_desc list"
  av_index :: u16
  av_ring :: "u16 list"
  us_idx :: u16
  us_ring :: "(u32 \<times> u32) list"
  info_b :: "nat option list"
  info_status :: "u8 list"
  used_idx :: u16
  ops :: "virt_blk_req list"

record buf =
  b_vaild :: int
  b_disk :: int
  b_dev :: u32
  b_blockno :: u32
  b_sk :: sleeplock
  b_refcnt :: u32
  b_prev :: nat
  b_next :: nat
  b_data :: "u8 list"

record disk_st = tty_st +
  vd :: vdisk
  vregs :: "(nat \<times> u32) list"
  sectors :: "u64 \<Rightarrow> u8 list"
  dev_seen :: u16
  bufs :: "buf list"

definition on_vd :: "(vdisk \<Rightarrow> vdisk) \<Rightarrow> (unit, 'z disk_st_scheme) kop" where
  "on_vd f = kmod (\<lambda>s. s\<lparr>vd := f (vd s)\<rparr>)"

definition on_buf :: "nat \<Rightarrow> (buf \<Rightarrow> buf) \<Rightarrow> (unit, 'z disk_st_scheme) kop" where
  "on_buf b f = kmod (\<lambda>s. s\<lparr>bufs := (bufs s)[b := f (bufs s ! b)]\<rparr>)"

text \<open>The registers of the device, its status bits and the features the driver refuses (\<^verbatim>\<open>virt.h\<close>).\<close>

definition VIRTIO_MMIO_MAGIC_VALUE :: nat where "VIRTIO_MMIO_MAGIC_VALUE = 0x000"
definition VIRTIO_MMIO_VERSION :: nat where "VIRTIO_MMIO_VERSION = 0x004"
definition VIRTIO_MMIO_DEVICE_ID :: nat where "VIRTIO_MMIO_DEVICE_ID = 0x008"
definition VIRTIO_MMIO_VENDOR_ID :: nat where "VIRTIO_MMIO_VENDOR_ID = 0x00c"
definition VIRTIO_MMIO_DEVICE_FEATURES :: nat where "VIRTIO_MMIO_DEVICE_FEATURES = 0x010"
definition VIRTIO_MMIO_DRIVER_FEATURES :: nat where "VIRTIO_MMIO_DRIVER_FEATURES = 0x020"
definition VIRTIO_MMIO_GUEST_PAGE_SIZE :: nat where "VIRTIO_MMIO_GUEST_PAGE_SIZE = 0x028"
definition VIRTIO_MMIO_QUEUE_SEL :: nat where "VIRTIO_MMIO_QUEUE_SEL = 0x030"
definition VIRTIO_MMIO_QUEUE_NUM_MAX :: nat where "VIRTIO_MMIO_QUEUE_NUM_MAX = 0x034"
definition VIRTIO_MMIO_QUEUE_NUM :: nat where "VIRTIO_MMIO_QUEUE_NUM = 0x038"
definition VIRTIO_MMIO_QUEUE_PFN :: nat where "VIRTIO_MMIO_QUEUE_PFN = 0x040"
definition VIRTIO_MMIO_QUEUE_NOTIFY :: nat where "VIRTIO_MMIO_QUEUE_NOTIFY = 0x050"
definition VIRTIO_MMIO_INTERRUPT_ACK :: nat where "VIRTIO_MMIO_INTERRUPT_ACK = 0x064"
definition VIRTIO_MMIO_STATUS :: nat where "VIRTIO_MMIO_STATUS = 0x070"
definition VIRTIO_CONFIG_S_ACKNOWLEDGE :: u32 where "VIRTIO_CONFIG_S_ACKNOWLEDGE = 1"
definition VIRTIO_CONFIG_S_DRIVER :: u32 where "VIRTIO_CONFIG_S_DRIVER = 2"
definition VIRTIO_CONFIG_S_DRIVER_OK :: u32 where "VIRTIO_CONFIG_S_DRIVER_OK = 4"
definition VIRTIO_CONFIG_S_FEATURES_OK :: u32 where "VIRTIO_CONFIG_S_FEATURES_OK = 8"
definition VIRTIO_BLK_F_RO :: nat where "VIRTIO_BLK_F_RO = 5"
definition VIRTIO_BLK_F_SCSI :: nat where "VIRTIO_BLK_F_SCSI = 7"
definition VIRTIO_BLK_F_CONFIG_WCE :: nat where "VIRTIO_BLK_F_CONFIG_WCE = 11"
definition VIRTIO_BLK_F_MQ :: nat where "VIRTIO_BLK_F_MQ = 12"
definition VIRTIO_F_ANY_LAYOUT :: nat where "VIRTIO_F_ANY_LAYOUT = 27"
definition VIRTIO_RING_F_INDIRECT_DESC :: nat where "VIRTIO_RING_F_INDIRECT_DESC = 28"
definition VIRTIO_RING_F_EVENT_IDX :: nat where "VIRTIO_RING_F_EVENT_IDX = 29"

definition mmio_write :: "nat \<Rightarrow> u32 \<Rightarrow> (unit, 'z disk_st_scheme) kop" where
  "mmio_write r v = kmod (\<lambda>s. s\<lparr>vregs := vregs s @ [(r, v)]\<rparr>)"

section \<open>Descriptors\<close>

definition no_desc :: virt_desc where
  "no_desc = \<lparr>d_addr = ANull, d_len = 0, d_flags = 0, d_next = 0\<rparr>"

fun alloc_desc_loop :: "nat list \<Rightarrow> (int, 'z disk_st_scheme) kop" where
  "alloc_desc_loop [] = kret (-1)"
| "alloc_desc_loop (i # is) =
     kbind (kget (\<lambda>s. vfree (vd s) ! i)) (\<lambda>f.
     if f then kthen (on_vd (\<lambda>d. d\<lparr>vfree := (vfree d)[i := False]\<rparr>)) (kret (int i))
     else alloc_desc_loop is)"

definition alloc_desc :: "(int, 'z disk_st_scheme) kop" where
  "alloc_desc = alloc_desc_loop [0..<NUM]"

definition free_desc :: "int \<Rightarrow> (unit, 'z disk_st_scheme) kop" where
  "free_desc i =
     (if i \<ge> int NUM then printf (lit ''free_desc 1'') []
      else if i < 0 then kfault ''free_desc: index''
      else kbind (kget (\<lambda>s. vfree (vd s) ! nat i)) (\<lambda>f.
        if f then printf (lit ''free_desc 2'') []
        else
          kthen (on_vd (\<lambda>d. d\<lparr>desc := (desc d)[nat i := no_desc]\<rparr>)) (
          kthen (on_vd (\<lambda>d. d\<lparr>vfree := (vfree d)[nat i := True]\<rparr>)) (
          wakeup (Some DiskFreeCh)))))"

fun free_idx :: "int list \<Rightarrow> (unit, 'z disk_st_scheme) kop" where
  "free_idx [] = kret ()"
| "free_idx (i # is) = kthen (free_desc i) (free_idx is)"

text \<open>\<open>alloc3_desc\<close>; \<open>None\<close> is the result -1.\<close>

fun alloc3_loop :: "nat \<Rightarrow> int list \<Rightarrow> (int list option, 'z disk_st_scheme) kop" where
  "alloc3_loop 0 idx = kret (Some idx)"
| "alloc3_loop (Suc n) idx =
     kbind alloc_desc (\<lambda>d.
     if d < 0 then kthen (free_idx idx) (kret None) else alloc3_loop n (idx @ [d]))"

definition alloc3_desc :: "(int list option, 'z disk_st_scheme) kop" where
  "alloc3_desc = alloc3_loop 3 []"

text \<open>\<open>free_chain\<close>. Each turn frees one of the 8 descriptors or walks over a free one; a walk of more than
  72 turns has visited the same descriptors twice without a change in between and never ends.\<close>

fun free_chain_loop :: "nat \<Rightarrow> nat \<Rightarrow> (unit, 'z disk_st_scheme) kop" where
  "free_chain_loop 0 i = (\<lambda>s. Spin)"
| "free_chain_loop (Suc n) i =
     (if NUM \<le> i then kfault ''free_chain: index''
      else kbind (kget (\<lambda>s. d_flags (desc (vd s) ! i))) (\<lambda>flag.
      kbind (kget (\<lambda>s. d_next (desc (vd s) ! i))) (\<lambda>nxt.
      kthen (free_desc (int i)) (
      if flag AND VRING_DESC_F_NEXT \<noteq> 0 then free_chain_loop n (unat nxt) else kret ()))))"

definition free_chain :: "nat \<Rightarrow> (unit, 'z disk_st_scheme) kop" where
  "free_chain i = free_chain_loop 72 i"

section \<open>A transfer\<close>

text \<open>The header and the three descriptors of a request for buffer \<open>b\<close>.\<close>

definition build_request :: "nat \<Rightarrow> bool \<Rightarrow> u64 \<Rightarrow> nat \<Rightarrow> nat \<Rightarrow> nat \<Rightarrow> vdisk \<Rightarrow> vdisk" where
  "build_request b write sector i0 i1 i2 d = d\<lparr>
     ops := (ops d)[i0 := \<lparr>rq_type = (if write then VIRTIO_BLK_T_OUT else VIRTIO_BLK_T_IN),
                           rq_reserved = 0, rq_sector = sector\<rparr>],
     desc := (desc d)[
       i0 := \<lparr>d_addr = AReq i0, d_len = 16, d_flags = VRING_DESC_F_NEXT, d_next = of_nat i1\<rparr>,
       i1 := \<lparr>d_addr = ABuf b, d_len = of_nat BSIZE,
              d_flags = (if write then 0 else VRING_DESC_F_WRITE) OR VRING_DESC_F_NEXT, d_next = of_nat i2\<rparr>,
       i2 := \<lparr>d_addr = AStatus i0, d_len = 1, d_flags = VRING_DESC_F_WRITE, d_next = 0\<rparr>],
     info_status := (info_status d)[i0 := 255]\<rparr>"

definition publish :: "nat \<Rightarrow> nat \<Rightarrow> vdisk \<Rightarrow> vdisk" where
  "publish b i0 d = d\<lparr>info_b := (info_b d)[i0 := Some b],
     av_ring := (av_ring d)[slot NUM (av_index d) := of_nat i0], av_index := av_index d + 1\<rparr>"

text \<open>\<open>virt_disk_rw\<close> up to the loop that waits. The loop that asks for descriptors keeps the disk lock, so
  nobody can give one back while it runs: if the first try fails, all do.\<close>

definition virt_disk_rw_start :: "nat \<Rightarrow> bool \<Rightarrow> (nat, 'z disk_st_scheme) kop" where
  "virt_disk_rw_start b write =
     kbind (kget (\<lambda>s. ucast (b_blockno (bufs s ! b) * 2 :: u32) :: u64)) (\<lambda>sector.
     kthen (acquire DiskLk) (
     kbind alloc3_desc (\<lambda>r.
     case r of None \<Rightarrow> (\<lambda>s. Spin)
     | Some idx \<Rightarrow>
         let i0 = nat (idx ! 0); i1 = nat (idx ! 1); i2 = nat (idx ! 2) in
         kthen (on_vd (build_request b write sector i0 i1 i2)) (
         kthen (on_buf b (\<lambda>k. k\<lparr>b_disk := 1\<rparr>)) (
         kthen (on_vd (publish b i0)) (
         kthen (mmio_write VIRTIO_MMIO_QUEUE_NOTIFY 0) (kret i0)))))))"

definition virt_disk_rw_wait :: "nat \<Rightarrow> (unit, 'z disk_st_scheme) kop" where
  "virt_disk_rw_wait b =
     kbind (kget (\<lambda>s. b_disk (bufs s ! b))) (\<lambda>d. kwhen (d = 1) (sleep (DiskBufCh b) DiskLk))"

definition virt_disk_rw_finish :: "nat \<Rightarrow> (unit, 'z disk_st_scheme) kop" where
  "virt_disk_rw_finish i0 =
     kthen (on_vd (\<lambda>d. d\<lparr>info_b := (info_b d)[i0 := None]\<rparr>)) (
     kthen (free_chain i0) (
     release DiskLk))"

section \<open>The device and its interrupt\<close>

definition rd_sectors :: "(u64 \<Rightarrow> u8 list) \<Rightarrow> u64 \<Rightarrow> nat \<Rightarrow> u8 list" where
  "rd_sectors sec a n = concat (map (\<lambda>i. sec (a + of_nat i)) [0..<n])"

definition wr_sectors :: "(u64 \<Rightarrow> u8 list) \<Rightarrow> u64 \<Rightarrow> nat \<Rightarrow> u8 list \<Rightarrow> (u64 \<Rightarrow> u8 list)" where
  "wr_sectors sec a n bs = (\<lambda>x. if unat (x - a) < n then take 512 (drop (512 * unat (x - a)) bs) else sec x)"

text \<open>The device takes one chain from the available ring, moves the data, writes the status and puts the
  chain on the used ring.\<close>

definition virtio_serve_one :: "(unit, 'z disk_st_scheme) kop" where
  "virtio_serve_one = (\<lambda>s.
     let v = vd s; hd = unat (av_ring v ! slot NUM (dev_seen s)); d0 = desc v ! hd;
         d1 = desc v ! unat (d_next d0); d2 = desc v ! unat (d_next d1) in
     case (d_addr d0, d_addr d1, d_addr d2) of
       (AReq r, ABuf b, AStatus k) \<Rightarrow>
         let rq = ops v ! r; n = unat (d_len d1) div 512;
             v' = v\<lparr>info_status := (info_status v)[k := 0],
                    us_ring := (us_ring v)[slot NUM (us_idx v) := (of_nat hd, d_len d1)], us_idx := us_idx v + 1\<rparr> in
         if rq_type rq = VIRTIO_BLK_T_IN \<and> d_flags d1 AND VRING_DESC_F_WRITE \<noteq> 0
         then Ret () (s\<lparr>vd := v', dev_seen := dev_seen s + 1,
                bufs := (bufs s)[b := (bufs s ! b)\<lparr>b_data := rd_sectors (sectors s) (rq_sector rq) n\<rparr>]\<rparr>)
         else if rq_type rq = VIRTIO_BLK_T_OUT \<and> d_flags d1 AND VRING_DESC_F_WRITE = 0
         then Ret () (s\<lparr>vd := v', dev_seen := dev_seen s + 1,
                sectors := wr_sectors (sectors s) (rq_sector rq) n (b_data (bufs s ! b))\<rparr>)
         else Fault ''virtio: request''
     | _ \<Rightarrow> Fault ''virtio: chain'')"

fun virtio_serve_loop :: "nat \<Rightarrow> (unit, 'z disk_st_scheme) kop" where
  "virtio_serve_loop 0 = kret ()"
| "virtio_serve_loop (Suc n) = kthen virtio_serve_one (virtio_serve_loop n)"

definition virtio_serve :: "(unit, 'z disk_st_scheme) kop" where
  "virtio_serve = kbind (kget (\<lambda>s. unat (av_index (vd s) - dev_seen s))) virtio_serve_loop"

text \<open>\<open>virtio_disk_isr\<close>: one turn of its loop, and as many turns as the used ring holds new entries.
  \<open>irq_status\<close> is what the interrupt status register reads.\<close>

definition isr_turn :: "(unit, 'z disk_st_scheme) kop" where
  "isr_turn =
     kbind (kget (\<lambda>s. unat (fst (us_ring (vd s) ! slot NUM (used_idx (vd s)))))) (\<lambda>id.
     if NUM \<le> id then kfault ''disk.info[id]''
     else
       kbind (kget (\<lambda>s. info_status (vd s) ! id)) (\<lambda>st.
       kthen (kwhen (st \<noteq> 0) (printf (lit ''virtio_disk_intr status'') [])) (
       kbind (kget (\<lambda>s. info_b (vd s) ! id)) (\<lambda>ob.
       case ob of None \<Rightarrow>
           kthen (printf (lit (''id :%d'' @ [CHR 0x0A])) [VInt (of_nat id)]) (kpanic ''virtio_disk_isr: buf is empty'')
       | Some b \<Rightarrow>
           kthen (on_buf b (\<lambda>k. k\<lparr>b_disk := 0\<rparr>)) (
           kthen (wakeup (Some (DiskBufCh b))) (
           on_vd (\<lambda>d. d\<lparr>used_idx := used_idx d + 1\<rparr>)))))))"

fun isr_loop :: "nat \<Rightarrow> (unit, 'z disk_st_scheme) kop" where
  "isr_loop 0 = kret ()"
| "isr_loop (Suc n) = kthen isr_turn (isr_loop n)"

definition virtio_disk_isr :: "u32 \<Rightarrow> (unit, 'z disk_st_scheme) kop" where
  "virtio_disk_isr irq_status =
     kthen (mmio_write VIRTIO_MMIO_INTERRUPT_ACK (irq_status AND 3)) (
     kbind (kget (\<lambda>s. unat (us_idx (vd s) - used_idx (vd s)))) isr_loop)"

section \<open>The whole call\<close>

text \<open>Catch a switch and go on.\<close>

definition on_switch :: "('a, 's) kop \<Rightarrow> ('a, 's) kop \<Rightarrow> ('a, 's) kop" where
  "on_switch m k = (\<lambda>s. case m s of Switch t \<Rightarrow> k t | r \<Rightarrow> r)"

text \<open>While process \<open>p\<close> sleeps holding nothing but its wish for \<open>lk\<close>: the scheduler takes the hart back, the
  device serves the queue and interrupts, the scheduler finds \<open>p\<close> runnable again and \<open>sleep\<close> returns.\<close>

definition idle_round :: "lockid \<Rightarrow> (unit, 'z disk_st_scheme) kop" where
  "idle_round lk =
     kbind mycpu (\<lambda>h.
     kbind (kget (\<lambda>s. cpu_p (cpus s ! h))) (\<lambda>op.
     kbind (kget (\<lambda>s. intena (cpus s ! h))) (\<lambda>ie.
     case op of None \<Rightarrow> kfault ''idle_round''
     | Some p \<Rightarrow>
         kthen (scheduler_back h p) (
         kthen virtio_serve (
         kthen (virtio_disk_isr 1) (
         on_switch (scheduler_turn h p) (sleep_resume p ie lk)))))))"

definition virt_disk_rw :: "nat \<Rightarrow> bool \<Rightarrow> (unit, 'z disk_st_scheme) kop" where
  "virt_disk_rw b write =
     kbind (virt_disk_rw_start b write) (\<lambda>i0.
     kthen (on_switch (virt_disk_rw_wait b) (idle_round DiskLk)) (
     kthen (virt_disk_rw_wait b) (
     virt_disk_rw_finish i0)))"

section \<open>Initialisation\<close>

text \<open>\<open>virtio_disk_init\<close>. \<open>rd\<close> is what the device's registers read, \<open>pages\<close> the address of \<open>disk.pages\<close>.\<close>

definition blank_vdisk :: "vdisk \<Rightarrow> vdisk" where
  "blank_vdisk d = d\<lparr>desc := replicate NUM no_desc, av_index := 0, av_ring := replicate NUM 0,
     us_idx := 0, us_ring := replicate NUM (0, 0)\<rparr>"

definition virtio_disk_init :: "(nat \<Rightarrow> u32) \<Rightarrow> u64 \<Rightarrow> (unit, 'z disk_st_scheme) kop" where
  "virtio_disk_init rd pages =
     kthen (initlock DiskLk ''virtlock'') (
     kthen (printf (lit (''magic:%p,ver:%d,deviceId:%d,vendor:%p'' @ [CHR 0x0A]))
        [VPtr (ucast (rd VIRTIO_MMIO_MAGIC_VALUE)), VInt (rd VIRTIO_MMIO_VERSION), VInt (rd VIRTIO_MMIO_DEVICE_ID),
         VPtr (ucast (rd VIRTIO_MMIO_VENDOR_ID))]) (
     if rd VIRTIO_MMIO_MAGIC_VALUE \<noteq> 0x74726976 \<or> rd VIRTIO_MMIO_VERSION \<noteq> 1 \<or> rd VIRTIO_MMIO_DEVICE_ID \<noteq> 2
       \<or> rd VIRTIO_MMIO_VENDOR_ID \<noteq> 0x554d4551
     then printf (lit ''could not find virtio disk'') []
     else
       let status = 0 OR VIRTIO_CONFIG_S_ACKNOWLEDGE in
       kthen (mmio_write VIRTIO_MMIO_STATUS status) (
       let status = status OR VIRTIO_CONFIG_S_DRIVER in
       kthen (mmio_write VIRTIO_MMIO_STATUS status) (
       let features = foldl (\<lambda>f k. f AND NOT (push_bit k 1)) (rd VIRTIO_MMIO_DEVICE_FEATURES) [VIRTIO_BLK_F_RO, VIRTIO_BLK_F_SCSI,
         VIRTIO_BLK_F_CONFIG_WCE, VIRTIO_BLK_F_MQ, VIRTIO_F_ANY_LAYOUT, VIRTIO_RING_F_EVENT_IDX, VIRTIO_RING_F_INDIRECT_DESC] in
       kthen (mmio_write VIRTIO_MMIO_DRIVER_FEATURES features) (
       let status = status OR VIRTIO_CONFIG_S_FEATURES_OK in
       kthen (mmio_write VIRTIO_MMIO_STATUS status) (
       let status = status OR VIRTIO_CONFIG_S_DRIVER_OK in
       kthen (mmio_write VIRTIO_MMIO_STATUS status) (
       kthen (mmio_write VIRTIO_MMIO_GUEST_PAGE_SIZE 4096) (
       kthen (mmio_write VIRTIO_MMIO_QUEUE_SEL 0) (
       if rd VIRTIO_MMIO_QUEUE_NUM_MAX = 0 then printf (lit ''virtio disk has no queue 0'') []
       else if rd VIRTIO_MMIO_QUEUE_NUM_MAX < of_nat NUM then printf (lit ''virtio disk max queue too short'') []
       else
         kthen (mmio_write VIRTIO_MMIO_QUEUE_NUM (of_nat NUM)) (
         kthen (on_vd blank_vdisk) (
         kthen (mmio_write VIRTIO_MMIO_QUEUE_PFN (ucast (drop_bit 12 pages))) (
         on_vd (\<lambda>d. d\<lparr>vfree := replicate NUM True\<rparr>)))))))))))))"

section \<open>A transfer is a read or a write of a block\<close>

definition driver_idle :: "'z disk_st_scheme \<Rightarrow> bool" where
  "driver_idle s \<longleftrightarrow> vfree (vd s) = replicate NUM True \<and> length (desc (vd s)) = NUM \<and>
     length (av_ring (vd s)) = NUM \<and> length (us_ring (vd s)) = NUM \<and> length (info_b (vd s)) = NUM \<and>
     length (info_status (vd s)) = NUM \<and> length (ops (vd s)) = NUM \<and>
     used_idx (vd s) = us_idx (vd s) \<and> dev_seen s = av_index (vd s)"

text \<open>The first sector of the block in buffer \<open>b\<close>, and the block as the device has it.\<close>

definition sector_of :: "u32 \<Rightarrow> u64" where
  "sector_of n = ucast (n * 2 :: u32)"

definition disk_block :: "(u64 \<Rightarrow> u8 list) \<Rightarrow> u32 \<Rightarrow> u8 list" where
  "disk_block sec n = rd_sectors sec (sector_of n) 2"

definition transfer :: "nat \<Rightarrow> bool \<Rightarrow> 'z disk_st_scheme \<Rightarrow> 'z disk_st_scheme" where
  "transfer b write s =
     (let k = bufs s ! b; n = b_blockno k in
      if write then s\<lparr>sectors := wr_sectors (sectors s) (sector_of n) 2 (b_data k),
        bufs := (bufs s)[b := k\<lparr>b_disk := 0\<rparr>]\<rparr>
      else s\<lparr>bufs := (bufs s)[b := k\<lparr>b_disk := 0, b_data := disk_block (sectors s) n\<rparr>]\<rparr>)"

lemma buf_order [simp]: "k\<lparr>b_data := d, b_disk := x\<rparr> = k\<lparr>b_disk := x, b_data := d\<rparr>"
  by (cases k) simp

lemma upt_NUM: "[0..<NUM] = [0, 1, 2, 3, 4, 5, 6, 7]"
  by (simp add: NUM_def upt_rec)

definition taken3 :: "bool list" where
  "taken3 = [False, False, False, True, True, True, True, True]"

lemma alloc3_idle:
  assumes "vfree (vd s) = replicate NUM True"
  shows "alloc3_desc s = Ret (Some [0, 1, 2]) (s\<lparr>vd := (vd s)\<lparr>vfree := taken3\<rparr>\<rparr>)"
proof -
  have v: "vfree (vd s) = [True, True, True, True, True, True, True, True]"
    using assms by (simp add: NUM_def numeral_eq_Suc)
  have three: "(3 :: nat) = Suc (Suc (Suc 0))" by simp
  show ?thesis
    unfolding alloc3_desc_def three
    by (simp add: alloc_desc_def upt_NUM kbind_def on_vd_def v taken3_def)
qed

definition request :: "nat \<Rightarrow> bool \<Rightarrow> 'z disk_st_scheme \<Rightarrow> vdisk" where
  "request b write s = publish b 0 (build_request b write (sector_of (b_blockno (bufs s ! b))) 0 1 2
     ((vd s)\<lparr>vfree := taken3\<rparr>))"

definition submitted :: "nat \<Rightarrow> bool \<Rightarrow> 'z disk_st_scheme \<Rightarrow> 'z disk_st_scheme" where
  "submitted b write s = s\<lparr>vd := request b write s, bufs := (bufs s)[b := (bufs s ! b)\<lparr>b_disk := 1\<rparr>],
     vregs := vregs s @ [(VIRTIO_MMIO_QUEUE_NOTIFY, 0)]\<rparr>"

lemma inside_disk_sel [simp]:
  "vd (inside L s) = vd s" "bufs (inside L s) = bufs s" "vregs (inside L s) = vregs s" "dev_seen (inside L s) = dev_seen s"
  "sectors (inside L s) = sectors s"
  by (simp_all add: inside_def)

lemma start_ok:
  assumes c: "calm p s" and idle: "driver_idle s"
  shows "virt_disk_rw_start b write s = Ret 0 (inside DiskLk (submitted b write s))"
proof -
  have "alloc3_desc (inside DiskLk s) = Ret (Some [0, 1, 2]) ((inside DiskLk s)\<lparr>vd := (vd s)\<lparr>vfree := taken3\<rparr>\<rparr>)"
    using alloc3_idle [of "inside DiskLk s"] idle by (simp add: driver_idle_def)
  then show ?thesis
    by (simp add: virt_disk_rw_start_def kbind_def calm_acquire [OF c] on_vd_def on_buf_def mmio_write_def)
      (simp add: inside_def submitted_def request_def sector_of_def)
qed

text \<open>The device serves the request.\<close>

definition served :: "nat \<Rightarrow> bool \<Rightarrow> 'z disk_st_scheme \<Rightarrow> vdisk" where
  "served b write s = (let v = request b write s in v\<lparr>info_status := (info_status v)[0 := 0],
     us_ring := (us_ring v)[slot NUM (us_idx v) := (0, of_nat BSIZE)], us_idx := us_idx v + 1\<rparr>)"

lemma slot_NUM [simp]: "slot NUM i < 8" "slot 8 i < 8"
  by (simp_all add: slot_def NUM_def)

lemma request_sel:
  assumes "driver_idle s"
  shows "av_ring (request b write s) ! slot NUM (av_index (vd s)) = 0"
    "desc (request b write s) ! 0 = \<lparr>d_addr = AReq 0, d_len = 16, d_flags = VRING_DESC_F_NEXT, d_next = 1\<rparr>"
    "desc (request b write s) ! Suc 0 = \<lparr>d_addr = ABuf b, d_len = of_nat BSIZE,
       d_flags = (if write then 0 else VRING_DESC_F_WRITE) OR VRING_DESC_F_NEXT, d_next = 2\<rparr>"
    "desc (request b write s) ! 2 = \<lparr>d_addr = AStatus 0, d_len = 1, d_flags = VRING_DESC_F_WRITE, d_next = 0\<rparr>"
    "ops (request b write s) ! 0 = \<lparr>rq_type = (if write then VIRTIO_BLK_T_OUT else VIRTIO_BLK_T_IN),
       rq_reserved = 0, rq_sector = sector_of (b_blockno (bufs s ! b))\<rparr>"
    "av_index (request b write s) = av_index (vd s) + 1" "us_idx (request b write s) = us_idx (vd s)"
    "us_ring (request b write s) = us_ring (vd s)" "info_b (request b write s) = (info_b (vd s))[0 := Some b]"
    "used_idx (request b write s) = us_idx (vd s)" "vfree (request b write s) = taken3"
    "info_status (request b write s) = (info_status (vd s))[0 := 255]"
  using assms by (simp_all add: request_def publish_def build_request_def driver_idle_def NUM_def)

lemma serve_ok:
  assumes idle: "driver_idle s" and b: "b < length (bufs s)"
    and t: "vd t = request b write s" "bufs t = bufs (submitted b write s)" "dev_seen t = dev_seen s" "sectors t = sectors s"
  shows "virtio_serve t = Ret () (t\<lparr>vd := served b write s, dev_seen := dev_seen s + 1,
    sectors := sectors (transfer b write s),
    bufs := (bufs s)[b := (bufs (transfer b write s) ! b)\<lparr>b_disk := 1\<rparr>]\<rparr>)"
proof -
  note r = request_sel [OF idle]
  have seen: "dev_seen s = av_index (vd s)" using idle by (simp add: driver_idle_def)
  have one: "unat (av_index (vd t) - dev_seen t) = Suc 0" using t r(6) seen by simp
  have bb: "unat (of_nat BSIZE :: u32) div 512 = 2" by (simp add: BSIZE_def)
  have fl: "(VRING_DESC_F_WRITE OR VRING_DESC_F_NEXT) AND VRING_DESC_F_WRITE \<noteq> 0"
    "VRING_DESC_F_NEXT AND VRING_DESC_F_WRITE = 0"
    by (simp_all add: VRING_DESC_F_WRITE_def VRING_DESC_F_NEXT_def)
  have ty: "VIRTIO_BLK_T_OUT \<noteq> VIRTIO_BLK_T_IN" by (simp add: VIRTIO_BLK_T_OUT_def VIRTIO_BLK_T_IN_def)
  have "virtio_serve_one t = Ret () (t\<lparr>vd := served b write s, dev_seen := dev_seen s + 1,
    sectors := sectors (transfer b write s),
    bufs := (bufs s)[b := (bufs (transfer b write s) ! b)\<lparr>b_disk := 1\<rparr>]\<rparr>)"
  proof (cases "write")
    case True
    have "bufs t = (bufs s)[b := (bufs s ! b)\<lparr>b_disk := 1\<rparr>]" using t(2) by (simp add: submitted_def)
    then show ?thesis
      using True t r seen bb fl ty b
      by (simp add: virtio_serve_one_def Let_def served_def transfer_def)
  next
    case False
    have "bufs t = (bufs s)[b := (bufs s ! b)\<lparr>b_disk := 1\<rparr>]" using t(2) by (simp add: submitted_def)
    then show ?thesis
      using False t(1-3) t(4) [symmetric] r seen bb fl ty b
      by (simp add: virtio_serve_one_def Let_def served_def transfer_def disk_block_def)
  qed
  then show ?thesis using one by (simp add: virtio_serve_def kbind_def)
qed

text \<open>The interrupt handler finds the request on the used ring and wakes its owner.\<close>

lemma wakeup_parked:
  assumes c: "calm p s" and t: "hart t = hart s" "cpus t = no_proc (hart s) (cpus s)" "locks t = locks s"
      "procs t = dozing ch p (procs s)"
  shows "wakeup (Some ch) t = Ret () (t\<lparr>procs := (procs s)[p := (procs s ! p)\<lparr>chan := Some ch, pstate := RUNNABLE\<rparr>]\<rparr>)"
proof -
  note cs = calm_simps [OF c]
  have wk: "wakers_ok t" using cs t no_proc_facts [OF cs(1)] by (simp add: wakers_ok_def dozing_def)
  have none: "cur t = None" using t no_proc_facts(2) [OF cs(1)] by (simp add: cur_def)
  obtain ks where ks: "wakeup (Some ch) t = Ret () (t\<lparr>procs := ks\<rparr>)" "length ks = NPROC"
    "\<And>i. i < NPROC \<Longrightarrow> ks ! i = (if cur t = Some i then procs t ! i else wake (Some ch) (procs t ! i))"
    using wakeup_wakers [OF wk, of "Some ch"] by blast
  have "ks = (procs s)[p := (procs s ! p)\<lparr>chan := Some ch, pstate := RUNNABLE\<rparr>]"
  proof (rule nth_equalityI)
    fix i assume "i < length ks"
    then show "ks ! i = (procs s)[p := (procs s ! p)\<lparr>chan := Some ch, pstate := RUNNABLE\<rparr>] ! i"
      using ks(2,3) none cs t(4) by (cases "i = p") (simp_all add: dozing_def wake_def)
  qed (use ks(2) cs in simp)
  then show ?thesis using ks(1) by simp
qed

definition completed :: "nat \<Rightarrow> bool \<Rightarrow> 'z disk_st_scheme \<Rightarrow> 'z disk_st_scheme" where
  "completed b write s = s\<lparr>vd := (served b write s)\<lparr>used_idx := us_idx (vd s) + 1\<rparr>, dev_seen := dev_seen s + 1,
     sectors := sectors (transfer b write s), bufs := bufs (transfer b write s),
     vregs := vregs s @ [(VIRTIO_MMIO_QUEUE_NOTIFY, 0), (VIRTIO_MMIO_INTERRUPT_ACK, 1)]\<rparr>"

lemma transfer_bufs:
  "b < length (bufs s) \<Longrightarrow> (bufs s)[b := (bufs (transfer b write s) ! b)\<lparr>b_disk := 0\<rparr>] = bufs (transfer b write s)"
  by (simp add: transfer_def Let_def)

lemma isr_ok:
  assumes c: "calm p s" and idle: "driver_idle s" and b: "b < length (bufs s)"
    and t: "hart t = hart s" "cpus t = no_proc (hart s) (cpus s)" "locks t = locks s"
      "procs t = dozing (DiskBufCh b) p (procs s)" "vd t = served b write s"
      "bufs t = (bufs s)[b := (bufs (transfer b write s) ! b)\<lparr>b_disk := 1\<rparr>]"
  shows "virtio_disk_isr 1 t = Ret () (t\<lparr>vregs := vregs t @ [(VIRTIO_MMIO_INTERRUPT_ACK, 1)], bufs := bufs (transfer b write s),
    procs := (procs s)[p := (procs s ! p)\<lparr>chan := Some (DiskBufCh b), pstate := RUNNABLE\<rparr>],
    vd := (served b write s)\<lparr>used_idx := us_idx (vd s) + 1\<rparr>\<rparr>)"
proof -
  note r = request_sel [OF idle]
  have d: "length (us_ring (vd s)) = 8" "length (info_b (vd s)) = 8" "length (info_status (vd s)) = 8"
    using idle by (simp_all add: driver_idle_def NUM_def)
  have v: "us_idx (served b write s) = us_idx (vd s) + 1" "used_idx (served b write s) = us_idx (vd s)"
    "us_ring (served b write s) ! slot NUM (us_idx (vd s)) = (0, of_nat BSIZE)"
    "info_status (served b write s) ! 0 = 0" "info_b (served b write s) ! 0 = Some b"
    using r d by (simp_all add: served_def Let_def)
  let ?a = "t\<lparr>vregs := vregs t @ [(VIRTIO_MMIO_INTERRUPT_ACK, 1)]\<rparr>"
  let ?b = "?a\<lparr>bufs := bufs (transfer b write s)\<rparr>"
  have bufs: "(bufs ?a)[b := (bufs ?a ! b)\<lparr>b_disk := 0\<rparr>] = bufs (transfer b write s)"
    using t(6) b transfer_bufs [OF b, of "write"] by simp
  have wk: "wakeup (Some (DiskBufCh b)) ?b =
      Ret () (?b\<lparr>procs := (procs s)[p := (procs s ! p)\<lparr>chan := Some (DiskBufCh b), pstate := RUNNABLE\<rparr>]\<rparr>)"
    by (rule wakeup_parked [OF c]) (use t in simp_all)
  have "isr_turn ?a = Ret () (t\<lparr>vregs := vregs t @ [(VIRTIO_MMIO_INTERRUPT_ACK, 1)], bufs := bufs (transfer b write s),
    procs := (procs s)[p := (procs s ! p)\<lparr>chan := Some (DiskBufCh b), pstate := RUNNABLE\<rparr>],
    vd := (served b write s)\<lparr>used_idx := us_idx (vd s) + 1\<rparr>\<rparr>)"
    using v t(5) bufs wk by (simp add: isr_turn_def kbind_def NUM_def on_buf_def on_vd_def)
  moreover have "unat (us_idx (vd ?a) - used_idx (vd ?a)) = Suc 0" using v t(5) by simp
  ultimately show ?thesis by (simp add: virtio_disk_isr_def mmio_write_def kbind_def)
qed

lemma idle_round_ok:
  assumes c: "calm p s" and idle: "driver_idle s" and b: "b < length (bufs s)"
  shows "idle_round DiskLk (asleep (DiskBufCh b) p (submitted b write s)) = Ret () (inside DiskLk (completed b write s))"
proof -
  let ?s = "submitted b write s" and ?ch = "DiskBufCh b" and ?h = "hart s"
  have base: "hart ?s = hart s" "cpus ?s = cpus s" "locks ?s = locks s" "procs ?s = procs s"
    by (simp_all add: submitted_def)
  have c': "calm p ?s" by (rule calm_frame [OF c]) (simp_all add: base)
  have h: "?h < length (cpus s)" using calm_simps(1) [OF c] by (rule cpu_ok_hart)
  let ?ie = "intena (pushc ?h (cpus s) ! ?h)"
  have me: "cpu_p (pushc ?h (cpus s) ! ?h) = Some p" using calm_simps(1,2) [OF c] by (simp add: cur_def)
  have bk: "scheduler_back ?h p (asleep ?ch p ?s) = Ret () (parked ?ch p ?s)"
    using scheduler_back_asleep [OF c'] by (simp add: base)
  let ?t = "(parked ?ch p ?s)\<lparr>vd := served b write s, dev_seen := dev_seen s + 1,
    sectors := sectors (transfer b write s), bufs := (bufs s)[b := (bufs (transfer b write s) ! b)\<lparr>b_disk := 1\<rparr>]\<rparr>"
  have serve: "virtio_serve (parked ?ch p ?s) = Ret () ?t"
    by (rule serve_ok [OF idle b]) (simp_all add: parked_def submitted_def)
  let ?u = "?t\<lparr>vregs := vregs ?t @ [(VIRTIO_MMIO_INTERRUPT_ACK, 1)], bufs := bufs (transfer b write s),
    procs := (procs s)[p := (procs s ! p)\<lparr>chan := Some ?ch, pstate := RUNNABLE\<rparr>],
    vd := (served b write s)\<lparr>used_idx := us_idx (vd s) + 1\<rparr>\<rparr>"
  have isr: "virtio_disk_isr 1 ?t = Ret () ?u"
    by (rule isr_ok [OF c idle b]) (simp_all add: parked_def base)
  obtain w where w: "scheduler_turn ?h p ?u = Switch w"
    "sleep_resume p ?ie DiskLk w = Ret () (inside DiskLk (?u\<lparr>cpus := cpus s, locks := locks s, procs := procs s\<rparr>))"
    using dispatch_again [OF c, of DiskLk ?u ?ch ?ie] by (auto simp: parked_def base)
  have eq: "?u\<lparr>cpus := cpus s, locks := locks s, procs := procs s\<rparr> = completed b write s"
    by (simp add: parked_def submitted_def completed_def)
  have cp: "cpus (asleep ?ch p ?s) = pushc ?h (cpus s)" "hart (asleep ?ch p ?s) = ?h" by (simp_all add: asleep_def base)
  have m: "mycpu (asleep ?ch p ?s) = Ret ?h (asleep ?ch p ?s)"
    using mycpu_ok [of "asleep ?ch p ?s"] h by (simp add: cp)
  show ?thesis
    using m cp me bk serve isr w unfolding eq
    by (simp add: idle_round_def kbind_def on_switch_def)
qed

lemma free_desc_ok:
  assumes c: "calm p s" and t: "hart t = hart s" "cpus t = cpus (inside DiskLk s)" "locks t = locks (inside DiskLk s)"
      "procs t = procs s"
    and i: "i < NUM" "\<not> vfree (vd t) ! i"
  shows "free_desc (int i) t = Ret () (t\<lparr>vd := (vd t)\<lparr>desc := (desc (vd t))[i := no_desc],
    vfree := (vfree (vd t))[i := True]\<rparr>\<rparr>)"
proof -
  let ?u = "t\<lparr>vd := (vd t)\<lparr>desc := (desc (vd t))[i := no_desc], vfree := (vfree (vd t))[i := True]\<rparr>\<rparr>"
  have "wakeup (Some DiskFreeCh) ?u = Ret () ?u"
    by (rule inside_wakeup [OF c, of DiskLk]) (use t in simp_all)
  then show ?thesis using i by (simp add: free_desc_def kbind_def on_vd_def)
qed

definition chain3 :: "virt_desc list \<Rightarrow> bool" where
  "chain3 ds \<longleftrightarrow> d_flags (ds ! 0) AND VRING_DESC_F_NEXT \<noteq> 0 \<and> d_next (ds ! 0) = 1 \<and>
     d_flags (ds ! 1) AND VRING_DESC_F_NEXT \<noteq> 0 \<and> d_next (ds ! 1) = 2 \<and>
     d_flags (ds ! 2) AND VRING_DESC_F_NEXT = 0"

lemma free_chain_ok:
  assumes c: "calm p s" and t: "hart t = hart s" "cpus t = cpus (inside DiskLk s)" "locks t = locks (inside DiskLk s)"
      "procs t = procs s"
    and v: "vfree (vd t) = taken3" "chain3 (desc (vd t))"
  shows "free_chain 0 t = Ret () (t\<lparr>vd := (vd t)\<lparr>desc := (desc (vd t))[0 := no_desc, 1 := no_desc, 2 := no_desc],
    vfree := replicate NUM True\<rparr>\<rparr>)"
proof -
  note n = v(2) [unfolded chain3_def]
  let ?a = "t\<lparr>vd := (vd t)\<lparr>desc := (desc (vd t))[0 := no_desc], vfree := taken3[0 := True]\<rparr>\<rparr>"
  let ?b = "t\<lparr>vd := (vd t)\<lparr>desc := (desc (vd t))[0 := no_desc, 1 := no_desc], vfree := taken3[0 := True, 1 := True]\<rparr>\<rparr>"
  let ?c = "t\<lparr>vd := (vd t)\<lparr>desc := (desc (vd t))[0 := no_desc, 1 := no_desc, 2 := no_desc],
    vfree := taken3[0 := True, 1 := True, 2 := True]\<rparr>\<rparr>"
  have f0: "free_desc 0 t = Ret () ?a"
    using free_desc_ok [OF c t, of 0] v by (simp add: taken3_def NUM_def)
  have f1: "free_desc 1 ?a = Ret () ?b"
    using free_desc_ok [OF c, of ?a 1] t by (simp add: taken3_def NUM_def)
  have f2: "free_desc 2 ?b = Ret () ?c"
    using free_desc_ok [OF c, of ?b 2] t by (simp add: taken3_def NUM_def)
  have all: "taken3[0 := True, 1 := True, 2 := True] = replicate NUM True"
    by (simp add: taken3_def NUM_def numeral_eq_Suc)
  have "free_chain_loop (Suc (Suc (Suc m))) 0 t = Ret () ?c" for m
    using n f0 f1 f2 by (simp add: kbind_def NUM_def)
  from this [of 69] show ?thesis unfolding free_chain_def all by simp
qed

definition settled :: "nat \<Rightarrow> bool \<Rightarrow> 'z disk_st_scheme \<Rightarrow> vdisk" where
  "settled b write s = (let v = vd (completed b write s) in v\<lparr>info_b := (info_b v)[0 := None],
     desc := (desc v)[0 := no_desc, 1 := no_desc, 2 := no_desc], vfree := replicate NUM True\<rparr>)"

lemma finish_ok:
  assumes c: "calm p s" and idle: "driver_idle s"
  shows "virt_disk_rw_finish 0 (inside DiskLk (completed b write s)) =
    Ret () ((completed b write s)\<lparr>vd := settled b write s\<rparr>)"
proof -
  let ?s = "completed b write s"
  note r = request_sel [OF idle]
  have c': "calm p ?s" by (rule calm_frame [OF c]) (simp_all add: completed_def)
  let ?v = "(vd ?s)\<lparr>info_b := (info_b (vd ?s))[0 := None]\<rparr>"
  let ?t = "(inside DiskLk ?s)\<lparr>vd := ?v\<rparr>"
  have fl: "((if write then 0 else VRING_DESC_F_WRITE) OR VRING_DESC_F_NEXT) AND VRING_DESC_F_NEXT \<noteq> 0"
    "VRING_DESC_F_NEXT \<noteq> 0" "VRING_DESC_F_WRITE AND VRING_DESC_F_NEXT = 0"
    by (simp_all add: VRING_DESC_F_WRITE_def VRING_DESC_F_NEXT_def)
  have ds: "desc ?v = desc (request b write s)" "vfree ?v = vfree (request b write s)"
    by (simp_all add: completed_def served_def Let_def)
  have v: "vfree ?v = taken3" "chain3 (desc ?v)"
    unfolding ds chain3_def using r(2-4,11) fl by simp_all
  have "free_chain 0 ?t = Ret () (?t\<lparr>vd := (vd ?t)\<lparr>desc := (desc (vd ?t))[0 := no_desc, 1 := no_desc, 2 := no_desc],
    vfree := replicate NUM True\<rparr>\<rparr>)"
    by (rule free_chain_ok [OF c']) (use v in simp_all)
  then have fc: "free_chain 0 ?t = Ret () ((inside DiskLk ?s)\<lparr>vd := settled b write s\<rparr>)"
    by (simp add: settled_def Let_def)
  let ?u = "(inside DiskLk ?s)\<lparr>vd := settled b write s\<rparr>"
  have "release DiskLk ?u = Ret () (?u\<lparr>locks := locks ?s, cpus := cpus ?s\<rparr>)"
    by (rule calm_release [OF c']) simp_all
  moreover have "?u\<lparr>locks := locks ?s, cpus := cpus ?s\<rparr> = ?s\<lparr>vd := settled b write s\<rparr>" by (simp add: inside_def)
  ultimately show ?thesis using fc by (simp add: virt_disk_rw_finish_def on_vd_def kbind_def)
qed

text \<open>The whole call, in a calm state with an idle driver: the block moves between the buffer and the disk, the
  driver is idle again and nothing outside it has changed.\<close>

definition driver_part :: "vdisk \<Rightarrow> (nat \<times> u32) list \<Rightarrow> u16 \<Rightarrow> 'z disk_st_scheme \<Rightarrow> 'z disk_st_scheme" where
  "driver_part v rg n s = s\<lparr>vd := v, vregs := rg, dev_seen := n\<rparr>"

lemma virt_disk_rw_ok:
  assumes c: "calm p s" and idle: "driver_idle s" and b: "b < length (bufs s)"
  obtains v rg n where "virt_disk_rw b write s = Ret () (driver_part v rg n (transfer b write s))"
    "driver_idle (driver_part v rg n (transfer b write s))"
proof -
  let ?s = "submitted b write s"
  have c': "calm p ?s" by (rule calm_frame [OF c]) (simp_all add: submitted_def)
  have w1: "virt_disk_rw_wait b (inside DiskLk ?s) = Switch (asleep (DiskBufCh b) p ?s)"
    using calm_sleep [OF c', of DiskLk "DiskBufCh b"] b
    by (simp add: virt_disk_rw_wait_def submitted_def)
  have "b_disk (bufs (completed b write s) ! b) = 0"
    using b by (simp add: completed_def transfer_def Let_def)
  then have w2: "virt_disk_rw_wait b (inside DiskLk (completed b write s)) = Ret () (inside DiskLk (completed b write s))"
    by (simp add: virt_disk_rw_wait_def)
  have run: "virt_disk_rw b write s = Ret () ((completed b write s)\<lparr>vd := settled b write s\<rparr>)"
    using start_ok [OF c idle, of b "write"] w1 idle_round_ok [OF c idle b, of "write"] w2 finish_ok [OF c idle, of b "write"]
    by (simp add: virt_disk_rw_def kbind_def on_switch_def)
  let ?rg = "vregs s @ [(VIRTIO_MMIO_QUEUE_NOTIFY, 0), (VIRTIO_MMIO_INTERRUPT_ACK, 1)]"
  have eq: "(completed b write s)\<lparr>vd := settled b write s\<rparr> =
      driver_part (settled b write s) ?rg (dev_seen s + 1) (transfer b write s)"
    by (simp add: completed_def driver_part_def transfer_def Let_def)
  have "driver_idle (driver_part (settled b write s) ?rg (dev_seen s + 1) (transfer b write s))"
    using idle request_sel(6,7) [OF idle, of b "write"]
    by (simp add: driver_idle_def driver_part_def settled_def completed_def served_def Let_def
        request_def publish_def build_request_def)
  then show thesis using that run eq by simp
qed

section \<open>Allocation of descriptors\<close>

lemma alloc_desc_loop_none: "\<forall>i \<in> set is. \<not> vfree (vd s) ! i \<Longrightarrow> alloc_desc_loop is s = Ret (-1) s"
  by (induction "is") simp_all

lemma alloc_desc_loop_some:
  "\<exists>i \<in> set is. vfree (vd s) ! i \<Longrightarrow> \<exists>i \<in> set is. vfree (vd s) ! i \<and>
     alloc_desc_loop is s = Ret (int i) (s\<lparr>vd := (vd s)\<lparr>vfree := (vfree (vd s))[i := False]\<rparr>\<rparr>)"
proof (induction "is")
  case (Cons j "is")
  show ?case
  proof (cases "vfree (vd s) ! j")
    case True
    then show ?thesis by (intro bexI [of _ j]) (simp_all add: kbind_def on_vd_def)
  next
    case False
    then obtain i where "i \<in> set is" "vfree (vd s) ! i"
      "alloc_desc_loop is s = Ret (int i) (s\<lparr>vd := (vd s)\<lparr>vfree := (vfree (vd s))[i := False]\<rparr>\<rparr>)"
      using Cons by auto
    with False show ?thesis by (intro bexI [of _ i]) simp_all
  qed
qed simp

definition free_count :: "bool list \<Rightarrow> nat" where
  "free_count fs = length (filter id fs)"

lemma free_count_0: "free_count fs = 0 \<longleftrightarrow> (\<forall>i < length fs. \<not> fs ! i)"
  by (auto simp: free_count_def filter_empty_conv all_set_conv_all_nth)

lemma free_count_take:
  assumes "i < length fs" and "fs ! i"
  shows "free_count fs = Suc (free_count (fs[i := False]))"
proof -
  have a: "fs = take i fs @ True # drop (Suc i) fs" using assms by (metis id_take_nth_drop)
  have b: "fs[i := False] = take i fs @ False # drop (Suc i) fs" using assms by (simp add: upd_conv_take_nth_drop)
  have "free_count fs = free_count (take i fs @ True # drop (Suc i) fs)" using a by simp
  also have "\<dots> = Suc (free_count (fs[i := False]))" unfolding b by (simp add: free_count_def)
  finally show ?thesis .
qed

text \<open>Setting the flags of several descriptors.\<close>

definition mark :: "bool \<Rightarrow> nat list \<Rightarrow> bool list \<Rightarrow> bool list" where
  "mark b js fs = fold (\<lambda>i fs. fs[i := b]) js fs"

lemma length_mark [simp]: "length (mark b js fs) = length fs"
  by (induction js arbitrary: fs) (simp_all add: mark_def)

lemma nth_mark: "k < length fs \<Longrightarrow> mark b js fs ! k = (if k \<in> set js then b else fs ! k)"
proof (induction js arbitrary: fs)
  case (Cons j js)
  then show ?case using Cons.IH [of "fs[j := b]"] by (auto simp: mark_def nth_list_update)
qed (simp add: mark_def)

lemma mark_simps [simp]: "mark b [] fs = fs" "mark b (i # js) fs = mark b js (fs[i := b])"
  "mark b (js @ is) fs = mark b is (mark b js fs)"
  by (simp_all add: mark_def)

lemma alloc_desc_spec:
  assumes "length (vfree (vd s)) = NUM"
  shows "if free_count (vfree (vd s)) = 0 then alloc_desc s = Ret (-1) s
    else \<exists>i < NUM. vfree (vd s) ! i \<and>
      alloc_desc s = Ret (int i) (s\<lparr>vd := (vd s)\<lparr>vfree := (vfree (vd s))[i := False]\<rparr>\<rparr>)"
proof (cases "free_count (vfree (vd s)) = 0")
  case True
  then show ?thesis using alloc_desc_loop_none [of "[0..<NUM]" s] assms by (simp add: alloc_desc_def free_count_0)
next
  case False
  then have "\<exists>i \<in> set [0..<NUM]. vfree (vd s) ! i" using assms by (auto simp: free_count_0)
  from alloc_desc_loop_some [OF this] False show ?thesis by (auto simp: alloc_desc_def)
qed

text \<open>Descriptors taken so far, and giving them back.\<close>

lemma free_idx_ok:
  assumes c: "calm p s" and t: "hart t = hart s" "cpus t = cpus (inside DiskLk s)" "locks t = locks (inside DiskLk s)"
      "procs t = procs s" "length (vfree (vd t)) = NUM"
    and i: "distinct is" "\<And>i. i \<in> set is \<Longrightarrow> i < NUM \<and> \<not> vfree (vd t) ! i"
  shows "\<exists>ds. free_idx (map int is) t = Ret () (t\<lparr>vd := (vd t)\<lparr>desc := ds,
    vfree := mark True is (vfree (vd t))\<rparr>\<rparr>)"
  using t i
proof (induction "is" arbitrary: t)
  case Nil
  then show ?case by (intro exI [of _ "desc (vd t)"]) simp
next
  case (Cons i "is")
  let ?u = "t\<lparr>vd := (vd t)\<lparr>desc := (desc (vd t))[i := no_desc], vfree := (vfree (vd t))[i := True]\<rparr>\<rparr>"
  have f: "free_desc (int i) t = Ret () ?u" by (rule free_desc_ok [OF c Cons.prems(1-4)]) (use Cons.prems in auto)
  have d: "i \<notin> set is" "distinct is" using Cons.prems(6) by simp_all
  have fr: "j < NUM \<and> \<not> vfree (vd ?u) ! j" if "j \<in> set is" for j
    using Cons.prems(7) [of j] that d by (cases "i = j") simp_all
  obtain ds where "free_idx (map int is) ?u = Ret () (?u\<lparr>vd := (vd ?u)\<lparr>desc := ds,
      vfree := mark True is (vfree (vd ?u))\<rparr>\<rparr>)"
    using Cons.IH [of ?u] Cons.prems(1-5) d fr by auto
  then show ?case using f by (intro exI [of _ ds]) (simp add: kbind_def)
qed

lemma alloc3_loop_spec:
  assumes c: "calm p s" and t: "hart t = hart s" "cpus t = cpus (inside DiskLk s)" "locks t = locks (inside DiskLk s)"
      "procs t = procs s" "length fs = NUM"
    and i: "distinct is" "\<And>i. i \<in> set is \<Longrightarrow> i < NUM \<and> fs ! i" "vfree (vd t) = mark False is fs"
  shows "if free_count (vfree (vd t)) < n
    then \<exists>ds. alloc3_loop n (map int is) t = Ret None (t\<lparr>vd := (vd t)\<lparr>desc := ds, vfree := fs\<rparr>\<rparr>)
    else \<exists>js. length js = n \<and> distinct (is @ js) \<and> (\<forall>j \<in> set js. j < NUM \<and> fs ! j) \<and>
      alloc3_loop n (map int is) t = Ret (Some (map int (is @ js)))
        (t\<lparr>vd := (vd t)\<lparr>vfree := mark False (is @ js) fs\<rparr>\<rparr>)"
  using t i
proof (induction n arbitrary: t "is")
  case 0
  then show ?case by simp
next
  case (Suc n)
  have len: "length (vfree (vd t)) = NUM" using Suc.prems(5,8) by simp
  have nth: "mark False js fs ! k = (k \<notin> set js \<and> fs ! k)" if "k < NUM" for js k
    using that Suc.prems(5) by (simp add: nth_mark)
  show ?case
  proof (cases "free_count (vfree (vd t)) = 0")
    case True
    have al: "alloc_desc t = Ret (-1) t" using alloc_desc_spec [OF len] True by simp
    have "\<exists>ds. free_idx (map int is) t = Ret () (t\<lparr>vd := (vd t)\<lparr>desc := ds,
        vfree := mark True is (vfree (vd t))\<rparr>\<rparr>)"
      by (rule free_idx_ok [OF c Suc.prems(1-4) len Suc.prems(6)]) (use Suc.prems(7,8) nth in auto)
    moreover have "mark True is (vfree (vd t)) = fs"
    proof (rule nth_equalityI)
      fix k assume "k < length (mark True is (vfree (vd t)))"
      then have k: "k < NUM" "k < length (vfree (vd t))" using len by simp_all
      show "mark True is (vfree (vd t)) ! k = fs ! k"
        using nth_mark [OF k(2), of True "is"] nth [OF k(1), of "is"] Suc.prems(7,8) by auto
    qed (use len Suc.prems(5) in simp)
    ultimately show ?thesis using True al by (auto simp: kbind_def)
  next
    case False
    then obtain i where i: "i < NUM" "vfree (vd t) ! i"
      "alloc_desc t = Ret (int i) (t\<lparr>vd := (vd t)\<lparr>vfree := (vfree (vd t))[i := False]\<rparr>\<rparr>)"
      using alloc_desc_spec [OF len] by auto
    let ?u = "t\<lparr>vd := (vd t)\<lparr>vfree := (vfree (vd t))[i := False]\<rparr>\<rparr>"
    have new: "i \<notin> set is" "fs ! i" using nth [OF i(1), of "is"] i(2) Suc.prems(8) by auto
    have fc: "free_count (vfree (vd t)) = Suc (free_count (vfree (vd ?u)))"
      using free_count_take [of i "vfree (vd t)"] i len by simp
    have run: "alloc3_loop (Suc n) (map int is) t = alloc3_loop n (map int (is @ [i])) ?u"
      using i(3) by (simp add: kbind_def)
    have "if free_count (vfree (vd ?u)) < n
      then \<exists>ds. alloc3_loop n (map int (is @ [i])) ?u = Ret None (?u\<lparr>vd := (vd ?u)\<lparr>desc := ds, vfree := fs\<rparr>\<rparr>)
      else \<exists>js. length js = n \<and> distinct ((is @ [i]) @ js) \<and> (\<forall>j \<in> set js. j < NUM \<and> fs ! j) \<and>
        alloc3_loop n (map int (is @ [i])) ?u = Ret (Some (map int ((is @ [i]) @ js)))
          (?u\<lparr>vd := (vd ?u)\<lparr>vfree := mark False ((is @ [i]) @ js) fs\<rparr>\<rparr>)"
      by (rule Suc.IH) (use Suc.prems new i in auto)
    then show ?thesis
    proof (cases "free_count (vfree (vd ?u)) < n")
      case True
      then show ?thesis using \<open>if _ then _ else _\<close> fc run by auto
    next
      case F: False
      then obtain js where "length js = n" "distinct ((is @ [i]) @ js)" "\<forall>j \<in> set js. j < NUM \<and> fs ! j"
        "alloc3_loop n (map int (is @ [i])) ?u = Ret (Some (map int ((is @ [i]) @ js)))
          (?u\<lparr>vd := (vd ?u)\<lparr>vfree := mark False ((is @ [i]) @ js) fs\<rparr>\<rparr>)"
        using \<open>if _ then _ else _\<close> by auto
      then have ex: "length (i # js) = Suc n \<and> distinct (is @ i # js) \<and> (\<forall>j \<in> set (i # js). j < NUM \<and> fs ! j) \<and>
        alloc3_loop (Suc n) (map int is) t = Ret (Some (map int (is @ i # js)))
          (t\<lparr>vd := (vd t)\<lparr>vfree := mark False (is @ i # js) fs\<rparr>\<rparr>)"
        using run new i(1) by simp
      have "\<not> free_count (vfree (vd t)) < Suc n" using F fc by simp
      then show ?thesis by (simp only: if_False) (rule exI [of _ "i # js"], rule ex)
    qed
  qed
qed

lemma virt_disk_rw_short:
  assumes c: "calm p s" and "length (vfree (vd s)) = NUM" and "free_count (vfree (vd s)) < 3"
  shows "virt_disk_rw_start b write s = Spin"
proof -
  let ?a = "inside DiskLk s"
  have "if free_count (vfree (vd ?a)) < 3
    then \<exists>ds. alloc3_loop 3 (map int []) ?a = Ret None (?a\<lparr>vd := (vd ?a)\<lparr>desc := ds, vfree := vfree (vd s)\<rparr>\<rparr>)
    else \<exists>js. length js = 3 \<and> distinct ([] @ js) \<and> (\<forall>j \<in> set js. j < NUM \<and> vfree (vd s) ! j) \<and>
      alloc3_loop 3 (map int []) ?a = Ret (Some (map int ([] @ js)))
        (?a\<lparr>vd := (vd ?a)\<lparr>vfree := mark False ([] @ js) (vfree (vd s))\<rparr>\<rparr>)"
    by (rule alloc3_loop_spec [OF c]) (use assms in simp_all)
  then obtain t where "alloc3_desc ?a = Ret None t" using assms(3) by (auto simp: alloc3_desc_def)
  then show ?thesis by (simp add: virt_disk_rw_start_def kbind_def calm_acquire [OF c])
qed

lemma wr_rd_sectors:
  assumes "length bs = 512 * n" and "n \<le> 512"
  shows "rd_sectors (wr_sectors sec a n bs) a n = bs"
proof -
  have eq: "map (\<lambda>i. wr_sectors sec a n bs (a + of_nat i)) [0..<n] = map (\<lambda>i. take 512 (drop (512 * i) bs)) [0..<n]"
    using assms(2) by (intro map_cong refl) (simp add: wr_sectors_def unat_of_nat)
  have "concat (map (\<lambda>i. take 512 (drop (512 * i) bs)) [0..<m]) = take (512 * m) bs" for m
  proof (induction m)
    case (Suc m)
    have "512 * Suc m = 512 * m + 512" by simp
    then show ?case using Suc by (simp only: take_add) simp
  qed simp
  then show ?thesis using assms(1) unfolding rd_sectors_def eq by simp
qed

lemma unat_sector: "unat n < 2147483648 \<Longrightarrow> unat (sector_of n) = 2 * unat n"
  by (simp add: sector_of_def unat_ucast_32_64 unat_word_ariths)

lemma other_block:
  assumes "unat n < 2147483648" "unat m < 2147483648" "n \<noteq> m"
  shows "disk_block (wr_sectors sec (sector_of n) 2 bs) m = disk_block sec m"
proof -
  have ne: "unat n \<noteq> unat m" using assms(3) by (simp add: word_unat_eq_iff)
  have "\<not> unat (sector_of m + of_nat i - sector_of n) < 2" if "i < 2" for i
  proof
    define d where "d = sector_of m + of_nat i - sector_of n"
    assume "unat (sector_of m + of_nat i - sector_of n) < 2"
    then have d: "unat d < 2" by (simp add: d_def)
    have "sector_of m + of_nat i = sector_of n + d" by (simp add: d_def)
    moreover have "unat (sector_of m + of_nat i) = 2 * unat m + i"
      using that assms(2) unat_sector [of m] by (simp add: unat_word_ariths unat_of_nat)
    moreover have "unat (sector_of n + d) = 2 * unat n + unat d"
      using assms(1) unat_sector [of n] d by (simp add: unat_word_ariths)
    ultimately have "2 * unat m + i = 2 * unat n + unat d" by simp
    then show False using that d ne by presburger
  qed
  then have "map (\<lambda>i. wr_sectors sec (sector_of n) 2 bs (sector_of m + of_nat i)) [0..<2] =
      map (\<lambda>i. sec (sector_of m + of_nat i)) [0..<2]"
    by (intro map_cong refl) (simp add: wr_sectors_def)
  then show ?thesis by (simp only: disk_block_def rd_sectors_def)
qed

section \<open>Properties\<close>

definition blank_buf :: buf where
  "blank_buf = \<lparr>b_vaild = 0, b_disk = 0, b_dev = 0, b_blockno = 0, b_sk = \<lparr>sl_locked = 0, sl_name = '''', sl_pid = 0\<rparr>,
     b_refcnt = 0, b_prev = 0, b_next = 0, b_data = replicate BSIZE 0\<rparr>"

definition idle_vd :: vdisk where
  "idle_vd = \<lparr>vfree = replicate NUM True, desc = replicate NUM no_desc, av_index = 0, av_ring = replicate NUM 0,
     us_idx = 0, us_ring = replicate NUM (0, 0), info_b = replicate NUM None, info_status = replicate NUM 0,
     used_idx = 0, ops = replicate NUM \<lparr>rq_type = 0, rq_reserved = 0, rq_sector = 0\<rparr>\<rparr>"

text \<open>A machine with process 0 running and a disk whose sector \<open>n\<close> is filled with the byte \<open>n\<close>.\<close>

definition run_disk :: disk_st where
  "run_disk = tty_st.extend (run_tty\<lparr>procs := (procs run_tty)[0 := unused_proc\<lparr>pstate := RUNNING, pid := 1\<rparr>]\<rparr>)
     \<lparr>vd = idle_vd, vregs = [], sectors = (\<lambda>n. replicate 512 (ucast n)), dev_seen = 0, bufs = replicate 17 blank_buf\<rparr>"

lemma run_disk_sel:
  "hart run_disk = 0" "cpus run_disk = cpus run_tty" "locks run_disk = locks run_tty"
  "procs run_disk = (procs run_tty)[0 := unused_proc\<lparr>pstate := RUNNING, pid := 1\<rparr>]"
  "vd run_disk = idle_vd" "dev_seen run_disk = 0" "bufs run_disk = replicate 17 blank_buf"
  "sectors run_disk = (\<lambda>n. replicate 512 (ucast n))"
  by (simp_all add: run_disk_def tty_st.defs run_tty_def boot_tty_def proc_st.defs boot_pm_def boot_state_def)

lemma run_tty_procs: "procs run_tty = replicate 64 unused_proc" "hart run_tty = 0"
  by (simp_all add: run_tty_def boot_tty_def proc_st.defs boot_pm_def boot_state_def)

lemma run_disk_calm: "calm 0 run_disk"
proof -
  have "cpu_ok (hart run_tty) (cpus run_tty)" "cur run_tty = Some 0" using run_tty_facts by (simp_all add: wakers_ok_def)
  then show ?thesis
    using run_tty_facts(2)
    by (auto simp: calm_def run_disk_sel run_tty_procs cur_def NPROC_def unused_proc_def nth_list_update)
qed

lemma run_disk_idle: "driver_idle run_disk"
  by (simp add: driver_idle_def run_disk_sel idle_vd_def)

text \<open>(C6) The driver implements a synchronous block device. From a calm state with the driver idle
  \<open>virt_disk_rw\<close> returns (through \<open>sleep\<close>, the device, the interrupt handler and the scheduler); a read
  leaves the block of the disk in the buffer and the disk as it was, a write leaves the buffer's bytes in
  the block and every other block as it was; no other buffer changes, the descriptors are all free again.\<close>

theorem virt_disk_rw_block_device:
  assumes "calm p s" and "driver_idle s" and "b < length (bufs s)"
    and "length (b_data (bufs s ! b)) = BSIZE" and "unat (b_blockno (bufs s ! b)) < 2147483648"
  shows "\<exists>t. virt_disk_rw b write s = Ret () t \<and> calm p t \<and> driver_idle t \<and> mem t = mem s \<and>
    (if write
     then disk_block (sectors t) (b_blockno (bufs s ! b)) = b_data (bufs s ! b) \<and>
       (\<forall>m. unat m < 2147483648 \<longrightarrow> m \<noteq> b_blockno (bufs s ! b) \<longrightarrow> disk_block (sectors t) m = disk_block (sectors s) m) \<and>
       bufs t = (bufs s)[b := (bufs s ! b)\<lparr>b_disk := 0\<rparr>]
     else sectors t = sectors s \<and> bufs t = (bufs s)[b := (bufs s ! b)\<lparr>b_disk := 0,
       b_data := disk_block (sectors s) (b_blockno (bufs s ! b))\<rparr>])"
proof -
  obtain v rg n where r: "virt_disk_rw b write s = Ret () (driver_part v rg n (transfer b write s))"
    "driver_idle (driver_part v rg n (transfer b write s))"
    using virt_disk_rw_ok [OF assms(1-3)] .
  let ?t = "driver_part v rg n (transfer b write s)"
  have c: "calm p ?t" by (rule calm_frame [OF assms(1)]) (simp_all add: driver_part_def transfer_def Let_def)
  have wr: "disk_block (wr_sectors (sectors s) (sector_of (b_blockno (bufs s ! b))) 2 (b_data (bufs s ! b)))
      (b_blockno (bufs s ! b)) = b_data (bufs s ! b)"
    unfolding disk_block_def using assms(4) by (intro wr_rd_sectors) (simp_all add: BSIZE_def)
  show ?thesis
    using r c wr other_block [OF assms(5)]
    by (intro exI [of _ ?t]) (simp add: driver_part_def transfer_def Let_def)
qed

theorem virt_disk_rw_block_device_witness:
  "\<exists>t. virt_disk_rw 3 False run_disk = Ret () t \<and> driver_idle t \<and>
    b_data (bufs t ! 3) = replicate 512 0 @ replicate 512 1"
proof -
  have f: "(3 :: nat) < length (bufs run_disk)" "length (b_data (bufs run_disk ! 3)) = BSIZE"
    "unat (b_blockno (bufs run_disk ! 3)) < 2147483648" "b_blockno (bufs run_disk ! 3) = 0"
    by (simp_all add: run_disk_sel blank_buf_def)
  have d: "disk_block (sectors run_disk) 0 = replicate 512 0 @ replicate 512 1"
    by (simp add: disk_block_def rd_sectors_def run_disk_sel sector_of_def upt_rec [of 0 2] upt_rec [of "Suc 0" 2])
  obtain t where "virt_disk_rw 3 False run_disk = Ret () t" "driver_idle t"
    "bufs t = (bufs run_disk)[3 := (bufs run_disk ! 3)\<lparr>b_disk := 0,
       b_data := disk_block (sectors run_disk) (b_blockno (bufs run_disk ! 3))\<rparr>]"
    using virt_disk_rw_block_device [OF run_disk_calm run_disk_idle f(1-3), of False] by auto
  then show ?thesis using f(1,4) d by (intro exI [of _ t]) simp
qed


definition busy_disk :: disk_st where
  "busy_disk = run_disk\<lparr>vd := idle_vd\<lparr>vfree := [False, False, False, False, False, False, True, True]\<rparr>\<rparr>"


end
