(* ===== verification/Links.thy ===== *)
theory Links
  imports Prelude
begin

text \<open>
  Circular doubly linked lists with an anchor, as the buffer cache keeps its buffers: \<open>N\<close> and \<open>P\<close> are the
  \<open>next\<close> and \<open>prev\<close> fields as functions of the node, and \<open>ring H N P xs\<close> says that they link the anchor \<open>H\<close>
  and the nodes \<open>xs\<close>, in this order, into a ring.
\<close>

fun path :: "('a \<Rightarrow> 'a) \<Rightarrow> ('a \<Rightarrow> 'a) \<Rightarrow> 'a \<Rightarrow> 'a list \<Rightarrow> 'a \<Rightarrow> bool" where
  "path N P a [] z \<longleftrightarrow> N a = z \<and> P z = a"
| "path N P a (x # xs) z \<longleftrightarrow> N a = x \<and> P x = a \<and> path N P x xs z"

definition ring :: "'a \<Rightarrow> ('a \<Rightarrow> 'a) \<Rightarrow> ('a \<Rightarrow> 'a) \<Rightarrow> 'a list \<Rightarrow> bool" where
  "ring H N P xs \<longleftrightarrow> path N P H xs H \<and> distinct (H # xs)"

lemma path_append: "path N P a (xs @ y # ys) z \<longleftrightarrow> path N P a xs y \<and> path N P y ys z"
  by (induction xs arbitrary: a) auto

lemma path_cong:
  assumes "\<And>x. x \<in> set (a # xs) \<Longrightarrow> N x = N' x" and "\<And>x. x \<in> set (xs @ [z]) \<Longrightarrow> P x = P' x"
  shows "path N P a xs z = path N' P' a xs z"
  using assms by (induction xs arbitrary: a) auto

text \<open>The last link of a path, and the first one.\<close>

lemma path_last: "path N P a xs z \<Longrightarrow> P z = last (a # xs) \<and> N (last (a # xs)) = z"
  by (induction xs arbitrary: a) auto

lemma path_first: "path N P a xs z \<Longrightarrow> N a = hd (xs @ [z]) \<and> P (hd (xs @ [z])) = a"
  by (cases xs) auto

text \<open>Redirecting the end of a path.\<close>

lemma path_end:
  assumes "path N P a xs z" and "distinct (a # xs)" and "z' \<notin> set xs"
  shows "path (N(last (a # xs) := z')) (P(z' := last (a # xs))) a xs z'"
  using assms
proof (induction xs arbitrary: a)
  case (Cons x xs)
  have IH: "path (N(last (x # xs) := z')) (P(z' := last (x # xs))) x xs z'"
    by (rule Cons.IH) (use Cons.prems in simp_all)
  have ne: "last (x # xs) \<noteq> a" using Cons.prems(2) last_in_set [of "x # xs"] by auto
  have l: "last (a # x # xs) = last (x # xs)" by simp
  show ?case unfolding l path.simps using Cons.prems ne by (intro conjI IH) auto
qed simp

text \<open>Taking a node out.\<close>

lemma ring_unlink:
  assumes "ring H N P (ys @ b # zs)"
  shows "ring H (N(P b := N b)) (P(N b := P b)) (ys @ zs)"
proof -
  have p: "path N P H ys b" "path N P b zs H" and d: "distinct (H # ys @ b # zs)"
    using assms by (simp_all add: ring_def path_append)
  have u: "P b = last (H # ys)" and v: "N b = hd (zs @ [H])"
    using path_last [OF p(1)] path_first [OF p(2)] by simp_all
  have vy: "N b \<notin> set ys" unfolding v using d by (cases zs) auto
  have left: "path (N(P b := N b)) (P(N b := P b)) H ys (N b)"
    unfolding u by (rule path_end [OF p(1)]) (use d vy in auto)
  have "path (N(P b := N b)) (P(N b := P b)) H (ys @ zs) H"
  proof (cases zs)
    case Nil
    then show ?thesis using left v by simp
  next
    case (Cons x xs)
    have "last (H # ys) \<in> set (H # ys)" by (rule last_in_set) simp
    then have ub: "P b \<notin> set zs" unfolding u using d by auto
    have "path N P x xs H" using p(2) Cons by simp
    moreover have "N b = x" using v Cons by simp
    ultimately have "path (N(P b := N b)) (P(N b := P b)) x xs H"
      using ub d Cons by (subst path_cong [of x xs "N(P b := N b)" N _ _ P]) auto
    then show ?thesis using left Cons \<open>N b = x\<close> by (simp add: path_append)
  qed
  then show ?thesis using d by (simp add: ring_def)
qed

text \<open>Putting a node in front.\<close>

lemma links_push:
  assumes "ring H N P xs" and "b \<notin> set (H # xs)"
  shows "ring H (N(b := N H, H := b)) (P(b := H, N H := b)) (b # xs)"
proof (cases xs)
  case Nil
  then show ?thesis using assms by (auto simp: ring_def)
next
  case (Cons x ys)
  have p: "N H = x" "path N P x ys H" "distinct (H # x # ys)" using assms(1) Cons by (auto simp: ring_def)
  have "path (N(b := N H, H := b)) (P(b := H, N H := b)) x ys H"
    using p assms(2) Cons by (subst path_cong [of x ys _ N _ _ P]) auto
  then show ?thesis using p assms(2) Cons by (auto simp: ring_def)
qed

lemma ring_front:
  assumes "ring H N P (ys @ b # zs)" and "N' = N(P b := N b)" and "P' = P(N b := P b)"
  shows "ring H (N'(b := N' H, H := b)) (P'(b := H, N' H := b)) (b # ys @ zs)"
  using links_push [OF ring_unlink [OF assms(1)], of b] assms by (auto simp: ring_def)

text \<open>Walking the ring.\<close>

lemma ring_next:
  assumes "ring H N P (ys @ b # zs)"
  shows "N b = hd (zs @ [H])" and "P b = last (H # ys)"
  using assms path_last [of N P H ys b] path_first [of N P b zs H] by (simp_all add: ring_def path_append)

lemma ring_head: "ring H N P xs \<Longrightarrow> N H = hd (xs @ [H]) \<and> P H = last (H # xs)"
  using path_first [of N P H xs H] path_last [of N P H xs H] by (simp add: ring_def)

lemma ring_cong:
  assumes "\<And>x. x \<in> set (H # xs) \<Longrightarrow> N x = N' x" and "\<And>x. x \<in> set (H # xs) \<Longrightarrow> P x = P' x"
  shows "ring H N P xs = ring H N' P' xs"
  using assms path_cong [of H xs N N' H P P'] by (auto simp: ring_def)

end
