(* ===== verification/Bcache.thy ===== *)
theory Bcache
  imports Virtio Links
begin

text \<open>
  The buffer cache, the first third of \<^verbatim>\<open>kernel/fs.c\<close>: \<open>init_bcache\<close>, \<open>bget\<close>, \<open>bread\<close>, \<open>brelease\<close>,
  \<open>bwrite\<close>, and \<open>readsb\<close>, \<open>initfs\<close>. A \<open>struct buf *\<close> is an index: 0 to 15 into \<open>bcache.bufs\<close>, and 16 is
  \<open>&bcache.head\<close>, the anchor of the doubly linked list in order of use. The links are kept as the code keeps
  them, in the fields \<open>b_next\<close> and \<open>b_prev\<close>; \<open>lru\<close> is the list they form. A walk along the list that
  takes more steps than there are buffers goes round a broken list for ever.
\<close>

section \<open>State\<close>

definition NBUF :: nat where "NBUF = 16"
definition HEAD :: nat where "HEAD = 16"
definition NDIRECT :: nat where "NDIRECT = 12"
definition FSMAGIC :: u32 where "FSMAGIC = 0x10203040"

record superblock =
  magic :: u32
  sb_size :: u32
  nblocks :: u32
  ninodes :: u32
  nlog :: u32
  logstart :: u32
  inodestart :: u32
  bmapstart :: u32
  dataStart :: u32

record inode =
  i_dev :: u32
  i_inum :: u32
  i_ref :: int
  i_splock :: sleeplock
  i_vaild :: int
  i_type :: u16
  i_major :: u16
  i_minor :: u16
  i_nlink :: u16
  i_size :: u32
  i_addrs :: "u32 list"

record fs_st = disk_st +
  sb :: superblock
  inodes :: "inode list"

definition bget_field :: "nat \<Rightarrow> (buf \<Rightarrow> 'a) \<Rightarrow> ('a, 'z disk_st_scheme) kop" where
  "bget_field b f = kget (\<lambda>s. f (bufs s ! b))"

text \<open>The sleep lock inside buffer \<open>i\<close>.\<close>

definition buf_sk :: "nat \<Rightarrow> ('z disk_st_scheme) slref" where
  "buf_sk i = \<lparr>sl_spin = BufLk i, sl_chan = BufCh i, sl_get = (\<lambda>s. b_sk (bufs s ! i)),
     sl_upd = (\<lambda>f s. s\<lparr>bufs := (bufs s)[i := (bufs s ! i)\<lparr>b_sk := f (b_sk (bufs s ! i))\<rparr>]\<rparr>)\<rparr>"

section \<open>Routines\<close>

fun init_bcache_loop :: "nat list \<Rightarrow> (unit, 'z disk_st_scheme) kop" where
  "init_bcache_loop [] = kret ()"
| "init_bcache_loop (b # bs) =
     kbind (bget_field HEAD b_next) (\<lambda>n.
     kthen (on_buf b (\<lambda>k. k\<lparr>b_next := n\<rparr>)) (
     kthen (on_buf b (\<lambda>k. k\<lparr>b_prev := HEAD\<rparr>)) (
     kthen (sleep_initlock (buf_sk b) ''buffer'') (
     kthen (on_buf n (\<lambda>k. k\<lparr>b_prev := b\<rparr>)) (
     kthen (on_buf HEAD (\<lambda>k. k\<lparr>b_next := b\<rparr>)) (
     init_bcache_loop bs))))))"

definition init_bcache :: "(unit, 'z disk_st_scheme) kop" where
  "init_bcache =
     kthen (initlock BcacheLk ''bcache'') (
     kthen (on_buf HEAD (\<lambda>k. k\<lparr>b_prev := HEAD\<rparr>)) (
     kthen (on_buf HEAD (\<lambda>k. k\<lparr>b_next := HEAD\<rparr>)) (
     init_bcache_loop [0..<NBUF])))"

text \<open>The two loops of \<open>bget\<close>: forwards for the block, backwards for an unused buffer.\<close>

fun find_block :: "nat \<Rightarrow> u32 \<Rightarrow> u32 \<Rightarrow> nat \<Rightarrow> (nat option, 'z disk_st_scheme) kop" where
  "find_block 0 dev blockno r = (\<lambda>s. Spin)"
| "find_block (Suc n) dev blockno r =
     (if r = HEAD then kret None
      else kbind (kget (\<lambda>s. bufs s ! r)) (\<lambda>k.
        if b_dev k = dev \<and> b_blockno k = blockno then kret (Some r)
        else find_block n dev blockno (b_next k)))"

fun find_unused :: "nat \<Rightarrow> nat \<Rightarrow> (nat option, 'z disk_st_scheme) kop" where
  "find_unused 0 r = (\<lambda>s. Spin)"
| "find_unused (Suc n) r =
     (if r = HEAD then kret None
      else kbind (kget (\<lambda>s. bufs s ! r)) (\<lambda>k.
        if b_refcnt k = 0 then kret (Some r) else find_unused n (b_prev k)))"

definition bget :: "u32 \<Rightarrow> u32 \<Rightarrow> (nat, 'z disk_st_scheme) kop" where
  "bget dev blockno =
     kthen (acquire BcacheLk) (
     kbind (bget_field HEAD b_next) (\<lambda>first.
     kbind (find_block (Suc NBUF) dev blockno first) (\<lambda>hit.
     case hit of Some r \<Rightarrow>
         kthen (on_buf r (\<lambda>k. k\<lparr>b_refcnt := b_refcnt k + 1\<rparr>)) (
         kthen (release BcacheLk) (
         kthen (sleep_lock (buf_sk r)) (kret r)))
     | None \<Rightarrow>
         kbind (bget_field HEAD b_prev) (\<lambda>last'.
         kbind (find_unused (Suc NBUF) last') (\<lambda>free.
         case free of Some r \<Rightarrow>
             kthen (on_buf r (\<lambda>k. k\<lparr>b_refcnt := 1, b_vaild := 0, b_dev := dev, b_blockno := blockno\<rparr>)) (
             kthen (release BcacheLk) (
             kthen (sleep_lock (buf_sk r)) (kret r)))
         | None \<Rightarrow> kthen (release BcacheLk) (kpanic ''bget panic..''))))))"

definition bread :: "u32 \<Rightarrow> u32 \<Rightarrow> (nat, 'z disk_st_scheme) kop" where
  "bread dev blockno =
     kbind (bget dev blockno) (\<lambda>r.
     kbind (bget_field r b_vaild) (\<lambda>v.
     kthen (kwhen (v = 0) (kthen (virt_disk_rw r False) (on_buf r (\<lambda>k. k\<lparr>b_vaild := 1\<rparr>)))) (
     kret r)))"

text \<open>Moving a buffer to the front of the list: the six stores of \<open>brelease\<close>.\<close>

definition move_front :: "nat \<Rightarrow> (unit, 'z disk_st_scheme) kop" where
  "move_front b =
     kbind (bget_field b b_next) (\<lambda>n.
     kbind (bget_field b b_prev) (\<lambda>p.
     kthen (on_buf n (\<lambda>k. k\<lparr>b_prev := p\<rparr>)) (
     kthen (on_buf p (\<lambda>k. k\<lparr>b_next := n\<rparr>)) (
     kbind (bget_field HEAD b_next) (\<lambda>h.
     kthen (on_buf b (\<lambda>k. k\<lparr>b_next := h\<rparr>)) (
     kthen (on_buf b (\<lambda>k. k\<lparr>b_prev := HEAD\<rparr>)) (
     kthen (on_buf h (\<lambda>k. k\<lparr>b_prev := b\<rparr>)) (
     on_buf HEAD (\<lambda>k. k\<lparr>b_next := b\<rparr>)))))))))"

definition brelease :: "nat \<Rightarrow> (unit, 'z disk_st_scheme) kop" where
  "brelease b =
     kbind (holdingsleep (buf_sk b)) (\<lambda>h.
     if \<not> h then kpanic ''brelease holdingsleep panic''
     else
       kthen (sleep_unlock (buf_sk b)) (
       kthen (acquire BcacheLk) (
       kthen (on_buf b (\<lambda>k. k\<lparr>b_refcnt := b_refcnt k - 1\<rparr>)) (
       kbind (bget_field b b_refcnt) (\<lambda>n.
       kthen (kwhen (n = 0) (move_front b)) (
       release BcacheLk))))))"

definition bwrite :: "nat \<Rightarrow> (unit, 'z disk_st_scheme) kop" where
  "bwrite b =
     kbind (holdingsleep (buf_sk b)) (\<lambda>h.
     if \<not> h then kpanic ''bwrite'' else virt_disk_rw b True)"

text \<open>The superblock is nine little-endian words at the start of block 1.\<close>

definition rd32 :: "u8 list \<Rightarrow> nat \<Rightarrow> u32" where
  "rd32 d i = ucast (d ! i) OR push_bit 8 (ucast (d ! (i + 1))) OR push_bit 16 (ucast (d ! (i + 2)))
     OR push_bit 24 (ucast (d ! (i + 3)))"

definition dec_superblock :: "u8 list \<Rightarrow> superblock" where
  "dec_superblock d = \<lparr>magic = rd32 d 0, sb_size = rd32 d 4, nblocks = rd32 d 8, ninodes = rd32 d 12,
     nlog = rd32 d 16, logstart = rd32 d 20, inodestart = rd32 d 24, bmapstart = rd32 d 28, dataStart = rd32 d 32\<rparr>"

definition readsb :: "u32 \<Rightarrow> (unit, 'z fs_st_scheme) kop" where
  "readsb dev =
     kbind (bread dev 1) (\<lambda>f.
     kbind (bget_field f b_data) (\<lambda>d.
     kthen (kmod (\<lambda>s. s\<lparr>sb := dec_superblock d\<rparr>)) (brelease f)))"

definition initfs :: "u32 \<Rightarrow> (unit, 'z fs_st_scheme) kop" where
  "initfs dev =
     kthen (readsb dev) (
     kbind (kget (\<lambda>s. magic (sb s))) (\<lambda>m. kwhen (m \<noteq> FSMAGIC) (kpanic ''invalid file system'')))"

section \<open>Sleep locks of buffers\<close>

lemma upd_twice: "xs[i := f (xs ! i), i := g (xs[i := f (xs ! i)] ! i)] = xs[i := g (f (xs ! i))]"
  by (cases "i < length xs") (simp_all add: list_update_beyond not_less)

interpretation bsk: sleep_ref "buf_sk i" "\<lambda>s. i < length (bufs s)" for i
proof
  fix f g :: "sleeplock \<Rightarrow> sleeplock" and s :: "'a disk_st_scheme"
  show "sl_upd (buf_sk i) g (sl_upd (buf_sk i) f s) = sl_upd (buf_sk i) (g \<circ> f) s"
    using upd_twice [of "bufs s" i "\<lambda>k. k\<lparr>b_sk := f (b_sk k)\<rparr>" "\<lambda>k. k\<lparr>b_sk := g (b_sk k)\<rparr>"]
    by (simp add: buf_sk_def comp_def)
qed (simp_all add: buf_sk_def)

text \<open>Buffer \<open>r\<close> is locked by process \<open>p\<close>.\<close>

definition lock_of :: "nat \<Rightarrow> 'z proc_st_scheme \<Rightarrow> sleeplock \<Rightarrow> sleeplock" where
  "lock_of p s k = k\<lparr>sl_locked := 1, sl_pid := pid (procs s ! p)\<rparr>"

lemma buf_lock:
  assumes "calm p s" and "sl_locked (b_sk (bufs s ! r)) = 0"
  shows "sleep_lock (buf_sk r) s =
    Ret () (s\<lparr>bufs := (bufs s)[r := (bufs s ! r)\<lparr>b_sk := lock_of p s (b_sk (bufs s ! r))\<rparr>]\<rparr>)"
  using bsk.sleep_lock_free [OF assms(1), of r] assms(2) by (simp add: buf_sk_def lock_of_def)

lemma buf_unlock:
  assumes "calm p s"
  shows "sleep_unlock (buf_sk r) s =
    Ret () (s\<lparr>bufs := (bufs s)[r := (bufs s ! r)\<lparr>b_sk := (b_sk (bufs s ! r))\<lparr>sl_locked := 0, sl_pid := 0\<rparr>\<rparr>]\<rparr>)"
  using bsk.sleep_unlock_ok [OF assms, of r] by (simp add: buf_sk_def)

lemma buf_holding:
  assumes "calm p s"
  shows "holdingsleep (buf_sk r) s =
    Ret (sl_locked (b_sk (bufs s ! r)) \<noteq> 0 \<and> sl_pid (b_sk (bufs s ! r)) = pid (procs s ! p)) s"
  using bsk.holdingsleep_ok [OF assms, of r] by (simp add: buf_sk_def)

section \<open>The list of buffers\<close>

abbreviation nx :: "buf list \<Rightarrow> nat \<Rightarrow> nat" where "nx bs \<equiv> \<lambda>i. b_next (bs ! i)"
abbreviation pv :: "buf list \<Rightarrow> nat \<Rightarrow> nat" where "pv bs \<equiv> \<lambda>i. b_prev (bs ! i)"

definition lru :: "buf list \<Rightarrow> nat list \<Rightarrow> bool" where
  "lru bs xs \<longleftrightarrow> length bs = Suc NBUF \<and> set xs = {0..<NBUF} \<and> ring HEAD (nx bs) (pv bs) xs"

lemma nx_upd:
  "j < length bs \<Longrightarrow> nx (bs[j := k]) = (nx bs)(j := b_next k)"
  "j < length bs \<Longrightarrow> pv (bs[j := k]) = (pv bs)(j := b_prev k)"
  by (auto simp: fun_eq_iff nth_list_update)

text \<open>What the routines do to everything but the links.\<close>

definition strip :: "buf \<Rightarrow> buf" where
  "strip k = k\<lparr>b_prev := 0, b_next := 0\<rparr>"

lemma strip_links [simp]: "strip (k\<lparr>b_prev := x\<rparr>) = strip k" "strip (k\<lparr>b_next := x\<rparr>) = strip k"
  by (cases k, simp add: strip_def)+

lemma map_strip_upd: "strip k = strip (bs ! j) \<Longrightarrow> map strip (bs[j := k]) = map strip bs"
  by (metis list_update_id map_update)

lemma lru_frame:
  assumes "lru bs xs" and "b_next k = nx bs j" and "b_prev k = pv bs j"
  shows "lru (bs[j := k]) xs"
proof (cases "j < length bs")
  case True
  then have "nx (bs[j := k]) = nx bs" "pv (bs[j := k]) = pv bs"
    using assms(2,3) nx_upd [OF True] by (simp_all add: fun_eq_iff)
  then show ?thesis using assms(1) by (simp add: lru_def)
next
  case False
  then show ?thesis using assms(1) by (simp add: list_update_beyond not_less)
qed

lemma lru_bounds:
  assumes "lru bs xs" and "i \<in> set xs"
  shows "i < NBUF" "i \<noteq> HEAD" "i < length bs"
  using assms by (auto simp: lru_def NBUF_def HEAD_def)

lemma on_buf_apply: "on_buf b f s = Ret () (s\<lparr>bufs := (bufs s)[b := f (bufs s ! b)]\<rparr>)"
  by (simp add: on_buf_def)

lemma bget_field_apply: "bget_field b f s = Ret (f (bufs s ! b)) s"
  by (simp add: bget_field_def)

definition front :: "nat \<Rightarrow> buf list \<Rightarrow> buf list" where
  "front b bs =
     (let n = nx bs b; p = pv bs b; bs1 = bs[n := (bs ! n)\<lparr>b_prev := p\<rparr>]; bs2 = bs1[p := (bs1 ! p)\<lparr>b_next := n\<rparr>];
          h = nx bs2 HEAD; bs3 = bs2[b := (bs2 ! b)\<lparr>b_next := h\<rparr>]; bs4 = bs3[b := (bs3 ! b)\<lparr>b_prev := HEAD\<rparr>];
          bs5 = bs4[h := (bs4 ! h)\<lparr>b_prev := b\<rparr>]
      in bs5[HEAD := (bs5 ! HEAD)\<lparr>b_next := b\<rparr>])"

lemma move_front_run: "move_front b s = Ret () (s\<lparr>bufs := front b (bufs s)\<rparr>)"
  by (simp add: move_front_def kbind_def on_buf_apply bget_field_apply front_def Let_def)

lemma front_lru:
  assumes "lru bs (ys @ b # zs)"
  shows "lru (front b bs) (b # ys @ zs)" and "map strip (front b bs) = map strip bs"
proof -
  let ?N = "nx bs" and ?P = "pv bs"
  have len: "length bs = Suc NBUF" and st: "set (ys @ b # zs) = {0..<NBUF}"
    and rg: "ring HEAD ?N ?P (ys @ b # zs)" using assms by (simp_all add: lru_def)
  have inr: "i < length bs" if "i \<in> set (HEAD # ys @ b # zs)" for i
  proof -
    have "i = HEAD \<or> i \<in> {0..<NBUF}" using that unfolding st [symmetric] by auto
    then show ?thesis by (auto simp: len HEAD_def NBUF_def)
  qed
  have n: "?N b \<in> set (HEAD # ys @ b # zs)" "?P b \<in> set (HEAD # ys @ b # zs)"
    using ring_next [OF rg] last_in_set [of "HEAD # ys"] by (cases zs; auto)+
  have b: "b < length bs" "HEAD < length bs" using inr by auto
  define n where "n = ?N b"
  define p where "p = ?P b"
  have np: "n < length bs" "p < length bs" using inr n by (simp_all add: n_def p_def)
  define bs1 where "bs1 = bs[n := (bs ! n)\<lparr>b_prev := p\<rparr>]"
  define bs2 where "bs2 = bs1[p := (bs1 ! p)\<lparr>b_next := n\<rparr>]"
  have N1: "nx bs1 = ?N" "pv bs1 = ?P(n := p)" and l1: "length bs1 = length bs"
    using np nx_upd [of n bs] by (simp_all add: bs1_def fun_eq_iff)
  have N2: "nx bs2 = ?N(p := n)" "pv bs2 = ?P(n := p)" and l2: "length bs2 = length bs"
    using np nx_upd [of p bs1] N1 l1 by (simp_all add: bs2_def fun_eq_iff)
  define h where "h = nx bs2 HEAD"
  have "ring HEAD (nx bs2) (pv bs2) (ys @ zs)"
    using ring_unlink [OF rg] N2 by (simp add: n_def p_def)
  then have "h = hd ((ys @ zs) @ [HEAD])" using ring_head h_def by fastforce
  then have "h \<in> set (HEAD # ys @ b # zs)" by (cases ys; cases zs) auto
  then have hl: "h < length bs" by (rule inr)
  define bs3 where "bs3 = bs2[b := (bs2 ! b)\<lparr>b_next := h\<rparr>]"
  define bs4 where "bs4 = bs3[b := (bs3 ! b)\<lparr>b_prev := HEAD\<rparr>]"
  define bs5 where "bs5 = bs4[h := (bs4 ! h)\<lparr>b_prev := b\<rparr>]"
  define bs6 where "bs6 = bs5[HEAD := (bs5 ! HEAD)\<lparr>b_next := b\<rparr>]"
  have N3: "nx bs3 = (nx bs2)(b := h)" "pv bs3 = pv bs2" and l3: "length bs3 = length bs"
    using b l2 nx_upd [of b bs2] by (simp_all add: bs3_def fun_eq_iff)
  have N4: "nx bs4 = (nx bs2)(b := h)" "pv bs4 = (pv bs2)(b := HEAD)" and l4: "length bs4 = length bs"
    using b l3 nx_upd [of b bs3] N3 by (simp_all add: bs4_def fun_eq_iff)
  have N5: "nx bs5 = (nx bs2)(b := h)" "pv bs5 = (pv bs2)(b := HEAD, h := b)" and l5: "length bs5 = length bs"
    using hl l4 nx_upd [of h bs4] N4 by (simp_all add: bs5_def fun_eq_iff)
  have N6: "nx bs6 = (nx bs2)(b := h, HEAD := b)" "pv bs6 = (pv bs2)(b := HEAD, h := b)" and l6: "length bs6 = length bs"
    using b l5 nx_upd [of HEAD bs5] N5 by (simp_all add: bs6_def fun_eq_iff)
  have f: "front b bs = bs6"
    by (simp add: front_def Let_def bs6_def bs5_def bs4_def bs3_def bs2_def bs1_def h_def n_def p_def)
  have "ring HEAD (nx bs6) (pv bs6) (b # ys @ zs)"
    using ring_front [OF rg, of "nx bs2" "pv bs2"] N2 unfolding N6 h_def n_def p_def by simp
  then show "lru (front b bs) (b # ys @ zs)" using len l6 st unfolding f lru_def by auto
  have "map strip bs6 = map strip bs5" "map strip bs5 = map strip bs4" "map strip bs4 = map strip bs3"
    "map strip bs3 = map strip bs2" "map strip bs2 = map strip bs1" "map strip bs1 = map strip bs"
    unfolding bs6_def bs5_def bs4_def bs3_def bs2_def bs1_def by (rule map_strip_upd, simp)+
  then show "map strip (front b bs) = map strip bs" unfolding f by simp
qed

section \<open>Looking up and replacing\<close>

definition has_block :: "u32 \<Rightarrow> u32 \<Rightarrow> buf \<Rightarrow> bool" where
  "has_block dev n k \<longleftrightarrow> b_dev k = dev \<and> b_blockno k = n"

lemma find_block_spec:
  assumes "ring HEAD (nx (bufs s)) (pv (bufs s)) (ys @ zs)" and "length zs < n"
  shows "find_block n dev bno (hd (zs @ [HEAD])) s = Ret (find (\<lambda>i. has_block dev bno (bufs s ! i)) zs) s"
  using assms
proof (induction zs arbitrary: ys n)
  case Nil
  then show ?case by (cases n) simp_all
next
  case (Cons z zs)
  then obtain m where m: "n = Suc m" "length zs < m" by (cases n) auto
  have ne: "z \<noteq> HEAD" using Cons.prems(1) by (auto simp: ring_def)
  have "nx (bufs s) z = hd (zs @ [HEAD])" by (rule ring_next [OF Cons.prems(1)])
  then show ?case using Cons.IH [of "ys @ [z]" m] Cons.prems m ne by (simp add: has_block_def)
qed

lemma find_unused_spec:
  assumes "ring HEAD (nx (bufs s)) (pv (bufs s)) (ys @ zs)" and "length ys < n"
  shows "find_unused n (last (HEAD # ys)) s = Ret (find (\<lambda>i. b_refcnt (bufs s ! i) = 0) (rev ys)) s"
  using assms
proof (induction ys arbitrary: zs n rule: rev_induct)
  case Nil
  then show ?case by (cases n) simp_all
next
  case (snoc y ys)
  then obtain m where m: "n = Suc m" "length ys < m" by (cases n) auto
  have ne: "y \<noteq> HEAD" using snoc.prems(1) by (auto simp: ring_def)
  have "ring HEAD (nx (bufs s)) (pv (bufs s)) (ys @ y # zs)" using snoc.prems(1) by simp
  then have "pv (bufs s) y = last (HEAD # ys)" by (rule ring_next)
  moreover have "last (HEAD # ys @ [y]) = y" by simp
  ultimately show ?case using snoc.IH [of "y # zs" m] snoc.prems m ne by (simp del: last.simps)
qed

declare find_block.simps [simp del] find_unused.simps [simp del]

lemma lru_length: "lru bs xs \<Longrightarrow> length xs = NBUF"
  by (auto simp: lru_def ring_def dest: distinct_card)

text \<open>The critical section of \<open>bget\<close>: what the two searches return.\<close>

lemma bget_searches:
  assumes "lru (bufs s) xs"
  shows "find_block (Suc NBUF) dev bno (nx (bufs s) HEAD) s = Ret (find (\<lambda>i. has_block dev bno (bufs s ! i)) xs) s"
    and "find_unused (Suc NBUF) (pv (bufs s) HEAD) s = Ret (find (\<lambda>i. b_refcnt (bufs s ! i) = 0) (rev xs)) s"
proof -
  have r: "ring HEAD (nx (bufs s)) (pv (bufs s)) xs" using assms by (simp add: lru_def)
  have len: "length xs < Suc NBUF" using lru_length [OF assms] by simp
  have h: "nx (bufs s) HEAD = hd (xs @ [HEAD])" "pv (bufs s) HEAD = last (HEAD # xs)" using ring_head [OF r] by blast+
  show "find_block (Suc NBUF) dev bno (nx (bufs s) HEAD) s = Ret (find (\<lambda>i. has_block dev bno (bufs s ! i)) xs) s"
    unfolding h using find_block_spec [of s "[]" xs] r len by simp
  show "find_unused (Suc NBUF) (pv (bufs s) HEAD) s = Ret (find (\<lambda>i. b_refcnt (bufs s ! i) = 0) (rev xs)) s"
    unfolding h using find_unused_spec [of s xs "[]"] r len by simp
qed

definition claim_hit :: "nat \<Rightarrow> 'z disk_st_scheme \<Rightarrow> nat \<Rightarrow> buf" where
  "claim_hit p s r = (let k = bufs s ! r in k\<lparr>b_refcnt := b_refcnt k + 1, b_sk := lock_of p s (b_sk k)\<rparr>)"

definition claim_miss :: "nat \<Rightarrow> u32 \<Rightarrow> u32 \<Rightarrow> 'z disk_st_scheme \<Rightarrow> nat \<Rightarrow> buf" where
  "claim_miss p dev bno s r = (let k = bufs s ! r in
     k\<lparr>b_refcnt := 1, b_vaild := 0, b_dev := dev, b_blockno := bno, b_sk := lock_of p s (b_sk k)\<rparr>)"

lemma lock_of_frame [simp]: "lock_of p (s\<lparr>bufs := bs\<rparr>) = lock_of p s"
  by (simp add: lock_of_def fun_eq_iff)

lemma bget_finish:
  assumes c: "calm p s" and r: "r < length (bufs s)" and k: "sl_locked (b_sk k) = 0"
  shows "kthen (release BcacheLk) (kthen (sleep_lock (buf_sk r)) (kret r)) ((inside BcacheLk s)\<lparr>bufs := (bufs s)[r := k]\<rparr>) =
    Ret r (s\<lparr>bufs := (bufs s)[r := k\<lparr>b_sk := lock_of p s (b_sk k)\<rparr>]\<rparr>)"
proof -
  let ?a = "(inside BcacheLk s)\<lparr>bufs := (bufs s)[r := k]\<rparr>" and ?t = "s\<lparr>bufs := (bufs s)[r := k]\<rparr>"
  have "release BcacheLk ?a = Ret () (?a\<lparr>locks := locks s, cpus := cpus s\<rparr>)"
    by (rule calm_release [OF c]) simp_all
  moreover have "?a\<lparr>locks := locks s, cpus := cpus s\<rparr> = ?t" by (simp add: inside_def)
  moreover have "calm p ?t" by (rule calm_frame [OF c]) simp_all
  ultimately show ?thesis using buf_lock [of p ?t r] r k by (simp add: kbind_def)
qed

lemma bget_hit:
  assumes c: "calm p s" and l: "lru (bufs s) xs" and f: "find (\<lambda>i. has_block dev bno (bufs s ! i)) xs = Some r"
    and free: "sl_locked (b_sk (bufs s ! r)) = 0"
  shows "bget dev bno s = Ret r (s\<lparr>bufs := (bufs s)[r := claim_hit p s r]\<rparr>)"
proof -
  have r: "r < length (bufs s)" using f lru_bounds [OF l, of r] by (auto simp: find_Some_iff)
  have l': "lru (bufs (inside BcacheLk s)) xs" using l by simp
  show ?thesis
    using bget_searches(1) [OF l', of dev bno] f bget_finish [OF c r, of "(bufs s ! r)\<lparr>b_refcnt := b_refcnt (bufs s ! r) + 1\<rparr>"] free
    by (simp add: bget_def kbind_def calm_acquire [OF c] bget_field_apply on_buf_apply claim_hit_def Let_def)
qed

lemma bget_miss:
  assumes c: "calm p s" and l: "lru (bufs s) xs" and f: "find (\<lambda>i. has_block dev bno (bufs s ! i)) xs = None"
    and u: "find (\<lambda>i. b_refcnt (bufs s ! i) = 0) (rev xs) = Some r" and free: "sl_locked (b_sk (bufs s ! r)) = 0"
  shows "bget dev bno s = Ret r (s\<lparr>bufs := (bufs s)[r := claim_miss p dev bno s r]\<rparr>)"
proof -
  have r: "r < length (bufs s)" using u lru_bounds [OF l, of r] by (auto simp: find_Some_iff rev_nth)
  have l': "lru (bufs (inside BcacheLk s)) xs" using l by simp
  show ?thesis
    using bget_searches(1) [OF l', of dev bno] bget_searches(2) [OF l'] f u free
      bget_finish [OF c r, of "(bufs s ! r)\<lparr>b_refcnt := 1, b_vaild := 0, b_dev := dev, b_blockno := bno\<rparr>"]
    by (simp add: bget_def kbind_def calm_acquire [OF c] bget_field_apply on_buf_apply claim_miss_def Let_def)
qed

lemma bget_none:
  assumes c: "calm p s" and l: "lru (bufs s) xs" and f: "find (\<lambda>i. has_block dev bno (bufs s ! i)) xs = None"
    and u: "find (\<lambda>i. b_refcnt (bufs s ! i) = 0) (rev xs) = None"
  shows "bget dev bno s = Panic ''bget panic..''"
proof -
  let ?a = "inside BcacheLk s"
  have l': "lru (bufs ?a) xs" using l by simp
  have "release BcacheLk ?a = Ret () (?a\<lparr>locks := locks s, cpus := cpus s\<rparr>)" by (rule calm_release [OF c]) simp_all
  then show ?thesis
    using bget_searches(1) [OF l', of dev bno] bget_searches(2) [OF l'] f u
    by (simp add: bget_def kbind_def calm_acquire [OF c] bget_field_apply)
qed

lemma brelease_ok:
  assumes c: "calm p s" and r: "r < length (bufs s)"
    and own: "sl_locked (b_sk (bufs s ! r)) \<noteq> 0" "sl_pid (b_sk (bufs s ! r)) = pid (procs s ! p)"
  shows "brelease r s = Ret () (s\<lparr>bufs :=
    (let k = bufs s ! r; bs = (bufs s)[r := k\<lparr>b_sk := (b_sk k)\<lparr>sl_locked := 0, sl_pid := 0\<rparr>, b_refcnt := b_refcnt k - 1\<rparr>]
     in if b_refcnt k = 1 then front r bs else bs)\<rparr>)"
proof -
  let ?k = "bufs s ! r"
  let ?u = "s\<lparr>bufs := (bufs s)[r := ?k\<lparr>b_sk := (b_sk ?k)\<lparr>sl_locked := 0, sl_pid := 0\<rparr>\<rparr>]\<rparr>"
  let ?bs = "(bufs s)[r := ?k\<lparr>b_sk := (b_sk ?k)\<lparr>sl_locked := 0, sl_pid := 0\<rparr>, b_refcnt := b_refcnt ?k - 1\<rparr>]"
  let ?r = "if b_refcnt ?k = 1 then front r ?bs else ?bs"
  have cu: "calm p ?u" by (rule calm_frame [OF c]) simp_all
  have z: "b_refcnt ?k - 1 = 0 \<longleftrightarrow> b_refcnt ?k = 1" by simp
  have h: "holdingsleep (buf_sk r) s = Ret True s" using buf_holding [OF c, of r] own by simp
  have u: "sleep_unlock (buf_sk r) s = Ret () ?u" by (rule buf_unlock [OF c])
  let ?a = "(inside BcacheLk ?u)\<lparr>bufs := ?bs\<rparr>"
  have dec: "on_buf r (\<lambda>k. k\<lparr>b_refcnt := b_refcnt k - 1\<rparr>) (inside BcacheLk ?u) = Ret () ?a"
    using r by (simp add: on_buf_apply)
  have mv: "kwhen (b_refcnt ?k - 1 = 0) (move_front r) ?a = Ret () ((inside BcacheLk ?u)\<lparr>bufs := ?r\<rparr>)"
    by (cases "b_refcnt ?k = 1") (simp_all add: move_front_run)
  let ?b = "(inside BcacheLk ?u)\<lparr>bufs := ?r\<rparr>"
  have "release BcacheLk ?b = Ret () (?b\<lparr>locks := locks ?u, cpus := cpus ?u\<rparr>)"
    by (rule calm_release [OF cu]) simp_all
  moreover have "?b\<lparr>locks := locks ?u, cpus := cpus ?u\<rparr> = s\<lparr>bufs := ?r\<rparr>" by (simp add: inside_def)
  moreover have "bget_field r b_refcnt ?a = Ret (b_refcnt ?k - 1) ?a" using r by (simp add: bget_field_apply)
  ultimately show ?thesis
    unfolding brelease_def Let_def using h u calm_acquire [OF cu] dec mv by (simp add: kbind_def)
qed

section \<open>What a block holds\<close>

text \<open>The invariant of the cache: the list, at most one buffer per block (device 0 is the state of a buffer
  never used), whole blocks of data, and a buffer without references is not locked.\<close>

definition bc_ok :: "buf list \<Rightarrow> bool" where
  "bc_ok bs \<longleftrightarrow> (\<exists>xs. lru bs xs) \<and>
     (\<forall>i < NBUF. \<forall>j < NBUF. b_dev (bs ! i) \<noteq> 0 \<longrightarrow> has_block (b_dev (bs ! i)) (b_blockno (bs ! i)) (bs ! j) \<longrightarrow> i = j) \<and>
     (\<forall>i < NBUF. length (b_data (bs ! i)) = BSIZE \<and> (b_refcnt (bs ! i) = 0 \<longrightarrow> sl_locked (b_sk (bs ! i)) = 0))"

text \<open>The contents of block \<open>n\<close> as the kernel sees it: the valid buffer if there is one, else the disk.\<close>

definition valid_block :: "u32 \<Rightarrow> u32 \<Rightarrow> buf \<Rightarrow> bool" where
  "valid_block dev n k \<longleftrightarrow> has_block dev n k \<and> b_vaild k \<noteq> 0"

definition blk :: "'z disk_st_scheme \<Rightarrow> u32 \<Rightarrow> u32 \<Rightarrow> u8 list" where
  "blk s dev n = (case find (\<lambda>i. valid_block dev n (bufs s ! i)) [0..<NBUF] of
     Some i \<Rightarrow> b_data (bufs s ! i) | None \<Rightarrow> disk_block (sectors s) n)"

text \<open>Buffers nobody uses agree with the disk, so that replacing one loses nothing.\<close>

definition steady :: "'z disk_st_scheme \<Rightarrow> bool" where
  "steady s \<longleftrightarrow> (\<forall>i < NBUF. b_refcnt (bufs s ! i) = 0 \<longrightarrow> b_vaild (bufs s ! i) \<noteq> 0 \<longrightarrow>
     b_data (bufs s ! i) = disk_block (sectors s) (b_blockno (bufs s ! i)))"

definition held_buf :: "nat \<Rightarrow> 'z disk_st_scheme \<Rightarrow> nat \<Rightarrow> bool" where
  "held_buf p s r \<longleftrightarrow> sl_locked (b_sk (bufs s ! r)) \<noteq> 0 \<and> sl_pid (b_sk (bufs s ! r)) = pid (procs s ! p)"

lemma find_upt_Some: "find P [0..<n] = Some i \<Longrightarrow> i < n \<and> P i"
  by (auto simp: find_Some_iff)

lemma find_upt_None: "find P [0..<n] = None \<longleftrightarrow> (\<forall>i < n. \<not> P i)"
  by (auto simp: find_None_iff)

lemma bc_ok_unique:
  assumes "bc_ok bs" and "i < NBUF" "j < NBUF" and "has_block dev n (bs ! i)" "has_block dev n (bs ! j)" and "dev \<noteq> 0"
  shows "i = j"
  using assms by (auto simp: bc_ok_def has_block_def)

lemma blk_cached:
  assumes ok: "bc_ok (bufs s)" and i: "i < NBUF" "valid_block dev n (bufs s ! i)" and "dev \<noteq> 0"
  shows "blk s dev n = b_data (bufs s ! i)"
proof -
  obtain j where j: "find (\<lambda>i. valid_block dev n (bufs s ! i)) [0..<NBUF] = Some j"
    using find_upt_None [of "\<lambda>i. valid_block dev n (bufs s ! i)" NBUF] i by fastforce
  then have "j < NBUF" "valid_block dev n (bufs s ! j)" by (auto dest: find_upt_Some)
  then have "j = i" using bc_ok_unique [OF ok, of j i dev n] i assms(4) by (simp add: valid_block_def)
  then show ?thesis using j by (simp add: blk_def)
qed

lemma blk_uncached:
  assumes "\<And>i. i < NBUF \<Longrightarrow> \<not> valid_block dev n (bufs s ! i)"
  shows "blk s dev n = disk_block (sectors s) n"
proof -
  have "find (\<lambda>i. valid_block dev n (bufs s ! i)) [0..<NBUF] = None" using assms by (simp add: find_upt_None)
  then show ?thesis by (simp add: blk_def)
qed

lemma bc_ok_lru: "bc_ok bs \<Longrightarrow> \<exists>xs. lru bs xs"
  by (simp add: bc_ok_def)

lemma bc_ok_len: "bc_ok bs \<Longrightarrow> length bs = Suc NBUF"
  by (auto simp: bc_ok_def lru_def)

text \<open>Changing one buffer keeps the invariant if the change is harmless.\<close>

lemma bc_ok_upd:
  assumes ok: "bc_ok bs" and r: "r < NBUF" and lk: "b_next k = nx bs r" "b_prev k = pv bs r"
    and fresh: "\<And>i. i < NBUF \<Longrightarrow> i \<noteq> r \<Longrightarrow> b_dev k \<noteq> 0 \<Longrightarrow> \<not> has_block (b_dev k) (b_blockno k) (bs ! i)"
    and d: "length (b_data k) = BSIZE" "b_refcnt k = 0 \<Longrightarrow> sl_locked (b_sk k) = 0"
  shows "bc_ok (bs[r := k])"
proof -
  have len: "r < length bs" using r bc_ok_len [OF ok] by simp
  obtain xs where "lru bs xs" using bc_ok_lru [OF ok] by blast
  then have "lru (bs[r := k]) xs" using lk by (rule lru_frame)
  moreover have "i = j" if ij: "i < NBUF" "j < NBUF" "b_dev (bs[r := k] ! i) \<noteq> 0"
    "has_block (b_dev (bs[r := k] ! i)) (b_blockno (bs[r := k] ! i)) (bs[r := k] ! j)" for i j
  proof (rule ccontr)
    assume ne: "i \<noteq> j"
    consider "i = r" | "j = r" | "i \<noteq> r" "j \<noteq> r" by blast
    then show False
    proof cases
      case 1
      then show False using fresh [of j] ij ne len by simp
    next
      case 2
      then show False using fresh [of i] ij ne len by (simp add: has_block_def)
    next
      case 3
      then show False using ok ij ne by (auto simp: bc_ok_def)
    qed
  qed
  moreover have "length (b_data (bs[r := k] ! i)) = BSIZE \<and>
      (b_refcnt (bs[r := k] ! i) = 0 \<longrightarrow> sl_locked (b_sk (bs[r := k] ! i)) = 0)" if "i < NBUF" for i
    using ok that d len by (cases "i = r") (auto simp: bc_ok_def)
  ultimately show ?thesis unfolding bc_ok_def by blast
qed

lemma find_in_lru:
  assumes "lru bs xs"
  shows "find P xs = None \<longleftrightarrow> (\<forall>i < NBUF. \<not> P i)" and "find P xs = Some r \<Longrightarrow> r < NBUF \<and> P r"
    and "find P (rev xs) = None \<longleftrightarrow> (\<forall>i < NBUF. \<not> P i)" and "find P (rev xs) = Some r \<Longrightarrow> r < NBUF \<and> P r"
proof -
  have st: "set xs = {0..<NBUF}" "set (rev xs) = {0..<NBUF}" using assms by (simp_all add: lru_def)
  have a: "find P ys = None \<longleftrightarrow> (\<forall>i < NBUF. \<not> P i)" if "set ys = {0..<NBUF}" for ys
    using that by (auto simp: find_None_iff)
  have b: "r < NBUF \<and> P r" if "set ys = {0..<NBUF}" "find P ys = Some r" for ys
  proof -
    have "r \<in> set ys" "P r" using that(2) by (auto simp: find_Some_iff)
    then show ?thesis using that(1) by simp
  qed
  show "find P xs = None \<longleftrightarrow> (\<forall>i < NBUF. \<not> P i)" "find P (rev xs) = None \<longleftrightarrow> (\<forall>i < NBUF. \<not> P i)"
    using a st by blast+
  show "find P xs = Some r \<Longrightarrow> r < NBUF \<and> P r" "find P (rev xs) = Some r \<Longrightarrow> r < NBUF \<and> P r"
    using b st by blast+
qed

lemma blk_upd:
  assumes ok: "bc_ok (bufs s)" "bc_ok ((bufs s)[r := k])" and r: "r < NBUF" and dev: "dev \<noteq> 0"
    and t: "bufs t = (bufs s)[r := k]" "sectors t = sectors s"
  shows "blk t dev m = (if valid_block dev m k then b_data k
    else if valid_block dev m (bufs s ! r) then disk_block (sectors s) m else blk s dev m)"
proof -
  have len: "r < length (bufs s)" using r bc_ok_len [OF ok(1)] by simp
  have nth: "bufs t ! i = (if i = r then k else bufs s ! i)" for i using t(1) len by simp
  have okt: "bc_ok (bufs t)" using ok(2) t(1) by simp
  show ?thesis
  proof (cases "valid_block dev m k")
    case True
    then show ?thesis using blk_cached [OF okt r _ dev, of m] nth by simp
  next
    case nk: False
    show ?thesis
    proof (cases "valid_block dev m (bufs s ! r)")
      case True
      have "\<not> valid_block dev m (bufs t ! i)" if "i < NBUF" for i
        using nk True bc_ok_unique [OF ok(1) that r, of dev m] dev nth by (auto simp: valid_block_def)
      then show ?thesis using nk True t(2) blk_uncached [of dev m t] by simp
    next
      case False
      show ?thesis
      proof (cases "\<exists>i < NBUF. valid_block dev m (bufs s ! i)")
        case True
        then obtain i where i: "i < NBUF" "valid_block dev m (bufs s ! i)" by blast
        then have "i \<noteq> r" using False by auto
        then have "bufs t ! i = bufs s ! i" using nth by simp
        then show ?thesis using blk_cached [OF okt i(1) _ dev, of m] blk_cached [OF ok(1) i dev] i(2) nk False by simp
      next
        case none: False
        then have "\<not> valid_block dev m (bufs t ! i)" if "i < NBUF" for i using that nk nth by auto
        then show ?thesis using none nk False t(2) blk_uncached [of dev m t] blk_uncached [of dev m s] by auto
      qed
    qed
  qed
qed

text \<open>The buffer \<open>bread\<close> ends up with.\<close>

definition filled :: "(u64 \<Rightarrow> u8 list) \<Rightarrow> buf \<Rightarrow> buf" where
  "filled sec k = (if b_vaild k \<noteq> 0 then k
     else k\<lparr>b_disk := 0, b_data := disk_block sec (b_blockno k), b_vaild := 1\<rparr>)"

lemma filled_sel [simp]:
  "b_dev (filled sec k) = b_dev k" "b_blockno (filled sec k) = b_blockno k" "b_refcnt (filled sec k) = b_refcnt k"
  "b_sk (filled sec k) = b_sk k" "b_next (filled sec k) = b_next k" "b_prev (filled sec k) = b_prev k"
  "b_vaild (filled sec k) \<noteq> 0"
  by (simp_all add: filled_def)

lemma driver_part_sel [simp]:
  "bufs (driver_part v rg m s) = bufs s" "sectors (driver_part v rg m s) = sectors s"
  "hart (driver_part v rg m s) = hart s" "cpus (driver_part v rg m s) = cpus s"
  "locks (driver_part v rg m s) = locks s" "procs (driver_part v rg m s) = procs s" "mem (driver_part v rg m s) = mem s"
  by (simp_all add: driver_part_def)

lemma blk_driver_part [simp]: "blk (driver_part v rg m s) = blk s"
  unfolding blk_def fun_eq_iff driver_part_sel by (intro allI refl)

lemma bread_after:
  assumes c: "calm p s" and idle: "driver_idle s" and r: "r < length (bufs s)"
    and g: "bget dev n s = Ret r (s\<lparr>bufs := (bufs s)[r := k]\<rparr>)"
  obtains v rg m where "bread dev n s = Ret r (driver_part v rg m (s\<lparr>bufs := (bufs s)[r := filled (sectors s) k]\<rparr>))"
    "driver_idle (driver_part v rg m (s\<lparr>bufs := (bufs s)[r := filled (sectors s) k]\<rparr>))"
proof (cases "b_vaild k = 0")
  case False
  have "driver_part (vd s) (vregs s) (dev_seen s) (s\<lparr>bufs := bs\<rparr>) = s\<lparr>bufs := bs\<rparr>" for bs
    by (simp add: driver_part_def)
  moreover have "bread dev n s = Ret r (s\<lparr>bufs := (bufs s)[r := k]\<rparr>)"
    using g r False by (simp add: bread_def kbind_def bget_field_apply)
  moreover have "driver_idle (s\<lparr>bufs := (bufs s)[r := k]\<rparr>)" using idle by (simp add: driver_idle_def)
  ultimately show thesis using that [of "vd s" "vregs s" "dev_seen s"] False by (simp add: filled_def)
next
  case True
  let ?s = "s\<lparr>bufs := (bufs s)[r := k]\<rparr>"
  have c': "calm p ?s" by (rule calm_frame [OF c]) simp_all
  have i': "driver_idle ?s" using idle by (simp add: driver_idle_def)
  obtain v rg m where w: "virt_disk_rw r False ?s = Ret () (driver_part v rg m (transfer r False ?s))"
    "driver_idle (driver_part v rg m (transfer r False ?s))"
    by (rule virt_disk_rw_ok [OF c' i', of r False]) (use r in simp)
  have tr: "transfer r False ?s = s\<lparr>bufs := (bufs s)[r := k\<lparr>b_disk := 0, b_data := disk_block (sectors s) (b_blockno k)\<rparr>]\<rparr>"
    using r by (simp add: transfer_def)
  have "bread dev n s = Ret r (driver_part v rg m (s\<lparr>bufs := (bufs s)[r := filled (sectors s) k]\<rparr>))"
    using g r w(1) True by (simp add: bread_def kbind_def bget_field_apply on_buf_apply tr filled_def)
      (simp add: driver_part_def)
  moreover have "driver_idle (driver_part v rg m (s\<lparr>bufs := (bufs s)[r := filled (sectors s) k]\<rparr>))"
    using w(2) by (simp add: tr driver_idle_def driver_part_def)
  ultimately show thesis by (rule that)
qed

lemma length_disk_block: "(\<And>a. length (sec a) = 512) \<Longrightarrow> length (disk_block sec n) = BSIZE"
  by (simp add: disk_block_def rd_sectors_def upt_rec [of 0 2] upt_rec [of "Suc 0" 2] BSIZE_def)

text \<open>Everything \<open>bread\<close> promises.\<close>

definition bread_post :: "nat \<Rightarrow> u32 \<Rightarrow> u32 \<Rightarrow> 'z disk_st_scheme \<Rightarrow> nat \<Rightarrow> 'z disk_st_scheme \<Rightarrow> bool" where
  "bread_post p dev n s r t \<longleftrightarrow> r < NBUF \<and> valid_block dev n (bufs t ! r) \<and> held_buf p t r \<and>
     b_data (bufs t ! r) = blk s dev n \<and> (\<forall>d m. d \<noteq> 0 \<longrightarrow> blk t d m = blk s d m) \<and> bc_ok (bufs t) \<and>
     driver_idle t \<and> calm p t \<and> (\<exists>v rg m k. t = driver_part v rg m (s\<lparr>bufs := (bufs s)[r := k]\<rparr>) \<and> b_refcnt k \<noteq> 0)"

lemma bread_result:
  assumes c: "calm p s" and idle: "driver_idle s" and ok: "bc_ok (bufs s)" and dev: "dev \<noteq> 0"
    and sec: "\<And>a. length (sectors s a) = 512" and r: "r < NBUF"
    and g: "bget dev n s = Ret r (s\<lparr>bufs := (bufs s)[r := k]\<rparr>)"
    and k: "has_block dev n k" "b_refcnt k \<noteq> 0" "b_next k = nx (bufs s) r" "b_prev k = pv (bufs s) r"
      "length (b_data k) = BSIZE" "b_sk k = lock_of p s (b_sk (bufs s ! r))"
    and alone: "\<And>j. j < NBUF \<Longrightarrow> j \<noteq> r \<Longrightarrow> \<not> has_block dev n (bufs s ! j)"
    and content: "if b_vaild k = 0 then \<not> valid_block dev n (bufs s ! r)
      else valid_block dev n (bufs s ! r) \<and> b_data k = b_data (bufs s ! r)"
    and evict: "\<And>d m. valid_block d m (bufs s ! r) \<Longrightarrow>
      d = dev \<and> m = n \<or> b_data (bufs s ! r) = disk_block (sectors s) m"
  shows "\<exists>t. bread dev n s = Ret r t \<and> bread_post p dev n s r t \<and> b_refcnt (bufs t ! r) = b_refcnt k"
proof -
  let ?k = "filled (sectors s) k"
  have len: "r < length (bufs s)" using r bc_ok_len [OF ok] by simp
  obtain v rg m where b: "bread dev n s = Ret r (driver_part v rg m (s\<lparr>bufs := (bufs s)[r := ?k]\<rparr>))"
    "driver_idle (driver_part v rg m (s\<lparr>bufs := (bufs s)[r := ?k]\<rparr>))"
    using bread_after [OF c idle len g] .
  let ?t = "driver_part v rg m (s\<lparr>bufs := (bufs s)[r := ?k]\<rparr>)"
  have dl: "length (b_data ?k) = BSIZE" using k(5) length_disk_block [OF sec] by (simp add: filled_def)
  have hb: "b_dev ?k = dev" "b_blockno ?k = n" using k(1) by (simp_all add: has_block_def)
  have okt: "bc_ok ((bufs s)[r := ?k])"
    by (rule bc_ok_upd [OF ok r]) (use k dl hb alone in simp_all)
  have vb: "valid_block dev n ?k" using hb by (simp add: valid_block_def has_block_def)
  have data: "b_data ?k = blk s dev n"
  proof (cases "b_vaild k = 0")
    case True
    then have "\<not> valid_block dev n (bufs s ! j)" if "j < NBUF" for j
      using content alone [OF that] by (cases "j = r") (simp_all add: valid_block_def)
    then show ?thesis using True k(1) blk_uncached [of dev n s] by (simp add: filled_def has_block_def)
  next
    case False
    then show ?thesis using blk_cached [OF ok r _ dev, of n] content by (simp add: filled_def)
  qed
  have same: "blk ?t d m' = blk s d m'" if "d \<noteq> 0" for d m'
  proof -
    have "blk ?t d m' = (if valid_block d m' ?k then b_data ?k
        else if valid_block d m' (bufs s ! r) then disk_block (sectors s) m' else blk s d m')"
      by (rule blk_upd [OF ok okt r that]) simp_all
    moreover have "valid_block d m' ?k \<longleftrightarrow> d = dev \<and> m' = n" using hb by (auto simp: valid_block_def has_block_def)
    moreover have "blk s d m' = disk_block (sectors s) m'" if "valid_block d m' (bufs s ! r)" "\<not> (d = dev \<and> m' = n)"
      using evict [OF that(1)] that blk_cached [OF ok r that(1) \<open>d \<noteq> 0\<close>] by auto
    ultimately show ?thesis using data by auto
  qed
  have "bread_post p dev n s r ?t"
    unfolding bread_post_def
  proof (intro conjI)
    show "calm p ?t" by (rule calm_frame [OF c]) simp_all
    show "held_buf p ?t r" using len k(6) by (simp add: held_buf_def lock_of_def)
    show "\<exists>v rg m k. ?t = driver_part v rg m (s\<lparr>bufs := (bufs s)[r := k]\<rparr>) \<and> b_refcnt k \<noteq> 0"
      using k(2) by (intro exI [of _ v] exI [of _ rg] exI [of _ m] exI [of _ ?k]) simp
  qed (use r vb data same okt b(2) len in simp_all)
  then show ?thesis using b(1) len by (intro exI [of _ ?t]) simp
qed

text \<open>A block in the cache, and a block that is not.\<close>

lemma bread_hit:
  assumes c: "calm p s" and idle: "driver_idle s" and ok: "bc_ok (bufs s)" and dev: "dev \<noteq> 0"
    and sec: "\<And>a. length (sectors s a) = 512"
    and h: "i < NBUF" "has_block dev n (bufs s ! i)" "sl_locked (b_sk (bufs s ! i)) = 0" "b_refcnt (bufs s ! i) + 1 \<noteq> 0"
  shows "\<exists>t. bread dev n s = Ret i t \<and> bread_post p dev n s i t \<and> b_refcnt (bufs t ! i) = b_refcnt (bufs s ! i) + 1"
proof -
  obtain xs where l: "lru (bufs s) xs" using bc_ok_lru [OF ok] by blast
  have only: "j = i" if "j < NBUF" "has_block dev n (bufs s ! j)" for j
    by (rule bc_ok_unique [OF ok that(1) h(1) that(2) h(2) dev])
  obtain r where r: "find (\<lambda>i. has_block dev n (bufs s ! i)) xs = Some r"
    using find_in_lru(1) [OF l, of "\<lambda>i. has_block dev n (bufs s ! i)"] h by (cases "find (\<lambda>i. has_block dev n (bufs s ! i)) xs") auto
  then have "r = i" using find_in_lru(2) [OF l r] only by blast
  with r have f: "find (\<lambda>i. has_block dev n (bufs s ! i)) xs = Some i" by simp
  have "\<exists>t. bread dev n s = Ret i t \<and> bread_post p dev n s i t \<and> b_refcnt (bufs t ! i) = b_refcnt (claim_hit p s i)"
  proof (rule bread_result [OF c idle ok dev sec h(1) bget_hit [OF c l f h(3)]])
    show "length (b_data (claim_hit p s i)) = BSIZE" using ok h(1) by (simp add: bc_ok_def claim_hit_def Let_def)
    show "\<not> has_block dev n (bufs s ! j)" if "j < NBUF" "j \<noteq> i" for j using only that by blast
    fix d m assume "valid_block d m (bufs s ! i)"
    then show "d = dev \<and> m = n \<or> b_data (bufs s ! i) = disk_block (sectors s) m"
      using h(2) by (simp add: valid_block_def has_block_def)
  qed (use h in \<open>simp_all add: claim_hit_def Let_def has_block_def valid_block_def\<close>)
  then show ?thesis by (simp add: claim_hit_def Let_def)
qed

lemma bread_miss:
  assumes c: "calm p s" and idle: "driver_idle s" and ok: "bc_ok (bufs s)" and dev: "dev \<noteq> 0"
    and sec: "\<And>a. length (sectors s a) = 512" and st: "steady s"
    and miss: "\<And>i. i < NBUF \<Longrightarrow> \<not> has_block dev n (bufs s ! i)" and room: "i < NBUF" "b_refcnt (bufs s ! i) = 0"
  shows "\<exists>r t. bread dev n s = Ret r t \<and> bread_post p dev n s r t \<and> b_refcnt (bufs s ! r) = 0 \<and> b_refcnt (bufs t ! r) = 1"
proof -
  obtain xs where l: "lru (bufs s) xs" using bc_ok_lru [OF ok] by blast
  have f: "find (\<lambda>i. has_block dev n (bufs s ! i)) xs = None" using find_in_lru(1) [OF l] miss by blast
  obtain r where r: "find (\<lambda>i. b_refcnt (bufs s ! i) = 0) (rev xs) = Some r"
    using find_in_lru(3) [OF l, of "\<lambda>i. b_refcnt (bufs s ! i) = 0"] room by (cases "find (\<lambda>i. b_refcnt (bufs s ! i) = 0) (rev xs)") auto
  have rb: "r < NBUF" "b_refcnt (bufs s ! r) = 0" using find_in_lru(4) [OF l r] by blast+
  have free: "sl_locked (b_sk (bufs s ! r)) = 0" "length (b_data (bufs s ! r)) = BSIZE" using ok rb by (auto simp: bc_ok_def)
  have "\<exists>t. bread dev n s = Ret r t \<and> bread_post p dev n s r t \<and> b_refcnt (bufs t ! r) = b_refcnt (claim_miss p dev n s r)"
  proof (rule bread_result [OF c idle ok dev sec rb(1) bget_miss [OF c l f r free(1)]])
    fix d m assume "valid_block d m (bufs s ! r)"
    then show "d = dev \<and> m = n \<or> b_data (bufs s ! r) = disk_block (sectors s) m"
      using st rb by (auto simp: steady_def valid_block_def has_block_def)
  qed (use miss rb free in \<open>auto simp: claim_miss_def Let_def has_block_def valid_block_def\<close>)
  then show ?thesis using rb(2) by (auto simp: claim_miss_def Let_def)
qed

section \<open>Giving a buffer back, writing it out\<close>

lemma strip_sel:
  "b_dev (strip k) = b_dev k" "b_blockno (strip k) = b_blockno k" "b_refcnt (strip k) = b_refcnt k"
  "b_sk (strip k) = b_sk k" "b_vaild (strip k) = b_vaild k" "b_data (strip k) = b_data k"
  by (simp_all add: strip_def)

lemma strip_eqD:
  assumes "strip k = strip k'"
  shows "b_dev k = b_dev k'" "b_blockno k = b_blockno k'" "b_refcnt k = b_refcnt k'" "b_sk k = b_sk k'"
    "b_vaild k = b_vaild k'" "b_data k = b_data k'"
  using assms strip_sel [of k] strip_sel [of k'] by simp_all

lemma map_strip_nth: "map strip bs' = map strip bs \<Longrightarrow> i < length bs \<Longrightarrow> strip (bs' ! i) = strip (bs ! i)"
  by (metis length_map nth_map)

lemma has_block_strip: "strip k = strip k' \<Longrightarrow> has_block d m k = has_block d m k'"
  "strip k = strip k' \<Longrightarrow> valid_block d m k = valid_block d m k'"
  using strip_eqD [of k k'] by (simp_all add: has_block_def valid_block_def)

lemma bc_ok_strip:
  assumes ok: "bc_ok bs" and eq: "map strip bs' = map strip bs" and l: "lru bs' xs"
  shows "bc_ok bs'"
proof -
  have st: "strip (bs' ! i) = strip (bs ! i)" if "i < NBUF" for i
    using map_strip_nth [OF eq, of i] bc_ok_len [OF ok] that by simp
  have "i = j" if "i < NBUF" "j < NBUF" "b_dev (bs' ! i) \<noteq> 0"
    "has_block (b_dev (bs' ! i)) (b_blockno (bs' ! i)) (bs' ! j)" for i j
  proof (rule bc_ok_unique [OF ok that(1,2) _ _ that(3)])
    show "has_block (b_dev (bs' ! i)) (b_blockno (bs' ! i)) (bs ! i)"
      using strip_eqD(1,2) [OF st [OF that(1)]] by (simp add: has_block_def)
    show "has_block (b_dev (bs' ! i)) (b_blockno (bs' ! i)) (bs ! j)"
      using that(4) has_block_strip(1) [OF st [OF that(2)]] by simp
  qed
  moreover have "length (b_data (bs' ! i)) = BSIZE \<and> (b_refcnt (bs' ! i) = 0 \<longrightarrow> sl_locked (b_sk (bs' ! i)) = 0)"
    if "i < NBUF" for i
    using ok that strip_eqD [OF st [OF that]] by (simp add: bc_ok_def)
  ultimately show ?thesis using l unfolding bc_ok_def by blast
qed

lemma blk_strip:
  assumes "map strip (bufs t) = map strip (bufs s)" and "NBUF \<le> length (bufs s)" and "sectors t = sectors s"
  shows "blk t = blk s"
proof -
  have st: "strip (bufs t ! i) = strip (bufs s ! i)" if "i < NBUF" for i
    using map_strip_nth [OF assms(1), of i] assms(2) that by simp
  have f: "find (\<lambda>i. valid_block d m (bufs t ! i)) [0..<NBUF] = find (\<lambda>i. valid_block d m (bufs s ! i)) [0..<NBUF]" for d m
    by (rule find_cong) (use has_block_strip(2) [OF st] in auto)
  have "blk t d m = blk s d m" for d m
  proof (cases "find (\<lambda>i. valid_block d m (bufs s ! i)) [0..<NBUF]")
    case None
    then show ?thesis using f [of d m] assms(3) by (simp add: blk_def)
  next
    case (Some i)
    then show ?thesis using f [of d m] strip_eqD(6) [OF st, of i] find_upt_Some [OF Some] by (simp add: blk_def)
  qed
  then show ?thesis by (intro ext)
qed

definition released :: "buf \<Rightarrow> buf" where
  "released k = k\<lparr>b_sk := (b_sk k)\<lparr>sl_locked := 0, sl_pid := 0\<rparr>, b_refcnt := b_refcnt k - 1\<rparr>"

lemma brelease_spec:
  assumes c: "calm p s" and ok: "bc_ok (bufs s)" and r: "r < NBUF" and own: "held_buf p s r" and l: "lru (bufs s) xs"
  obtains bs where "brelease r s = Ret () (s\<lparr>bufs := bs\<rparr>)" "bc_ok bs" "map strip bs = map strip ((bufs s)[r := released (bufs s ! r)])"
    "lru bs (if b_refcnt (bufs s ! r) = 1 then r # remove1 r xs else xs)"
    "\<And>d m. d \<noteq> 0 \<Longrightarrow> blk (s\<lparr>bufs := bs\<rparr>) d m = blk s d m"
proof -
  let ?k = "bufs s ! r" and ?bs = "(bufs s)[r := released (bufs s ! r)]"
  let ?r = "if b_refcnt ?k = 1 then front r ?bs else ?bs"
  have len: "r < length (bufs s)" using r bc_ok_len [OF ok] by simp
  have run: "brelease r s = Ret () (s\<lparr>bufs := ?r\<rparr>)"
    using brelease_ok [OF c len] own by (simp add: held_buf_def Let_def released_def)
  have l1: "lru ?bs xs" by (rule lru_frame [OF l]) (simp_all add: released_def)
  have ok1: "bc_ok ?bs"
  proof (rule bc_ok_upd [OF ok r])
    fix i assume i: "i < NBUF" "i \<noteq> r" "b_dev (released ?k) \<noteq> 0"
    then show "\<not> has_block (b_dev (released ?k)) (b_blockno (released ?k)) (bufs s ! i)"
      using bc_ok_unique [OF ok i(1) r, of "b_dev ?k" "b_blockno ?k"] by (auto simp: released_def has_block_def)
  qed (use ok r in \<open>auto simp: released_def bc_ok_def\<close>)
  have "r \<in> set xs" using l r by (simp add: lru_def)
  then obtain ys zs where yz: "xs = ys @ r # zs" "r \<notin> set ys" by (meson split_list_first)
  have fr: "lru (front r ?bs) (r # remove1 r xs)" "map strip (front r ?bs) = map strip ?bs"
    using front_lru [of ?bs ys r zs] l1 yz by (simp_all add: remove1_append)
  have lr: "lru ?r (if b_refcnt ?k = 1 then r # remove1 r xs else xs)" using fr(1) l1 by simp
  have st: "map strip ?r = map strip ?bs" using fr(2) by simp
  have okr: "bc_ok ?r" using lr by (intro bc_ok_strip [OF ok1 st]) 
  have "blk (s\<lparr>bufs := ?r\<rparr>) d m = blk s d m" if d: "d \<noteq> 0" for d m
  proof -
    have vb: "valid_block d m (released ?k) = valid_block d m ?k" "b_data (released ?k) = b_data ?k"
      by (simp_all add: released_def valid_block_def has_block_def)
    have "blk (s\<lparr>bufs := ?r\<rparr>) = blk (s\<lparr>bufs := ?bs\<rparr>)"
      by (rule blk_strip) (use st bc_ok_len [OF ok] in simp_all)
    moreover have "blk (s\<lparr>bufs := ?bs\<rparr>) d m = (if valid_block d m (released ?k) then b_data (released ?k)
        else if valid_block d m ?k then disk_block (sectors s) m else blk s d m)"
      by (rule blk_upd [OF ok ok1 r d]) simp_all
    ultimately show ?thesis using vb blk_cached [OF ok r _ d, of m] by simp
  qed
  then show thesis using that [OF run okr st lr] by blast
qed

lemma bwrite_ok:
  assumes c: "calm p s" and idle: "driver_idle s" and r: "r < length (bufs s)" and own: "held_buf p s r"
  obtains v rg m where "bwrite r s = Ret () (driver_part v rg m (transfer r True s))"
    "driver_idle (driver_part v rg m (transfer r True s))"
proof -
  obtain v rg m where "virt_disk_rw r True s = Ret () (driver_part v rg m (transfer r True s))"
    "driver_idle (driver_part v rg m (transfer r True s))"
    using virt_disk_rw_ok [OF c idle r] .
  moreover have "holdingsleep (buf_sk r) s = Ret True s" using buf_holding [OF c, of r] own by (simp add: held_buf_def)
  ultimately show thesis using that by (simp add: bwrite_def kbind_def)
qed

section \<open>Initialisation\<close>

text \<open>One turn of the loop of \<open>init_bcache\<close> on the buffers.\<close>

definition link_in :: "nat \<Rightarrow> buf list \<Rightarrow> buf list" where
  "link_in b bs =
     (let n = nx bs HEAD; bs1 = bs[b := (bs ! b)\<lparr>b_next := n\<rparr>]; bs2 = bs1[b := (bs1 ! b)\<lparr>b_prev := HEAD\<rparr>];
          bs3 = bs2[b := (bs2 ! b)\<lparr>b_sk := \<lparr>sl_locked = 0, sl_name = ''buffer'', sl_pid = 0\<rparr>\<rparr>];
          bs4 = bs3[n := (bs3 ! n)\<lparr>b_prev := b\<rparr>]
      in bs4[HEAD := (bs4 ! HEAD)\<lparr>b_next := b\<rparr>])"

lemma init_turn:
  "init_bcache_loop (b # bs) s = init_bcache_loop bs (s\<lparr>locks := (locks s)(BufLk b := (locks s (BufLk b))\<lparr>lk_name := ''buffer'', locked := 0\<rparr>),
     bufs := link_in b (bufs s)\<rparr>)"
proof -
  have eq: "k\<lparr>sl_locked := 0, sl_name := nm, sl_pid := 0\<rparr> = \<lparr>sl_locked = 0, sl_name = nm, sl_pid = 0\<rparr>" for k :: sleeplock and nm
    by (cases k) simp
  show ?thesis
    by (simp add: kbind_def on_buf_apply bget_field_apply sleep_initlock_def initlock_def buf_sk_def link_in_def Let_def eq)
qed

declare init_bcache_loop.simps(2) [simp del]

lemma link_in_ring:
  assumes len: "length bs = Suc NBUF" and rg: "ring HEAD (nx bs) (pv bs) ys" and b: "b < NBUF" "b \<notin> set ys"
    and ys: "set ys \<subseteq> {0..<NBUF}"
  shows "ring HEAD (nx (link_in b bs)) (pv (link_in b bs)) (b # ys)" and "length (link_in b bs) = Suc NBUF"
    and "map (\<lambda>k. (strip k)\<lparr>b_sk := x\<rparr>) (link_in b bs) = map (\<lambda>k. (strip k)\<lparr>b_sk := x\<rparr>) bs"
    and "b_sk (link_in b bs ! i) = (if i = b then \<lparr>sl_locked = 0, sl_name = ''buffer'', sl_pid = 0\<rparr> else b_sk (bs ! i))"
proof -
  define n where "n = nx bs HEAD"
  have bl: "b < length bs" "b \<noteq> HEAD" "HEAD < length bs" using b len by (auto simp: NBUF_def HEAD_def)
  have "n = hd (ys @ [HEAD])" using ring_head [OF rg] by (simp add: n_def)
  then have "n = HEAD \<or> n \<in> set ys" by (cases ys) auto
  then have nl: "n < length bs" "n \<noteq> b" using ys bl len b(2) by auto
  define bs1 where "bs1 = bs[b := (bs ! b)\<lparr>b_next := n\<rparr>]"
  define bs2 where "bs2 = bs1[b := (bs1 ! b)\<lparr>b_prev := HEAD\<rparr>]"
  define bs3 where "bs3 = bs2[b := (bs2 ! b)\<lparr>b_sk := \<lparr>sl_locked = 0, sl_name = ''buffer'', sl_pid = 0\<rparr>\<rparr>]"
  define bs4 where "bs4 = bs3[n := (bs3 ! n)\<lparr>b_prev := b\<rparr>]"
  define bs5 where "bs5 = bs4[HEAD := (bs4 ! HEAD)\<lparr>b_next := b\<rparr>]"
  have f: "link_in b bs = bs5"
    by (simp add: link_in_def Let_def bs5_def bs4_def bs3_def bs2_def bs1_def n_def)
  have N1: "nx bs1 = (nx bs)(b := n)" "pv bs1 = pv bs" "length bs1 = length bs"
    using bl nx_upd [of b bs] by (simp_all add: bs1_def fun_eq_iff)
  have N2: "nx bs2 = (nx bs)(b := n)" "pv bs2 = (pv bs)(b := HEAD)" "length bs2 = length bs"
    using bl nx_upd [of b bs1] N1 by (simp_all add: bs2_def fun_eq_iff)
  have N3: "nx bs3 = (nx bs)(b := n)" "pv bs3 = (pv bs)(b := HEAD)" "length bs3 = length bs"
    using bl nx_upd [of b bs2] N2 by (simp_all add: bs3_def fun_eq_iff)
  have N4: "nx bs4 = (nx bs)(b := n)" "pv bs4 = (pv bs)(b := HEAD, n := b)" "length bs4 = length bs"
    using nl nx_upd [of n bs3] N3 by (simp_all add: bs4_def fun_eq_iff)
  have N5: "nx bs5 = (nx bs)(b := n, HEAD := b)" "pv bs5 = (pv bs)(b := HEAD, n := b)" "length bs5 = length bs"
    using bl nx_upd [of HEAD bs4] N4 by (simp_all add: bs5_def fun_eq_iff)
  show "ring HEAD (nx (link_in b bs)) (pv (link_in b bs)) (b # ys)"
    unfolding f N5 n_def by (rule links_push [OF rg]) (use b bl in auto)
  show "length (link_in b bs) = Suc NBUF" using N5 len f by simp
  have up: "map g (cs[j := k]) = map g cs" if "g k = g (cs ! j)" for g :: "buf \<Rightarrow> buf" and cs j k
    using that by (metis list_update_id map_update)
  have s2: "(strip (k\<lparr>b_sk := y\<rparr>))\<lparr>b_sk := x\<rparr> = (strip k)\<lparr>b_sk := x\<rparr>" for k y by (cases k) (simp add: strip_def)
  show "map (\<lambda>k. (strip k)\<lparr>b_sk := x\<rparr>) (link_in b bs) = map (\<lambda>k. (strip k)\<lparr>b_sk := x\<rparr>) bs"
    unfolding f bs5_def bs4_def bs3_def bs2_def bs1_def by (simp only: up strip_links s2)
  show "b_sk (link_in b bs ! i) = (if i = b then \<lparr>sl_locked = 0, sl_name = ''buffer'', sl_pid = 0\<rparr> else b_sk (bs ! i))"
    unfolding f bs5_def bs4_def bs3_def bs2_def bs1_def using bl nl by (auto simp: nth_list_update)
qed

definition unlinked :: "buf \<Rightarrow> buf" where
  "unlinked k = (strip k)\<lparr>b_sk := \<lparr>sl_locked = 0, sl_name = '''', sl_pid = 0\<rparr>\<rparr>"

lemma init_bcache_loop_ok:
  assumes "length (bufs s) = Suc NBUF" and "ring HEAD (nx (bufs s)) (pv (bufs s)) ys"
    and "distinct bs" and "set bs \<inter> set ys = {}" and "set bs \<subseteq> {0..<NBUF}" and "set ys \<subseteq> {0..<NBUF}"
    and "\<forall>L. free_lock (locks s) L" and "\<forall>i \<in> set ys. sl_locked (b_sk (bufs s ! i)) = 0"
  shows "\<exists>ls xs. init_bcache_loop bs s = Ret () (s\<lparr>locks := ls, bufs := xs\<rparr>) \<and> length xs = Suc NBUF \<and>
    ring HEAD (nx xs) (pv xs) (rev bs @ ys) \<and> (\<forall>L. free_lock ls L) \<and> map unlinked xs = map unlinked (bufs s) \<and>
    (\<forall>i \<in> set (rev bs @ ys). sl_locked (b_sk (xs ! i)) = 0)"
  using assms
proof (induction bs arbitrary: s ys)
  case Nil
  then show ?case by (intro exI [of _ "locks s"] exI [of _ "bufs s"]) simp
next
  case (Cons b bs)
  have b: "b < NBUF" "b \<notin> set ys" using Cons.prems by auto
  note li = link_in_ring [OF Cons.prems(1,2) b Cons.prems(6)]
  define t where "t = s\<lparr>locks := (locks s)(BufLk b := (locks s (BufLk b))\<lparr>lk_name := ''buffer'', locked := 0\<rparr>),
    bufs := link_in b (bufs s)\<rparr>"
  have bt: "bufs t = link_in b (bufs s)" by (simp add: t_def)
  have fl: "\<forall>L. free_lock (locks t) L" using Cons.prems(7) by (simp add: free_lock_def t_def)
  have lk: "\<forall>i \<in> set (b # ys). sl_locked (b_sk (bufs t ! i)) = 0" using Cons.prems(8) li(4) by (simp add: bt)
  have mu: "map unlinked (link_in b (bufs s)) = map unlinked (bufs s)"
    unfolding unlinked_def by (rule li(3))
  have sets: "distinct bs" "set bs \<inter> set (b # ys) = {}" "set bs \<subseteq> {0..<NBUF}" "set (b # ys) \<subseteq> {0..<NBUF}"
    using Cons.prems(3-6) by auto
  obtain ls xs where u: "init_bcache_loop bs t = Ret () (t\<lparr>locks := ls, bufs := xs\<rparr>)" "length xs = Suc NBUF"
    "ring HEAD (nx xs) (pv xs) (rev bs @ b # ys)" "\<forall>L. free_lock ls L" "map unlinked xs = map unlinked (bufs t)"
    "\<forall>i \<in> set (rev bs @ b # ys). sl_locked (b_sk (xs ! i)) = 0"
    using Cons.IH [OF _ _ sets fl lk] li(1,2) unfolding bt by blast
  have "init_bcache_loop (b # bs) s = Ret () (s\<lparr>locks := ls, bufs := xs\<rparr>)"
    using u(1) by (simp add: init_turn t_def)
  then show ?case using u(2-6) mu unfolding bt by (intro exI [of _ ls] exI [of _ xs]) simp
qed

lemma init_bcache_ok:
  assumes c: "calm p s" and len: "length (bufs s) = Suc NBUF"
    and fresh: "\<And>i. i < NBUF \<Longrightarrow> b_dev (bufs s ! i) = 0 \<and> length (b_data (bufs s ! i)) = BSIZE"
  obtains ls xs where "init_bcache s = Ret () (s\<lparr>locks := ls, bufs := xs\<rparr>)" "bc_ok xs" "lru xs (rev [0..<NBUF])"
    "calm p (s\<lparr>locks := ls, bufs := xs\<rparr>)" "map unlinked xs = map unlinked (bufs s)"
proof -
  define a where "a = s\<lparr>locks := (locks s)(BcacheLk := (locks s BcacheLk)\<lparr>lk_name := ''bcache'', locked := 0\<rparr>),
    bufs := (bufs s)[HEAD := (bufs s ! HEAD)\<lparr>b_prev := HEAD, b_next := HEAD\<rparr>]\<rparr>"
  have H: "HEAD < length (bufs s)" using len by (simp add: HEAD_def NBUF_def)
  have la: "length (bufs a) = Suc NBUF" using len by (simp add: a_def)
  have ra: "ring HEAD (nx (bufs a)) (pv (bufs a)) []" using H by (simp add: a_def ring_def)
  have fa: "\<forall>L. free_lock (locks a) L" using calm_simps(5) [OF c] by (simp add: a_def free_lock_def)
  have mu: "map unlinked (bufs a) = map unlinked (bufs s)"
  proof -
    have "unlinked ((bufs s ! HEAD)\<lparr>b_prev := HEAD, b_next := HEAD\<rparr>) = unlinked (bufs s ! HEAD)" by (simp add: unlinked_def)
    then show ?thesis by (simp add: a_def) (metis list_update_id map_update)
  qed
  obtain ls xs where u: "init_bcache_loop [0..<NBUF] a = Ret () (a\<lparr>locks := ls, bufs := xs\<rparr>)" "length xs = Suc NBUF"
    "ring HEAD (nx xs) (pv xs) (rev [0..<NBUF] @ [])" "\<forall>L. free_lock ls L" "map unlinked xs = map unlinked (bufs a)"
    "\<forall>i \<in> set (rev [0..<NBUF] @ []). sl_locked (b_sk (xs ! i)) = 0"
    using init_bcache_loop_ok [OF la ra, of "[0..<NBUF]"] fa by auto
  have run: "init_bcache s = Ret () (s\<lparr>locks := ls, bufs := xs\<rparr>)"
    using u(1) H by (simp add: init_bcache_def kbind_def initlock_def on_buf_apply a_def)
  have l: "lru xs (rev [0..<NBUF])" using u(2,3) by (simp add: lru_def)
  have eq: "map unlinked xs = map unlinked (bufs s)" using u(5) mu by simp
  have un: "unlinked (xs ! i) = unlinked (bufs s ! i)" if "i < NBUF" for i
    using arg_cong [OF eq, of "\<lambda>l. l ! i"] that u(2) len by simp
  have sel: "b_dev k = b_dev (unlinked k)" "b_data k = b_data (unlinked k)" for k by (simp_all add: unlinked_def strip_def)
  have "b_dev (xs ! i) = 0 \<and> length (b_data (xs ! i)) = BSIZE" if "i < NBUF" for i
    using fresh [OF that] sel(1,2) [of "xs ! i"] sel(1,2) [of "bufs s ! i"] unfolding un [OF that] by simp
  then have ok: "bc_ok xs" using l u(6) unfolding bc_ok_def by auto
  have "calm p (s\<lparr>locks := ls, bufs := xs\<rparr>)" using c u(4) by (simp add: calm_def cur_def)
  then show thesis using that run ok l eq by blast
qed

section \<open>Properties\<close>

text \<open>The buffer the cache should choose: the one that holds the block, else, of the buffers without
  references, the one whose last release is longest ago.\<close>

definition lru_pick :: "u32 \<Rightarrow> u32 \<Rightarrow> buf list \<Rightarrow> nat list \<Rightarrow> nat option" where
  "lru_pick dev n bs xs = (case find (\<lambda>i. has_block dev n (bs ! i)) xs of
     Some r \<Rightarrow> Some r | None \<Rightarrow> find (\<lambda>i. b_refcnt (bs ! i) = 0) (rev xs))"

lemma get_release:
  assumes c: "calm p s" and ok: "bc_ok (bufs s)" and l: "lru (bufs s) xs" and r: "r < NBUF"
    and g: "bget dev n s = Ret r (s\<lparr>bufs := (bufs s)[r := k]\<rparr>)"
    and k: "has_block dev n k" "b_next k = nx (bufs s) r" "b_prev k = pv (bufs s) r" "length (b_data k) = BSIZE"
      "b_sk k = lock_of p s (b_sk (bufs s ! r))" "b_refcnt k \<noteq> 0" "b_refcnt k = 1 \<longleftrightarrow> b_refcnt (bufs s ! r) = 0"
    and alone: "\<And>j. j < NBUF \<Longrightarrow> j \<noteq> r \<Longrightarrow> \<not> has_block dev n (bufs s ! j)"
  shows "\<exists>t u. bget dev n s = Ret r t \<and> has_block dev n (bufs t ! r) \<and> bc_ok (bufs t) \<and> lru (bufs t) xs \<and>
    brelease r t = Ret () u \<and> bc_ok (bufs u) \<and> lru (bufs u) (if b_refcnt (bufs s ! r) = 0 then r # remove1 r xs else xs)"
proof -
  let ?t = "s\<lparr>bufs := (bufs s)[r := k]\<rparr>"
  have len: "r < length (bufs s)" using r bc_ok_len [OF ok] by simp
  have ct: "calm p ?t" by (rule calm_frame [OF c]) simp_all
  have okt: "bc_ok (bufs ?t)"
    using bc_ok_upd [OF ok r, of k] k alone by (simp add: has_block_def)
  have lt: "lru (bufs ?t) xs" using lru_frame [OF l, of k r] k by simp
  have own: "held_buf p ?t r" using len k(5) by (simp add: held_buf_def lock_of_def)
  obtain bs where b: "brelease r ?t = Ret () (?t\<lparr>bufs := bs\<rparr>)" "bc_ok bs"
    "lru bs (if b_refcnt (bufs ?t ! r) = 1 then r # remove1 r xs else xs)"
    by (rule brelease_spec [OF ct okt r own lt])
  then show ?thesis using g k len okt lt
    by (intro exI [of _ ?t] exI [of _ "?t\<lparr>bufs := bs\<rparr>"]) simp
qed

text \<open>(C7) The cache is a least-recently-used cache. \<open>bget\<close> returns the buffer \<open>lru_pick\<close> chooses from the list
  (and panics when there is none), and \<open>brelease\<close> of the last reference moves the buffer to the front of the
  list while every other release leaves the order alone; the list stays well linked throughout.\<close>

theorem bcache_lru:
  assumes c: "calm p s" and ok: "bc_ok (bufs s)" and l: "lru (bufs s) xs" and dev: "dev \<noteq> 0"
    and idle: "\<And>i. i < NBUF \<Longrightarrow> sl_locked (b_sk (bufs s ! i)) = 0 \<and> b_refcnt (bufs s ! i) + 1 \<noteq> 0"
  shows "case lru_pick dev n (bufs s) xs of None \<Rightarrow> bget dev n s = Panic ''bget panic..''
    | Some r \<Rightarrow> \<exists>t u. bget dev n s = Ret r t \<and> has_block dev n (bufs t ! r) \<and> bc_ok (bufs t) \<and> lru (bufs t) xs \<and>
        brelease r t = Ret () u \<and> bc_ok (bufs u) \<and>
        lru (bufs u) (if b_refcnt (bufs s ! r) = 0 then r # remove1 r xs else xs)"
proof (cases "find (\<lambda>i. has_block dev n (bufs s ! i)) xs")
  case (Some r)
  have r: "r < NBUF" "has_block dev n (bufs s ! r)" using find_in_lru(2) [OF l Some] by blast+
  have only: "\<not> has_block dev n (bufs s ! j)" if "j < NBUF" "j \<noteq> r" for j
    using bc_ok_unique [OF ok that(1) r(1) _ r(2) dev] that(2) by blast
  have one: "b_refcnt (bufs s ! r) + 1 = 1 \<longleftrightarrow> b_refcnt (bufs s ! r) = 0" by simp
  have f: "sl_locked (b_sk (bufs s ! r)) = 0" "b_refcnt (bufs s ! r) + 1 \<noteq> 0" using idle [OF r(1)] by blast+
  have d: "length (b_data (bufs s ! r)) = BSIZE" using ok r(1) by (simp add: bc_ok_def)
  have "\<exists>t u. bget dev n s = Ret r t \<and> has_block dev n (bufs t ! r) \<and> bc_ok (bufs t) \<and> lru (bufs t) xs \<and>
    brelease r t = Ret () u \<and> bc_ok (bufs u) \<and> lru (bufs u) (if b_refcnt (bufs s ! r) = 0 then r # remove1 r xs else xs)"
    by (rule get_release [OF c ok l r(1) bget_hit [OF c l Some f(1)]])
      (use r f(2) d one only in \<open>simp_all add: claim_hit_def Let_def has_block_def\<close>)
  then show ?thesis using Some by (simp add: lru_pick_def)
next
  case None
  then have miss: "\<not> has_block dev n (bufs s ! j)" if "j < NBUF" for j
    using that by (simp add: find_in_lru(1) [OF l])
  show ?thesis
  proof (cases "find (\<lambda>i. b_refcnt (bufs s ! i) = 0) (rev xs)")
    case none: None
    then show ?thesis using bget_none [OF c l None none] None by (simp add: lru_pick_def)
  next
    case (Some r)
    have r: "r < NBUF" "b_refcnt (bufs s ! r) = 0" using find_in_lru(4) [OF l Some] by blast+
    have f: "sl_locked (b_sk (bufs s ! r)) = 0" "length (b_data (bufs s ! r)) = BSIZE" using ok r by (auto simp: bc_ok_def)
    have "\<exists>t u. bget dev n s = Ret r t \<and> has_block dev n (bufs t ! r) \<and> bc_ok (bufs t) \<and> lru (bufs t) xs \<and>
      brelease r t = Ret () u \<and> bc_ok (bufs u) \<and> lru (bufs u) (if b_refcnt (bufs s ! r) = 0 then r # remove1 r xs else xs)"
      by (rule get_release [OF c ok l r(1) bget_miss [OF c l None Some f(1)]])
        (use r f miss in \<open>simp_all add: claim_miss_def Let_def has_block_def\<close>)
    then show ?thesis using None Some by (simp add: lru_pick_def)
  qed
qed

lemma run_cache:
  obtains s where "calm 0 s" "driver_idle (s :: disk_st)" "bc_ok (bufs s)" "lru (bufs s) (rev [0..<NBUF])"
    "sectors s = sectors run_disk" "\<And>i. i < NBUF \<Longrightarrow> b_dev (bufs s ! i) = 0 \<and> b_refcnt (bufs s ! i) = 0 \<and> b_vaild (bufs s ! i) = 0"
proof -
  have f: "length (bufs run_disk) = Suc NBUF"
    "\<And>i. i < NBUF \<Longrightarrow> b_dev (bufs run_disk ! i) = 0 \<and> length (b_data (bufs run_disk ! i)) = BSIZE"
    by (simp_all add: run_disk_sel NBUF_def blank_buf_def)
  obtain ls xs where i: "bc_ok xs" "lru xs (rev [0..<NBUF])"
    "calm 0 (run_disk\<lparr>locks := ls, bufs := xs\<rparr>)" "map unlinked xs = map unlinked (bufs run_disk)"
    using init_bcache_ok [OF run_disk_calm f] by blast
  have "b_dev (xs ! i) = 0 \<and> b_refcnt (xs ! i) = 0 \<and> b_vaild (xs ! i) = 0" if "i < NBUF" for i
  proof -
    have "unlinked (xs ! i) = unlinked (bufs run_disk ! i)"
      using arg_cong [OF i(4), of "\<lambda>l. l ! i"] that bc_ok_len [OF i(1)] f(1) by simp
    then have "b_dev (unlinked (xs ! i)) = 0" "b_refcnt (unlinked (xs ! i)) = 0" "b_vaild (unlinked (xs ! i)) = 0"
      using that by (simp_all add: run_disk_sel NBUF_def blank_buf_def unlinked_def strip_def)
    then show ?thesis by (simp add: unlinked_def strip_def)
  qed
  moreover have "driver_idle (run_disk\<lparr>locks := ls, bufs := xs\<rparr>)" using run_disk_idle by (simp add: driver_idle_def)
  ultimately show thesis using i that [of "run_disk\<lparr>locks := ls, bufs := xs\<rparr>"] by simp
qed

theorem bcache_lru_witness:
  "\<exists>(s :: disk_st) t u. bget 1 7 s = Ret 0 t \<and> brelease 0 t = Ret () u \<and> lru (bufs u) (0 # rev [1..<NBUF])"
proof -
  obtain s :: disk_st where s: "calm 0 s" "bc_ok (bufs s)" "lru (bufs s) (rev [0..<NBUF])"
    "\<And>i. i < NBUF \<Longrightarrow> b_dev (bufs s ! i) = 0 \<and> b_refcnt (bufs s ! i) = 0 \<and> b_vaild (bufs s ! i) = 0"
    by (rule run_cache) blast
  have idle: "sl_locked (b_sk (bufs s ! i)) = 0 \<and> b_refcnt (bufs s ! i) + 1 \<noteq> 0" if "i < NBUF" for i
    using s(2) s(4) [OF that] that by (simp add: bc_ok_def)
  have "find (\<lambda>i. has_block 1 7 (bufs s ! i)) (rev [0..<NBUF]) = None"
    using find_in_lru(1) [OF s(3)] s(4) by (simp add: has_block_def)
  moreover have up: "[0..<NBUF] = 0 # [1..<NBUF]" by (simp add: upt_conv_Cons NBUF_def)
  moreover have "b_refcnt (bufs s ! 0) = 0" using s(4) [of 0] by (simp add: NBUF_def)
  ultimately have "lru_pick 1 7 (bufs s) (rev [0..<NBUF]) = Some 0" by (simp add: lru_pick_def)
  then have "\<exists>t u. bget 1 7 s = Ret 0 t \<and> has_block 1 7 (bufs t ! 0) \<and> bc_ok (bufs t) \<and> lru (bufs t) (rev [0..<NBUF]) \<and>
      brelease 0 t = Ret () u \<and> bc_ok (bufs u) \<and> lru (bufs u) (0 # remove1 0 (rev [0..<NBUF]))"
    using bcache_lru [OF s(1,2,3), of 1 7] idle \<open>b_refcnt (bufs s ! 0) = 0\<close> by simp
  moreover have "remove1 0 (rev [0..<NBUF]) = rev [1..<NBUF]" unfolding up by (simp add: remove1_append)
  ultimately show ?thesis by auto
qed

text \<open>(C32) \<open>bread\<close> delivers the block. With the disk idle and an unlocked or replaceable buffer at hand it returns a
  locked, valid buffer whose data is the current contents of the block (the cached copy if there is one,
  the disk's otherwise), and it changes the contents of no block, not even of the one whose buffer it
  replaced, provided unused buffers agree with the disk.\<close>

theorem bread_delivers:
  assumes c: "calm p s" and idle: "driver_idle s" and ok: "bc_ok (bufs s)" and dev: "dev \<noteq> 0" and st: "steady s"
    and sec: "\<And>a. length (sectors s a) = 512"
    and i: "i < NBUF" "b_refcnt (bufs s ! i) = 0"
    and free: "\<And>j. j < NBUF \<Longrightarrow> has_block dev n (bufs s ! j) \<Longrightarrow> b_refcnt (bufs s ! j) = 0"
  shows "\<exists>r t. bread dev n s = Ret r t \<and> r < NBUF \<and> has_block dev n (bufs t ! r) \<and> held_buf p t r \<and>
    b_data (bufs t ! r) = blk s dev n \<and> (\<forall>d m. d \<noteq> 0 \<longrightarrow> blk t d m = blk s d m) \<and> bc_ok (bufs t) \<and> driver_idle t"
proof (cases "\<exists>j < NBUF. has_block dev n (bufs s ! j)")
  case True
  then obtain j where j: "j < NBUF" "has_block dev n (bufs s ! j)" by blast
  have z: "b_refcnt (bufs s ! j) = 0" using free j by blast
  have "sl_locked (b_sk (bufs s ! j)) = 0" using ok j z by (simp add: bc_ok_def)
  then obtain t where "bread dev n s = Ret j t" "bread_post p dev n s j t"
    using bread_hit [OF c idle ok dev sec j] z by auto
  then show ?thesis by (intro exI [of _ j] exI [of _ t]) (simp add: bread_post_def valid_block_def)
next
  case False
  then obtain r t where "bread dev n s = Ret r t" "bread_post p dev n s r t"
    using bread_miss [OF c idle ok dev sec st _ i, of n] by auto
  then show ?thesis by (intro exI [of _ r] exI [of _ t]) (simp add: bread_post_def valid_block_def)
qed

theorem bread_delivers_witness:
  "\<exists>(s :: disk_st) r t. bread 1 0 s = Ret r t \<and> b_data (bufs t ! r) = replicate 512 0 @ replicate 512 1"
proof -
  obtain s :: disk_st where s: "calm 0 s" "driver_idle s" "bc_ok (bufs s)" "sectors s = sectors run_disk"
    "\<And>i. i < NBUF \<Longrightarrow> b_dev (bufs s ! i) = 0 \<and> b_refcnt (bufs s ! i) = 0 \<and> b_vaild (bufs s ! i) = 0" and l: "lru (bufs s) (rev [0..<NBUF])"
    by (rule run_cache) blast
  have d: "disk_block (sectors run_disk) 0 = replicate 512 0 @ replicate 512 1"
    by (simp add: disk_block_def rd_sectors_def run_disk_sel sector_of_def upt_rec [of 0 2] upt_rec [of "Suc 0" 2])
  have b: "blk s 1 0 = disk_block (sectors run_disk) 0"
    using blk_uncached [of 1 0 s] s(4,5) by (simp add: valid_block_def has_block_def)
  have st: "steady s" using s(5) by (simp add: steady_def)
  have sec: "length (sectors s a) = 512" for a by (simp add: s(4) run_disk_sel)
  have z: "(0 :: nat) < NBUF" "b_refcnt (bufs s ! 0) = 0" using s(5) [of 0] by (simp_all add: NBUF_def)
  have "\<exists>r t. bread 1 0 s = Ret r t \<and> r < NBUF \<and> has_block 1 0 (bufs t ! r) \<and> held_buf 0 t r \<and>
    b_data (bufs t ! r) = blk s 1 0 \<and> (\<forall>d m. d \<noteq> 0 \<longrightarrow> blk t d m = blk s d m) \<and> bc_ok (bufs t) \<and> driver_idle t"
    by (rule bread_delivers [OF s(1,2,3) _ st sec z]) (use s(5) in simp_all)
  then show ?thesis using b d by (intro exI [of _ s]) auto
qed

end
