(* ===== verification/Inode.thy ===== *)
theory Inode
  imports Bcache
begin

text \<open>
  Inodes, files in blocks and directories: the rest of \<^verbatim>\<open>kernel/fs.c\<close>. A \<open>struct inode *\<close> is an index into
  \<open>inodecache.inodes\<close>, and \<open>None\<close> where the code tests for null. The integers inside a block are little
  endian. The kernel side of a copy is one of three things: a user address, a physical address, or an
  object on the kernel stack (\<open>Local\<close>), whose bytes are passed and returned as a list.
\<close>

section \<open>Layout\<close>

definition INODES :: nat where "INODES = 32"
definition NINDIRECT :: nat where "NINDIRECT = 256"
definition MAXFILE :: nat where "MAXFILE = NDIRECT + NINDIRECT"
definition IPB :: nat where "IPB = 16"
definition BPB :: nat where "BPB = BSIZE * 8"
definition DIRSIZ :: nat where "DIRSIZ = 14"
definition ROOTDEV :: u32 where "ROOTDEV = 1"
definition ROOTINO :: u32 where "ROOTINO = 1"

definition BBLOCK :: "nat \<Rightarrow> superblock \<Rightarrow> u32" where
  "BBLOCK b s = of_nat (b div BPB) + bmapstart s"

definition IBLOCK :: "u32 \<Rightarrow> superblock \<Rightarrow> u32" where
  "IBLOCK i s = of_nat (unat i div IPB) + inodestart s"

definition rd16 :: "u8 list \<Rightarrow> nat \<Rightarrow> u16" where
  "rd16 d i = ucast (d ! i) OR push_bit 8 (ucast (d ! (i + 1)))"

definition wr16 :: "u8 list \<Rightarrow> nat \<Rightarrow> u16 \<Rightarrow> u8 list" where
  "wr16 d i v = d[i := ucast v, i + 1 := ucast (drop_bit 8 v)]"

definition wr32 :: "u8 list \<Rightarrow> nat \<Rightarrow> u32 \<Rightarrow> u8 list" where
  "wr32 d i v = d[i := ucast v, i + 1 := ucast (drop_bit 8 v), i + 2 := ucast (drop_bit 16 v), i + 3 := ucast (drop_bit 24 v)]"

record dinode =
  di_type :: u16
  di_major :: u16
  di_minor :: u16
  di_nlink :: u16
  di_size :: u32
  di_addrs :: "u32 list"

text \<open>Disk inode \<open>k\<close> of a block: 64 bytes.\<close>

definition dec_dinode :: "u8 list \<Rightarrow> nat \<Rightarrow> dinode" where
  "dec_dinode d k = (let o' = 64 * k in
     \<lparr>di_type = rd16 d o', di_major = rd16 d (o' + 2), di_minor = rd16 d (o' + 4), di_nlink = rd16 d (o' + 6),
      di_size = rd32 d (o' + 8), di_addrs = map (\<lambda>i. rd32 d (o' + 12 + 4 * i)) [0..<Suc NDIRECT]\<rparr>)"

definition enc_dinode :: "u8 list \<Rightarrow> nat \<Rightarrow> dinode \<Rightarrow> u8 list" where
  "enc_dinode d k x = (let o' = 64 * k;
     d1 = wr32 (wr16 (wr16 (wr16 (wr16 d o' (di_type x)) (o' + 2) (di_major x)) (o' + 4) (di_minor x)) (o' + 6) (di_nlink x))
            (o' + 8) (di_size x) in
     fold (\<lambda>i d. wr32 d (o' + 12 + 4 * i) (di_addrs x ! i)) [0..<Suc NDIRECT] d1)"

definition iget_field :: "nat \<Rightarrow> (inode \<Rightarrow> 'a) \<Rightarrow> ('a, 'z fs_st_scheme) kop" where
  "iget_field i f = kget (\<lambda>s. f (inodes s ! i))"

definition on_inode :: "nat \<Rightarrow> (inode \<Rightarrow> inode) \<Rightarrow> (unit, 'z fs_st_scheme) kop" where
  "on_inode i f = kmod (\<lambda>s. s\<lparr>inodes := (inodes s)[i := f (inodes s ! i)]\<rparr>)"

definition inode_lk :: "nat \<Rightarrow> ('z fs_st_scheme) slref" where
  "inode_lk i = \<lparr>sl_spin = InodeLk i, sl_chan = InodeCh i, sl_get = (\<lambda>s. i_splock (inodes s ! i)),
     sl_upd = (\<lambda>f s. s\<lparr>inodes := (inodes s)[i := (inodes s ! i)\<lparr>i_splock := f (i_splock (inodes s ! i))\<rparr>]\<rparr>)\<rparr>"

definition set_data :: "nat \<Rightarrow> u8 list \<Rightarrow> (unit, 'z disk_st_scheme) kop" where
  "set_data b d = on_buf b (\<lambda>k. k\<lparr>b_data := d\<rparr>)"

section \<open>Inode cache\<close>

fun init_inodecache_loop :: "nat list \<Rightarrow> (unit, 'z fs_st_scheme) kop" where
  "init_inodecache_loop [] = kret ()"
| "init_inodecache_loop (i # is) =
     kthen (on_inode i (\<lambda>k. k\<lparr>i_ref := 0\<rparr>)) (
     kthen (on_inode i (\<lambda>k. k\<lparr>i_vaild := 0\<rparr>)) (
     kthen (sleep_initlock (inode_lk i) ''inode'') (
     init_inodecache_loop is)))"

definition init_inodecache :: "(unit, 'z fs_st_scheme) kop" where
  "init_inodecache = kthen (initlock InodecacheLk ''inodecache'') (init_inodecache_loop [0..<INODES])"

definition idup :: "nat \<Rightarrow> (nat, 'z fs_st_scheme) kop" where
  "idup i =
     kthen (acquire InodecacheLk) (
     kthen (on_inode i (\<lambda>k. k\<lparr>i_ref := i_ref k + 1\<rparr>)) (
     kthen (release InodecacheLk) (kret i)))"

text \<open>The loop of \<open>iget\<close>: \<open>Inl i\<close> is a hit; \<open>Inr r\<close> is the end of the table with the first free slot.\<close>

fun iget_loop :: "u32 \<Rightarrow> u32 \<Rightarrow> nat option \<Rightarrow> nat list \<Rightarrow> (nat + nat option, 'z fs_st_scheme) kop" where
  "iget_loop dev inum r [] = kret (Inr r)"
| "iget_loop dev inum r (i # is) =
     kbind (kget (\<lambda>s. inodes s ! i)) (\<lambda>k.
     if i_ref k > 0 \<and> i_dev k = dev \<and> i_inum k = inum then kret (Inl i)
     else iget_loop dev inum (if i_ref k = 0 \<and> r = None then Some i else r) is)"

definition iget :: "u32 \<Rightarrow> u32 \<Rightarrow> (nat, 'z fs_st_scheme) kop" where
  "iget dev inum =
     kthen (acquire InodecacheLk) (
     kbind (iget_loop dev inum None [0..<INODES]) (\<lambda>x.
     case x of
       Inl i \<Rightarrow>
         kthen (on_inode i (\<lambda>k. k\<lparr>i_ref := i_ref k + 1\<rparr>)) (kthen (release InodecacheLk) (kret i))
     | Inr None \<Rightarrow> kpanic ''iget panic''
     | Inr (Some i) \<Rightarrow>
         kthen (on_inode i (\<lambda>k. k\<lparr>i_dev := dev, i_inum := inum, i_ref := 1, i_vaild := 0\<rparr>)) (
         kthen (release InodecacheLk) (kret i))))"

definition rooti :: "(nat, 'z fs_st_scheme) kop" where
  "rooti = iget ROOTDEV ROOTINO"

section \<open>Blocks\<close>

text \<open>\<open>balloc\<close>: the inner loop over the bits of one bitmap block, the outer loop over bitmap blocks.\<close>

fun balloc_bits :: "nat \<Rightarrow> nat \<Rightarrow> nat \<Rightarrow> nat list \<Rightarrow> (nat option, 'z fs_st_scheme) kop" where
  "balloc_bits r b sz [] = kret None"
| "balloc_bits r b sz (bi # bis) =
     (if b + bi < sz then
        kbind (bget_field r b_data) (\<lambda>d.
        let m = push_bit (bi mod 8) 1 in
        if (d ! (bi div 8)) AND m = 0 then
          kthen (set_data r (d[bi div 8 := (d ! (bi div 8)) OR m])) (kret (Some bi))
        else balloc_bits r b sz bis)
      else kret None)"

fun balloc_blocks :: "u32 \<Rightarrow> nat \<Rightarrow> nat list \<Rightarrow> (u32, 'z fs_st_scheme) kop" where
  "balloc_blocks dev sz [] = kpanic ''balloc panic...''"
| "balloc_blocks dev sz (b # bs) =
     kbind (kget (\<lambda>s. BBLOCK b (sb s))) (\<lambda>bn.
     kbind (bread dev bn) (\<lambda>r.
     kbind (balloc_bits r b sz [0..<BPB]) (\<lambda>x.
     kthen (brelease r) (
     case x of Some bi \<Rightarrow> kret (of_nat (b + bi)) | None \<Rightarrow> balloc_blocks dev sz bs))))"

definition balloc :: "u32 \<Rightarrow> (u32, 'z fs_st_scheme) kop" where
  "balloc dev =
     kbind (kget (\<lambda>s. unat (sb_size (sb s)))) (\<lambda>sz.
     balloc_blocks dev sz (map (\<lambda>i. i * BPB) [0..<(sz + BPB - 1) div BPB]))"

definition bfree :: "u32 \<Rightarrow> u32 \<Rightarrow> (unit, 'z fs_st_scheme) kop" where
  "bfree dev b =
     kbind (kget (\<lambda>s. BBLOCK (unat b) (sb s))) (\<lambda>bn.
     kbind (bread dev bn) (\<lambda>r.
     kbind (bget_field r b_data) (\<lambda>d.
     let bi = unat b mod BPB; m = push_bit (bi mod 8) 1 in
     if (d ! (bi div 8)) AND m = 0 then kpanic ''freeing free block''
     else kthen (set_data r (d[bi div 8 := (d ! (bi div 8)) AND NOT m])) (brelease r))))"

definition bmap :: "nat \<Rightarrow> u32 \<Rightarrow> (u32, 'z fs_st_scheme) kop" where
  "bmap ip n =
     kbind (iget_field ip i_dev) (\<lambda>dev.
     if unat n < NDIRECT then
       kbind (iget_field ip (\<lambda>k. i_addrs k ! unat n)) (\<lambda>addr.
       if addr = 0 then
         kbind (balloc dev) (\<lambda>a.
         kthen (on_inode ip (\<lambda>k. k\<lparr>i_addrs := (i_addrs k)[unat n := a]\<rparr>)) (kret a))
       else kret addr)
     else if unat n - NDIRECT < NINDIRECT then
       kbind (iget_field ip (\<lambda>k. i_addrs k ! NDIRECT)) (\<lambda>addr.
       kbind (if addr = 0 then
                kbind (balloc dev) (\<lambda>a.
                kthen (on_inode ip (\<lambda>k. k\<lparr>i_addrs := (i_addrs k)[NDIRECT := a]\<rparr>)) (kret a))
              else kret addr) (\<lambda>addr'.
       kbind (bread dev addr') (\<lambda>bp.
       kbind (bget_field bp b_data) (\<lambda>d.
       kbind (if rd32 d (4 * (unat n - NDIRECT)) = 0 then
                kbind (balloc dev) (\<lambda>a.
                kbind (bget_field bp b_data) (\<lambda>d'.
                kthen (set_data bp (wr32 d' (4 * (unat n - NDIRECT)) a)) (kret a)))
              else kret (rd32 d (4 * (unat n - NDIRECT)))) (\<lambda>a.
       kthen (brelease bp) (kret a))))))
     else kpanic ''bmap panic...'')"

section \<open>Reading and writing\<close>

datatype kbuf = User u64 | Phys u64 | Local "u8 list"

text \<open>The call of \<open>either_copyout\<close> in \<open>readi\<close>, at distance \<open>tot\<close> from the start of the destination.\<close>

definition copy_to :: "kbuf \<Rightarrow> nat \<Rightarrow> u8 list \<Rightarrow> (int, 'z fs_st_scheme) kop" where
  "copy_to dst tot bs = (case dst of
     User va \<Rightarrow> either_copyout True (va + of_nat tot) bs (of_nat (length bs))
   | Phys pa \<Rightarrow> either_copyout False (pa + of_nat tot) bs (of_nat (length bs))
   | Local _ \<Rightarrow> kret 0)"

text \<open>\<open>readi\<close>: the offset \<open>off\<close> is never advanced. The second result are the bytes delivered.\<close>

function readi_loop :: "nat \<Rightarrow> kbuf \<Rightarrow> nat \<Rightarrow> nat \<Rightarrow> nat \<Rightarrow> u8 list \<Rightarrow> (int \<times> u8 list, 'z fs_st_scheme) kop" where
  "readi_loop ip dst off n tot got =
     (if tot < n then
        kbind (iget_field ip i_dev) (\<lambda>dev.
        kbind (bmap ip (of_nat (off div BSIZE))) (\<lambda>a.
        kbind (bread dev a) (\<lambda>b.
        let m = min (n - tot) (BSIZE - off mod BSIZE) in
        kbind (bget_field b (\<lambda>k. take m (drop (off mod BSIZE) (b_data k)))) (\<lambda>bs.
        kbind (copy_to dst tot bs) (\<lambda>r.
        if r = -1 then kthen (brelease b) (kret (-1, got))
        else kthen (brelease b) (readi_loop ip dst off n (tot + m) (got @ bs)))))))
      else kret (sint (of_nat tot :: u32), got))"
  by pat_completeness auto
termination
  by (relation "measure (\<lambda>(ip, dst, off, n, tot, got). n - tot)") (auto simp: BSIZE_def)

declare readi_loop.simps [simp del]

definition readi :: "nat \<Rightarrow> kbuf \<Rightarrow> u32 \<Rightarrow> u32 \<Rightarrow> (int \<times> u8 list, 'z fs_st_scheme) kop" where
  "readi ip dst off n =
     kbind (iget_field ip i_size) (\<lambda>sz.
     if off > sz \<or> off + n < off then kret (0, [])
     else readi_loop ip dst (unat off) (unat (if off + n > sz then sz - off else n)) 0 [])"

definition copy_from :: "u8 list \<Rightarrow> kbuf \<Rightarrow> nat \<Rightarrow> nat \<Rightarrow> (int \<times> u8 list, 'z fs_st_scheme) kop" where
  "copy_from dst src tot m = (case src of
     User va \<Rightarrow> either_copyin dst True (va + of_nat tot) (of_nat m)
   | Phys pa \<Rightarrow> either_copyin dst False (pa + of_nat tot) (of_nat m)
   | Local bs \<Rightarrow> kret (0, put dst 0 (take m (drop tot bs))))"

definition iupdate :: "nat \<Rightarrow> (unit, 'z fs_st_scheme) kop" where
  "iupdate ip =
     kbind (iget_field ip i_dev) (\<lambda>dev.
     kbind (kget (\<lambda>s. IBLOCK (i_inum (inodes s ! ip)) (sb s))) (\<lambda>bn.
     kbind (bread dev bn) (\<lambda>b.
     kbind (kget (\<lambda>s. inodes s ! ip)) (\<lambda>k.
     kbind (bget_field b b_data) (\<lambda>d.
     kthen (set_data b (enc_dinode d (unat (i_inum k) mod IPB)
       \<lparr>di_type = i_type k, di_major = i_major k, di_minor = i_minor k, di_nlink = i_nlink k,
        di_size = i_size k, di_addrs = i_addrs k\<rparr>)) (
     kthen (bwrite b) (
     brelease b)))))))"

function writei_loop :: "nat \<Rightarrow> kbuf \<Rightarrow> nat \<Rightarrow> nat \<Rightarrow> nat \<Rightarrow> (nat \<times> nat, 'z fs_st_scheme) kop" where
  "writei_loop ip src off n tot =
     (if tot < n then
        kbind (iget_field ip i_dev) (\<lambda>dev.
        kbind (bmap ip (of_nat (off div BSIZE))) (\<lambda>a.
        kbind (bread dev a) (\<lambda>bp.
        let m = min (n - tot) (BSIZE - off mod BSIZE) in
        kbind (bget_field bp b_data) (\<lambda>d.
        kbind (copy_from (drop (off mod BSIZE) d) src tot m) (\<lambda>(r, d').
        kthen (set_data bp (take (off mod BSIZE) d @ d')) (
        if r = -1 then kthen (brelease bp) (kpanic ''writi:either_copy'')
        else kthen (bwrite bp) (kthen (brelease bp) (writei_loop ip src (off + m) n (tot + m)))))))))
      else kret (tot, off))"
  by pat_completeness auto
termination
  by (relation "measure (\<lambda>(ip, src, off, n, tot). n - tot)") (auto simp: BSIZE_def)

declare writei_loop.simps [simp del]

definition writei :: "nat \<Rightarrow> kbuf \<Rightarrow> u32 \<Rightarrow> u32 \<Rightarrow> (int, 'z fs_st_scheme) kop" where
  "writei ip src off n =
     kbind (iget_field ip i_size) (\<lambda>sz.
     if off > sz \<or> off + n < off then
       kthen (printf (lit (''off > ip->size || off + n < off '' @ [CHR 0x0A])) []) (kret (-1))
     else if off + n > of_nat MAXFILE then
       kthen (printf (lit (''off + n > MAXFILE '' @ [CHR 0x0A])) []) (kret (-1))
     else
       kbind (writei_loop ip src (unat off) (unat n) 0) (\<lambda>(tot, off').
       kthen (kbind (iget_field ip i_size) (\<lambda>sz.
              kwhen (of_nat off' > sz) (on_inode ip (\<lambda>k. k\<lparr>i_size := of_nat off'\<rparr>)))) (
       kthen (iupdate ip) (kret (int tot)))))"

section \<open>Locking, truncating, releasing\<close>

text \<open>\<open>ilock\<close>; after loading the inode it sets \<open>vaild\<close> to 0.\<close>

definition ilock :: "nat option \<Rightarrow> (unit, 'z fs_st_scheme) kop" where
  "ilock oi = (case oi of None \<Rightarrow> kpanic ''ilock'' | Some i \<Rightarrow>
     kbind (iget_field i i_ref) (\<lambda>ref.
     if ref < 1 then kpanic ''ilock''
     else
       kthen (sleep_lock (inode_lk i)) (
       kbind (iget_field i i_vaild) (\<lambda>v.
       kwhen (v = 0) (
         kbind (kget (\<lambda>s. inodes s ! i)) (\<lambda>k.
         kbind (kget (\<lambda>s. IBLOCK (i_inum k) (sb s))) (\<lambda>bn.
         kbind (bread (i_dev k) bn) (\<lambda>b.
         kbind (bget_field b (\<lambda>q. dec_dinode (b_data q) (unat (i_inum k) mod IPB))) (\<lambda>d.
         kthen (on_inode i (\<lambda>q. q\<lparr>i_type := di_type d, i_size := di_size d, i_major := di_major d,
            i_minor := di_minor d, i_nlink := di_nlink d, i_addrs := di_addrs d\<rparr>)) (
         kthen (brelease b) (
         on_inode i (\<lambda>q. q\<lparr>i_vaild := 0\<rparr>))))))))))))"

definition iunlock :: "nat option \<Rightarrow> (unit, 'z fs_st_scheme) kop" where
  "iunlock oi = (case oi of None \<Rightarrow> kpanic ''iunlock'' | Some i \<Rightarrow>
     kbind (holdingsleep (inode_lk i)) (\<lambda>h.
     kbind (iget_field i i_ref) (\<lambda>ref.
     if \<not> h \<or> ref < 1 then kpanic ''iunlock'' else sleep_unlock (inode_lk i))))"

fun free_direct :: "nat \<Rightarrow> nat list \<Rightarrow> (unit, 'z fs_st_scheme) kop" where
  "free_direct ip [] = kret ()"
| "free_direct ip (i # is) =
     kbind (iget_field ip (\<lambda>k. i_addrs k ! i)) (\<lambda>a.
     kbind (iget_field ip i_dev) (\<lambda>dev.
     kthen (kwhen (a \<noteq> 0) (
       kthen (bfree dev a) (on_inode ip (\<lambda>k. k\<lparr>i_addrs := (i_addrs k)[i := 0]\<rparr>)))) (
     free_direct ip is)))"

fun free_indirect :: "u32 \<Rightarrow> nat \<Rightarrow> nat list \<Rightarrow> (unit, 'z fs_st_scheme) kop" where
  "free_indirect dev b [] = kret ()"
| "free_indirect dev b (i # is) =
     kbind (bget_field b (\<lambda>k. rd32 (b_data k) (4 * i))) (\<lambda>a.
     kthen (kwhen (a \<noteq> 0) (bfree dev a)) (free_indirect dev b is))"

text \<open>\<open>itrunc\<close>; the loop over the indirect block stops at \<open>NDIRECT\<close>.\<close>

definition itrunc :: "nat \<Rightarrow> (unit, 'z fs_st_scheme) kop" where
  "itrunc ip =
     kthen (free_direct ip [0..<NDIRECT]) (
     kbind (iget_field ip (\<lambda>k. i_addrs k ! NDIRECT)) (\<lambda>ind.
     kbind (iget_field ip i_dev) (\<lambda>dev.
     kthen (kwhen (ind \<noteq> 0) (
       kbind (bread dev ind) (\<lambda>b.
       kthen (free_indirect dev b [0..<NDIRECT]) (
       kthen (brelease b) (
       kthen (bfree dev ind) (
       on_inode ip (\<lambda>k. k\<lparr>i_addrs := (i_addrs k)[NDIRECT := 0]\<rparr>))))))) (
     kthen (on_inode ip (\<lambda>k. k\<lparr>i_size := 0\<rparr>)) (
     iupdate ip)))))"

definition iput :: "nat \<Rightarrow> (unit, 'z fs_st_scheme) kop" where
  "iput i =
     kthen (acquire InodecacheLk) (
     kbind (kget (\<lambda>s. inodes s ! i)) (\<lambda>k.
     kthen (kwhen (i_ref k = 1 \<and> i_vaild k \<noteq> 0 \<and> i_nlink k = 0) (
       kthen (sleep_lock (inode_lk i)) (
       kthen (release InodecacheLk) (
       kthen (itrunc i) (
       kthen (on_inode i (\<lambda>k. k\<lparr>i_type := 0\<rparr>)) (
       kthen (iupdate i) (
       kthen (on_inode i (\<lambda>k. k\<lparr>i_vaild := 0\<rparr>)) (
       kthen (sleep_unlock (inode_lk i)) (
       acquire InodecacheLk))))))))) (
     kthen (on_inode i (\<lambda>k. k\<lparr>i_ref := i_ref k - 1\<rparr>)) (
     release InodecacheLk))))"

definition iunlockput :: "nat \<Rightarrow> (unit, 'z fs_st_scheme) kop" where
  "iunlockput i = kthen (iunlock (Some i)) (iput i)"

text \<open>\<open>ialloc\<close>: the search starts at inode 0.\<close>

fun ialloc_loop :: "u32 \<Rightarrow> u16 \<Rightarrow> nat list \<Rightarrow> (nat option, 'z fs_st_scheme) kop" where
  "ialloc_loop dev type [] = kret None"
| "ialloc_loop dev type (inum # is) =
     kbind (kget (\<lambda>s. IBLOCK (of_nat inum) (sb s))) (\<lambda>bn.
     kbind (bread dev bn) (\<lambda>bp.
     kbind (bget_field bp b_data) (\<lambda>d.
     if di_type (dec_dinode d (inum mod IPB)) = 0 then
       kthen (set_data bp (enc_dinode d (inum mod IPB) \<lparr>di_type = type, di_major = 0, di_minor = 0, di_nlink = 0,
          di_size = 0, di_addrs = replicate (Suc NDIRECT) 0\<rparr>)) (
       kthen (bwrite bp) (
       kthen (brelease bp) (
       kbind (iget dev (of_nat inum)) (\<lambda>i. kret (Some i)))))
     else kthen (brelease bp) (ialloc_loop dev type is))))"

definition ialloc :: "u32 \<Rightarrow> u16 \<Rightarrow> (nat option, 'z fs_st_scheme) kop" where
  "ialloc dev type = kbind (kget (\<lambda>s. unat (ninodes (sb s)))) (\<lambda>n. ialloc_loop dev type [0..<n])"

section \<open>Directories\<close>

text \<open>\<open>inodeByName\<close>: the offsets of the entries, then the loop.\<close>

definition entry_offs :: "u32 \<Rightarrow> nat list" where
  "entry_offs sz = map (\<lambda>i. 16 * i) [0..<(unat sz + 15) div 16]"

fun inodeByName_loop :: "nat \<Rightarrow> u8 list \<Rightarrow> nat list \<Rightarrow> (nat option, 'z fs_st_scheme) kop" where
  "inodeByName_loop ip name [] = kret None"
| "inodeByName_loop ip name (off # offs) =
     kbind (readi ip (Local (replicate 16 0)) (of_nat off) 16) (\<lambda>(r, de).
     if r \<noteq> 16 then kpanic ''inodeByName panic...''
     else case strncmp name (drop 2 de) DIRSIZ of
       None \<Rightarrow> kfault ''strncmp''
     | Some c \<Rightarrow>
         if c = 0 then
           kbind (iget_field ip i_dev) (\<lambda>dev.
           kbind (iget dev (ucast (rd16 de 0))) (\<lambda>i. kret (Some i)))
         else inodeByName_loop ip name offs)"

definition inodeByName :: "nat \<Rightarrow> u8 list \<Rightarrow> (nat option, 'z fs_st_scheme) kop" where
  "inodeByName ip name =
     kbind (iget_field ip i_size) (\<lambda>sz. inodeByName_loop ip name (entry_offs sz))"

definition rootsub :: "u8 list \<Rightarrow> (nat option, 'z fs_st_scheme) kop" where
  "rootsub name =
     kbind rooti (\<lambda>root.
     kthen (ilock (Some root)) (
     kbind (inodeByName root name) (\<lambda>sub.
     kthen (iunlockput root) (kret sub))))"

definition iname :: "u8 list \<Rightarrow> (nat option, 'z fs_st_scheme) kop" where
  "iname name =
     kbind (iget ROOTDEV ROOTINO) (\<lambda>dp.
     case name of [] \<Rightarrow> kfault ''iname''
     | c # _ \<Rightarrow>
         if c = 47 then kret (Some dp)
         else
           kthen (ilock (Some dp)) (
           kbind (inodeByName dp name) (\<lambda>i.
           kthen (sleep_unlock (inode_lk dp)) (kret i))))"

text \<open>\<open>dirlink\<close>: \<open>find_slot\<close> is its loop; the result is the offset it stops at and the local \<open>dir\<close>.\<close>

fun find_slot :: "nat \<Rightarrow> u8 list \<Rightarrow> nat list \<Rightarrow> (nat option \<times> u8 list, 'z fs_st_scheme) kop" where
  "find_slot dp dir [] = kret (None, dir)"
| "find_slot dp dir (off # offs) =
     kbind (readi dp (Local dir) (of_nat off) 16) (\<lambda>(r, de).
     if r \<noteq> 16 then kpanic ''dirlink panic...''
     else if rd16 de 0 = 0 then kret (Some off, de)
     else find_slot dp de offs)"

definition dirlink :: "nat \<Rightarrow> u8 list \<Rightarrow> u16 \<Rightarrow> (int, 'z fs_st_scheme) kop" where
  "dirlink dp nm inum =
     kbind (iget_field dp i_size) (\<lambda>sz.
     kbind (find_slot dp (replicate 16 0) (entry_offs sz)) (\<lambda>(slot', dir).
     let off = (case slot' of Some o' \<Rightarrow> o' | None \<Rightarrow> 16 * ((unat sz + 15) div 16)) in
     case strncpy (drop 2 dir) nm (int DIRSIZ) of
       None \<Rightarrow> kfault ''strncpy''
     | Some nm' \<Rightarrow>
         kbind (writei dp (Local (wr16 (take 2 dir @ nm') 0 inum)) (of_nat off) 16) (\<lambda>r.
         if r \<noteq> 16 then kpanic ''dirlink writei'' else kret 0)))"

record stat =
  st_dev :: u32
  st_ino :: u32
  st_type :: u16
  st_nlink :: u16
  st_size :: u64

definition stati :: "nat \<Rightarrow> (stat, 'z fs_st_scheme) kop" where
  "stati i = kget (\<lambda>s. let k = inodes s ! i in
     \<lparr>st_dev = i_dev k, st_ino = i_inum k, st_type = i_type k, st_nlink = i_nlink k, st_size = ucast (i_size k)\<rparr>)"

section \<open>References to inodes\<close>

text \<open>The cache seen from outside: how many references each inode has. A slot without references counts for
  nothing, whatever it was last used for.\<close>

definition refs :: "inode list \<Rightarrow> u32 \<Rightarrow> u32 \<Rightarrow> int" where
  "refs ins dev inum = (\<Sum>k\<leftarrow>ins. if i_dev k = dev \<and> i_inum k = inum then i_ref k else 0)"

definition names :: "u32 \<Rightarrow> u32 \<Rightarrow> inode \<Rightarrow> bool" where
  "names dev inum k \<longleftrightarrow> i_ref k > 0 \<and> i_dev k = dev \<and> i_inum k = inum"

text \<open>The invariant: no negative counts, and an inode is in the cache at most once.\<close>

definition ic_ok :: "inode list \<Rightarrow> bool" where
  "ic_ok ins \<longleftrightarrow> length ins = INODES \<and> (\<forall>i < INODES. i_ref (ins ! i) \<ge> 0) \<and>
     (\<forall>i < INODES. \<forall>j < INODES. i_ref (ins ! i) > 0 \<longrightarrow> names (i_dev (ins ! i)) (i_inum (ins ! i)) (ins ! j) \<longrightarrow> i = j)"

lemma sum_list_upd:
  fixes f :: "'a \<Rightarrow> int"
  assumes "i < length xs"
  shows "(\<Sum>k\<leftarrow>xs[i := x]. f k) = (\<Sum>k\<leftarrow>xs. f k) + f x - f (xs ! i)"
  using assms by (induction xs arbitrary: i) (auto split: nat.splits)

lemma refs_upd:
  assumes "i < length ins"
  shows "refs (ins[i := k]) dev inum = refs ins dev inum + (if i_dev k = dev \<and> i_inum k = inum then i_ref k else 0)
    - (if i_dev (ins ! i) = dev \<and> i_inum (ins ! i) = inum then i_ref (ins ! i) else 0)"
  unfolding refs_def by (rule sum_list_upd [OF assms])

lemma sum_list_zero_iff:
  fixes f :: "'a \<Rightarrow> int"
  assumes "\<And>k. k \<in> set xs \<Longrightarrow> f k \<ge> 0"
  shows "(\<Sum>k\<leftarrow>xs. f k) = 0 \<longleftrightarrow> (\<forall>k \<in> set xs. f k = 0)"
  using assms sum_list_nonneg_eq_0_iff [of "map f xs"] by auto

lemma refs_zero_iff:
  assumes "ic_ok ins"
  shows "refs ins dev inum = 0 \<longleftrightarrow> (\<forall>i < INODES. \<not> names dev inum (ins ! i))"
proof -
  let ?f = "\<lambda>k. if i_dev k = dev \<and> i_inum k = inum then i_ref k else 0"
  have nn: "?f k \<ge> 0" if "k \<in> set ins" for k
    using that assms by (auto simp: ic_ok_def in_set_conv_nth)
  have "refs ins dev inum = 0 \<longleftrightarrow> (\<forall>k \<in> set ins. ?f k = 0)"
    unfolding refs_def using nn by (rule sum_list_zero_iff)
  moreover have "?f k = 0 \<longleftrightarrow> \<not> names dev inum k" if "k \<in> set ins" for k
    using nn [OF that] by (auto simp: names_def split: if_splits)
  ultimately have "refs ins dev inum = 0 \<longleftrightarrow> (\<forall>k \<in> set ins. \<not> names dev inum k)" by blast
  then show ?thesis using assms by (auto simp: ic_ok_def all_set_conv_all_nth)
qed

lemma ic_ok_upd:
  assumes ok: "ic_ok ins" and i: "i < INODES" and k: "i_ref k \<ge> 0"
    and fresh: "i_ref k > 0 \<Longrightarrow> (\<And>j. j < INODES \<Longrightarrow> j \<noteq> i \<Longrightarrow> \<not> names (i_dev k) (i_inum k) (ins ! j))"
  shows "ic_ok (ins[i := k])"
proof -
  have len: "length ins = INODES" using ok by (simp add: ic_ok_def)
  have "a = b" if ab: "a < INODES" "b < INODES" "i_ref (ins[i := k] ! a) > 0"
    "names (i_dev (ins[i := k] ! a)) (i_inum (ins[i := k] ! a)) (ins[i := k] ! b)" for a b
  proof (rule ccontr)
    assume ne: "a \<noteq> b"
    consider "a = i" | "b = i" | "a \<noteq> i" "b \<noteq> i" by blast
    then show False
    proof cases
      case 1
      then show False using fresh [of b] ab ne len by simp
    next
      case 2
      then show False using fresh [of a] ab ne len by (auto simp: names_def)
    next
      case 3
      then show False using ok ab ne unfolding ic_ok_def by (metis nth_list_update_neq)
    qed
  qed
  then show ?thesis using ok k len i by (auto simp: ic_ok_def nth_list_update)
qed

text \<open>The search of \<open>iget\<close>.\<close>

lemma iget_loop_eq:
  "iget_loop dev inum r is s =
     Ret (case find (\<lambda>i. names dev inum (inodes s ! i)) is of Some i \<Rightarrow> Inl i
          | None \<Rightarrow> Inr (case r of Some i \<Rightarrow> Some i | None \<Rightarrow> find (\<lambda>i. i_ref (inodes s ! i) = 0) is)) s"
  by (induction "is" arbitrary: r) (auto simp: kbind_def names_def split: option.splits)

lemma on_inode_apply: "on_inode i f s = Ret () (s\<lparr>inodes := (inodes s)[i := f (inodes s ! i)]\<rparr>)"
  by (simp add: on_inode_def)

lemma iget_field_apply: "iget_field i f s = Ret (f (inodes s ! i)) s"
  by (simp add: iget_field_def)

text \<open>A critical section of the cache lock that changes one inode.\<close>

lemma inode_section:
  assumes c: "calm p s"
  shows "release InodecacheLk ((inside InodecacheLk s)\<lparr>inodes := ins\<rparr>) = Ret () (s\<lparr>inodes := ins\<rparr>)"
proof -
  have "release InodecacheLk ((inside InodecacheLk s)\<lparr>inodes := ins\<rparr>) =
      Ret () ((inside InodecacheLk s)\<lparr>inodes := ins, locks := locks s, cpus := cpus s\<rparr>)"
    by (rule calm_release [OF c]) simp_all
  then show ?thesis by (simp add: inside_def)
qed

lemma inside_inodes [simp]: "inodes (inside L s) = inodes s" "sb (inside L s) = sb s"
  by (simp_all add: inside_def)

lemma iget_run:
  assumes c: "calm p s"
  shows "iget dev inum s = (case find (\<lambda>i. names dev inum (inodes s ! i)) [0..<INODES] of
      Some i \<Rightarrow> Ret i (s\<lparr>inodes := (inodes s)[i := (inodes s ! i)\<lparr>i_ref := i_ref (inodes s ! i) + 1\<rparr>]\<rparr>)
    | None \<Rightarrow> (case find (\<lambda>i. i_ref (inodes s ! i) = 0) [0..<INODES] of
        None \<Rightarrow> Panic ''iget panic''
      | Some i \<Rightarrow> Ret i (s\<lparr>inodes := (inodes s)[i := (inodes s ! i)\<lparr>i_dev := dev, i_inum := inum, i_ref := 1, i_vaild := 0\<rparr>]\<rparr>)))"
  by (auto simp: iget_def kbind_def calm_acquire [OF c] iget_loop_eq on_inode_apply inode_section [OF c] split: option.splits)

lemma idup_run:
  assumes c: "calm p s"
  shows "idup i s = Ret i (s\<lparr>inodes := (inodes s)[i := (inodes s ! i)\<lparr>i_ref := i_ref (inodes s ! i) + 1\<rparr>]\<rparr>)"
  by (simp add: idup_def kbind_def calm_acquire [OF c] on_inode_apply inode_section [OF c])

lemma iput_run:
  assumes c: "calm p s" and v: "i_vaild (inodes s ! i) = 0"
  shows "iput i s = Ret () (s\<lparr>inodes := (inodes s)[i := (inodes s ! i)\<lparr>i_ref := i_ref (inodes s ! i) - 1\<rparr>]\<rparr>)"
  using v by (simp add: iput_def kbind_def calm_acquire [OF c] on_inode_apply inode_section [OF c])

lemma refs_nonneg: "ic_ok ins \<Longrightarrow> refs ins dev inum \<ge> 0"
  unfolding refs_def by (rule sum_list_nonneg) (auto simp: ic_ok_def in_set_conv_nth)

text \<open>One more, or one less, reference through slot \<open>i\<close>.\<close>

definition recount :: "int \<Rightarrow> nat \<Rightarrow> inode list \<Rightarrow> inode list" where
  "recount d i ins = ins[i := (ins ! i)\<lparr>i_ref := i_ref (ins ! i) + d\<rparr>]"

lemma recount_ok:
  assumes ok: "ic_ok ins" and i: "i < INODES" "i_ref (ins ! i) > 0" and d: "i_ref (ins ! i) + d \<ge> 0"
  shows "ic_ok (recount d i ins)" and "refs (recount d i ins) = (\<lambda>dev inum. refs ins dev inum +
    (if dev = i_dev (ins ! i) \<and> inum = i_inum (ins ! i) then d else 0))"
proof -
  have len: "i < length ins" using ok i by (simp add: ic_ok_def)
  show "ic_ok (recount d i ins)"
    unfolding recount_def
  proof (rule ic_ok_upd [OF ok i(1)])
    fix j assume "j < INODES" "j \<noteq> i"
    then show "\<not> names (i_dev ((ins ! i)\<lparr>i_ref := i_ref (ins ! i) + d\<rparr>)) (i_inum ((ins ! i)\<lparr>i_ref := i_ref (ins ! i) + d\<rparr>)) (ins ! j)"
      using ok i by (auto simp: ic_ok_def)
  qed (use d in simp)
  show "refs (recount d i ins) = (\<lambda>dev inum. refs ins dev inum +
    (if dev = i_dev (ins ! i) \<and> inum = i_inum (ins ! i) then d else 0))"
    by (intro ext) (auto simp: recount_def refs_upd [OF len])
qed

lemma claim_ok:
  assumes ok: "ic_ok ins" and i: "i < INODES" "i_ref (ins ! i) = 0" and no: "\<forall>j < INODES. \<not> names dev inum (ins ! j)"
  defines "ins' \<equiv> ins[i := (ins ! i)\<lparr>i_dev := dev, i_inum := inum, i_ref := 1, i_vaild := 0\<rparr>]"
  shows "ic_ok ins'" and "refs ins' = (\<lambda>d n. refs ins d n + (if d = dev \<and> n = inum then 1 else 0))"
proof -
  have len: "i < length ins" using ok i by (simp add: ic_ok_def)
  show "ic_ok ins'" unfolding ins'_def by (rule ic_ok_upd [OF ok i(1)]) (use no in auto)
  show "refs ins' = (\<lambda>d n. refs ins d n + (if d = dev \<and> n = inum then 1 else 0))"
    using i(2) by (intro ext) (auto simp: ins'_def refs_upd [OF len])
qed

text \<open>(C27) The inode cache counts references. \<open>iget\<close> adds one reference to the inode asked for and to no other; it
  panics exactly when the inode has none yet and all slots are taken; an inode is never in two slots, so
  two users of one inode share its slot and its lock; \<open>idup\<close> adds a reference, and \<open>iput\<close> of an inode
  whose \<open>vaild\<close> is 0 takes one away.\<close>

theorem iget_counts:
  assumes c: "calm p s" and ok: "ic_ok (inodes s)"
  shows "(if refs (inodes s) dev inum = 0 \<and> (\<forall>i < INODES. i_ref (inodes s ! i) \<noteq> 0)
     then iget dev inum s = Panic ''iget panic''
     else \<exists>i ins. iget dev inum s = Ret i (s\<lparr>inodes := ins\<rparr>) \<and> i < INODES \<and> names dev inum (ins ! i) \<and> ic_ok ins \<and>
       refs ins = (\<lambda>d n. refs (inodes s) d n + (if d = dev \<and> n = inum then 1 else 0)) \<and>
       (\<forall>j < INODES. names dev inum (inodes s ! j) \<longrightarrow> j = i) \<and>
       idup i (s\<lparr>inodes := ins\<rparr>) = Ret i (s\<lparr>inodes := recount 1 i ins\<rparr>) \<and>
       (i_vaild (ins ! i) = 0 \<longrightarrow> iput i (s\<lparr>inodes := ins\<rparr>) = Ret () (s\<lparr>inodes := recount (-1) i ins\<rparr>) \<and>
          ic_ok (recount (-1) i ins) \<and> refs (recount (-1) i ins) = refs (inodes s)))"
proof -
  have rest: "idup i (s\<lparr>inodes := ins\<rparr>) = Ret i (s\<lparr>inodes := recount 1 i ins\<rparr>) \<and>
      (i_vaild (ins ! i) = 0 \<longrightarrow> iput i (s\<lparr>inodes := ins\<rparr>) = Ret () (s\<lparr>inodes := recount (-1) i ins\<rparr>) \<and>
          ic_ok (recount (-1) i ins) \<and> refs (recount (-1) i ins) = refs (inodes s))"
    if "i < INODES" "names dev inum (ins ! i)" "ic_ok ins"
      "refs ins = (\<lambda>d n. refs (inodes s) d n + (if d = dev \<and> n = inum then 1 else 0))" for i ins
  proof -
    have c': "calm p (s\<lparr>inodes := ins\<rparr>)" by (rule calm_frame [OF c]) simp_all
    have n: "i_ref (ins ! i) > 0" "i_dev (ins ! i) = dev" "i_inum (ins ! i) = inum" using that(2) by (simp_all add: names_def)
    have "refs (recount (-1) i ins) = refs (inodes s)"
      using recount_ok(2) [OF that(3,1) n(1), of "-1"] n that(4) by (simp add: fun_eq_iff)
    then show ?thesis
      using idup_run [OF c'] iput_run [OF c', of i] recount_ok(1) [OF that(3,1) n(1), of "-1"] n(1) by (simp add: recount_def)
  qed
  show ?thesis
  proof (cases "find (\<lambda>i. names dev inum (inodes s ! i)) [0..<INODES]")
    case (Some i)
    then have i: "i < INODES" "names dev inum (inodes s ! i)" by (auto dest: find_upt_Some)
    then have n: "i_ref (inodes s ! i) > 0" "i_dev (inodes s ! i) = dev" "i_inum (inodes s ! i) = inum" by (simp_all add: names_def)
    have len: "i < length (inodes s)" using ok i(1) by (simp add: ic_ok_def)
    let ?ins = "recount 1 i (inodes s)"
    have f: "names dev inum (?ins ! i)" "ic_ok ?ins"
      "refs ?ins = (\<lambda>d n. refs (inodes s) d n + (if d = dev \<and> n = inum then 1 else 0))"
      using recount_ok [OF ok i(1) n(1), of 1] n len by (simp_all add: recount_def names_def)
    have u: "\<forall>j < INODES. names dev inum (inodes s ! j) \<longrightarrow> j = i" using ok i n by (auto simp: ic_ok_def)
    have "refs (inodes s) dev inum \<noteq> 0" using refs_zero_iff [OF ok] i by blast
    moreover have "iget dev inum s = Ret i (s\<lparr>inodes := ?ins\<rparr>)" using iget_run [OF c, of dev inum] Some by (simp add: recount_def)
    ultimately show ?thesis using i(1) f u rest [OF i(1) f] by auto
  next
    case None
    then have no: "\<forall>j < INODES. \<not> names dev inum (inodes s ! j)" by (simp add: find_upt_None)
    then have z: "refs (inodes s) dev inum = 0" using refs_zero_iff [OF ok] by blast
    show ?thesis
    proof (cases "find (\<lambda>i. i_ref (inodes s ! i) = 0) [0..<INODES]")
      case none: None
      then have "\<forall>i < INODES. i_ref (inodes s ! i) \<noteq> 0" by (simp add: find_upt_None)
      then show ?thesis using z iget_run [OF c, of dev inum] None none by simp
    next
      case (Some i)
      then have i: "i < INODES" "i_ref (inodes s ! i) = 0" by (auto dest: find_upt_Some)
      let ?ins = "(inodes s)[i := (inodes s ! i)\<lparr>i_dev := dev, i_inum := inum, i_ref := 1, i_vaild := 0\<rparr>]"
      note f = claim_ok [OF ok i no]
      have "names dev inum (?ins ! i)" using ok i(1) by (simp add: ic_ok_def names_def)
      moreover have "iget dev inum s = Ret i (s\<lparr>inodes := ?ins\<rparr>)" using iget_run [OF c, of dev inum] None Some by simp
      ultimately show ?thesis using i no f rest [OF i(1) _ f] by auto
    qed
  qed
qed

text \<open>A running system with any given disk, superblock and inode cache, and an empty buffer cache.\<close>

lemma run_fs:
  obtains s :: fs_st where "calm 0 s" "driver_idle s" "bc_ok (bufs s)" "sectors s = sec" "sb s = b" "inodes s = ins"
    "\<And>i. i < NBUF \<Longrightarrow> b_dev (bufs s ! i) = 0 \<and> b_refcnt (bufs s ! i) = 0 \<and> b_vaild (bufs s ! i) = 0"
proof -
  obtain s :: disk_st where s: "calm 0 s" "driver_idle s" "bc_ok (bufs s)"
    "\<And>i. i < NBUF \<Longrightarrow> b_dev (bufs s ! i) = 0 \<and> b_refcnt (bufs s ! i) = 0 \<and> b_vaild (bufs s ! i) = 0"
    by (rule run_cache) blast
  let ?t = "disk_st.extend (s\<lparr>sectors := sec\<rparr>) \<lparr>sb = b, inodes = ins\<rparr> :: fs_st"
  have "calm 0 ?t" using s(1) by (simp add: calm_def cur_def disk_st.defs)
  moreover have "driver_idle ?t" using s(2) by (simp add: driver_idle_def disk_st.defs)
  moreover have "bufs ?t = bufs s" "sectors ?t = sec" "sb ?t = b" "inodes ?t = ins" by (simp_all add: disk_st.defs)
  ultimately show thesis using that [of ?t] s(3,4) by simp
qed

definition blank_inode :: inode where
  "blank_inode = \<lparr>i_dev = 0, i_inum = 0, i_ref = 0, i_splock = \<lparr>sl_locked = 0, sl_name = ''inode'', sl_pid = 0\<rparr>, i_vaild = 0,
     i_type = 0, i_major = 0, i_minor = 0, i_nlink = 0, i_size = 0, i_addrs = replicate 13 0\<rparr>"

theorem iget_counts_witness:
  "\<exists>(s :: fs_st) i t u. iget 1 1 s = Ret i t \<and> names 1 1 (inodes t ! i) \<and> refs (inodes t) 1 1 = 1 \<and>
     idup i t = Ret i u \<and> refs (inodes u) 1 1 = 2"
proof -
  let ?ins = "replicate 32 blank_inode"
  obtain s :: fs_st where s: "calm 0 s" "inodes s = ?ins" by (rule run_fs)
  have z: "i_ref (?ins ! i) = 0" if "i < INODES" for i using that by (simp add: INODES_def blank_inode_def)
  have ok: "ic_ok (inodes s)" using s(2) z by (simp add: ic_ok_def INODES_def)
  have "refs ?ins 1 1 = 0" by (simp add: refs_def blank_inode_def sum_list_replicate)
  moreover have "\<not> (\<forall>i < INODES. i_ref (inodes s ! i) \<noteq> 0)" unfolding not_all not_imp not_not s(2) by (intro exI [of _ 0]) (simp add: INODES_def blank_inode_def)
  ultimately obtain i ins where r: "iget 1 1 s = Ret i (s\<lparr>inodes := ins\<rparr>)" "i < INODES" "names 1 1 (ins ! i)" "ic_ok ins"
    "refs ins = (\<lambda>d n. refs (inodes s) d n + (if d = 1 \<and> n = 1 then 1 else 0))"
    "idup i (s\<lparr>inodes := ins\<rparr>) = Ret i (s\<lparr>inodes := recount 1 i ins\<rparr>)"
    using iget_counts [OF s(1) ok, of 1 1] by (simp only: simp_thms if_False) blast
  have n: "i_ref (ins ! i) > 0" "i_dev (ins ! i) = 1" "i_inum (ins ! i) = 1" using r(3) by (simp_all add: names_def)
  have "refs ins 1 1 = 1" using r(5) s(2) \<open>refs ?ins 1 1 = 0\<close> by simp
  moreover from this have "refs (recount 1 i ins) 1 1 = 2" using recount_ok(2) [OF r(4,2) n(1), of 1] n by simp
  ultimately show ?thesis
    using r(1,3,6) by (intro exI [of _ s] exI [of _ i] exI [of _ "s\<lparr>inodes := ins\<rparr>"] exI [of _ "s\<lparr>inodes := recount 1 i ins\<rparr>"]) simp
qed

end
