(* ===== verification/Fsblocks.thy ===== *)
theory Fsblocks
  imports Inode
begin

text \<open>
  What the routines of \<^verbatim>\<open>kernel/fs.c\<close> that work on blocks do: the block bitmap (\<open>balloc\<close>, \<open>bfree\<close>), disk inodes
  (\<open>iupdate\<close>, \<open>ilock\<close>, \<open>iput\<close>) and \<open>readi\<close>. They run in a \<^emph>\<open>quiet\<close> file system: no buffer in use, no transfer
  under way. Each is a sequence of transactions on one block: \<open>bread\<close>, perhaps a change of the buffer,
  perhaps \<open>bwrite\<close>, then \<open>brelease\<close>.
\<close>

section \<open>Transactions on a block\<close>

definition disk_of :: "'z disk_st_scheme \<Rightarrow> 'z disk_st_scheme \<Rightarrow> 'z disk_st_scheme" where
  "disk_of t s = s\<lparr>vd := vd t, vregs := vregs t, dev_seen := dev_seen t, bufs := bufs t, sectors := sectors t\<rparr>"

definition only_disk :: "'z disk_st_scheme \<Rightarrow> 'z disk_st_scheme \<Rightarrow> bool" where
  "only_disk s t \<longleftrightarrow> t = disk_of t s"

definition quiet :: "nat \<Rightarrow> u32 \<Rightarrow> 'z disk_st_scheme \<Rightarrow> bool" where
  "quiet p dev s \<longleftrightarrow> calm p s \<and> driver_idle s \<and> bc_ok (bufs s) \<and> dev \<noteq> 0 \<and> (\<forall>a. length (sectors s a) = 512) \<and>
     (\<forall>i < NBUF. b_refcnt (bufs s ! i) = 0 \<and>
       (b_vaild (bufs s ! i) \<noteq> 0 \<longrightarrow> b_dev (bufs s ! i) = dev \<and> unat (b_blockno (bufs s ! i)) < 2147483648))"

text \<open>Buffer \<open>r\<close> has been claimed for block \<open>n\<close> since the quiet state \<open>s\<close>.\<close>

definition working :: "nat \<Rightarrow> u32 \<Rightarrow> u32 \<Rightarrow> nat \<Rightarrow> 'z disk_st_scheme \<Rightarrow> 'z disk_st_scheme \<Rightarrow> bool" where
  "working p dev n r s t \<longleftrightarrow> calm p t \<and> driver_idle t \<and> bc_ok (bufs t) \<and> (\<forall>a. length (sectors t a) = 512) \<and> r < NBUF \<and>
     valid_block dev n (bufs t ! r) \<and> held_buf p t r \<and> b_refcnt (bufs t ! r) = 1 \<and>
     (\<forall>i < NBUF. i \<noteq> r \<longrightarrow> bufs t ! i = bufs s ! i) \<and> only_disk s t"

lemma only_disk_refl [simp]: "only_disk s s"
  by (simp add: only_disk_def disk_of_def)

lemma disk_of_twice: "disk_of u (disk_of t s) = disk_of u s"
  by (simp add: disk_of_def)

lemma only_disk_trans: "only_disk s t \<Longrightarrow> only_disk t u \<Longrightarrow> only_disk s u"
  unfolding only_disk_def using disk_of_twice [of u t s] by simp

lemma only_diskI:
  "only_disk s (driver_part v rg m (s\<lparr>bufs := bs\<rparr>))" "only_disk s (driver_part v rg m s)"
  "only_disk s (s\<lparr>bufs := bs\<rparr>)" "only_disk s (driver_part v rg m (s\<lparr>sectors := sec, bufs := bs\<rparr>))"
  by (cases s; simp add: only_disk_def disk_of_def driver_part_def)+

lemma only_disk_sel:
  assumes "only_disk s t"
  shows "hart t = hart s" "cpus t = cpus s" "locks t = locks s" "procs t = procs s" "mem t = mem s"
proof -
  have t: "t = disk_of t s" using assms by (simp only: only_disk_def)
  show "hart t = hart s" "cpus t = cpus s" "locks t = locks s" "procs t = procs s" "mem t = mem s"
    by (subst t, simp add: disk_of_def)+
qed

lemma only_disk_fs:
  assumes "only_disk s t"
  shows "inodes t = inodes s" "sb t = sb s"
proof -
  have t: "t = disk_of t s" using assms by (simp only: only_disk_def)
  show "inodes t = inodes s" "sb t = sb s" by (subst t, simp add: disk_of_def)+
qed


lemma bread_quiet:
  assumes q: "quiet p dev s" and st: "steady s \<or> (\<exists>j < NBUF. has_block dev n (bufs s ! j))"
  obtains r t where "bread dev n s = Ret r t" "working p dev n r s t" "sectors t = sectors s"
    "b_data (bufs t ! r) = blk s dev n" "\<And>m. blk t dev m = blk s dev m"
proof -
  have c: "calm p s" "driver_idle s" "bc_ok (bufs s)" "dev \<noteq> 0" and sec: "\<And>a. length (sectors s a) = 512"
    and z: "\<And>i. i < NBUF \<Longrightarrow> b_refcnt (bufs s ! i) = 0"
    using q by (simp_all add: quiet_def)
  have "\<exists>r t. bread dev n s = Ret r t \<and> bread_post p dev n s r t \<and> b_refcnt (bufs t ! r) = 1"
  proof (cases "\<exists>j < NBUF. has_block dev n (bufs s ! j)")
    case True
    then obtain j where j: "j < NBUF" "has_block dev n (bufs s ! j)" by blast
    have "sl_locked (b_sk (bufs s ! j)) = 0" using c(3) j z [OF j(1)] by (simp add: bc_ok_def)
    then show ?thesis using bread_hit [OF c sec j] z [OF j(1)] by auto
  next
    case False
    with st have st: "steady s" by blast
    show ?thesis using False bread_miss [OF c sec st _ _ z, of n 0] by (auto simp: NBUF_def)
  qed
  then obtain r t where b: "bread dev n s = Ret r t" "bread_post p dev n s r t" "b_refcnt (bufs t ! r) = 1" by blast
  obtain v rg m k where t: "t = driver_part v rg m (s\<lparr>bufs := (bufs s)[r := k]\<rparr>)" using b(2) by (auto simp: bread_post_def)
  have "working p dev n r s t"
    using b(2,3) sec by (simp add: working_def bread_post_def t only_diskI)
  then show thesis using that [OF b(1)] b(2) c(4) by (simp add: bread_post_def t)
qed


lemma working_blk:
  assumes w: "working p dev n r s t" and dev: "dev \<noteq> 0"
  shows "blk t dev n = b_data (bufs t ! r)"
  by (rule blk_cached [OF _ _ _ dev]) (use w in \<open>simp_all add: working_def\<close>)

lemma working_set:
  assumes w: "working p dev n r s t" and d: "length d = BSIZE" and dev: "dev \<noteq> 0"
  defines "t' \<equiv> t\<lparr>bufs := (bufs t)[r := (bufs t ! r)\<lparr>b_data := d\<rparr>]\<rparr>"
  shows "set_data r d t = Ret () t'" and "working p dev n r s t'" and "b_data (bufs t' ! r) = d" and "sectors t' = sectors t"
    and "blk t' dev m = (if m = n then d else blk t dev m)"
proof -
  let ?k = "(bufs t ! r)\<lparr>b_data := d\<rparr>"
  have ok: "bc_ok (bufs t)" and r: "r < NBUF" and v: "valid_block dev n (bufs t ! r)" using w by (simp_all add: working_def)
  have len: "r < length (bufs t)" using r bc_ok_len [OF ok] by simp
  have ok': "bc_ok ((bufs t)[r := ?k])"
  proof (rule bc_ok_upd [OF ok r])
    fix i assume "i < NBUF" "i \<noteq> r" "b_dev ?k \<noteq> 0"
    then show "\<not> has_block (b_dev ?k) (b_blockno ?k) (bufs t ! i)"
      using bc_ok_unique [OF ok _ r, of i "b_dev ?k" "b_blockno ?k"] by (auto simp: has_block_def)
  qed (use d w in \<open>simp_all add: working_def\<close>)
  show "set_data r d t = Ret () t'" by (simp add: set_data_def on_buf_apply t'_def)
  show "sectors t' = sectors t" "b_data (bufs t' ! r) = d" using len by (simp_all add: t'_def)
  have c: "calm p t'" unfolding t'_def by (rule calm_frame [of p t]) (use w in \<open>simp_all add: working_def\<close>)
  have o: "only_disk s t'" unfolding t'_def
    by (rule only_disk_trans [OF _ only_diskI(3)]) (use w in \<open>simp add: working_def\<close>)
  have "driver_idle t'" using w by (simp add: working_def driver_idle_def t'_def)
  then show "working p dev n r s t'"
    using w ok' len c o by (simp add: working_def t'_def valid_block_def has_block_def held_buf_def)
  have vk: "valid_block dev m ?k \<longleftrightarrow> m = n" for m using v by (auto simp: valid_block_def has_block_def)
  have vt: "valid_block dev m (bufs t ! r) \<longleftrightarrow> m = n" using v by (auto simp: valid_block_def has_block_def)
  show "blk t' dev m = (if m = n then d else blk t dev m)"
    using blk_upd [OF ok ok' r dev, of t' m] vk vt by (simp add: t'_def)
qed

lemma working_bwrite:
  assumes w: "working p dev n r s t" and dev: "dev \<noteq> 0" and n: "unat n < 2147483648"
  obtains t' where "bwrite r t = Ret () t'" "working p dev n r s t'" "b_data (bufs t' ! r) = b_data (bufs t ! r)"
    "disk_block (sectors t') n = b_data (bufs t ! r)"
    "\<And>m. unat m < 2147483648 \<Longrightarrow> m \<noteq> n \<Longrightarrow> disk_block (sectors t') m = disk_block (sectors t) m"
    "\<And>m. unat m < 2147483648 \<Longrightarrow> blk t' dev m = blk t dev m"
proof -
  let ?k = "(bufs t ! r)\<lparr>b_disk := 0\<rparr>" and ?sec = "wr_sectors (sectors t) (sector_of n) 2 (b_data (bufs t ! r))"
  have c: "calm p t" "driver_idle t" and ok: "bc_ok (bufs t)" and r: "r < NBUF" and v: "valid_block dev n (bufs t ! r)"
    and h: "held_buf p t r" and sec: "\<And>a. length (sectors t a) = 512"
    using w by (simp_all add: working_def)
  have len: "r < length (bufs t)" using r bc_ok_len [OF ok] by simp
  have bl: "length (b_data (bufs t ! r)) = 1024" using ok r by (simp add: bc_ok_def BSIZE_def)
  have bn: "b_blockno (bufs t ! r) = n" using v by (simp add: valid_block_def has_block_def)
  obtain v' rg m' where b: "bwrite r t = Ret () (driver_part v' rg m' (transfer r True t))"
    "driver_idle (driver_part v' rg m' (transfer r True t))"
    using bwrite_ok [OF c len h] .
  have tr: "transfer r True t = t\<lparr>sectors := ?sec, bufs := (bufs t)[r := ?k]\<rparr>" by (simp add: transfer_def Let_def bn)
  define t' where "t' = driver_part v' rg m' (transfer r True t)"
  have sel: "bufs t' = (bufs t)[r := ?k]" "sectors t' = ?sec" "hart t' = hart t" "cpus t' = cpus t" "locks t' = locks t" "procs t' = procs t"
    by (simp_all add: t'_def tr)
  have ok': "bc_ok ((bufs t)[r := ?k])"
  proof (rule bc_ok_upd [OF ok r])
    fix i assume "i < NBUF" "i \<noteq> r" "b_dev ?k \<noteq> 0"
    then show "\<not> has_block (b_dev ?k) (b_blockno ?k) (bufs t ! i)"
      using bc_ok_unique [OF ok _ r, of i "b_dev ?k" "b_blockno ?k"] by (auto simp: has_block_def)
  qed (use bl w in \<open>simp_all add: working_def BSIZE_def\<close>)
  have s512: "length (?sec a) = 512" for a using sec bl by (simp add: wr_sectors_def)
  have c': "calm p t'" by (rule calm_frame [OF c(1)]) (simp_all add: sel)
  have o: "only_disk s t'" unfolding t'_def tr
    by (rule only_disk_trans [OF _ only_diskI(4)]) (use w in \<open>simp add: working_def\<close>)
  have w': "working p dev n r s t'"
    using w ok' len c' o b(2) s512 by (simp add: working_def sel t'_def [symmetric] valid_block_def has_block_def held_buf_def)
  have disk: "disk_block ?sec n = b_data (bufs t ! r)"
    unfolding disk_block_def using bl by (intro wr_rd_sectors) simp_all
  have other: "disk_block ?sec m = disk_block (sectors t) m" if "unat m < 2147483648" "m \<noteq> n" for m
    by (rule other_block [OF n that(1)]) (use that in simp)
  have "blk t' dev m = blk t dev m" if m: "unat m < 2147483648" for m
  proof (cases "m = n")
    case True
    then show ?thesis using working_blk [OF w dev] working_blk [OF w' dev] len by (simp add: sel)
  next
    case False
    have same: "valid_block dev m (bufs t' ! i) = valid_block dev m (bufs t ! i)" "b_data (bufs t' ! i) = b_data (bufs t ! i)" for i
      using len by (simp_all add: sel nth_list_update valid_block_def has_block_def)
    have "disk_block (sectors t') m = disk_block (sectors t) m" using other [OF m False] by (simp add: sel)
    then show ?thesis by (simp only: blk_def same)
  qed
  then show thesis using that [of t'] b(1) w' disk other len by (simp add: t'_def [symmetric] sel)
qed

lemma working_release:
  assumes w: "working p dev n r s t" and q: "quiet p dev s" and n: "unat n < 2147483648"
  obtains u where "brelease r t = Ret () u" "quiet p dev u" "only_disk s u" "sectors u = sectors t"
    "\<And>m. blk u dev m = blk t dev m" "has_block dev n (bufs u ! r)" "r < NBUF"
    "steady s \<Longrightarrow> b_data (bufs t ! r) = disk_block (sectors t) n \<Longrightarrow>
      (\<And>m. unat m < 2147483648 \<Longrightarrow> m \<noteq> n \<Longrightarrow> disk_block (sectors t) m = disk_block (sectors s) m) \<Longrightarrow> steady u"
proof -
  have c: "calm p t" "driver_idle t" and ok: "bc_ok (bufs t)" and r: "r < NBUF" and v: "valid_block dev n (bufs t ! r)"
    and h: "held_buf p t r" and sec: "\<And>a. length (sectors t a) = 512" and dev: "dev \<noteq> 0"
    and one: "b_refcnt (bufs t ! r) = 1" and same: "\<And>i. i < NBUF \<Longrightarrow> i \<noteq> r \<Longrightarrow> bufs t ! i = bufs s ! i" and o: "only_disk s t"
    using w q by (simp_all add: working_def quiet_def)
  have len: "r < length (bufs t)" "NBUF \<le> length (bufs t)" using r bc_ok_len [OF ok] by simp_all
  obtain xs where l: "lru (bufs t) xs" using bc_ok_lru [OF ok] by blast
  obtain bs where b: "brelease r t = Ret () (t\<lparr>bufs := bs\<rparr>)" "bc_ok bs"
    "map strip bs = map strip ((bufs t)[r := released (bufs t ! r)])"
    "\<And>d m. d \<noteq> 0 \<Longrightarrow> blk (t\<lparr>bufs := bs\<rparr>) d m = blk t d m"
    using brelease_spec [OF c(1) ok r h l] by metis
  let ?u = "t\<lparr>bufs := bs\<rparr>"
  have st: "strip (bs ! i) = strip (if i = r then released (bufs t ! r) else bufs s ! i)" if "i < NBUF" for i
    using map_strip_nth [OF b(3), of i] that len same [of i] by (cases "i = r") simp_all
  have at_r: "b_refcnt (bs ! r) = 0" "b_dev (bs ! r) = dev" "b_blockno (bs ! r) = n" "b_data (bs ! r) = b_data (bufs t ! r)"
    using strip_eqD [OF st [OF r]] one v by (simp_all add: released_def valid_block_def has_block_def)
  have off_r: "b_refcnt (bs ! i) = 0" "b_dev (bs ! i) = b_dev (bufs s ! i)" "b_blockno (bs ! i) = b_blockno (bufs s ! i)"
    "b_data (bs ! i) = b_data (bufs s ! i)" "b_vaild (bs ! i) = b_vaild (bufs s ! i)"
    if "i < NBUF" "i \<noteq> r" for i
    using strip_eqD [OF st [OF that(1)]] that q by (simp_all add: quiet_def)
  have "calm p ?u" by (rule calm_frame [OF c(1)]) simp_all
  moreover have "driver_idle ?u" using c(2) by (simp add: driver_idle_def)
  moreover have "b_refcnt (bs ! i) = 0 \<and> (b_vaild (bs ! i) \<noteq> 0 \<longrightarrow> b_dev (bs ! i) = dev \<and> unat (b_blockno (bs ! i)) < 2147483648)"
    if "i < NBUF" for i
    using at_r off_r [OF that] q that n by (cases "i = r") (simp_all add: quiet_def)
  ultimately have qu: "quiet p dev ?u" using b(2) dev sec by (simp add: quiet_def)
  have "steady ?u" if s: "steady s" "b_data (bufs t ! r) = disk_block (sectors t) n"
    and d: "\<And>m. unat m < 2147483648 \<Longrightarrow> m \<noteq> n \<Longrightarrow> disk_block (sectors t) m = disk_block (sectors s) m"
  proof -
    have "b_data (bs ! i) = disk_block (sectors t) (b_blockno (bs ! i))" if i: "i < NBUF" "b_vaild (bs ! i) \<noteq> 0" for i
    proof (cases "i = r")
      case True
      then show ?thesis using at_r s(2) by simp
    next
      case False
      note f = off_r [OF i(1) False]
      have "b_dev (bufs s ! i) = dev" "unat (b_blockno (bufs s ! i)) < 2147483648"
        "b_data (bufs s ! i) = disk_block (sectors s) (b_blockno (bufs s ! i))"
        using q s(1) i f by (auto simp: quiet_def steady_def)
      moreover have "b_blockno (bufs s ! i) \<noteq> n"
        using bc_ok_unique [OF b(2) i(1) r, of dev n] False f at_r calculation(1) dev by (auto simp: has_block_def)
      ultimately show ?thesis using f d by simp
    qed
    then show ?thesis by (simp add: steady_def)
  qed
  moreover have "only_disk s ?u" by (rule only_disk_trans [OF o only_diskI(3)])
  ultimately show thesis using that [of ?u] b(1,4) qu at_r r dev by (simp add: has_block_def)
qed

text \<open>While unused buffers agree with the disk, a block's contents are the disk's.\<close>

lemma blk_steady:
  assumes "quiet p dev s" and "steady s"
  shows "blk s dev n = disk_block (sectors s) n"
  using assms by (auto simp: blk_def quiet_def steady_def valid_block_def has_block_def dest!: find_upt_Some split: option.splits)

section \<open>The block bitmap\<close>

lemma find_append: "find P (xs @ ys) = (case find P xs of Some x \<Rightarrow> Some x | None \<Rightarrow> find P ys)"
  by (induction xs) auto

lemma find_in_set: "find P xs = Some x \<Longrightarrow> x \<in> set xs \<and> P x"
  by (induction xs) (auto split: if_splits)

lemma bit_test:
  fixes d :: u8
  assumes "k < 8"
  shows "d AND 2 ^ k = 0 \<longleftrightarrow> \<not> bit d k"
proof
  assume "d AND 2 ^ k = 0"
  then have "\<not> bit (d AND 2 ^ k) k" by simp
  then show "\<not> bit d k" using assms by (simp add: bit_and_iff bit_exp_iff)
next
  assume "\<not> bit d k"
  then show "d AND 2 ^ k = 0" by (intro bit_word_eqI) (auto simp: bit_and_iff bit_exp_iff)
qed

lemma bit_set:
  fixes d :: u8
  assumes "k < 8" "j < 8"
  shows "bit (d OR 2 ^ k) j \<longleftrightarrow> j = k \<or> bit d j" and "bit (d AND NOT (2 ^ k)) j \<longleftrightarrow> j \<noteq> k \<and> bit d j"
  using assms by (auto simp: bit_or_iff bit_and_iff bit_not_iff bit_exp_iff)

text \<open>Bit \<open>c\<close> of a bitmap block, set and cleared; and whether block \<open>b\<close> is allocated.\<close>

definition map_bit :: "u8 list \<Rightarrow> nat \<Rightarrow> bool" where
  "map_bit d c \<longleftrightarrow> bit (d ! (c div 8)) (c mod 8)"

definition mark :: "u8 list \<Rightarrow> nat \<Rightarrow> u8 list" where
  "mark d c = d[c div 8 := (d ! (c div 8)) OR 2 ^ (c mod 8)]"

definition unmark :: "u8 list \<Rightarrow> nat \<Rightarrow> u8 list" where
  "unmark d c = d[c div 8 := (d ! (c div 8)) AND NOT (2 ^ (c mod 8))]"

definition allocated :: "superblock \<Rightarrow> (u32 \<Rightarrow> u8 list) \<Rightarrow> nat \<Rightarrow> bool" where
  "allocated sbk f b \<longleftrightarrow> map_bit (f (BBLOCK b sbk)) (b mod BPB)"

lemma div_mod_8: "c div 8 = c' div 8 \<Longrightarrow> c mod 8 = c' mod 8 \<Longrightarrow> c = (c' :: nat)"
  by (metis div_mult_mod_eq)

lemma map_bit_mark:
  assumes "c div 8 < length d"
  shows "map_bit (mark d c) c' \<longleftrightarrow> c' = c \<or> map_bit d c'" and "map_bit (unmark d c) c' \<longleftrightarrow> c' \<noteq> c \<and> map_bit d c'"
proof -
  have k: "c mod 8 < 8" "c' mod 8 < 8" by simp_all
  have iff: "c' = c \<longleftrightarrow> c' div 8 = c div 8 \<and> c' mod 8 = c mod 8" using div_mod_8 [of c' c] by blast
  show "map_bit (mark d c) c' \<longleftrightarrow> c' = c \<or> map_bit d c'" "map_bit (unmark d c) c' \<longleftrightarrow> c' \<noteq> c \<and> map_bit d c'"
    unfolding iff map_bit_def mark_def unmark_def using assms
    by (cases "c' div 8 = c div 8"; simp only: bit_set [OF k] nth_list_update_eq nth_list_update_neq simp_thms)+
qed

lemma unmark_mark:
  assumes "\<not> map_bit d c"
  shows "unmark (mark d c) c = d"
proof (cases "c div 8 < length d")
  case True
  let ?x = "d ! (c div 8)" and ?k = "2 ^ (c mod 8) :: u8"
  have "(?x OR ?k) AND NOT ?k = ?x"
  proof (rule bit_word_eqI)
    fix j assume "j < LENGTH(8)"
    then show "bit ((?x OR ?k) AND NOT ?k) j = bit ?x j"
      using assms by (auto simp: map_bit_def bit_and_iff bit_or_iff bit_not_iff bit_exp_iff)
  qed
  then show ?thesis using True by (simp add: mark_def unmark_def)
qed (simp add: mark_def unmark_def list_update_beyond)

lemma balloc_bits_eq:
  fixes s :: "'z fs_st_scheme" and r :: nat
  defines "d \<equiv> b_data (bufs s ! r)"
  shows "balloc_bits r b sz [j..<BPB] s = (case find (\<lambda>c. \<not> map_bit d (c - b)) [b + j..<min (b + BPB) sz] of
     None \<Rightarrow> Ret None s | Some c \<Rightarrow> kthen (set_data r (mark d (c - b))) (kret (Some (c - b))) s)"
proof (induction "BPB - j" arbitrary: j)
  case 0
  then show ?case by simp
next
  case (Suc n)
  then have j: "j < BPB" and IH: "balloc_bits r b sz [Suc j..<BPB] s = (case find (\<lambda>c. \<not> map_bit d (c - b)) [b + Suc j..<min (b + BPB) sz] of
     None \<Rightarrow> Ret None s | Some c \<Rightarrow> kthen (set_data r (mark d (c - b))) (kret (Some (c - b))) s)"
    using Suc.hyps(1) [of "Suc j"] by simp_all
  have up: "[j..<BPB] = j # [Suc j..<BPB]" using j by (simp add: upt_conv_Cons)
  show ?case
  proof (cases "b + j < sz")
    case True
    then have "[b + j..<min (b + BPB) sz] = (b + j) # [b + Suc j..<min (b + BPB) sz]" using j by (simp add: upt_conv_Cons)
    moreover have "(d ! (j div 8)) AND 2 ^ (j mod 8) = 0 \<longleftrightarrow> \<not> map_bit d j" by (simp add: bit_test map_bit_def)
    ultimately show ?thesis
      unfolding up using True IH by (simp add: kbind_def bget_field_apply Let_def d_def [symmetric] mark_def)
  qed (simp add: up)
qed

text \<open>The block bitmap after block \<open>b\<close> has been marked, and blocks of different bitmap blocks.\<close>

definition with_bit :: "(u8 list \<Rightarrow> nat \<Rightarrow> u8 list) \<Rightarrow> superblock \<Rightarrow> nat \<Rightarrow> (u32 \<Rightarrow> u8 list) \<Rightarrow> (u32 \<Rightarrow> u8 list)" where
  "with_bit g sbk b f = f(BBLOCK b sbk := g (f (BBLOCK b sbk)) (b mod BPB))"

lemma unat_of_nat_u32: "n < 4294967296 \<Longrightarrow> unat (of_nat n :: u32) = n"
  by (simp add: unat_of_nat)

lemma unat_u32: "unat (w :: u32) < 4294967296"
  using unsigned_less [of w, where ?'a = nat] by simp

lemma BBLOCK_inj:
  assumes "BBLOCK b sbk = BBLOCK b' sbk" and "b < 4294967296" "b' < 4294967296"
  shows "b div BPB = b' div BPB"
proof -
  have "(of_nat (b div BPB) :: u32) = of_nat (b' div BPB)" using assms(1) by (simp add: BBLOCK_def)
  moreover have "b div BPB < 4294967296" "b' div BPB < 4294967296"
    using assms(2,3) div_le_dividend [of b BPB] div_le_dividend [of b' BPB] by linarith+
  ultimately show ?thesis by (metis unat_of_nat_u32)
qed

lemma allocated_with_bit:
  assumes "b < 4294967296" "b' < 4294967296" and "length (f (BBLOCK b sbk)) = BSIZE"
  shows "allocated sbk (with_bit mark sbk b f) b' \<longleftrightarrow> b' = b \<or> allocated sbk f b'"
    and "allocated sbk (with_bit unmark sbk b f) b' \<longleftrightarrow> b' \<noteq> b \<and> allocated sbk f b'"
proof -
  have c: "b mod BPB div 8 < length (f (BBLOCK b sbk))" using assms(3) by (simp add: BPB_def BSIZE_def)
  have iff: "b' = b \<longleftrightarrow> BBLOCK b' sbk = BBLOCK b sbk \<and> b' mod BPB = b mod BPB"
    using BBLOCK_inj [of b' sbk b] assms(1,2) by (metis div_mult_mod_eq)
  show "allocated sbk (with_bit mark sbk b f) b' \<longleftrightarrow> b' = b \<or> allocated sbk f b'"
    "allocated sbk (with_bit unmark sbk b f) b' \<longleftrightarrow> b' \<noteq> b \<and> allocated sbk f b'"
    unfolding iff using map_bit_mark [OF c, of "b' mod BPB"] by (auto simp: allocated_def with_bit_def)
qed

text \<open>What a successful \<open>balloc\<close> leaves behind.\<close>

definition marked :: "(u8 list \<Rightarrow> nat \<Rightarrow> u8 list) \<Rightarrow> nat \<Rightarrow> u32 \<Rightarrow> nat \<Rightarrow> 'z fs_st_scheme \<Rightarrow> 'z fs_st_scheme \<Rightarrow> bool" where
  "marked g p dev b s t \<longleftrightarrow> quiet p dev t \<and> only_disk s t \<and> sectors t = sectors s \<and>
     blk t dev = with_bit g (sb s) b (blk s dev) \<and> (\<exists>r < NBUF. has_block dev (BBLOCK b (sb s)) (bufs t ! r))"

lemma bit_transaction:
  assumes q: "quiet p dev s" and w: "working p dev n r s t" and t: "sectors t = sectors s" "b_data (bufs t ! r) = blk s dev n"
      "\<And>m. blk t dev m = blk s dev m"
    and n: "n = BBLOCK b (sb s)" "unat n < 2147483648" and g: "length (g (blk s dev n) (b mod BPB)) = BSIZE"
  obtains u where "kthen (set_data r (g (blk s dev n) (b mod BPB))) (brelease r) t = Ret () u" "marked g p dev b s u"
proof -
  have dev: "dev \<noteq> 0" using q by (simp add: quiet_def)
  let ?d = "g (blk s dev n) (b mod BPB)"
  note s1 = working_set [OF w g dev]
  obtain u where u: "brelease r (t\<lparr>bufs := (bufs t)[r := (bufs t ! r)\<lparr>b_data := ?d\<rparr>]\<rparr>) = Ret () u" "quiet p dev u" "only_disk s u"
    "sectors u = sectors (t\<lparr>bufs := (bufs t)[r := (bufs t ! r)\<lparr>b_data := ?d\<rparr>]\<rparr>)"
    "\<And>m. blk u dev m = blk (t\<lparr>bufs := (bufs t)[r := (bufs t ! r)\<lparr>b_data := ?d\<rparr>]\<rparr>) dev m" "has_block dev n (bufs u ! r)" "r < NBUF"
    using working_release [OF s1(2) q n(2)] by metis
  have "blk u dev = with_bit g (sb s) b (blk s dev)"
    using u(5) s1(5) t(3) n(1) by (auto simp: with_bit_def)
  moreover have "\<exists>r < NBUF. has_block dev (BBLOCK b (sb s)) (bufs u ! r)" using u(6,7) n(1) by blast
  ultimately have "marked g p dev b s u" using u(2-4) t(1) by (simp add: marked_def)
  moreover have "kthen (set_data r ?d) (brelease r) t = Ret () u" using s1(1) u(1) by (simp add: kbind_def)
  ultimately show thesis using that by blast
qed

lemma length_blk:
  assumes "quiet p dev s"
  shows "length (blk s dev n) = BSIZE"
  using assms length_disk_block [of "sectors s" n]
  by (auto simp: blk_def quiet_def bc_ok_def dest: find_upt_Some split: option.splits)

lemma steady_read:
  assumes q: "quiet p dev s" and st: "steady s" and w: "working p dev n r s t"
    and t: "sectors t = sectors s" "b_data (bufs t ! r) = blk s dev n" "\<And>m. blk t dev m = blk s dev m" and n: "unat n < 2147483648"
  obtains u where "brelease r t = Ret () u" "quiet p dev u" "steady u" "only_disk s u" "sectors u = sectors s" "blk u dev = blk s dev"
proof -
  obtain u where u: "brelease r t = Ret () u" "quiet p dev u" "only_disk s u" "sectors u = sectors t" "\<And>m. blk u dev m = blk t dev m"
    "steady s \<Longrightarrow> b_data (bufs t ! r) = disk_block (sectors t) n \<Longrightarrow>
      (\<And>m. unat m < 2147483648 \<Longrightarrow> m \<noteq> n \<Longrightarrow> disk_block (sectors t) m = disk_block (sectors s) m) \<Longrightarrow> steady u"
    using working_release [OF w q n] by metis
  have "blk s dev n = disk_block (sectors s) n" using blk_steady [OF q st] .
  then have "steady u" using u(6) st t by simp
  moreover have "blk u dev = blk s dev" using u(5) t(3) by (intro ext) simp
  ultimately show thesis using that u(1-4) t(1) by simp
qed

lemma upt_split:
  assumes "a \<le> b" "b \<le> c"
  shows "[a..<c] = [a..<b] @ [b..<c]"
  using upt_add_eq_append [OF assms(1), of "c - b"] assms(2) by simp

lemma BBLOCK_bound:
  assumes "unat (bmapstart sbk) + sz div BPB < 2147483648" and "b < sz"
  shows "unat (BBLOCK b sbk) < 2147483648"
proof -
  have d: "b div BPB \<le> sz div BPB" using assms(2) by (intro div_le_mono) simp
  then have "b div BPB < 4294967296" using assms(1) by linarith
  then have "unat (of_nat (b div BPB) :: u32) = b div BPB" by (rule unat_of_nat_u32)
  then show ?thesis using d assms(1) mod_less_eq_dividend [of "b div BPB + unat (bmapstart sbk)" "2 ^ 32"]
    by (simp add: BBLOCK_def unat_word_ariths)
qed

lemma balloc_blocks_eq:
  assumes "quiet p dev s" and "steady s" and sz: "sz < 4294967296"
    and start: "\<And>b. b < sz \<Longrightarrow> unat (BBLOCK b (sb s)) < 2147483648"
  shows "case find (\<lambda>b. \<not> allocated (sb s) (blk s dev) b) [k * BPB..<sz] of
      None \<Rightarrow> balloc_blocks dev sz (map (\<lambda>i. i * BPB) [k..<(sz + BPB - 1) div BPB]) s = Panic ''balloc panic...''
    | Some b \<Rightarrow> \<exists>t. balloc_blocks dev sz (map (\<lambda>i. i * BPB) [k..<(sz + BPB - 1) div BPB]) s = Ret (of_nat b) t \<and> marked mark p dev b s t"
  using assms
proof (induction "(sz + BPB - 1) div BPB - k" arbitrary: k s)
  case 0
  have "sz \<le> k * BPB" using "0.hyps" by (simp add: BPB_def BSIZE_def)
  then show ?case using "0.hyps" by simp
next
  case (Suc m)
  let ?b = "k * BPB" and ?K = "(sz + BPB - 1) div BPB" and ?n = "BBLOCK (k * BPB) (sb s)"
  have k: "k < ?K" "?b < sz" using Suc.hyps(2) by (simp_all add: BPB_def BSIZE_def)
  have up: "[k..<?K] = k # [Suc k..<?K]" using k by (simp add: upt_conv_Cons)
  have n31: "unat ?n < 2147483648" using Suc.prems(4) [OF k(2)] .
  obtain r t where b: "bread dev ?n s = Ret r t" "working p dev ?n r s t" "sectors t = sectors s"
    "b_data (bufs t ! r) = blk s dev ?n" "\<And>m. blk t dev m = blk s dev m"
    using bread_quiet [OF Suc.prems(1), of ?n] Suc.prems(2) by metis
  have cc: "c div BPB = k" "c mod BPB = c - ?b" if "c \<in> set [?b..<min (?b + BPB) sz]" for c
  proof -
    have "c = k * BPB + (c - ?b)" "c - ?b < BPB" using that by auto
    then show "c div BPB = k" "c mod BPB = c - ?b"
      by (metis add.commute div_mult_self3 div_less add_cancel_left_left neq0_conv less_nat_zero_code, metis add.commute mod_mult_self3 mod_less)
  qed
  have al: "(\<not> map_bit (b_data (bufs t ! r)) (c - ?b)) = (\<not> allocated (sb s) (blk s dev) c)"
    if "c \<in> set [?b..<min (?b + BPB) sz]" for c
    using cc [OF that] b(4) by (simp add: allocated_def BBLOCK_def BPB_def BSIZE_def)
  let ?P = "\<lambda>b. \<not> allocated (sb s) (blk s dev) b" and ?d = "b_data (bufs t ! r)"
  let ?f = "find (\<lambda>c. \<not> map_bit ?d (c - ?b)) [?b..<min (?b + BPB) sz]"
  have fc: "?f = find ?P [?b..<min (?b + BPB) sz]" by (rule find_cong [OF refl al])
  have sp: "[?b..<sz] = [?b..<min (?b + BPB) sz] @ [Suc k * BPB..<sz]"
    using k(2) upt_split [of ?b "?b + BPB" sz] by (cases "?b + BPB \<le> sz") (simp_all add: min_def add.commute)
  have run: "balloc_blocks dev sz (map (\<lambda>i. i * BPB) [k..<?K]) s =
      kbind (balloc_bits r ?b sz [0..<BPB])
       (\<lambda>x. kthen (brelease r) (case x of Some bi \<Rightarrow> kret (of_nat (?b + bi))
         | None \<Rightarrow> balloc_blocks dev sz (map (\<lambda>i. i * BPB) [Suc k..<?K]))) t"
    unfolding up list.map balloc_blocks.simps using b(1) by (simp only: kbind_def kget_def outcome.case)
  have bits: "balloc_bits r ?b sz [0..<BPB] t = (case ?f of None \<Rightarrow> Ret None t
      | Some c \<Rightarrow> kthen (set_data r (mark ?d (c - ?b))) (kret (Some (c - ?b))) t)"
    using balloc_bits_eq [of r ?b sz 0 t] by simp
  show ?case
  proof (cases ?f)
    case (Some c)
    then have c: "c \<in> set [?b..<min (?b + BPB) sz]" by (auto dest: find_in_set)
    have n: "?n = BBLOCK c (sb s)" using cc [OF c] by (simp add: BBLOCK_def BPB_def BSIZE_def)
    have "length (mark (blk s dev ?n) (c mod BPB)) = BSIZE" using length_blk [OF Suc.prems(1)] by (simp add: mark_def)
    then obtain u where u: "kthen (set_data r (mark (blk s dev ?n) (c mod BPB))) (brelease r) t = Ret () u" "marked mark p dev c s u"
      using bit_transaction [OF Suc.prems(1) b(2,3,4,5) n n31, of mark] by metis
    have "c = ?b + (c - ?b)" using c by auto
    then have "balloc_blocks dev sz (map (\<lambda>i. i * BPB) [k..<?K]) s = Ret (of_nat c) u"
      using u(1) Some run bits cc [OF c] b(4) by (simp add: kbind_def set_data_def on_buf_apply)
    then show ?thesis using Some u(2) unfolding sp find_append fc [symmetric] by auto
  next
    case None
    obtain u where u: "brelease r t = Ret () u" "quiet p dev u" "steady u" "only_disk s u" "sectors u = sectors s" "blk u dev = blk s dev"
      using steady_read [OF Suc.prems(1,2) b(2,3,4,5) n31] .
    have sbu: "sb u = sb s" using only_disk_fs [OF u(4)] by simp
    have rest: "balloc_blocks dev sz (map (\<lambda>i. i * BPB) [k..<?K]) s = balloc_blocks dev sz (map (\<lambda>i. i * BPB) [Suc k..<?K]) u"
      using u(1) None run bits by (simp add: kbind_def)
    have here: "marked mark p dev c s v" if "marked mark p dev c u v" for c v
      using that only_disk_trans [OF u(4), of v] u(5,6) sbu by (simp add: marked_def)
    have "case find ?P [Suc k * BPB..<sz] of
        None \<Rightarrow> balloc_blocks dev sz (map (\<lambda>i. i * BPB) [Suc k..<?K]) u = Panic ''balloc panic...''
      | Some b \<Rightarrow> \<exists>t. balloc_blocks dev sz (map (\<lambda>i. i * BPB) [Suc k..<?K]) u = Ret (of_nat b) t \<and> marked mark p dev b u t"
      using Suc.hyps(1) [of "Suc k" u] Suc.hyps(2) u(2,3,6) Suc.prems(3,4) sbu by simp
    then show ?thesis unfolding rest sp find_append fc [symmetric] None using here
      by (cases "find ?P [Suc k * BPB..<sz]") auto
  qed
qed

text \<open>Freeing a block whose bitmap block is at hand.\<close>

lemma bfree_run:
  assumes q: "quiet p dev s" and here: "steady s \<or> (\<exists>j < NBUF. has_block dev (BBLOCK (unat b) (sb s)) (bufs s ! j))"
    and n: "unat (BBLOCK (unat b) (sb s)) < 2147483648"
  shows "if allocated (sb s) (blk s dev) (unat b) then \<exists>t. bfree dev b s = Ret () t \<and> marked unmark p dev (unat b) s t
    else bfree dev b s = Panic ''freeing free block''"
proof -
  let ?n = "BBLOCK (unat b) (sb s)" and ?c = "unat b mod BPB"
  obtain r t where t: "bread dev ?n s = Ret r t" "working p dev ?n r s t" "sectors t = sectors s"
    "b_data (bufs t ! r) = blk s dev ?n" "\<And>m. blk t dev m = blk s dev m"
    using bread_quiet [OF q here] by metis
  have test: "(blk s dev ?n ! (?c div 8)) AND 2 ^ (?c mod 8) = 0 \<longleftrightarrow> \<not> allocated (sb s) (blk s dev) (unat b)"
    by (simp add: bit_test allocated_def map_bit_def)
  show ?thesis
  proof (cases "allocated (sb s) (blk s dev) (unat b)")
    case True
    have "length (unmark (blk s dev ?n) ?c) = BSIZE" using length_blk [OF q] by (simp add: unmark_def)
    then obtain u where u: "kthen (set_data r (unmark (blk s dev ?n) ?c)) (brelease r) t = Ret () u" "marked unmark p dev (unat b) s u"
      using bit_transaction [OF q t(2-5) refl n, of unmark] by metis
    have "bfree dev b s = Ret () u"
      using True t(1,4) u(1) test by (simp add: bfree_def kbind_def bget_field_apply Let_def unmark_def)
    then show ?thesis using True u(2) by auto
  next
    case False
    then show ?thesis using t(1,4) test by (simp add: bfree_def kbind_def bget_field_apply Let_def)
  qed
qed

lemma balloc_run:
  assumes q: "quiet p dev s" and st: "steady s"
    and bm: "unat (bmapstart (sb s)) + unat (sb_size (sb s)) div BPB < 2147483648"
  shows "case find (\<lambda>b. \<not> allocated (sb s) (blk s dev) b) [0..<unat (sb_size (sb s))] of
      None \<Rightarrow> balloc dev s = Panic ''balloc panic...''
    | Some b \<Rightarrow> \<exists>t. balloc dev s = Ret (of_nat b) t \<and> marked mark p dev b s t"
proof -
  let ?sz = "unat (sb_size (sb s))"
  have "case find (\<lambda>b. \<not> allocated (sb s) (blk s dev) b) [0 * BPB..<?sz] of
      None \<Rightarrow> balloc_blocks dev ?sz (map (\<lambda>i. i * BPB) [0..<(?sz + BPB - 1) div BPB]) s = Panic ''balloc panic...''
    | Some b \<Rightarrow> \<exists>t. balloc_blocks dev ?sz (map (\<lambda>i. i * BPB) [0..<(?sz + BPB - 1) div BPB]) s = Ret (of_nat b) t \<and> marked mark p dev b s t"
    by (rule balloc_blocks_eq [OF q st unat_u32]) (rule BBLOCK_bound [OF bm])
  moreover have "balloc dev s = balloc_blocks dev ?sz (map (\<lambda>i. i * BPB) [0..<(?sz + BPB - 1) div BPB]) s"
    by (simp add: balloc_def kbind_def)
  ultimately show ?thesis by (simp only: mult_0)
qed

text \<open>(C8) \<open>balloc\<close> is first fit. It returns the lowest block below \<open>sb.size\<close> whose bit in the bitmap is clear (a
  linear search over the abstract bitmap, whatever number of bitmap blocks it spans), marks this block and
  no other, and panics exactly when all blocks are taken. The mark is made in the buffer cache only: the
  disk is as before.\<close>

theorem balloc_first_fit:
  assumes q: "quiet p dev s" and st: "steady s"
    and bm: "unat (bmapstart (sb s)) + unat (sb_size (sb s)) div BPB < 2147483648"
  shows "case find (\<lambda>b. \<not> allocated (sb s) (blk s dev) b) [0..<unat (sb_size (sb s))] of
      None \<Rightarrow> balloc dev s = Panic ''balloc panic...''
    | Some b \<Rightarrow> \<exists>t. balloc dev s = Ret (of_nat b) t \<and> quiet p dev t \<and> only_disk s t \<and> sectors t = sectors s \<and>
        (\<forall>c < unat (sb_size (sb s)). allocated (sb s) (blk t dev) c \<longleftrightarrow> c = b \<or> allocated (sb s) (blk s dev) c)"
proof (cases "find (\<lambda>b. \<not> allocated (sb s) (blk s dev) b) [0..<unat (sb_size (sb s))]")
  case None
  then show ?thesis using balloc_run [OF q st bm] by simp
next
  case (Some b)
  then obtain t where t: "balloc dev s = Ret (of_nat b) t" "marked mark p dev b s t" using balloc_run [OF q st bm] by auto
  have b: "b < unat (sb_size (sb s))" using find_in_set [OF Some] by simp
  have "allocated (sb s) (blk t dev) c \<longleftrightarrow> c = b \<or> allocated (sb s) (blk s dev) c" if "c < unat (sb_size (sb s))" for c
    using allocated_with_bit(1) [of b c "blk s dev" "sb s"] length_blk [OF q] unat_u32 [of "sb_size (sb s)"] t(2) that b
    by (simp add: marked_def)
  then show ?thesis unfolding Some option.case using t by (intro exI [of _ t]) (simp add: marked_def)
qed

text \<open>Freeing what \<open>balloc\<close> returned gives the old bitmap back, and freeing it twice panics.\<close>

theorem balloc_bfree_roundtrip:
  assumes q: "quiet p dev s" and st: "steady s"
    and bm: "unat (bmapstart (sb s)) + unat (sb_size (sb s)) div BPB < 2147483648"
    and r: "balloc dev s = Ret b t"
  shows "\<exists>u. bfree dev b t = Ret () u \<and> blk u dev = blk s dev \<and> sectors u = sectors s \<and> inodes u = inodes s \<and>
    bfree dev b u = Panic ''freeing free block''"
proof -
  let ?sz = "unat (sb_size (sb s))"
  have s32: "?sz < 4294967296" by (rule unat_u32)
  obtain c where c: "find (\<lambda>b. \<not> allocated (sb s) (blk s dev) b) [0..<?sz] = Some c" "b = of_nat c" "marked mark p dev c s t"
    using r balloc_run [OF q st bm] by (auto split: option.splits)
  have cb: "c < ?sz" "\<not> allocated (sb s) (blk s dev) c" using find_in_set [OF c(1)] by auto
  have ub: "unat b = c" using c(2) cb(1) s32 by (simp add: unat_of_nat_u32)
  have t: "quiet p dev t" "only_disk s t" "sectors t = sectors s" "blk t dev = with_bit mark (sb s) c (blk s dev)"
    "\<exists>r < NBUF. has_block dev (BBLOCK c (sb s)) (bufs t ! r)" "sb t = sb s" "inodes t = inodes s"
    using c(3) only_disk_fs [of s t] by (simp_all add: marked_def)
  have l: "length (blk s dev (BBLOCK c (sb s))) = BSIZE" by (rule length_blk [OF q])
  have at: "allocated (sb t) (blk t dev) (unat b)"
    using allocated_with_bit(1) [of c c "blk s dev" "sb s"] l cb s32 t(4,6) ub by simp
  have n31: "unat (BBLOCK (unat b) (sb s)) < 2147483648" using BBLOCK_bound [OF bm] cb ub by simp
  obtain u where u: "bfree dev b t = Ret () u" "marked unmark p dev (unat b) t u"
    using bfree_run [OF t(1), of b] t(5,6) n31 ub at by auto
  have bu: "blk u dev = blk s dev"
    using u(2) t(4,6) ub cb(2) unmark_mark [of "blk s dev (BBLOCK c (sb s))" "c mod BPB"] by (auto simp: marked_def with_bit_def allocated_def)
  have f: "quiet p dev u" "sb u = sb s" "inodes u = inodes s" "sectors u = sectors s"
    "\<exists>r < NBUF. has_block dev (BBLOCK c (sb s)) (bufs u ! r)"
    using u(2) only_disk_fs [of t u] t ub by (simp_all add: marked_def)
  have "bfree dev b u = Panic ''freeing free block''"
    using bfree_run [OF f(1), of b] f(2,5) n31 ub bu cb(2) by simp
  then show ?thesis using u(1) bu f by blast
qed

text \<open>A quiet file system with any given disk, and a superblock as \<open>mkfs\<close> writes it.\<close>

lemma run_quiet:
  assumes "\<And>a. length (sec a) = 512"
  obtains s :: fs_st where "quiet 0 1 s" "steady s" "sectors s = sec" "sb s = b" "inodes s = ins"
    "\<And>n. blk s 1 n = disk_block sec n"
proof -
  obtain s :: fs_st where s: "calm 0 s" "driver_idle s" "bc_ok (bufs s)" "sectors s = sec" "sb s = b" "inodes s = ins"
    "\<And>i. i < NBUF \<Longrightarrow> b_dev (bufs s ! i) = 0 \<and> b_refcnt (bufs s ! i) = 0 \<and> b_vaild (bufs s ! i) = 0"
    by (rule run_fs) blast
  have q: "quiet 0 1 s" using s assms by (simp add: quiet_def)
  have st: "steady s" using s(7) by (simp add: steady_def)
  show thesis using that [OF q st s(4-6)] blk_steady [OF q st] s(4) by simp
qed

definition sb0 :: superblock where
  "sb0 = \<lparr>magic = FSMAGIC, sb_size = 2000, nblocks = 1953, ninodes = 200, nlog = 30, logstart = 2, inodestart = 32, bmapstart = 46, dataStart = 47\<rparr>"

lemma sevens:
  assumes "\<And>n. f n ! 0 = 7"
  shows "find (\<lambda>b. \<not> allocated sb0 f b) [0..<2000] = Some 3"
proof -
  have "(4 :: nat) \<le> 2000" by simp
  moreover have "[0..<4] = [0, 1, 2, 3 :: nat]" by code_simp
  ultimately have up: "[0..<2000 :: nat] = [0, 1, 2, 3] @ [4..<2000]" using upt_split [of 0 4 2000] by (simp only: le0)
  have "allocated sb0 f b \<longleftrightarrow> bit (7 :: u8) b" if "b < 8" for b
    using that assms by (simp add: allocated_def map_bit_def BPB_def BSIZE_def)
  then have "find (\<lambda>b. \<not> allocated sb0 f b) ([0, 1, 2, 3] @ ys) = Some 3" for ys by simp
  then show ?thesis unfolding up .
qed

lemma sevens_block: "disk_block (\<lambda>_. replicate 512 7) n ! 0 = 7"
proof -
  have "[0..<2] = [0, Suc 0]" by code_simp
  then show ?thesis by (simp only: disk_block_def rd_sectors_def list.map concat.simps append_Nil2 nth_append length_replicate) simp
qed

theorem balloc_first_fit_witness: "\<exists>(s :: fs_st) t. balloc 1 s = Ret 3 t \<and> sectors t = sectors s"
proof -
  obtain s :: fs_st where s: "quiet 0 1 s" "steady s" "sb s = sb0" "\<And>n. blk s 1 n = disk_block (\<lambda>_. replicate 512 7) n"
    by (rule run_quiet [of "\<lambda>_. replicate 512 7" sb0 "[]"]) (simp_all only: length_replicate)
  have b: "find (\<lambda>b. \<not> allocated (sb s) (blk s 1) b) [0..<unat (sb_size (sb s))] = Some 3"
    using sevens [of "blk s 1"] s(3,4) sevens_block by simp (simp add: sb0_def)
  have "unat (bmapstart (sb s)) + unat (sb_size (sb s)) div BPB < 2147483648" using s(3) by (simp add: sb0_def BPB_def BSIZE_def)
  then obtain t where "balloc 1 s = Ret 3 t" "sectors t = sectors s"
    using balloc_first_fit [OF s(1,2)] b by auto
  then show ?thesis by blast
qed

theorem balloc_bfree_roundtrip_witness:
  "\<exists>(s :: fs_st) t u. balloc 1 s = Ret 3 t \<and> bfree 1 3 t = Ret () u \<and> blk u 1 = blk s 1 \<and> bfree 1 3 u = Panic ''freeing free block''"
proof -
  obtain s :: fs_st where s: "quiet 0 1 s" "steady s" "sb s = sb0" "\<And>n. blk s 1 n = disk_block (\<lambda>_. replicate 512 7) n"
    by (rule run_quiet [of "\<lambda>_. replicate 512 7" sb0 "[]"]) (simp_all only: length_replicate)
  have b: "find (\<lambda>b. \<not> allocated (sb s) (blk s 1) b) [0..<unat (sb_size (sb s))] = Some 3"
    using sevens [of "blk s 1"] s(3,4) sevens_block by simp (simp add: sb0_def)
  have bm: "unat (bmapstart (sb s)) + unat (sb_size (sb s)) div BPB < 2147483648" using s(3) by (simp add: sb0_def BPB_def BSIZE_def)
  obtain t where "balloc 1 s = Ret 3 t"
    using balloc_run [OF s(1,2) bm] b by auto
  then show ?thesis using balloc_bfree_roundtrip [OF s(1,2) bm] by blast
qed

section \<open>Integers and inodes in a block\<close>

lemma join16: "(ucast (ucast v :: u8) :: u16) OR push_bit 8 (ucast (ucast (drop_bit 8 v) :: u8)) = v"
  by (rule bit_word_eqI) (auto simp: bit_or_iff bit_push_bit_iff bit_ucast_iff bit_drop_bit_eq)

lemma join32:
  "(ucast (ucast v :: u8) :: u32) OR push_bit 8 (ucast (ucast (drop_bit 8 v) :: u8)) OR
   push_bit 16 (ucast (ucast (drop_bit 16 v) :: u8)) OR push_bit 24 (ucast (ucast (drop_bit 24 v) :: u8)) = v" (is "?l = v")
proof (rule bit_word_eqI)
  fix n assume "n < LENGTH(32)"
  then show "bit ?l n = bit v n"
    by (cases "n < 24"; cases "n < 16") (auto simp: bit_or_iff bit_push_bit_iff bit_ucast_iff bit_drop_bit_eq)
qed

lemma length_wr [simp]: "length (wr16 d i x) = length d" "length (wr32 d i y) = length d"
  by (simp_all add: wr16_def wr32_def)

lemma wr_other:
  "k < i \<or> i + 2 \<le> k \<Longrightarrow> wr16 d i x ! k = d ! k" "k < i \<or> i + 4 \<le> k \<Longrightarrow> wr32 d i y ! k = d ! k"
  by (auto simp: wr16_def wr32_def nth_list_update)

lemma rd16_wr16: "i + 1 < length d \<Longrightarrow> rd16 (wr16 d i v) i = v"
  by (simp add: rd16_def wr16_def nth_list_update join16)

lemma rd32_wr32: "i + 3 < length d \<Longrightarrow> rd32 (wr32 d i v) i = v"
  by (simp add: rd32_def wr32_def nth_list_update join32 [simplified])

lemma rd_cong:
  "d ! i = d' ! i \<Longrightarrow> d ! (i + 1) = d' ! (i + 1) \<Longrightarrow> rd16 d i = rd16 d' i"
  "d ! i = d' ! i \<Longrightarrow> d ! (i + 1) = d' ! (i + 1) \<Longrightarrow> d ! (i + 2) = d' ! (i + 2) \<Longrightarrow> d ! (i + 3) = d' ! (i + 3) \<Longrightarrow> rd32 d i = rd32 d' i"
  by (simp_all add: rd16_def rd32_def)

lemma rd_other:
  "j + 2 \<le> i \<or> i + 2 \<le> j \<Longrightarrow> rd16 (wr16 d i v) j = rd16 d j" "j + 2 \<le> i \<or> i + 4 \<le> j \<Longrightarrow> rd16 (wr32 d i w) j = rd16 d j"
  by (rule rd_cong; rule wr_other; linarith)+

text \<open>Writing an array of integers.\<close>

definition put_ints :: "nat \<Rightarrow> u32 list \<Rightarrow> nat \<Rightarrow> u8 list \<Rightarrow> u8 list" where
  "put_ints b xs n d = fold (\<lambda>i d. wr32 d (b + 4 * i) (xs ! i)) [0..<n] d"

lemma put_ints_Suc: "put_ints b xs (Suc n) d = wr32 (put_ints b xs n d) (b + 4 * n) (xs ! n)"
  by (simp add: put_ints_def)

lemma length_put_ints [simp]: "length (put_ints b xs n d) = length d"
  by (induction n) (simp_all add: put_ints_Suc, simp add: put_ints_def)

lemma put_ints_other: "k < b \<or> b + 4 * n \<le> k \<Longrightarrow> put_ints b xs n d ! k = d ! k"
  by (induction n) (auto simp: put_ints_Suc wr_other, simp_all add: put_ints_def)

lemma put_ints_get:
  assumes "b + 4 * n \<le> length d" and "j < n"
  shows "rd32 (put_ints b xs n d) (b + 4 * j) = xs ! j"
  using assms
proof (induction n)
  case (Suc n)
  show ?case
  proof (cases "j = n")
    case True
    then show ?thesis using Suc.prems by (simp add: put_ints_Suc rd32_wr32)
  next
    case False
    then have "rd32 (put_ints b xs (Suc n) d) (b + 4 * j) = rd32 (put_ints b xs n d) (b + 4 * j)"
      using Suc.prems unfolding put_ints_Suc by (intro rd_cong(2) wr_other(2)) linarith+
    then show ?thesis using Suc False by simp
  qed
qed simp

text \<open>A disk inode survives being written and read, and the others of its block are not touched.\<close>

lemma enc_dinode_eq: "enc_dinode d k x = put_ints (64 * k + 12) (di_addrs x) 13
    (wr32 (wr16 (wr16 (wr16 (wr16 d (64 * k) (di_type x)) (64 * k + 2) (di_major x)) (64 * k + 4) (di_minor x)) (64 * k + 6) (di_nlink x))
      (64 * k + 8) (di_size x))"
  by (simp add: enc_dinode_def Let_def put_ints_def NDIRECT_def del: upt_Suc)

lemma enc_dinode_len [simp]: "length (enc_dinode d k x) = length d"
  by (simp add: enc_dinode_eq)

lemma enc_dinode_other: "j < 64 * k \<or> 64 * k + 64 \<le> j \<Longrightarrow> enc_dinode d k x ! j = d ! j"
  unfolding enc_dinode_eq by (subst put_ints_other) (auto simp: wr_other)

lemma dec_enc_dinode:
  assumes "64 * k + 64 \<le> length d" and "length (di_addrs x) = 13"
  shows "dec_dinode (enc_dinode d k x) k = x"
proof -
  let ?o = "64 * k"
  let ?w = "wr32 (wr16 (wr16 (wr16 (wr16 d ?o (di_type x)) (?o + 2) (di_major x)) (?o + 4) (di_minor x)) (?o + 6) (di_nlink x))
      (?o + 8) (di_size x)"
  have e: "enc_dinode d k x = put_ints (?o + 12) (di_addrs x) 13 ?w" by (rule enc_dinode_eq)
  have low: "enc_dinode d k x ! j = ?w ! j" if "j < ?o + 12" for j
    unfolding e using that by (intro put_ints_other) simp
  have r16: "rd16 (enc_dinode d k x) (?o + j) = rd16 ?w (?o + j)" if "j < 8" for j
    using that by (intro rd_cong low) simp_all
  have "rd16 (enc_dinode d k x) ?o = di_type x" using r16 [of 0] assms(1) by (simp add: rd_other rd16_wr16)
  moreover have "rd16 (enc_dinode d k x) (?o + 2) = di_major x" using r16 [of 2] assms(1) by (simp add: rd_other rd16_wr16)
  moreover have "rd16 (enc_dinode d k x) (?o + 4) = di_minor x" using r16 [of 4] assms(1) by (simp add: rd_other rd16_wr16)
  moreover have "rd16 (enc_dinode d k x) (?o + 6) = di_nlink x" using r16 [of 6] assms(1) by (simp add: rd_other rd16_wr16)
  moreover have "rd32 (enc_dinode d k x) (?o + 8) = di_size x"
  proof -
    have "rd32 (enc_dinode d k x) (?o + 8) = rd32 ?w (?o + 8)" by (intro rd_cong low) simp_all
    then show ?thesis using assms(1) by (simp add: rd32_wr32)
  qed
  moreover have "map (\<lambda>i. rd32 (enc_dinode d k x) (?o + 12 + 4 * i)) [0..<13] = di_addrs x"
    unfolding e using assms by (intro nth_equalityI) (simp_all add: put_ints_get)
  ultimately show ?thesis by (simp add: dec_dinode_def Let_def NDIRECT_def del: upt_Suc)
qed

section \<open>Saving and loading an inode\<close>

interpretation ilk: sleep_ref "inode_lk i" "\<lambda>s. i < length (inodes s)" for i
proof
  fix f g :: "sleeplock \<Rightarrow> sleeplock" and s :: "'a fs_st_scheme"
  show "sl_upd (inode_lk i) g (sl_upd (inode_lk i) f s) = sl_upd (inode_lk i) (g \<circ> f) s"
    using upd_twice [of "inodes s" i "\<lambda>k. k\<lparr>i_splock := f (i_splock k)\<rparr>" "\<lambda>k. k\<lparr>i_splock := g (i_splock k)\<rparr>"]
    by (simp add: inode_lk_def comp_def)
qed (simp_all add: inode_lk_def)

definition locked_inode :: "nat \<Rightarrow> 'z fs_st_scheme \<Rightarrow> inode \<Rightarrow> inode" where
  "locked_inode p s k = k\<lparr>i_splock := lock_of p s (i_splock k)\<rparr>"

lemma inode_lock:
  assumes "calm p s" and "sl_locked (i_splock (inodes s ! i)) = 0"
  shows "sleep_lock (inode_lk i) s = Ret () (s\<lparr>inodes := (inodes s)[i := locked_inode p s (inodes s ! i)]\<rparr>)"
  using ilk.sleep_lock_free [OF assms(1), of i] assms(2) by (simp add: inode_lk_def lock_of_def locked_inode_def)

text \<open>The part of an inode that is on disk, and an inode with this part replaced.\<close>

definition disk_part :: "inode \<Rightarrow> dinode" where
  "disk_part k = \<lparr>di_type = i_type k, di_major = i_major k, di_minor = i_minor k, di_nlink = i_nlink k,
     di_size = i_size k, di_addrs = i_addrs k\<rparr>"

definition load_part :: "dinode \<Rightarrow> inode \<Rightarrow> inode" where
  "load_part d k = k\<lparr>i_type := di_type d, i_size := di_size d, i_major := di_major d, i_minor := di_minor d,
     i_nlink := di_nlink d, i_addrs := di_addrs d, i_vaild := 0\<rparr>"

lemma quiet_inodes:
  "quiet p dev (s\<lparr>inodes := ins\<rparr>) = quiet p dev s" "steady (s\<lparr>inodes := ins\<rparr>) = steady s" "blk (s\<lparr>inodes := ins\<rparr>) = blk s"
proof -
  have "calm p (s\<lparr>inodes := ins\<rparr>) = calm p s" by (simp add: calm_def cur_def)
  then show "quiet p dev (s\<lparr>inodes := ins\<rparr>) = quiet p dev s" by (simp add: quiet_def driver_idle_def)
  show "steady (s\<lparr>inodes := ins\<rparr>) = steady s" by (simp add: steady_def)
  show "blk (s\<lparr>inodes := ins\<rparr>) = blk s" by (intro ext) (simp add: blk_def split: option.splits)
qed

text \<open>A whole transaction that writes a block out.\<close>

lemma write_transaction:
  assumes q: "quiet p dev s" and st: "steady s" and w: "working p dev n r s t" and t: "sectors t = sectors s" "\<And>m. blk t dev m = blk s dev m"
    and n: "unat n < 2147483648" and d: "length d = BSIZE"
  obtains u where "kthen (set_data r d) (kthen (bwrite r) (brelease r)) t = Ret () u" "quiet p dev u" "steady u" "only_disk s u"
    "disk_block (sectors u) n = d" "\<And>m. unat m < 2147483648 \<Longrightarrow> m \<noteq> n \<Longrightarrow> disk_block (sectors u) m = disk_block (sectors s) m"
proof -
  have dev: "dev \<noteq> 0" using q by (simp add: quiet_def)
  define t1 where "t1 = t\<lparr>bufs := (bufs t)[r := (bufs t ! r)\<lparr>b_data := d\<rparr>]\<rparr>"
  have s1: "set_data r d t = Ret () t1" "working p dev n r s t1" "b_data (bufs t1 ! r) = d" "sectors t1 = sectors t"
    using working_set [OF w d dev] by (simp_all only: t1_def)
  obtain t2 where t2: "bwrite r t1 = Ret () t2" "working p dev n r s t2" "b_data (bufs t2 ! r) = d" "disk_block (sectors t2) n = d"
    "\<And>m. unat m < 2147483648 \<Longrightarrow> m \<noteq> n \<Longrightarrow> disk_block (sectors t2) m = disk_block (sectors t1) m"
    using working_bwrite [OF s1(2) dev n] s1(3) by metis
  obtain u where u: "brelease r t2 = Ret () u" "quiet p dev u" "only_disk s u" "sectors u = sectors t2"
    "steady s \<Longrightarrow> b_data (bufs t2 ! r) = disk_block (sectors t2) n \<Longrightarrow>
      (\<And>m. unat m < 2147483648 \<Longrightarrow> m \<noteq> n \<Longrightarrow> disk_block (sectors t2) m = disk_block (sectors s) m) \<Longrightarrow> steady u"
    using working_release [OF t2(2) q n] by metis
  have "steady u" using u(5) [OF st] t2(3-5) s1(4) t(1) by simp
  moreover have "kthen (set_data r d) (kthen (bwrite r) (brelease r)) t = Ret () u" using s1(1) t2(1) u(1) by (simp add: kbind_def)
  ultimately show thesis using that u(2-4) t2(4,5) s1(4) t(1) by simp
qed

lemma iupdate_run:
  assumes q: "quiet p (i_dev (inodes s ! i)) s" and st: "steady s" and n: "unat (IBLOCK (i_inum (inodes s ! i)) (sb s)) < 2147483648"
  defines "k \<equiv> inodes s ! i"
  obtains t where "iupdate i s = Ret () t" "quiet p (i_dev k) t" "steady t" "only_disk s t"
    "disk_block (sectors t) (IBLOCK (i_inum k) (sb s)) =
      enc_dinode (disk_block (sectors s) (IBLOCK (i_inum k) (sb s))) (unat (i_inum k) mod IPB) (disk_part k)"
    "\<And>m. unat m < 2147483648 \<Longrightarrow> m \<noteq> IBLOCK (i_inum k) (sb s) \<Longrightarrow> disk_block (sectors t) m = disk_block (sectors s) m"
proof -
  let ?n = "IBLOCK (i_inum k) (sb s)"
  obtain r t where b: "bread (i_dev k) ?n s = Ret r t" "working p (i_dev k) ?n r s t" "sectors t = sectors s"
    "b_data (bufs t ! r) = blk s (i_dev k) ?n" "\<And>m. blk t (i_dev k) m = blk s (i_dev k) m"
    using bread_quiet [OF q, of ?n] st by (metis k_def)
  let ?d = "enc_dinode (blk s (i_dev k) ?n) (unat (i_inum k) mod IPB) (disk_part k)"
  have ot: "only_disk s t" using b(2) by (simp add: working_def)
  have "length ?d = BSIZE" using length_blk [OF q] by (simp add: k_def)
  then obtain u where u: "kthen (set_data r ?d) (kthen (bwrite r) (brelease r)) t = Ret () u" "quiet p (i_dev k) u" "steady u" "only_disk s u"
    "disk_block (sectors u) ?n = ?d" "\<And>m. unat m < 2147483648 \<Longrightarrow> m \<noteq> ?n \<Longrightarrow> disk_block (sectors u) m = disk_block (sectors s) m"
    using write_transaction [OF q [folded k_def] st b(2,3,5) n [folded k_def]] by metis
  have "iupdate i s = Ret () u"
    using b(1,4) u(1) only_disk_fs [OF ot]
    by (simp add: iupdate_def kbind_def iget_field_apply bget_field_apply k_def [symmetric] disk_part_def)
  then show thesis using that u(2-6) blk_steady [OF q st] by (simp add: k_def)
qed

text \<open>Disk inode number \<open>j\<close>.\<close>

definition dinode_of :: "'z fs_st_scheme \<Rightarrow> u32 \<Rightarrow> dinode" where
  "dinode_of s j = dec_dinode (disk_block (sectors s) (IBLOCK j (sb s))) (unat j mod IPB)"

text \<open>Transactions do not look at the inode cache.\<close>

lemma only_disk_inodes: "only_disk s t \<Longrightarrow> only_disk (s\<lparr>inodes := ins\<rparr>) (t\<lparr>inodes := ins\<rparr>)"
proof -
  assume "only_disk s t"
  then have t: "t = disk_of t s" by (simp only: only_disk_def)
  have "(disk_of t s)\<lparr>inodes := ins\<rparr> = disk_of t (s\<lparr>inodes := ins\<rparr>)" by (cases s) (simp add: disk_of_def)
  then have "t\<lparr>inodes := ins\<rparr> = disk_of t (s\<lparr>inodes := ins\<rparr>)" using t by simp
  then show "only_disk (s\<lparr>inodes := ins\<rparr>) (t\<lparr>inodes := ins\<rparr>)" by (simp add: only_disk_def disk_of_def)
qed

lemma working_inodes:
  assumes "working p dev n r s t"
  shows "working p dev n r (s\<lparr>inodes := ins\<rparr>) (t\<lparr>inodes := ins\<rparr>)"
proof -
  have "calm p (t\<lparr>inodes := ins\<rparr>) = calm p t" by (simp add: calm_def cur_def)
  then show ?thesis using assms only_disk_inodes [of s t ins] by (simp add: working_def driver_idle_def held_buf_def)
qed

lemma vaild_0: "i_vaild k = 0 \<Longrightarrow> k\<lparr>i_vaild := 0\<rparr> = k"
  by (cases k) simp

lemma ilock_run:
  assumes q: "quiet p (i_dev (inodes s ! i)) s" and st: "steady s" and n: "unat (IBLOCK (i_inum (inodes s ! i)) (sb s)) < 2147483648"
    and i: "i < length (inodes s)" "i_ref (inodes s ! i) \<ge> 1" "sl_locked (i_splock (inodes s ! i)) = 0" "i_vaild (inodes s ! i) = 0"
  defines "k \<equiv> inodes s ! i"
  defines "s' \<equiv> s\<lparr>inodes := (inodes s)[i := load_part (dinode_of s (i_inum k)) (locked_inode p s k)]\<rparr>"
  obtains t where "ilock (Some i) s = Ret () t" "only_disk s' t" "quiet p (i_dev k) t" "steady t" "sectors t = sectors s"
proof -
  let ?n = "IBLOCK (i_inum k) (sb s)" and ?a = "s\<lparr>inodes := (inodes s)[i := locked_inode p s k]\<rparr>"
  let ?l = "load_part (dinode_of s (i_inum k)) (locked_inode p s k)"
  have c: "calm p s" using q by (simp add: quiet_def)
  have qa: "quiet p (i_dev k) ?a" "steady ?a" and qs: "quiet p (i_dev k) s'" "steady s'"
    using q st by (simp_all add: quiet_inodes k_def s'_def)
  have n': "unat ?n < 2147483648" using n by (simp add: k_def)
  obtain r t where b: "bread (i_dev k) ?n ?a = Ret r t" "working p (i_dev k) ?n r ?a t" "sectors t = sectors ?a"
    "b_data (bufs t ! r) = blk ?a (i_dev k) ?n" "\<And>m. blk t (i_dev k) m = blk ?a (i_dev k) m"
    using bread_quiet [OF qa(1), of ?n] qa(2) by metis
  have d: "b_data (bufs t ! r) = disk_block (sectors s) ?n" using b(4) blk_steady [OF qa, of ?n] by simp
  have it: "inodes t = (inodes s)[i := locked_inode p s k]" using b(2) only_disk_fs [of ?a t] by (simp add: working_def)
  let ?t = "t\<lparr>inodes := (inodes s)[i := ?l]\<rparr>"
  have w: "working p (i_dev k) ?n r s' ?t" using working_inodes [OF b(2), of "(inodes s)[i := ?l]"] by (simp add: s'_def)
  obtain u where u: "brelease r ?t = Ret () u" "quiet p (i_dev k) u" "steady u" "only_disk s' u" "sectors u = sectors s'"
    using steady_read [OF qs w _ _ _ n'] b(3-5) by (auto simp: s'_def quiet_inodes)
  have iu: "inodes u = (inodes s)[i := ?l]" using only_disk_fs [OF u(4)] by (simp add: s'_def)
  have v: "i_vaild (locked_inode p s k) = 0" using i(4) by (simp add: locked_inode_def k_def)
  have l: "(locked_inode p s k)\<lparr>i_type := di_type x, i_size := di_size x, i_major := di_major x, i_minor := di_minor x,
      i_nlink := di_nlink x, i_addrs := di_addrs x\<rparr> = load_part x (locked_inode p s k)" for x
    using v by (simp add: load_part_def vaild_0)
  have same: "u\<lparr>inodes := (inodes u)[i := (inodes u ! i)\<lparr>i_vaild := 0\<rparr>]\<rparr> = u"
    using i(1) by (simp add: iu vaild_0 load_part_def)
  have "ilock (Some i) s = Ret () u"
    using b(1) i u(1) it d l [of "dinode_of s (i_inum k)"] same inode_lock [OF c i(3)]
    by (simp add: ilock_def kbind_def iget_field_apply bget_field_apply on_inode_apply k_def [symmetric] dinode_of_def locked_inode_def [of p s k])
  then show thesis using that u by (simp add: s'_def)
qed

lemma IBLOCK_inj:
  assumes "IBLOCK a sbk = IBLOCK b sbk" and "unat a mod IPB = unat b mod IPB"
  shows "a = b"
proof -
  have "(of_nat (unat a div IPB) :: u32) = of_nat (unat b div IPB)" using assms(1) by (simp add: IBLOCK_def)
  moreover have "unat a div IPB < 4294967296" "unat b div IPB < 4294967296"
    using unat_u32 [of a] unat_u32 [of b] div_le_dividend [of "unat a" IPB] div_le_dividend [of "unat b" IPB] by linarith+
  ultimately have "unat a div IPB = unat b div IPB" by (metis unat_of_nat_u32)
  then have "unat a = unat b" using assms(2) by (metis div_mult_mod_eq)
  then show ?thesis by (simp add: word_unat_eq_iff)
qed

lemma dec_dinode_cong:
  assumes "\<And>j. 64 * k \<le> j \<Longrightarrow> j < 64 * k + 64 \<Longrightarrow> d ! j = d' ! j"
  shows "dec_dinode d k = dec_dinode d' k"
proof -
  have r: "rd16 d (64 * k + j) = rd16 d' (64 * k + j)" "rd32 d (64 * k + j) = rd32 d' (64 * k + j)" if "j \<le> 60" for j
    using that by (intro rd_cong assms; simp)+
  have "rd32 d (64 * k + 12 + 4 * i) = rd32 d' (64 * k + 12 + 4 * i)" if "i < 13" for i
    using r(2) [of "12 + 4 * i"] that by (simp add: add.assoc)
  moreover have "rd16 d (64 * k) = rd16 d' (64 * k)" using r(1) [of 0] by simp
  moreover have "rd16 d (64 * k + 2) = rd16 d' (64 * k + 2)" using r(1) [of 2] by simp
  moreover have "rd16 d (64 * k + 4) = rd16 d' (64 * k + 4)" using r(1) [of 4] by simp
  moreover have "rd16 d (64 * k + 6) = rd16 d' (64 * k + 6)" using r(1) [of 6] by simp
  moreover have "rd32 d (64 * k + 8) = rd32 d' (64 * k + 8)" using r(2) [of 8] by simp
  ultimately show ?thesis by (simp add: dec_dinode_def Let_def NDIRECT_def del: upt_Suc)
qed

lemma iupdate_dinodes:
  assumes q: "quiet p (i_dev (inodes s ! i)) s" and st: "steady s" and n: "\<And>j. unat (IBLOCK j (sb s)) < 2147483648"
    and a: "length (i_addrs (inodes s ! i)) = 13"
  obtains t where "iupdate i s = Ret () t" "quiet p (i_dev (inodes s ! i)) t" "steady t" "only_disk s t"
    "dinode_of t = (dinode_of s)(i_inum (inodes s ! i) := disk_part (inodes s ! i))"
proof -
  let ?k = "inodes s ! i" and ?n = "IBLOCK (i_inum (inodes s ! i)) (sb s)"
  obtain t where t: "iupdate i s = Ret () t" "quiet p (i_dev ?k) t" "steady t" "only_disk s t"
    "disk_block (sectors t) ?n = enc_dinode (disk_block (sectors s) ?n) (unat (i_inum ?k) mod IPB) (disk_part ?k)"
    "\<And>m. unat m < 2147483648 \<Longrightarrow> m \<noteq> ?n \<Longrightarrow> disk_block (sectors t) m = disk_block (sectors s) m"
    using iupdate_run [OF q st n] by metis
  have sbt: "sb t = sb s" using only_disk_fs [OF t(4)] by simp
  have len: "length (disk_block (sectors s) ?n) = 1024"
    using length_blk [OF q, of ?n] blk_steady [OF q st, of ?n] by (simp add: BSIZE_def)
  have "dinode_of t j = ((dinode_of s)(i_inum ?k := disk_part ?k)) j" for j
  proof (cases "IBLOCK j (sb s) = ?n")
    case False
    then show ?thesis using t(6) [OF n False] sbt by (auto simp: dinode_of_def)
  next
    case True
    show ?thesis
    proof (cases "j = i_inum ?k")
      case jk: True
      have "64 * (unat (i_inum ?k) mod IPB) + 64 \<le> length (disk_block (sectors s) ?n)"
        using len by (simp add: IPB_def)
      then show ?thesis using jk t(5) sbt a by (simp add: dinode_of_def dec_enc_dinode disk_part_def)
    next
      case False
      then have ne: "unat j mod IPB \<noteq> unat (i_inum ?k) mod IPB" using IBLOCK_inj [OF True] by blast
      have "dec_dinode (disk_block (sectors t) ?n) (unat j mod IPB) = dec_dinode (disk_block (sectors s) ?n) (unat j mod IPB)"
        unfolding t(5) by (intro dec_dinode_cong enc_dinode_other) (use ne in linarith)
      then show ?thesis using False True sbt by (simp add: dinode_of_def)
    qed
  qed
  then show thesis using that [OF t(1-4)] by blast
qed

text \<open>(C28) \<open>iupdate\<close> and \<open>ilock\<close> are inverse through the disk. \<open>iupdate\<close> writes the inode into its 64 bytes of the inode
  blocks, on the disk, and changes no other disk inode; when the cache slot is used again for this inode,
  whatever it held in between, \<open>ilock\<close> brings every field back.\<close>

theorem iupdate_ilock_roundtrip:
  assumes q: "quiet p (i_dev (inodes s ! i)) s" and st: "steady s" and n: "\<And>j. unat (IBLOCK j (sb s)) < 2147483648"
    and i: "i < length (inodes s)" "length (i_addrs (inodes s ! i)) = 13"
    and k': "i_dev k' = i_dev (inodes s ! i)" "i_inum k' = i_inum (inodes s ! i)" "i_ref k' \<ge> 1"
      "sl_locked (i_splock k') = 0" "i_vaild k' = 0"
  shows "\<exists>t u. iupdate i s = Ret () t \<and> dinode_of t = (dinode_of s)(i_inum (inodes s ! i) := disk_part (inodes s ! i)) \<and>
    ilock (Some i) (t\<lparr>inodes := (inodes t)[i := k']\<rparr>) = Ret () u \<and>
    disk_part (inodes u ! i) = disk_part (inodes s ! i) \<and> i_ref (inodes u ! i) = i_ref k' \<and> sectors u = sectors t"
proof -
  obtain t where t: "iupdate i s = Ret () t" "quiet p (i_dev (inodes s ! i)) t" "steady t" "only_disk s t"
    "dinode_of t = (dinode_of s)(i_inum (inodes s ! i) := disk_part (inodes s ! i))"
    using iupdate_dinodes [OF q st n i(2)] .
  let ?t = "t\<lparr>inodes := (inodes t)[i := k']\<rparr>"
  have f: "inodes t = inodes s" "sb t = sb s" using only_disk_fs [OF t(4)] by simp_all
  have at: "inodes ?t ! i = k'" "i < length (inodes ?t)" using i(1) f by simp_all
  have qt: "quiet p (i_dev (inodes ?t ! i)) ?t" "steady ?t" "unat (IBLOCK (i_inum (inodes ?t ! i)) (sb ?t)) < 2147483648"
    using t(2,3) n k' f at by (simp_all add: quiet_inodes)
  obtain u where u: "ilock (Some i) ?t = Ret () u"
    "only_disk (?t\<lparr>inodes := (inodes ?t)[i := load_part (dinode_of ?t (i_inum (inodes ?t ! i))) (locked_inode p ?t (inodes ?t ! i))]\<rparr>) u"
    "sectors u = sectors ?t"
    using ilock_run [OF qt] at k' by auto
  have "inodes u ! i = load_part (dinode_of ?t (i_inum k')) (locked_inode p ?t k')"
    using only_disk_fs [OF u(2)] at by simp
  moreover have "dinode_of ?t = dinode_of t" by (simp add: dinode_of_def fun_eq_iff)
  ultimately have "disk_part (inodes u ! i) = disk_part (inodes s ! i)" "i_ref (inodes u ! i) = i_ref k'"
    using t(5) k'(2) by (simp_all add: disk_part_def load_part_def locked_inode_def)
  then show ?thesis using t(1,5) u(1,3) by (intro exI [of _ t] exI [of _ u]) simp
qed

text \<open>The last \<open>iput\<close> never frees a file. \<open>ilock\<close> leaves \<open>vaild\<close> at 0 (it assigns 0 where loading the inode should
  make it valid), so the condition of \<open>iput\<close> for truncating an unlinked inode is never met: locking an
  inode and letting go of its last reference only counts down, also with \<open>nlink\<close> 0; the disk inode keeps
  its type and its blocks, and no block is freed.\<close>

theorem iput_never_truncates:
  assumes q: "quiet p (i_dev (inodes s ! i)) s" and st: "steady s" and n: "unat (IBLOCK (i_inum (inodes s ! i)) (sb s)) < 2147483648"
    and i: "i < length (inodes s)" "i_ref (inodes s ! i) \<ge> 1" "sl_locked (i_splock (inodes s ! i)) = 0" "i_vaild (inodes s ! i) = 0"
  shows "\<exists>t u. ilock (Some i) s = Ret () t \<and> i_vaild (inodes t ! i) = 0 \<and> iunlockput i t = Ret () u \<and>
    i_ref (inodes u ! i) = i_ref (inodes s ! i) - 1 \<and> sectors u = sectors s \<and> dinode_of u = dinode_of s \<and>
    (\<forall>n. blk u (i_dev (inodes s ! i)) n = blk s (i_dev (inodes s ! i)) n)"
proof -
  let ?k = "load_part (dinode_of s (i_inum (inodes s ! i))) (locked_inode p s (inodes s ! i))"
  let ?f = "\<lambda>k. k\<lparr>sl_locked := 0, sl_pid := 0\<rparr>"
  obtain t where t: "ilock (Some i) s = Ret () t" "only_disk (s\<lparr>inodes := (inodes s)[i := ?k]\<rparr>) t"
    "quiet p (i_dev (inodes s ! i)) t" "steady t" "sectors t = sectors s"
    using ilock_run [OF q st n i] .
  have it: "inodes t = (inodes s)[i := ?k]" "sb t = sb s" "procs t = procs s"
    using only_disk_fs [OF t(2)] only_disk_sel [OF t(2)] by simp_all
  have c: "calm p t" using t(3) by (simp add: quiet_def)
  have at: "i < length (inodes t)" "inodes t ! i = ?k" using it i(1) by simp_all
  have kf: "i_ref ?k = i_ref (inodes s ! i)" "i_vaild ?k = 0" "sl_locked (i_splock ?k) = 1" "sl_pid (i_splock ?k) = pid (procs s ! p)"
    by (simp_all add: load_part_def locked_inode_def lock_of_def)
  let ?t = "t\<lparr>inodes := (inodes t)[i := ?k\<lparr>i_splock := ?f (i_splock ?k)\<rparr>]\<rparr>"
  have "iunlock (Some i) t = sleep_unlock (inode_lk i) t"
    using ilk.holdingsleep_ok [OF c, of i] at kf i(2) it(3) by (simp add: iunlock_def kbind_def iget_field_apply inode_lk_def)
  also have "\<dots> = Ret () ?t" using ilk.sleep_unlock_ok [OF c, of i] at by (simp add: inode_lk_def)
  finally have ul: "iunlock (Some i) t = Ret () ?t" .
  have "calm p ?t" by (rule calm_frame [OF c]) simp_all
  then have ip: "iput i ?t = Ret () (?t\<lparr>inodes := (inodes ?t)[i := (inodes ?t ! i)\<lparr>i_ref := i_ref (inodes ?t ! i) - 1\<rparr>]\<rparr>)"
    using at kf by (intro iput_run) simp_all
  let ?u = "?t\<lparr>inodes := (inodes ?t)[i := (inodes ?t ! i)\<lparr>i_ref := i_ref (inodes ?t ! i) - 1\<rparr>]\<rparr>"
  have run: "iunlockput i t = Ret () ?u" using ul ip by (simp add: iunlockput_def kbind_def)
  have "i_ref (inodes ?u ! i) = i_ref (inodes s ! i) - 1" using at(1) kf(1) by simp
  moreover have "dinode_of ?u = dinode_of s" using t(5) it(2) by (intro ext) (simp add: dinode_of_def)
  moreover have "blk ?u (i_dev (inodes s ! i)) n = blk s (i_dev (inodes s ! i)) n" for n
    using blk_steady [OF q st, of n] blk_steady [OF t(3,4), of n] t(5) by (simp add: quiet_inodes)
  ultimately show ?thesis using t(1,5) at(2) kf(2) run by (intro exI [of _ t] exI [of _ ?u]) simp
qed

text \<open>A file with one link too few: inode 5, in use, unlinked.\<close>

definition lost_inode :: inode where
  "lost_inode = blank_inode\<lparr>i_dev := 1, i_inum := 5, i_ref := 1, i_type := 2, i_size := 9, i_addrs := 60 # replicate 12 0\<rparr>"

lemma IBLOCK_sb0: "unat (IBLOCK j sb0) < 2147483648"
proof -
  have d: "unat j div IPB \<le> 268435455" using unat_u32 [of j] by (simp add: IPB_def)
  then have "unat (of_nat (unat j div IPB) :: u32) = unat j div IPB" by (intro unat_of_nat_u32) linarith
  then show ?thesis using d by (simp add: IBLOCK_def sb0_def unat_word_ariths)
qed

theorem iput_never_truncates_witness:
  "\<exists>(s :: fs_st) t u. i_nlink (inodes s ! 0) = 0 \<and> ilock (Some 0) s = Ret () t \<and> iunlockput 0 t = Ret () u \<and>
     i_ref (inodes u ! 0) = 0 \<and> sectors u = sectors s"
proof -
  obtain s :: fs_st where s: "quiet 0 1 s" "steady s" "sb s = sb0" "inodes s = [lost_inode]"
    by (rule run_quiet [of "\<lambda>_. replicate 512 7" sb0 "[lost_inode]"]) (simp_all only: length_replicate)
  have f: "i_dev (inodes s ! 0) = 1" "i_ref (inodes s ! 0) = 1" "sl_locked (i_splock (inodes s ! 0)) = 0" "i_vaild (inodes s ! 0) = 0"
    "i_nlink (inodes s ! 0) = 0"
    using s(4) by (simp_all add: lost_inode_def blank_inode_def)
  obtain t u where "ilock (Some 0) s = Ret () t" "iunlockput 0 t = Ret () u" "i_ref (inodes u ! 0) = i_ref (inodes s ! 0) - 1" "sectors u = sectors s"
    using iput_never_truncates [of 0 s 0] s f IBLOCK_sb0 by auto
  then show ?thesis using f by (intro exI [of _ s] exI [of _ t] exI [of _ u]) simp
qed

theorem iupdate_ilock_roundtrip_witness:
  "\<exists>(s :: fs_st) t u. iupdate 0 s = Ret () t \<and> ilock (Some 0) (t\<lparr>inodes := [blank_inode\<lparr>i_dev := 1, i_inum := 5, i_ref := 1\<rparr>]\<rparr>) = Ret () u \<and>
     i_size (inodes u ! 0) = 9 \<and> i_addrs (inodes u ! 0) ! 0 = 60"
proof -
  let ?k = "blank_inode\<lparr>i_dev := 1, i_inum := 5, i_ref := 1\<rparr>"
  obtain s :: fs_st where s: "quiet 0 1 s" "steady s" "sb s = sb0" "inodes s = [lost_inode]"
    by (rule run_quiet [of "\<lambda>_. replicate 512 7" sb0 "[lost_inode]"]) (simp_all only: length_replicate)
  have f: "i_dev (inodes s ! 0) = 1" "i_inum (inodes s ! 0) = 5" "length (i_addrs (inodes s ! 0)) = 13"
    using s(4) by (simp_all add: lost_inode_def blank_inode_def)
  have g: "i_dev ?k = i_dev (inodes s ! 0)" "i_inum ?k = i_inum (inodes s ! 0)" "i_ref ?k \<ge> 1" "sl_locked (i_splock ?k) = 0" "i_vaild ?k = 0"
    using f by (simp_all add: blank_inode_def)
  obtain t u where r: "iupdate 0 s = Ret () t" "ilock (Some 0) (t\<lparr>inodes := (inodes t)[0 := ?k]\<rparr>) = Ret () u"
    "disk_part (inodes u ! 0) = disk_part (inodes s ! 0)"
    using iupdate_ilock_roundtrip [OF _ s(2) _ _ f(3) g, of 0] s f(1) IBLOCK_sb0 by auto
  obtain t' where "iupdate 0 s = Ret () t'" "only_disk s t'" using iupdate_dinodes [of 0 s 0] s f IBLOCK_sb0 by auto
  then have "inodes t = [lost_inode]" using r(1) only_disk_fs [of s t] s(4) by simp
  then show ?thesis using r s(4)
    by (intro exI [of _ s] exI [of _ t] exI [of _ u]) (simp add: disk_part_def lost_inode_def)
qed

section \<open>Reading a file\<close>

text \<open>The first \<open>k\<close> bytes of \<open>d\<close> repeated for ever.\<close>

definition cycle :: "'a list \<Rightarrow> nat \<Rightarrow> 'a list" where
  "cycle d k = map (\<lambda>j. d ! (j mod length d)) [0..<k]"

lemma cycle_short: "k \<le> length d \<Longrightarrow> cycle d k = take k d"
  by (intro nth_equalityI) (simp_all add: cycle_def)

lemma cycle_turn:
  assumes "d \<noteq> []"
  shows "cycle d k = take (min k (length d)) d @ cycle d (k - min k (length d))"
proof (cases "k \<le> length d")
  case True
  then show ?thesis using cycle_short [OF True] by (simp add: cycle_def [of d 0])
next
  case False
  show ?thesis
  proof (rule nth_equalityI)
    fix j assume "j < length (cycle d k)"
    then show "cycle d k ! j = (take (min k (length d)) d @ cycle d (k - min k (length d))) ! j"
      using False assms by (cases "j < length d") (simp_all add: cycle_def nth_append le_mod_geq)
  qed (use False in \<open>simp add: cycle_def\<close>)
qed

lemma bmap_direct:
  assumes "unat n < NDIRECT" and "i_addrs (inodes s ! ip) ! unat n \<noteq> 0"
  shows "bmap ip n s = Ret (i_addrs (inodes s ! ip) ! unat n) s"
  using assms by (simp add: bmap_def kbind_def iget_field_apply)

lemma readi_loop_cycles:
  assumes "quiet p (i_dev (inodes s ! ip)) s" and "steady s" and off: "off div BSIZE < NDIRECT"
    and a: "a = i_addrs (inodes s ! ip) ! (off div BSIZE)" "a \<noteq> 0" "unat a < 2147483648"
    and d: "d = drop (off mod BSIZE) (disk_block (sectors s) a)" and "tot \<le> n"
  shows "\<exists>t. readi_loop ip (Local x) off n tot got s = Ret (sint (of_nat n :: u32), got @ cycle d (n - tot)) t \<and>
    quiet p (i_dev (inodes s ! ip)) t \<and> steady t \<and> only_disk s t \<and> sectors t = sectors s"
  using assms
proof (induction "n - tot" arbitrary: tot got s rule: less_induct)
  case less
  let ?dev = "i_dev (inodes s ! ip)" and ?m = "min (n - tot) (BSIZE - off mod BSIZE)"
  show ?case
  proof (cases "tot < n")
    case False
    then have "tot = n" using less.prems by simp
    then show ?thesis using less.prems by (subst readi_loop.simps) (auto simp: cycle_def)
  next
    case True
    have o: "unat (of_nat (off div BSIZE) :: u32) = off div BSIZE" using less.prems(3) by (intro unat_of_nat_u32) (simp add: NDIRECT_def)
    have bm: "bmap ip (of_nat (off div BSIZE)) s = Ret a s" using bmap_direct [of "of_nat (off div BSIZE)" s ip] less.prems o by simp
    obtain r t where b: "bread ?dev a s = Ret r t" "working p ?dev a r s t" "sectors t = sectors s"
      "b_data (bufs t ! r) = blk s ?dev a" "\<And>m. blk t ?dev m = blk s ?dev m"
      using bread_quiet [OF less.prems(1), of a] less.prems(2) by metis
    obtain u where u: "brelease r t = Ret () u" "quiet p ?dev u" "steady u" "only_disk s u" "sectors u = sectors s"
      using steady_read [OF less.prems(1,2) b(2-5) less.prems(6)] .
    have iu: "inodes u = inodes s" using only_disk_fs [OF u(4)] by simp
    have data: "drop (off mod BSIZE) (b_data (bufs t ! r)) = d" using b(4) blk_steady [OF less.prems(1,2)] less.prems(7) by simp
    have ld: "length d = BSIZE - off mod BSIZE" using length_blk [OF less.prems(1), of a] b(4) data by auto
    have pos: "0 < length d" "?m = min (n - tot) (length d)" "0 < ?m" "?m \<le> n - tot" using ld True by (simp_all add: BSIZE_def)
    have step: "readi_loop ip (Local x) off n tot got s = readi_loop ip (Local x) off n (tot + ?m) (got @ take ?m d) u"
      by (subst readi_loop.simps)
        (use True bm b(1) u(1) data in \<open>simp add: kbind_def iget_field_apply bget_field_apply copy_to_def Let_def\<close>)
    have less_m: "n - (tot + m) < n - tot" "tot + m \<le> n" if "0 < m" "m \<le> n - tot" for m using True that by simp_all
    note less_m [OF pos(3,4)]
    moreover have "quiet p (i_dev (inodes u ! ip)) u" "a = i_addrs (inodes u ! ip) ! (off div BSIZE)"
      "d = drop (off mod BSIZE) (disk_block (sectors u) a)" using u(2,5) iu less.prems(4,7) by simp_all
    ultimately obtain v where "readi_loop ip (Local x) off n (tot + ?m) (got @ take ?m d) u =
        Ret (sint (of_nat n :: u32), (got @ take ?m d) @ cycle d (n - (tot + ?m))) v"
      "quiet p ?dev v" "steady v" "only_disk u v" "sectors v = sectors u"
      using less.hyps [of "tot + ?m" u "got @ take ?m d"] u(3) less.prems(3,5,6) iu by metis
    moreover have "take ?m d @ cycle d (n - (tot + ?m)) = cycle d (n - tot)"
      using cycle_turn [of d "n - tot"] pos(1,2) by simp
    ultimately show ?thesis using step u(5) only_disk_trans [OF u(4)] by auto
  qed
qed

lemma readi_run:
  assumes q: "quiet p (i_dev (inodes s ! ip)) s" and st: "steady s" and off: "unat off div BSIZE < NDIRECT"
    and a: "a = i_addrs (inodes s ! ip) ! (unat off div BSIZE)" "a \<noteq> 0" "unat a < 2147483648"
    and sz: "unat (i_size (inodes s ! ip)) < 2147483648"
    and n': "n' = (if off > i_size (inodes s ! ip) \<or> off + n < off then 0
      else if off + n > i_size (inodes s ! ip) then unat (i_size (inodes s ! ip)) - unat off else unat n)"
    and d: "d = drop (unat off mod BSIZE) (disk_block (sectors s) a)"
  shows "\<exists>t. readi ip (Local x) off n s = Ret (int n', cycle d n') t \<and> (n' \<le> length d \<longrightarrow> cycle d n' = take n' d) \<and>
    quiet p (i_dev (inodes s ! ip)) t \<and> steady t \<and> only_disk s t \<and> sectors t = sectors s"
proof (cases "off > i_size (inodes s ! ip) \<or> off + n < off")
  case True
  then have "readi ip (Local x) off n s = Ret (0, []) s" by (simp add: readi_def kbind_def iget_field_apply)
  then show ?thesis using True n' q st by (intro exI [of _ s]) (simp add: cycle_def)
next
  case False
  let ?n = "unat (if off + n > i_size (inodes s ! ip) then i_size (inodes s ! ip) - off else n)"
  have le: "off \<le> i_size (inodes s ! ip)" "off \<le> off + n" using False by auto
  have sub: "unat (i_size (inodes s ! ip) - off) = unat (i_size (inodes s ! ip)) - unat off" by (rule unat_sub [OF le(1)])
  have nn: "?n = n'" using False by (simp only: n' if_False if_distrib [of unat] sub)
  have "unat n \<le> unat (off + n)"
  proof -
    have "unat (off + n) = unat off + unat n" using le(2) by (simp only: unat_plus_simple)
    then show ?thesis by linarith
  qed
  then have "n' \<le> unat (i_size (inodes s ! ip))"
    using sub by (auto simp: nn [symmetric] not_less word_le_nat_alt)
  then have s31: "sint (of_nat n' :: u32) = int n'" using sz by (simp add: sint_u32 unat_of_nat_u32)
  obtain t where "readi_loop ip (Local x) (unat off) n' 0 [] s = Ret (sint (of_nat n' :: u32), [] @ cycle d (n' - 0)) t"
    "quiet p (i_dev (inodes s ! ip)) t" "steady t" "only_disk s t" "sectors t = sectors s"
    using readi_loop_cycles [OF q st off a d, of 0 n' x "[]"] by auto
  moreover have "readi ip (Local x) off n s = readi_loop ip (Local x) (unat off) n' 0 [] s"
    using False nn by (simp add: readi_def kbind_def iget_field_apply)
  ultimately show ?thesis using s31 cycle_short [of n' d] by (intro exI [of _ t]) simp
qed

text \<open>(C39) \<open>readi\<close> reads one block. Within a block it delivers the bytes of the file at \<open>off\<close>; but the loop never
  advances \<open>off\<close>, so a read that goes past the end of the block delivers the rest of the same block again
  and again instead of the following blocks, and reports success. Offsets beyond the end of the file, or
  that wrap, give 0 bytes; a read past the end is cut at the end.\<close>

theorem readi_repeats_block:
  assumes q: "quiet p (i_dev (inodes s ! ip)) s" and st: "steady s" and off: "unat off div BSIZE < NDIRECT"
    and a: "a = i_addrs (inodes s ! ip) ! (unat off div BSIZE)" "a \<noteq> 0" "unat a < 2147483648"
    and sz: "unat (i_size (inodes s ! ip)) < 2147483648"
    and n': "n' = (if off > i_size (inodes s ! ip) \<or> off + n < off then 0
      else if off + n > i_size (inodes s ! ip) then unat (i_size (inodes s ! ip)) - unat off else unat n)"
    and d: "d = drop (unat off mod BSIZE) (disk_block (sectors s) a)"
  shows "\<exists>t. readi ip (Local x) off n s = Ret (int n', cycle d n') t \<and> (n' \<le> length d \<longrightarrow> cycle d n' = take n' d) \<and>
    quiet p (i_dev (inodes s ! ip)) t \<and> only_disk s t \<and> sectors t = sectors s"
  using readi_run [OF assms] by blast

theorem readi_repeats_block_witness:
  "\<exists>(s :: fs_st) t. sectors s = (\<lambda>n. replicate 512 (ucast n)) \<and> i_addrs (inodes s ! 0) = 60 # 61 # replicate 11 0 \<and>
     readi 0 (Local []) 1020 8 s = Ret (8, replicate 8 121) t"
proof -
  let ?k = "blank_inode\<lparr>i_dev := 1, i_inum := 5, i_ref := 1, i_type := 2, i_size := 2048, i_addrs := 60 # 61 # replicate 11 0\<rparr>"
  let ?sec = "\<lambda>n :: u64. replicate 512 (ucast n :: u8)"
  obtain s :: fs_st where s: "quiet 0 1 s" "steady s" "inodes s = [?k]" "sectors s = ?sec"
    by (rule run_quiet [of ?sec sb0 "[?k]"]) (simp_all only: length_replicate)
  have f: "i_dev (inodes s ! 0) = 1" "i_size (inodes s ! 0) = 2048" "i_addrs (inodes s ! 0) = 60 # 61 # replicate 11 0"
    using s(3) by simp_all
  have d: "drop (unat (1020 :: u32) mod BSIZE) (disk_block ?sec 60) = replicate 4 121"
  proof -
    have "[0..<2] = [0, Suc 0]" by code_simp
    then have "disk_block ?sec 60 = replicate 512 120 @ replicate 512 121"
      by (simp add: disk_block_def rd_sectors_def sector_of_def del: replicate.simps)
    then show ?thesis by (simp add: BSIZE_def del: replicate.simps)
  qed
  have "\<exists>t. readi 0 (Local []) 1020 8 s = Ret (int 8, cycle (replicate 4 121) 8) t \<and>
      (8 \<le> length (replicate 4 (121 :: u8)) \<longrightarrow> cycle (replicate 4 121) 8 = take 8 (replicate 4 (121 :: u8))) \<and>
      quiet 0 (i_dev (inodes s ! 0)) t \<and> only_disk s t \<and> sectors t = sectors s"
    by (rule readi_repeats_block [where a = 60]) (use s f d in \<open>simp_all add: BSIZE_def NDIRECT_def\<close>)
  moreover have "cycle (replicate 4 121) 8 = replicate 8 (121 :: u8)"
    by (intro nth_equalityI) (simp_all add: cycle_def)
  ultimately show ?thesis using s(4) f(3) by auto
qed

end
