(* ===== verification/File.thy ===== *)
theory File
  imports Fsblocks
begin

text \<open>
  Open files: \<^verbatim>\<open>kernel/file.c\<close>, \<open>struct file\<close> (here \<open>ofile\<close>) and \<open>struct devsw\<close> of \<^verbatim>\<open>kernel/file.h\<close>, and \<open>consoleinit\<close>
  (\<^verbatim>\<open>kernel/console.c\<close>), which fills the device switch. A \<open>struct file *\<close> is an index into \<open>filecache.files\<close>.
  The only functions ever stored in \<open>devsw\<close> are \<open>consoleread\<close> and \<open>consolewrite\<close>, so an entry is a pair of
  flags: is the read pointer set, is the write pointer set.
\<close>

section \<open>State\<close>

definition NFILE :: nat where "NFILE = 100"
definition OPENFILE :: nat where "OPENFILE = 16"
definition NDEV :: nat where "NDEV = 10"
definition CONSOLE :: nat where "CONSOLE = 1"

datatype fdtype = FD_NONE | FD_PIPE | FD_INODE | FD_DEVICE

record ofile =
  f_type :: fdtype
  f_ref :: int
  f_readable :: u8
  f_writable :: u8
  f_ip :: "nat option"
  f_off :: u32
  f_major :: u16

record file_st = fs_st +
  files :: "ofile list"
  devsw :: "(bool \<times> bool) list"

definition fget :: "nat \<Rightarrow> (ofile \<Rightarrow> 'a) \<Rightarrow> ('a, 'z file_st_scheme) kop" where
  "fget f g = kget (\<lambda>s. g (files s ! f))"

definition fset :: "nat \<Rightarrow> (ofile \<Rightarrow> ofile) \<Rightarrow> (unit, 'z file_st_scheme) kop" where
  "fset f g = kmod (\<lambda>s. s\<lparr>files := (files s)[f := g (files s ! f)]\<rparr>)"

definition consoleinit :: "(unit, 'z file_st_scheme) kop" where
  "consoleinit =
     kthen (initlock ConsLk ''console'') (
     kmod (\<lambda>s. s\<lparr>devsw := (devsw s)[CONSOLE := (True, True)]\<rparr>))"

section \<open>Routines\<close>

fun init_filecache_loop :: "nat list \<Rightarrow> (unit, 'z file_st_scheme) kop" where
  "init_filecache_loop [] = kret ()"
| "init_filecache_loop (i # is) =
     kthen (fset i (\<lambda>f. f\<lparr>f_type := FD_NONE\<rparr>)) (
     kthen (fset i (\<lambda>f. f\<lparr>f_ref := 0\<rparr>)) (init_filecache_loop is))"

definition init_filecache :: "(unit, 'z file_st_scheme) kop" where
  "init_filecache = kthen (initlock FilecacheLk ''filecache'') (init_filecache_loop [0..<NFILE])"

fun filealloc_loop :: "nat list \<Rightarrow> (nat option, 'z file_st_scheme) kop" where
  "filealloc_loop [] = kthen (release FilecacheLk) (kret None)"
| "filealloc_loop (f # fs) =
     kbind (fget f f_ref) (\<lambda>r.
     if r = 0 then
       kthen (fset f (\<lambda>k. k\<lparr>f_ref := 1\<rparr>)) (kthen (release FilecacheLk) (kret (Some f)))
     else filealloc_loop fs)"

definition filealloc :: "(nat option, 'z file_st_scheme) kop" where
  "filealloc = kthen (acquire FilecacheLk) (filealloc_loop [0..<NFILE])"

definition fileclose :: "nat option \<Rightarrow> (unit, 'z file_st_scheme) kop" where
  "fileclose fo =
     kthen (acquire FilecacheLk) (
     case fo of None \<Rightarrow> kfault ''fileclose(0)'' | Some f \<Rightarrow>
     kbind (fget f f_ref) (\<lambda>r.
     if r < 1 then kpanic ''fileclose f ref < 1''
     else
       kthen (fset f (\<lambda>k. k\<lparr>f_ref := f_ref k - 1\<rparr>)) (
       kbind (fget f f_ref) (\<lambda>r'.
       if r' > 0 then release FilecacheLk
       else
         kbind (fget f (\<lambda>k. k)) (\<lambda>ff.
         kthen (fset f (\<lambda>k. k\<lparr>f_ref := 0\<rparr>)) (
         kthen (fset f (\<lambda>k. k\<lparr>f_type := FD_NONE\<rparr>)) (
         kthen (release FilecacheLk) (
         if f_type ff = FD_PIPE then kret ()
         else if f_type ff = FD_INODE \<or> f_type ff = FD_DEVICE then
           (case f_ip ff of None \<Rightarrow> kfault ''iput(0)'' | Some ip \<Rightarrow> iput ip)
         else kret ()))))))))"

definition filewrite :: "nat \<Rightarrow> u64 \<Rightarrow> int \<Rightarrow> (int, 'z file_st_scheme) kop" where
  "filewrite f p n =
     kbind (fget f (\<lambda>k. k)) (\<lambda>k.
     if f_writable k = 0 then kret (-1)
     else case f_type k of
       FD_PIPE \<Rightarrow> kret 1
     | FD_DEVICE \<Rightarrow>
         kbind (kget devsw) (\<lambda>dw.
         let maj = sint (f_major k) in
         if maj < 0 \<or> maj \<ge> int NDEV \<or> \<not> snd (dw ! nat maj) then kret (-1)
         else consolewrite True p n)
     | FD_INODE \<Rightarrow> kret 0
     | FD_NONE \<Rightarrow> kpanic ''filewrite'')"

definition fileread :: "nat \<Rightarrow> u64 \<Rightarrow> int \<Rightarrow> (int, 'z file_st_scheme) kop" where
  "fileread f p n =
     kbind (fget f (\<lambda>k. k)) (\<lambda>k.
     if f_readable k = 0 then kret (-1)
     else case f_type k of
       FD_DEVICE \<Rightarrow>
         kbind (kget devsw) (\<lambda>dw.
         let maj = sint (f_major k) in
         if maj < 0 \<or> maj \<ge> int NDEV \<or> \<not> fst (dw ! nat maj) then kret (-1)
         else consoleread True p n)
     | FD_INODE \<Rightarrow>
         kthen (ilock (f_ip k)) (
         case f_ip k of None \<Rightarrow> kfault ''readi(0)'' | Some ip \<Rightarrow>
         kbind (fget f f_off) (\<lambda>off.
         kbind (readi ip (User p) off (of_int n)) (\<lambda>(ret, _).
         kthen (kwhen (ret > 0) (fset f (\<lambda>k. k\<lparr>f_off := f_off k + of_int n\<rparr>))) (
         kthen (iunlock (Some ip)) (kret ret)))))
     | _ \<Rightarrow> kret 0)"

definition filedup :: "nat \<Rightarrow> (nat, 'z file_st_scheme) kop" where
  "filedup f =
     kthen (acquire FilecacheLk) (
     kbind (fget f f_ref) (\<lambda>r.
     if r < 1 then kpanic ''filedup | target file ref < 1..''
     else kthen (fset f (\<lambda>k. k\<lparr>f_ref := f_ref k + 1\<rparr>)) (kthen (release FilecacheLk) (kret f))))"

text \<open>The bytes of a \<open>struct stat\<close>: \<open>dev\<close> at 0, \<open>ino\<close> at 4, \<open>type\<close> at 8, \<open>nlink\<close> at 10, \<open>size\<close> at 16. Bytes 12 to 15
  are padding and keep what was on the stack before (\<open>junk\<close>).\<close>

definition enc_stat :: "u8 list \<Rightarrow> stat \<Rightarrow> u8 list" where
  "enc_stat junk st =
     wr32 (wr32 (wr16 (wr16 (wr32 (wr32 junk 0 (st_dev st)) 4 (st_ino st)) 8 (st_type st)) 10 (st_nlink st))
       16 (ucast (st_size st))) 20 (ucast (drop_bit 32 (st_size st)))"

definition filestat :: "u8 list \<Rightarrow> nat \<Rightarrow> u64 \<Rightarrow> (int, 'z file_st_scheme) kop" where
  "filestat junk f addr =
     kbind thisproc (\<lambda>p.
     kbind (fget f (\<lambda>k. k)) (\<lambda>k.
     if f_type k = FD_INODE \<or> f_type k = FD_DEVICE then
       kthen (ilock (f_ip k)) (
       case f_ip k of None \<Rightarrow> kfault ''stati(0)'' | Some ip \<Rightarrow>
       kbind (stati ip) (\<lambda>st.
       kthen (iunlock (Some ip)) (
       kbind (pget p pagetable) (\<lambda>pt.
       kbind (copyoutpg pt addr (enc_stat junk st) 24) (\<lambda>r.
       if r < 0 then kret (-1) else kret 0)))))
     else kret (-1)))"

end
