(* ===== verification/Life.thy ===== *)
theory Life
  imports File
begin

text \<open>
  The life of a process: the rest of \<^verbatim>\<open>kernel/proc.c\<close> (\<open>fork\<close>, \<open>exit\<close>, \<open>wait\<close>, \<open>userinit\<close>, \<open>procdump\<close>; \<open>forkret\<close> is with the
  traps) and \<open>struct trapframe\<close> of \<^verbatim>\<open>kernel/proc.h\<close>. A trapframe is a page of memory; its fields are read and
  written there. \<open>wait\<close> may sleep, and \<open>wait_resume\<close> is what it does when woken.
\<close>

section \<open>Trapframe\<close>

datatype tfreg =
    TF_kernel_satp | TF_kernel_sp | TF_kernel_trap | TF_epc | TF_kernel_hartid | TF_ra
  | TF_sp | TF_gp | TF_tp | TF_t0 | TF_t1 | TF_t2
  | TF_s0 | TF_s1 | TF_a0 | TF_a1 | TF_a2 | TF_a3
  | TF_a4 | TF_a5 | TF_a6 | TF_a7 | TF_s2 | TF_s3
  | TF_s4 | TF_s5 | TF_s6 | TF_s7 | TF_s8 | TF_s9
  | TF_s10 | TF_s11 | TF_t3 | TF_t4 | TF_t5 | TF_t6

fun tf_off :: "tfreg \<Rightarrow> u64" where
  "tf_off TF_kernel_satp = 0"
| "tf_off TF_kernel_sp = 8"
| "tf_off TF_kernel_trap = 16"
| "tf_off TF_epc = 24"
| "tf_off TF_kernel_hartid = 32"
| "tf_off TF_ra = 40"
| "tf_off TF_sp = 48"
| "tf_off TF_gp = 56"
| "tf_off TF_tp = 64"
| "tf_off TF_t0 = 72"
| "tf_off TF_t1 = 80"
| "tf_off TF_t2 = 88"
| "tf_off TF_s0 = 96"
| "tf_off TF_s1 = 104"
| "tf_off TF_a0 = 112"
| "tf_off TF_a1 = 120"
| "tf_off TF_a2 = 128"
| "tf_off TF_a3 = 136"
| "tf_off TF_a4 = 144"
| "tf_off TF_a5 = 152"
| "tf_off TF_a6 = 160"
| "tf_off TF_a7 = 168"
| "tf_off TF_s2 = 176"
| "tf_off TF_s3 = 184"
| "tf_off TF_s4 = 192"
| "tf_off TF_s5 = 200"
| "tf_off TF_s6 = 208"
| "tf_off TF_s7 = 216"
| "tf_off TF_s8 = 224"
| "tf_off TF_s9 = 232"
| "tf_off TF_s10 = 240"
| "tf_off TF_s11 = 248"
| "tf_off TF_t3 = 256"
| "tf_off TF_t4 = 264"
| "tf_off TF_t5 = 272"
| "tf_off TF_t6 = 280"

definition tf_get :: "nat \<Rightarrow> tfreg \<Rightarrow> (u64, 'z proc_st_scheme) kop" where
  "tf_get p r = kbind (pget p trapframe) (\<lambda>tf. kget (\<lambda>s. rd64 (mem s) (tf + tf_off r)))"

definition tf_set :: "nat \<Rightarrow> tfreg \<Rightarrow> u64 \<Rightarrow> (unit, 'z proc_st_scheme) kop" where
  "tf_set p r v = kbind (pget p trapframe) (\<lambda>tf. on_mem (\<lambda>m. wr64 m (tf + tf_off r) v))"

definition TF_SIZE :: nat where "TF_SIZE = 288"

section \<open>fork\<close>

text \<open>\<open>*(p->trapframe) = *(now->trapframe)\<close>.\<close>

definition tf_copy :: "nat \<Rightarrow> nat \<Rightarrow> (unit, 'z proc_st_scheme) kop" where
  "tf_copy now p =
     kbind (pget now trapframe) (\<lambda>src.
     kbind (pget p trapframe) (\<lambda>dst.
     on_mem (\<lambda>m. wr_bytes m dst (rd_bytes m src TF_SIZE))))"

fun fork_files :: "nat \<Rightarrow> nat \<Rightarrow> nat list \<Rightarrow> (unit, 'z file_st_scheme) kop" where
  "fork_files now p [] = kret ()"
| "fork_files now p (i # is) =
     kbind (pget now (\<lambda>k. openfs k ! i)) (\<lambda>fo.
     kthen (case fo of None \<Rightarrow> kret ()
            | Some f \<Rightarrow> kbind (filedup f) (\<lambda>f'. pset p (\<lambda>k. k\<lparr>openfs := (openfs k)[i := Some f']\<rparr>))) (
     fork_files now p is))"

definition fork :: "(int, 'z file_st_scheme) kop" where
  "fork =
     kbind thisproc (\<lambda>now.
     kbind allocproc (\<lambda>po.
     case po of None \<Rightarrow> kret (-1) | Some p \<Rightarrow>
     kbind (pget now (\<lambda>k. k)) (\<lambda>kn.
     kbind (pget p pagetable) (\<lambda>pt.
     kbind (uvmcopy (pagetable kn) pt (psz kn)) (\<lambda>r.
     if r < 0 then kthen (freeproc p) (kthen (release (ProcLk p)) (kret (-1)))
     else
       kthen (pset p (\<lambda>k. k\<lparr>psz := psz kn\<rparr>)) (
       kthen (tf_copy now p) (
       kthen (tf_set p TF_a0 0) (
       kthen (fork_files now p [0..<OPENFILE]) (
       kbind (case pwd kn of None \<Rightarrow> kfault ''idup(0)'' | Some d \<Rightarrow> idup d) (\<lambda>d.
       kthen (pset p (\<lambda>k. k\<lparr>pwd := Some d\<rparr>)) (
       kbind (pget p pname) (\<lambda>nm.
       case safestrcpy nm (pname kn) 16 of None \<Rightarrow> kfault ''safestrcpy'' | Some nm' \<Rightarrow>
       kthen (pset p (\<lambda>k. k\<lparr>pname := nm'\<rparr>)) (
       kbind (pget p pid) (\<lambda>n.
       kthen (release (ProcLk p)) (
       kthen (acquire WaitLk) (
       kthen (pset p (\<lambda>k. k\<lparr>parent := Some now\<rparr>)) (
       kthen (release WaitLk) (
       kthen (fork_publish p) (
       kret (sint n))))))))))))))))))))"

section \<open>exit and wait\<close>

fun exit_files :: "nat \<Rightarrow> nat list \<Rightarrow> (unit, 'z file_st_scheme) kop" where
  "exit_files p [] = kret ()"
| "exit_files p (fd # fds) =
     kbind (pget p (\<lambda>k. openfs k ! fd)) (\<lambda>fo.
     kthen (case fo of None \<Rightarrow> kret ()
            | Some f \<Rightarrow> kthen (fileclose (Some f)) (pset p (\<lambda>k. k\<lparr>openfs := (openfs k)[fd := None]\<rparr>))) (
     exit_files p fds))"

definition exit :: "u32 \<Rightarrow> (unit, 'z file_st_scheme) kop" where
  "exit n =
     kbind thisproc (\<lambda>p.
     kbind (kget initp) (\<lambda>ip.
     if ip = Some p then kpanic ''init proc exit''
     else
       kthen (exit_files p [0..<OPENFILE]) (
       kbind (pget p pwd) (\<lambda>d.
       kthen (case d of None \<Rightarrow> kfault ''iput(0)'' | Some i \<Rightarrow> iput i) (
       kthen (pset p (\<lambda>k. k\<lparr>pwd := None\<rparr>)) (
       kthen (acquire WaitLk) (
       kthen (reparent p) (
       kbind (pget p parent) (\<lambda>par.
       kthen (wakeup (map_option ProcCh par)) (
       kthen (exit_zombie p n) (
       kpanic ''proc exit'')))))))))))"

definition le32 :: "u32 \<Rightarrow> u8 list" where
  "le32 v = [ucast v, ucast (drop_bit 8 v), ucast (drop_bit 16 v), ucast (drop_bit 24 v)]"

text \<open>The inner loop of \<open>wait\<close>: \<open>Inl pid\<close> returns from \<open>wait\<close>, \<open>Inr\<close> is \<open>havekids\<close> at the end.\<close>

fun wait_scan :: "nat \<Rightarrow> u64 \<Rightarrow> bool \<Rightarrow> nat list \<Rightarrow> (u32 + bool, 'z proc_st_scheme) kop" where
  "wait_scan p addr havekids [] = kret (Inr havekids)"
| "wait_scan p addr havekids (np # nps) =
     kbind (pget np parent) (\<lambda>par.
     if par = Some p then
       kthen (acquire (ProcLk np)) (
       kbind (pget np pstate) (\<lambda>st.
       if st = ZOMBIE then
         kbind (pget np pid) (\<lambda>n.
         kbind (pget np xstate) (\<lambda>x.
         kbind (pget p pagetable) (\<lambda>pt.
         kbind (if addr \<noteq> 0 then copyoutpg pt addr (le32 x) 4 else kret 0) (\<lambda>r.
         if r < 0 then kthen (release (ProcLk np)) (kthen (release WaitLk) (kpanic ''wait:copyoutpg -1''))
         else
           kthen (freeproc np) (
           kthen (release (ProcLk np)) (
           kthen (release WaitLk) (kret (Inl n))))))))
       else kthen (release (ProcLk np)) (wait_scan p addr True nps)))
     else wait_scan p addr havekids nps)"

definition wait_body :: "nat \<Rightarrow> u64 \<Rightarrow> (int, 'z proc_st_scheme) kop" where
  "wait_body p addr =
     kbind (wait_scan p addr False all_procs) (\<lambda>x.
     case x of Inl n \<Rightarrow> kret (sint n)
     | Inr havekids \<Rightarrow>
         kbind (pget p killed) (\<lambda>k.
         if \<not> havekids \<or> k \<noteq> 0 then kthen (release WaitLk) (kret (-1))
         else kthen (sleep (ProcCh p) WaitLk) (kret 0)))"

definition wait :: "u64 \<Rightarrow> (int, 'z proc_st_scheme) kop" where
  "wait addr = kbind thisproc (\<lambda>p. kthen (acquire WaitLk) (wait_body p addr))"

definition wait_resume :: "nat \<Rightarrow> bool \<Rightarrow> u64 \<Rightarrow> (int, 'z proc_st_scheme) kop" where
  "wait_resume pc ie addr = kthen (sleep_resume pc ie WaitLk) (wait_body pc addr)"

section \<open>The first process, and a listing\<close>

definition initcode :: "u8 list" where
  "initcode = [
     0x17, 0x05, 0x00, 0x00, 0x13, 0x05, 0x45, 0x02,
     0x97, 0x05, 0x00, 0x00, 0x93, 0x85, 0x35, 0x02,
     0x93, 0x08, 0x70, 0x00, 0x73, 0x00, 0x00, 0x00,
     0x93, 0x08, 0x20, 0x00, 0x73, 0x00, 0x00, 0x00,
     0xef, 0xf0, 0x9f, 0xff, 0x2f, 0x69, 0x6e, 0x69,
     0x74, 0x00, 0x00, 0x24, 0x00, 0x00, 0x00, 0x00,
     0x00, 0x00, 0x00, 0x00]"

definition userinit :: "(unit, 'z file_st_scheme) kop" where
  "userinit =
     kbind allocproc (\<lambda>po.
     kthen (kmod (\<lambda>s. s\<lparr>initp := po\<rparr>)) (
     case po of None \<Rightarrow> kfault ''userinit: no process'' | Some p \<Rightarrow>
     kbind (pget p pagetable) (\<lambda>pt.
     kthen (uvminit pt initcode) (
     kthen (pset p (\<lambda>k. k\<lparr>psz := PGSIZE\<rparr>)) (
     kthen (tf_set p TF_epc 0) (
     kthen (tf_set p TF_sp PGSIZE) (
     kbind (pget p pname) (\<lambda>nm.
     case safestrcpy nm (lit ''initcode'') 16 of None \<Rightarrow> kfault ''safestrcpy'' | Some nm' \<Rightarrow>
     kthen (pset p (\<lambda>k. k\<lparr>pname := nm'\<rparr>)) (
     kbind rooti (\<lambda>d.
     kthen (pset p (\<lambda>k. k\<lparr>pwd := Some d\<rparr>)) (
     kthen (pset p (\<lambda>k. k\<lparr>pstate := RUNNABLE\<rparr>)) (
     release (ProcLk p)))))))))))))"

text \<open>The table of names has no entry for \<open>USED\<close>.\<close>

fun state_name :: "procstate \<Rightarrow> string" where
  "state_name UNUSED = ''unused''"
| "state_name USED = ''???''"
| "state_name SLEEPING = ''sleep ''"
| "state_name RUNNABLE = ''runble''"
| "state_name RUNNING = ''run   ''"
| "state_name ZOMBIE = ''zombie''"

fun procdump_loop :: "nat list \<Rightarrow> (unit, 'z tty_st_scheme) kop" where
  "procdump_loop [] = kret ()"
| "procdump_loop (p # ps) =
     kbind (pget p (\<lambda>k. k)) (\<lambda>k.
     if pstate k = UNUSED then procdump_loop ps
     else
       kthen (printf (lit ''%d %s %s'') [VInt (pid k), VStr (Some (lit (state_name (pstate k)))), VStr (Some (pname k))]) (
       kthen (printf (lit [CHR 0x0A]) []) (
       procdump_loop ps)))"

definition procdump :: "(unit, 'z tty_st_scheme) kop" where
  "procdump = kthen (printf (lit [CHR 0x0A]) []) (procdump_loop all_procs)"

section \<open>What wait does\<close>

text \<open>A child of \<open>p\<close>, and a child that has exited.\<close>

definition is_child :: "nat \<Rightarrow> proc \<Rightarrow> bool" where
  "is_child p k \<longleftrightarrow> parent k = Some p"

definition exited :: "nat \<Rightarrow> proc \<Rightarrow> bool" where
  "exited p k \<longleftrightarrow> is_child p k \<and> pstate k = ZOMBIE"

definition freed :: "proc \<Rightarrow> proc" where
  "freed k = k\<lparr>trapframe := 0, pid := 0, chan := None, parent := None, pname := (pname k)[0 := 0], killed := 0, pstate := UNUSED\<rparr>"

definition reap :: "nat \<Rightarrow> u32 \<Rightarrow> (u32 + bool, 'z proc_st_scheme) kop" where
  "reap np n = kthen (freeproc np) (kthen (release (ProcLk np)) (kthen (release WaitLk) (kret (Inl n))))"

lemma wait_scan_eq:
  assumes "cpu_ok (hart s) (cpus s)" and "\<And>q. free_lock (locks s) (ProcLk q)"
  shows "wait_scan p 0 hk nps s = (case find (\<lambda>np. exited p (procs s ! np)) nps of
      None \<Rightarrow> Ret (Inr (hk \<or> (\<exists>np \<in> set nps. is_child p (procs s ! np)))) s
    | Some np \<Rightarrow> reap np (pid (procs s ! np)) (inside (ProcLk np) s))"
proof (induction nps arbitrary: hk)
  case (Cons np nps)
  have acq: "acquire (ProcLk np) s = Ret () (inside (ProcLk np) s)"
    using acquire_free [OF assms(1) assms(2)] by (simp add: inside_def)
  have rel: "release (ProcLk np) (inside (ProcLk np) s) = Ret () s"
    using release_after [OF assms(1) assms(2), of "inside (ProcLk np) s"] by (simp add: inside_def)
  show ?case
  proof (cases "is_child p (procs s ! np)"; cases "pstate (procs s ! np) = ZOMBIE")
  qed (simp_all add: pget_def kbind_Ret [of "acquire (ProcLk np)" s, OF acq] kbind_Ret [of "release (ProcLk np)" "inside (ProcLk np) s", OF rel]
      Cons.IH is_child_def exited_def reap_def [symmetric] split: option.split)
qed simp

lemma wait_frees:
  assumes ok: "cpu_ok (hart s) (cpus s)" and fr: "\<And>L. free_lock (locks s) L" and k: "kpage (ld_end s) (trapframe (procs s ! np))" "trapframe (procs s ! np) \<noteq> 0"
  defines "tf \<equiv> trapframe (procs s ! np)"
  shows "reap np n (inside (ProcLk np) (inside WaitLk s)) =
    Ret (Inl n) (s\<lparr>mem := wr64 (memset (mem s) tf 1 4096) tf (freelist s), freelist := tf, procs := (procs s)[np := freed (procs s ! np)]\<rparr>)"
proof -
  let ?w = "inside WaitLk s"
  let ?i = "inside (ProcLk np) ?w"
  let ?m = "wr64 (memset (mem s) tf 1 4096) tf (freelist s)"
  have w: "cpu_ok (hart ?w) (cpus ?w)" "free_lock (locks ?w) (ProcLk np)" "free_lock (locks ?w) KmemLk"
    using ok fr by (simp_all add: inside_def free_lock_def lock_on_def)
  have i: "cpu_ok (hart ?i) (cpus ?i)" "free_lock (locks ?i) KmemLk"
    using w by (simp_all add: inside_def free_lock_def lock_on_def)
  have tf: "tf \<noteq> 0" using k(2) by (simp add: tf_def)
  have sel: "mem ?i = mem s" "freelist ?i = freelist s" "ld_end ?i = ld_end s" "procs ?i = procs s" by (simp_all add: inside_def)
  let ?f = "?i\<lparr>mem := ?m, freelist := tf, procs := (procs s)[np := freed (procs s ! np)]\<rparr>"
  have fp: "freeproc np ?i = Ret () ?f"
    using kfree_ok [OF i, of tf] k tf by (simp add: freeproc_def pget_def pset_def kbind_Ret sel tf_def [symmetric] freed_def)
  have r1: "release (ProcLk np) ?f = Ret () (?f\<lparr>locks := locks ?w, cpus := cpus ?w\<rparr>)"
    by (rule release_after [OF w(1,2)]) (simp_all add: inside_def)
  have r2: "release WaitLk (?f\<lparr>locks := locks ?w, cpus := cpus ?w\<rparr>) = Ret () (?f\<lparr>locks := locks s, cpus := cpus s\<rparr>)"
    using release_after [OF ok fr, of "?f\<lparr>locks := locks ?w, cpus := cpus ?w\<rparr>"] by (simp add: inside_def)
  have "?f\<lparr>locks := locks s, cpus := cpus s\<rparr> = s\<lparr>mem := ?m, freelist := tf, procs := (procs s)[np := freed (procs s ! np)]\<rparr>"
    by (cases s) (simp add: inside_def)
  then show ?thesis by (simp add: reap_def kbind_Ret fp r1 r2)
qed

text \<open>(C13) \<open>wait\<close> with a null status pointer, on every path: it returns the pid of the first child in the table that has
  exited and frees its slot and its trapframe; without a child, or when it was killed, it returns -1 and changes
  nothing; with children that are all alive it gives up the hart asleep on its own address, the channel that
  \<open>exit\<close> of a child wakes.\<close>

theorem wait_reaps:
  assumes c: "calm p s"
    and tf: "\<forall>np < NPROC. exited p (procs s ! np) \<longrightarrow> kpage (ld_end s) (trapframe (procs s ! np)) \<and> trapframe (procs s ! np) \<noteq> 0"
  shows "case find (\<lambda>np. exited p (procs s ! np)) all_procs of
      Some np \<Rightarrow> \<exists>t. wait 0 s = Ret (sint (pid (procs s ! np))) t \<and> calm p t \<and> freelist t = trapframe (procs s ! np)
        \<and> procs t = (procs s)[np := freed (procs s ! np)]
    | None \<Rightarrow>
        if (\<exists>np < NPROC. is_child p (procs s ! np)) \<and> killed (procs s ! p) = 0
        then wait 0 s = Switch (asleep (ProcCh p) p s) else wait 0 s = Ret (-1) s"
proof -
  let ?w = "inside WaitLk s"
  have ok: "cpu_ok (hart s) (cpus s)" "\<And>L. free_lock (locks s) L" using calm_simps [OF c] by simp_all
  have w: "cpu_ok (hart ?w) (cpus ?w)" "\<And>q. free_lock (locks ?w) (ProcLk q)"
    using ok by (simp_all add: inside_def free_lock_def lock_on_def)
  have run: "wait 0 s = wait_body p 0 ?w"
    using calm_thisproc [OF c] calm_acquire [OF c] by (simp add: wait_def kbind_Ret)
  have scan: "wait_scan p 0 False all_procs ?w = (case find (\<lambda>np. exited p (procs s ! np)) all_procs of
      None \<Rightarrow> Ret (Inr (\<exists>np \<in> set all_procs. is_child p (procs s ! np))) ?w
    | Some np \<Rightarrow> reap np (pid (procs s ! np)) (inside (ProcLk np) ?w))"
    using wait_scan_eq [OF w, of p False all_procs] by (simp only: inside_sel simp_thms)
  show ?thesis
  proof (cases "find (\<lambda>np. exited p (procs s ! np)) all_procs")
    case None
    have rel: "release WaitLk ?w = Ret () s"
      using calm_release [OF c, of ?w WaitLk] by (simp add: inside_def)
    show ?thesis
      using scan None calm_sleep [OF c, of WaitLk "ProcCh p"] rel
      by (auto simp: run wait_body_def kbind_def pget_def)
  next
    case (Some np)
    then have np: "np < NPROC" "exited p (procs s ! np)" by (auto simp: find_Some_iff)
    let ?tf = "trapframe (procs s ! np)"
    let ?t = "s\<lparr>mem := wr64 (memset (mem s) ?tf 1 4096) ?tf (freelist s), freelist := ?tf, procs := (procs s)[np := freed (procs s ! np)]\<rparr>"
    have "wait_scan p 0 False all_procs ?w = Ret (Inl (pid (procs s ! np))) ?t"
      using scan Some wait_frees [OF ok, of np] tf np by simp
    then have "wait 0 s = Ret (sint (pid (procs s ! np))) ?t" by (simp add: run wait_body_def kbind_Ret)
    moreover have "calm p ?t"
    proof -
      have "np \<noteq> p" using calm_simps [OF c] np by (auto simp: exited_def)
      then show ?thesis using c np(1) by (auto simp: calm_def cur_def freed_def nth_list_update)
    qed
    ultimately show ?thesis using Some by (simp add: exI [of _ ?t])
  qed
qed

theorem wait_reaps_witness:
  "\<exists>(s :: fs_st) t. wait 0 s = Ret 7 t \<and> freelist t = 0x80300000 \<and> pstate (procs t ! 1) = UNUSED"
proof -
  obtain b :: fs_st where b: "calm 0 b" using run_fs by blast
  have l: "length (procs b) = NPROC" using calm_simps [OF b] by simp
  define z where "z = (procs b ! 1)\<lparr>parent := Some 0, pstate := ZOMBIE, trapframe := 0x80300000, pid := 7\<rparr>"
  define ks where "ks = (map (\<lambda>k. k\<lparr>parent := None\<rparr>) (procs b))[1 := z]"
  define s where "s = b\<lparr>procs := ks, ld_end := 0x80200000\<rparr>"
  have ks: "length ks = NPROC" "ks ! 1 = z" "\<And>i. i < NPROC \<Longrightarrow> i \<noteq> 1 \<Longrightarrow> ks ! i = (procs b ! i)\<lparr>parent := None\<rparr>"
    using l by (simp_all add: ks_def NPROC_def)
  have n1: "\<not> exited 0 (ks ! i)" if "i < NPROC" "i \<noteq> 1" for i using ks(3) [OF that] by (simp add: exited_def is_child_def)
  have z: "exited 0 z" "trapframe z = 0x80300000" "pid z = 7" by (simp_all add: z_def exited_def is_child_def)
  have c: "calm 0 s"
  proof -
    have "pstate (ks ! i) \<noteq> SLEEPING" if "i < NPROC" for i
      using ks calm_simps(8) [OF b that] that by (cases "i = 1") (auto simp: z_def)
    then show ?thesis using b ks by (simp add: s_def calm_def cur_def NPROC_def)
  qed
  have u: "all_procs = 0 # 1 # [2..<NPROC]" by (simp add: NPROC_def upt_conv_Cons)
  have f: "find (\<lambda>np. exited 0 (procs s ! np)) all_procs = Some 1"
    unfolding u using z(1) n1 [of 0] ks(2) by (simp add: s_def NPROC_def)
  have tf: "\<forall>np < NPROC. exited 0 (procs s ! np) \<longrightarrow> kpage (ld_end s) (trapframe (procs s ! np)) \<and> trapframe (procs s ! np) \<noteq> 0"
  proof (intro allI impI)
    fix np assume np: "np < NPROC" "exited 0 (procs s ! np)"
    then have "np = 1" using n1 [of np] by (auto simp: s_def)
    then show "kpage (ld_end s) (trapframe (procs s ! np)) \<and> trapframe (procs s ! np) \<noteq> 0"
      using ks(2) z(2) by (simp add: s_def kpage_def page_aligned_def PHYSTOP_def KERNELBASE_def)
  qed
  obtain t where "wait 0 s = Ret (sint (pid (procs s ! 1))) t" "freelist t = trapframe (procs s ! 1)"
      "procs t = (procs s)[1 := freed (procs s ! 1)]"
    using wait_reaps [OF c tf] unfolding f by auto
  then show ?thesis using z ks by (intro exI [of _ s] exI [of _ t]) (simp add: s_def freed_def NPROC_def)
qed

section \<open>The fields of a trapframe\<close>

definition tf_slot :: "tfreg \<Rightarrow> nat" where
  "tf_slot r = unat (tf_off r) div 8"

lemma tf_off_slot: "tf_off r = of_nat (8 * tf_slot r)" "tf_slot r < 36"
  by (cases r; simp add: tf_slot_def)+

lemma tf_slot_inj: "tf_slot r = tf_slot q \<Longrightarrow> r = q"
  by (cases r; cases q; simp add: tf_slot_def)

lemma unat_slot_far:
  assumes "i < 36" "j < 36" "i \<noteq> j" "k < 8"
  shows "8 \<le> unat (of_nat (8 * i + k) - of_nat (8 * j) :: u64)"
proof -
  have u: "unat (of_nat (8 * i + k) :: u64) = 8 * i + k" "unat (of_nat (8 * j) :: u64) = 8 * j"
    using assms by (simp_all add: unat_of_nat del: of_nat_add of_nat_mult)
  have "8 * j \<le> 8 * i + k \<Longrightarrow> 8 \<le> 8 * i + k - 8 * j" using assms(3,4) by presburger
  then show ?thesis using assms unfolding unat_sub_if' u by auto
qed

lemma tf_other:
  assumes "r \<noteq> q"
  shows "rd64 (wr64 m (tf + tf_off r) v) (tf + tf_off q) = rd64 m (tf + tf_off q)"
proof (rule rd64_wr64_far)
  fix x :: u64
  assume x: "unat (x - (tf + tf_off q)) < 8"
  define k where "k = unat (x - (tf + tf_off q))"
  have "x - (tf + tf_off q) = of_nat k" by (simp add: k_def)
  then have "x - (tf + tf_off r) = of_nat (8 * tf_slot q + k) - of_nat (8 * tf_slot r)"
    unfolding tf_off_slot(1) by (simp add: algebra_simps)
  moreover have "tf_slot q \<noteq> tf_slot r" using tf_slot_inj [of q r] assms by blast
  moreover have "k < 8" using x by (simp only: k_def)
  ultimately show "8 \<le> unat (x - (tf + tf_off r))"
    using unat_slot_far [OF tf_off_slot(2) [of q] tf_off_slot(2) [of r]] by metis
qed

text \<open>The 36 fields of \<open>struct trapframe\<close> are separate words: storing one field and reading any field gives the
  stored value for that field and the old value for every other, wherever the trapframe lies.\<close>

theorem trapframe_fields:
  "kthen (tf_set p r v) (tf_get p q) s =
     Ret (if q = r then v else rd64 (mem s) (trapframe (procs s ! p) + tf_off q))
       (s\<lparr>mem := wr64 (mem s) (trapframe (procs s ! p) + tf_off r) v\<rparr>)"
  by (simp add: tf_set_def tf_get_def pget_def on_mem_def kbind_assoc rd64_wr64 tf_other)

end
