(* ===== verification/Exec.thy ===== *)
theory Exec
  imports Life
begin

text \<open>
  Replacing a process's image: \<^verbatim>\<open>kernel/exec.c\<close>, with the ELF structures of \<^verbatim>\<open>kernel/elf.h\<close>. The headers are read into
  objects on the kernel stack, the segments straight into the frames of the new address space.
\<close>

section \<open>ELF headers\<close>

definition ELF_MAGIC :: u32 where "ELF_MAGIC = 0x464C457F"
definition ELF_PROG_LOAD :: u32 where "ELF_PROG_LOAD = 1"
definition MAXARG :: nat where "MAXARG = 32"

record elfhdr =
  e_magic :: u32
  e_elf :: "u8 list"
  e_type :: u16
  e_machine :: u16
  e_version :: u32
  e_entry :: u64
  e_phoff :: u64
  e_shoff :: u64
  e_flags :: u32
  e_ehsize :: u16
  e_phentsize :: u16
  e_phnum :: u16
  e_shentsize :: u16
  e_shnum :: u16
  e_shstrndx :: u16

record proghdr =
  ph_type :: u32
  ph_flags :: u32
  ph_off :: u64
  ph_vaddr :: u64
  ph_paddr :: u64
  ph_filesz :: u64
  ph_memsz :: u64
  ph_align :: u64

definition lrd64 :: "u8 list \<Rightarrow> nat \<Rightarrow> u64" where
  "lrd64 d i = ucast (rd32 d i) OR push_bit 32 (ucast (rd32 d (i + 4)))"

definition dec_elfhdr :: "u8 list \<Rightarrow> elfhdr" where
  "dec_elfhdr d = \<lparr>e_magic = rd32 d 0, e_elf = take 12 (drop 4 d), e_type = rd16 d 16, e_machine = rd16 d 18, e_version = rd32 d 20,
     e_entry = lrd64 d 24, e_phoff = lrd64 d 32, e_shoff = lrd64 d 40, e_flags = rd32 d 48, e_ehsize = rd16 d 52,
     e_phentsize = rd16 d 54, e_phnum = rd16 d 56, e_shentsize = rd16 d 58, e_shnum = rd16 d 60, e_shstrndx = rd16 d 62\<rparr>"

definition dec_proghdr :: "u8 list \<Rightarrow> proghdr" where
  "dec_proghdr d = \<lparr>ph_type = rd32 d 0, ph_flags = rd32 d 4, ph_off = lrd64 d 8, ph_vaddr = lrd64 d 16, ph_paddr = lrd64 d 24,
     ph_filesz = lrd64 d 32, ph_memsz = lrd64 d 40, ph_align = lrd64 d 48\<rparr>"

section \<open>Loading\<close>

text \<open>\<open>loadseg\<close>: the offsets \<open>i\<close> of the pages, then the loop.\<close>

fun loadseg_loop :: "u64 \<Rightarrow> u64 \<Rightarrow> nat \<Rightarrow> u64 \<Rightarrow> u64 \<Rightarrow> nat list \<Rightarrow> (int, 'z file_st_scheme) kop" where
  "loadseg_loop pgt va ip off sz [] = kret 0"
| "loadseg_loop pgt va ip off sz (i # is) =
     kbind (walkaddr pgt (va + of_nat i)) (\<lambda>pa.
     if pa = 0 then kpanic ''loadseg: address should exist''
     else
       let n = (if sz - of_nat i < PGSIZE then sz - of_nat i else PGSIZE) in
       kbind (readi ip (Phys pa) (ucast (off + of_nat i)) (ucast n)) (\<lambda>(r, _).
       if r \<noteq> int (unat n) then kret (-1) else loadseg_loop pgt va ip off sz is))"

definition loadseg :: "u64 \<Rightarrow> u64 \<Rightarrow> nat \<Rightarrow> u64 \<Rightarrow> u64 \<Rightarrow> (int, 'z file_st_scheme) kop" where
  "loadseg pgt va ip off sz = loadseg_loop pgt va ip off sz (map (\<lambda>k. 4096 * k) [0..<(unat sz + 4095) div 4096])"

text \<open>The loop of \<open>exec\<close> over the program headers; the result is the size of the image.\<close>

fun exec_segs :: "u64 \<Rightarrow> nat \<Rightarrow> u32 \<Rightarrow> u64 \<Rightarrow> nat \<Rightarrow> (u64, 'z file_st_scheme) kop" where
  "exec_segs pgt app off sz 0 = kret sz"
| "exec_segs pgt app off sz (Suc n) =
     kbind (readi app (Local []) off 56) (\<lambda>(r, d).
     if r \<noteq> 56 then kpanic ''readi from proghdr panic...''
     else
       let ph = dec_proghdr d in
       if ph_type ph \<noteq> ELF_PROG_LOAD then exec_segs pgt app (off + 56) sz n
       else if ph_memsz ph < ph_filesz ph then kpanic ''exec() ph.memsz < ph.filesz...''
       else if ph_vaddr ph + ph_memsz ph < ph_vaddr ph then kpanic ''exec() ph.vaddr + ph.memsz < ph.vaddr...''
       else
         kbind (uvmalloc pgt sz (ph_vaddr ph + ph_memsz ph)) (\<lambda>sz1.
         if sz1 = 0 then kpanic ''loadseg uvmalloc panic''
         else if ph_vaddr ph mod PGSIZE \<noteq> 0 then kpanic ''exec:(ph.vaddr %% PGSIZE) != 0''
         else
           kbind (loadseg pgt (ph_vaddr ph) app (ph_off ph) (ph_filesz ph)) (\<lambda>r.
           if r < 0 then kpanic ''loadseg panic''
           else exec_segs pgt app (off + 56) sz1 n)))"

text \<open>The arguments: the strings are pushed on the user stack and their addresses collected in \<open>ustack\<close>.\<close>

fun exec_args :: "u64 \<Rightarrow> u64 \<Rightarrow> u64 \<Rightarrow> u64 list \<Rightarrow> u8 list list \<Rightarrow> (u64 \<times> u64 list, 'z proc_st_scheme) kop" where
  "exec_args pgt stackbase sp ustack [] = kret (sp, ustack)"
| "exec_args pgt stackbase sp ustack (a # as) =
     (if length ustack \<ge> MAXARG then kpanic ''argc >= MAXARG''
      else case strlen a of None \<Rightarrow> kfault ''strlen''
      | Some l \<Rightarrow>
          let sp1 = sp - of_int (l + 1); sp2 = sp1 - sp1 mod 16 in
          if sp2 < stackbase then kpanic ''exec:sp < stackbase''
          else
            kbind (copyoutpg pgt sp2 a (of_int (l + 1))) (\<lambda>r.
            if r < 0 then kpanic ''exec:copyout''
            else exec_args pgt stackbase sp2 (ustack @ [sp2]) as))"

definition le64 :: "u64 \<Rightarrow> u8 list" where
  "le64 v = le32 (ucast v) @ le32 (ucast (drop_bit 32 v))"

text \<open>The part of a path after its last slash.\<close>

fun base_name :: "u8 list \<Rightarrow> u8 list \<Rightarrow> u8 list option" where
  "base_name best [] = None"
| "base_name best (c # s) = (if c = 0 then Some best else if c = 47 then base_name s s else base_name best s)"

text \<open>The old image goes when the new one is complete.\<close>

definition exec_commit :: "nat \<Rightarrow> u64 \<Rightarrow> u64 \<Rightarrow> u64 \<Rightarrow> u64 \<Rightarrow> u64 \<Rightarrow> (int, 'z file_st_scheme) kop" where
  "exec_commit p pgt sz entry sp oldsz =
     kbind (pget p pagetable) (\<lambda>oldpagetable.
     kthen (pset p (\<lambda>k. k\<lparr>pagetable := pgt\<rparr>)) (
     kthen (pset p (\<lambda>k. k\<lparr>psz := sz\<rparr>)) (
     kthen (tf_set p TF_epc entry) (
     kthen (tf_set p TF_sp sp) (
     kthen (proc_freepagetable oldpagetable oldsz) (
     kret 0))))))"

text \<open>From the stack pages on.\<close>

definition exec_stack :: "nat \<Rightarrow> u64 \<Rightarrow> u64 \<Rightarrow> u64 \<Rightarrow> u8 list \<Rightarrow> u8 list list option \<Rightarrow> (int, 'z file_st_scheme) kop" where
  "exec_stack p pgt sz0 entry name argv =
     kbind (pget p psz) (\<lambda>oldsz.
     let sz = PGROUNDUP sz0 in
     kbind (uvmalloc pgt sz (sz + 2 * PGSIZE)) (\<lambda>sz1.
     if sz1 = 0 then kpanic ''----''
     else
       kthen (uvmclear pgt (sz1 - 2 * PGSIZE)) (
       let stackbase = sz1 - PGSIZE in
       kbind (case argv of None \<Rightarrow> kret (sz1, []) | Some as \<Rightarrow> exec_args pgt stackbase sz1 [] as) (\<lambda>(sp, ustack).
       if length ustack \<ge> MAXARG then kfault ''ustack[MAXARG]''
       else
         let n = (of_nat (length ustack) + 1) * 8; sp1 = sp - n; sp2 = sp1 - sp1 mod 16 in
         if sp2 < stackbase then kpanic ''if(sp < stackbase)''
         else
           kbind (copyoutpg pgt sp2 (concat (map le64 (ustack @ [0]))) n) (\<lambda>r.
           if r < 0 then kpanic ''exec:copyout''
           else
             kthen (tf_set p TF_a1 sp2) (
             case base_name name name of None \<Rightarrow> kfault ''exec: path'' | Some b \<Rightarrow>
             kbind (pget p pname) (\<lambda>nm.
             case safestrcpy nm b 16 of None \<Rightarrow> kfault ''safestrcpy'' | Some nm' \<Rightarrow>
             kthen (pset p (\<lambda>k. k\<lparr>pname := nm'\<rparr>)) (
             exec_commit p pgt sz1 entry sp2 oldsz))))))))"

definition exec :: "u8 list \<Rightarrow> u8 list list option \<Rightarrow> (int, 'z file_st_scheme) kop" where
  "exec path0 argv = (case path0 of [] \<Rightarrow> kfault ''exec: path'' | c # cs \<Rightarrow>
     let name = (if c = 47 then cs else c # cs) in
     kbind (rootsub name) (\<lambda>ao.
     kthen (ilock ao) (
     case ao of None \<Rightarrow> kfault ''exec'' | Some app \<Rightarrow>
     kbind thisproc (\<lambda>p.
     kbind (proc_pagetable p) (\<lambda>pt.
     if pt = 0 then kpanic ''exec proc_pagetable panic''
     else
       kbind (readi app (Local []) 0 64) (\<lambda>(r, d).
       if r \<noteq> 64 then kpanic ''readi panic''
       else
         let elf = dec_elfhdr d in
         if e_magic elf \<noteq> ELF_MAGIC then kpanic ''ELF MAGIC Panic''
         else
           kbind (exec_segs pt app (ucast (e_phoff elf)) 0 (unat (e_phnum elf))) (\<lambda>sz.
           kthen (iunlockput app) (
           exec_stack p pt sz (e_entry elf) name argv))))))))"

end
