(* ===== verification/Syscall.thy ===== *)
theory Syscall
  imports Exec
begin

text \<open>
  System calls: \<^verbatim>\<open>kernel/syscall.c\<close>, \<^verbatim>\<open>kernel/sysfile.c\<close>, \<^verbatim>\<open>kernel/sysproc.c\<close>. Arguments are the registers saved in the
  trapframe. A local array that is not initialised starts with whatever is on the stack: the parameter
  \<open>stk\<close>. A call that puts the process to sleep or ends it has the outcome \<open>Switch\<close>.
\<close>

section \<open>Arguments\<close>

definition MAXPATH :: nat where "MAXPATH = 128"
definition O_WRONLY :: u32 where "O_WRONLY = 1"
definition O_RDWR :: u32 where "O_RDWR = 2"
definition O_CREATE :: u32 where "O_CREATE = 0x200"
definition T_DIR :: u16 where "T_DIR = 1"
definition T_FILE :: u16 where "T_FILE = 2"
definition T_DEVICE :: u16 where "T_DEVICE = 3"

definition argraw :: "nat \<Rightarrow> (u64, 'z proc_st_scheme) kop" where
  "argraw n =
     kbind thisproc (\<lambda>p.
     if n = 0 then tf_get p TF_a0
     else if n = 1 then tf_get p TF_a1
     else if n = 2 then tf_get p TF_a2
     else if n = 3 then tf_get p TF_a3
     else if n = 4 then tf_get p TF_a4
     else if n = 5 then tf_get p TF_a5
     else kpanic ''argraw'')"

definition argint :: "nat \<Rightarrow> (u32, 'z proc_st_scheme) kop" where
  "argint n = kbind (argraw n) (\<lambda>v. kret (ucast v))"

definition argaddr :: "nat \<Rightarrow> (u64, 'z proc_st_scheme) kop" where
  "argaddr n = argraw n"

definition fetchstr :: "u64 \<Rightarrow> u8 list \<Rightarrow> nat \<Rightarrow> (int \<times> u8 list, 'z proc_st_scheme) kop" where
  "fetchstr addr buf max' =
     kbind thisproc (\<lambda>p.
     kbind (pget p pagetable) (\<lambda>pt.
     kbind (copyinstr pt buf 0 addr (of_nat max')) (\<lambda>(err, buf').
     if err < 0 then kpanic ''fetchstr err < 0''
     else case strlen buf' of None \<Rightarrow> kfault ''strlen'' | Some l \<Rightarrow> kret (l, buf'))))"

definition argstr :: "nat \<Rightarrow> u8 list \<Rightarrow> nat \<Rightarrow> (int \<times> u8 list, 'z proc_st_scheme) kop" where
  "argstr num buf sz = kbind (argaddr num) (\<lambda>addr. fetchstr addr buf sz)"

definition fetchaddr :: "u64 \<Rightarrow> (u8 list, 'z proc_st_scheme) kop" where
  "fetchaddr addr =
     kbind thisproc (\<lambda>p.
     kbind (pget p psz) (\<lambda>sz.
     if addr \<ge> sz \<or> addr + 8 > sz then kpanic ''fetchaddr:addr >= p->sz || addr+sizeof(uint64) > p->sz''
     else
       kbind (pget p pagetable) (\<lambda>pt.
       kbind (copyin pt (replicate 8 0) 0 addr 8) (\<lambda>(r, ip).
       if r \<noteq> 0 then kpanic ''fetchaddr:copyin(p->pagetable, (char *)ip, addr, sizeof(*ip)) != 0''
       else kret ip))))"

text \<open>The descriptor of argument \<open>n\<close> and its file, if it is an open one.\<close>

definition argfd :: "nat \<Rightarrow> ((nat \<times> nat) option, 'z proc_st_scheme) kop" where
  "argfd n =
     kbind (argint n) (\<lambda>fd.
     if sint fd < 0 \<or> sint fd \<ge> int OPENFILE then kret None
     else
       kbind thisproc (\<lambda>p.
       kbind (pget p (\<lambda>k. openfs k ! unat fd)) (\<lambda>fo.
       case fo of None \<Rightarrow> kret None | Some f \<Rightarrow> kret (Some (unat fd, f)))))"

fun fdalloc_loop :: "nat \<Rightarrow> nat \<Rightarrow> nat list \<Rightarrow> (int, 'z proc_st_scheme) kop" where
  "fdalloc_loop f p [] = kret (-1)"
| "fdalloc_loop f p (fd # fds) =
     kbind (pget p (\<lambda>k. openfs k ! fd)) (\<lambda>fo.
     if fo = None then kthen (pset p (\<lambda>k. k\<lparr>openfs := (openfs k)[fd := Some f]\<rparr>)) (kret (int fd))
     else fdalloc_loop f p fds)"

definition fdalloc :: "nat \<Rightarrow> (int, 'z proc_st_scheme) kop" where
  "fdalloc f = kbind thisproc (\<lambda>p. fdalloc_loop f p [0..<OPENFILE])"

section \<open>Calls on files\<close>

definition sys_read :: "(int, 'z file_st_scheme) kop" where
  "sys_read =
     kbind (argfd 0) (\<lambda>x. case x of None \<Rightarrow> kpanic ''sys_read param failure'' | Some (_, f) \<Rightarrow>
     kbind (argint 2) (\<lambda>sz. kbind (argaddr 1) (\<lambda>p. fileread f p (sint sz))))"

definition sys_write :: "(int, 'z file_st_scheme) kop" where
  "sys_write =
     kbind (argfd 0) (\<lambda>x. case x of None \<Rightarrow> kret (-1) | Some (_, f) \<Rightarrow>
     kbind (argint 2) (\<lambda>n. kbind (argaddr 1) (\<lambda>p. filewrite f p (sint n))))"

definition sys_exec :: "u8 list \<Rightarrow> (int, 'z file_st_scheme) kop" where
  "sys_exec stk =
     kbind (argstr 0 (take MAXPATH stk) MAXPATH) (\<lambda>(n, name).
     if n < 0 then kret (-1)
     else
       kbind thisproc (\<lambda>p.
       kbind (pget p (\<lambda>k. k)) (\<lambda>k.
       kthen (printf (lit (''exec: %s,p.name:%s,p.id:%d'' @ [CHR 0x0A])) [VStr (Some name), VStr (Some (pname k)), VInt (pid k)]) (
       exec name None))))"

definition sys_fstat :: "u8 list \<Rightarrow> (int, 'z file_st_scheme) kop" where
  "sys_fstat stk =
     kbind (argfd 0) (\<lambda>x. case x of None \<Rightarrow> kret (-1) | Some (_, f) \<Rightarrow>
     kbind (argaddr 1) (\<lambda>st. filestat (take 24 stk) f st))"

definition sys_close :: "(int, 'z file_st_scheme) kop" where
  "sys_close =
     kbind (argfd 0) (\<lambda>x. case x of None \<Rightarrow> kret (-1) | Some (fd, f) \<Rightarrow>
     kbind thisproc (\<lambda>p.
     kthen (pset p (\<lambda>k. k\<lparr>openfs := (openfs k)[fd := None]\<rparr>)) (
     kthen (fileclose (Some f)) (kret 0))))"

definition sys_dup :: "(int, 'z file_st_scheme) kop" where
  "sys_dup =
     kbind (argfd 0) (\<lambda>x. case x of None \<Rightarrow> kret (-1) | Some (_, f) \<Rightarrow>
     kbind (fdalloc f) (\<lambda>fd.
     if fd < 0 then kret (-1)
     else kthen (filedup f) (kret fd)))"

text \<open>\<open>create\<close>. On the early return for an existing file the directory stays locked.\<close>

definition create :: "u8 list \<Rightarrow> u16 \<Rightarrow> u16 \<Rightarrow> u16 \<Rightarrow> (nat, 'z file_st_scheme) kop" where
  "create path0 type major minor =
     kbind rooti (\<lambda>dp.
     kthen (ilock (Some dp)) (
     case path0 of [] \<Rightarrow> kfault ''create: path'' | c # cs \<Rightarrow>
     let name = (if c = 47 then cs else c # cs) in
     kbind (inodeByName dp name) (\<lambda>io.
     kbind (case io of None \<Rightarrow> kret False
            | Some ip \<Rightarrow> iget_field ip (\<lambda>k. type = T_FILE \<and> (i_type k = T_FILE \<or> i_type k = T_DEVICE))) (\<lambda>found.
     if found then kret (the io)
     else
       kbind (iget_field dp i_dev) (\<lambda>dev.
       kbind (ialloc dev type) (\<lambda>ao.
       case ao of None \<Rightarrow> kpanic ''fs.c create >> ialloc panic..'' | Some ip \<Rightarrow>
       kthen (ilock (Some ip)) (
       kthen (on_inode ip (\<lambda>k. k\<lparr>i_major := major, i_minor := minor, i_nlink := 1\<rparr>)) (
       kthen (iupdate ip) (
       kbind (iget_field ip i_inum) (\<lambda>inum.
       kbind (iget_field dp i_inum) (\<lambda>dinum.
       kthen (kwhen (type = T_DIR) (
         kthen (iupdate dp) (
         kbind (dirlink ip (lit ''.'') (ucast inum)) (\<lambda>r1.
         if r1 < 0 then kpanic ''create dots''
         else kbind (dirlink ip (lit ''..'') (ucast dinum)) (\<lambda>r2.
         if r2 < 0 then kpanic ''create dots'' else kret ()))))) (
       kbind (dirlink dp name (ucast inum)) (\<lambda>r.
       if r < 0 then kpanic ''create >> dirline panic...''
       else kthen (iunlockput dp) (kret ip))))))))))))))"

definition sys_mknod :: "u8 list \<Rightarrow> (int, 'z file_st_scheme) kop" where
  "sys_mknod stk =
     kbind (argstr 0 (take MAXPATH stk) MAXPATH) (\<lambda>(n, name).
     if n < 0 then kpanic ''sys_mknod''
     else kbind (argint 1) (\<lambda>major. kbind (argint 2) (\<lambda>minor.
     kbind (create name T_DEVICE (ucast major) (ucast minor)) (\<lambda>ip.
     kthen (iunlockput ip) (kret 0)))))"

text \<open>\<open>sys_open\<close> from the point where it has the inode.\<close>

definition open_file :: "nat \<Rightarrow> u32 \<Rightarrow> (int, 'z file_st_scheme) kop" where
  "open_file ip model =
     kthen (ilock (Some ip)) (
     kbind (iget_field ip (\<lambda>k. k)) (\<lambda>k.
     if i_type k = T_DEVICE \<and> (sint (i_major k) < 0 \<or> sint (i_major k) \<ge> int NDEV) then kpanic ''open: ip type error''
     else
       kbind filealloc (\<lambda>fo.
       case fo of None \<Rightarrow> kthen (fileclose None) (kret (-1))
       | Some f \<Rightarrow>
         kbind (fdalloc f) (\<lambda>fd.
         if fd < 0 then kthen (fileclose (Some f)) (kret (-1))
         else
           kthen (if i_type k = T_DEVICE then fset f (\<lambda>q. q\<lparr>f_type := FD_DEVICE, f_major := i_major k\<rparr>)
                  else fset f (\<lambda>q. q\<lparr>f_type := FD_INODE, f_off := 0\<rparr>)) (
           kthen (fset f (\<lambda>q. q\<lparr>f_ip := Some ip\<rparr>)) (
           kthen (fset f (\<lambda>q. q\<lparr>f_readable := (if model AND O_WRONLY = 0 then 1 else 0)\<rparr>)) (
           kthen (fset f (\<lambda>q. q\<lparr>f_writable := ucast ((model AND O_WRONLY) OR (model AND O_RDWR))\<rparr>)) (
           kthen (iunlock (Some ip)) (kret fd)))))))))"

definition sys_open :: "u8 list \<Rightarrow> (int, 'z file_st_scheme) kop" where
  "sys_open stk =
     kbind (argstr 0 (take MAXPATH stk) MAXPATH) (\<lambda>(n, name).
     if n < 0 then kret (-1)
     else
       kbind (argint 1) (\<lambda>model.
       if model AND O_CREATE \<noteq> 0 then
         kbind (create name T_FILE 0 0) (\<lambda>ip. open_file ip model)
       else
         kbind (iname name) (\<lambda>io.
         case io of None \<Rightarrow> kthen (printf (lit (''ip == 0 '' @ [CHR 0x0A])) []) (kret (-1))
         | Some ip \<Rightarrow> open_file ip model)))"

section \<open>Calls on processes\<close>

definition sys_wait :: "(int, 'z file_st_scheme) kop" where
  "sys_wait = kbind (argaddr 0) (\<lambda>p. wait p)"

definition sys_fork :: "(int, 'z file_st_scheme) kop" where
  "sys_fork = fork"

definition sys_exit :: "(int, 'z file_st_scheme) kop" where
  "sys_exit = kbind (argint 0) (\<lambda>n. kthen (exit n) (kret 0))"

definition sys_sbrk :: "(int, 'z file_st_scheme) kop" where
  "sys_sbrk =
     kbind (argint 0) (\<lambda>n.
     kbind thisproc (\<lambda>p.
     kbind (pget p (\<lambda>k. sint (ucast (psz k) :: u32))) (\<lambda>addr.
     kbind (growproc n) (\<lambda>r.
     if r < 0 then kret (-1) else kret addr))))"

section \<open>Dispatch\<close>

fun syscalls :: "u8 list \<Rightarrow> nat \<Rightarrow> (int, 'z file_st_scheme) kop option" where
  "syscalls stk n = (
     if n = 1 then Some sys_write
     else if n = 2 then Some (sys_exec stk)
     else if n = 3 then Some sys_dup
     else if n = 4 then Some (sys_open stk)
     else if n = 5 then Some sys_wait
     else if n = 6 then Some (sys_mknod stk)
     else if n = 7 then Some (sys_exec stk)
     else if n = 8 then Some sys_fork
     else if n = 9 then Some sys_read
     else if n = 10 then Some sys_exit
     else if n = 11 then Some sys_sbrk
     else if n = 12 then Some (sys_fstat stk)
     else if n = 13 then Some sys_close
     else None)"

definition syscall :: "u8 list \<Rightarrow> (unit, 'z file_st_scheme) kop" where
  "syscall stk =
     kbind thisproc (\<lambda>p.
     kbind (tf_get p TF_a7) (\<lambda>a7.
     let num = sint (ucast a7 :: u32) in
     case (if num > 0 then syscalls stk (nat num) else None) of
       Some f \<Rightarrow> kbind f (\<lambda>r. tf_set p TF_a0 (of_int r))
     | None \<Rightarrow>
         kthen (printf (lit (''syscall %d not exist '' @ [CHR 0x0A])) [VInt (ucast a7)]) (
         tf_set p TF_a0 (-1))))"

end
