(* ===== verification/Trap.thy ===== *)
theory Trap
  imports Syscall
begin

text \<open>
  Traps, interrupts and booting: \<^verbatim>\<open>kernel/trap.c\<close>, \<^verbatim>\<open>kernel/plic.c\<close>, \<open>forkret\<close> of \<^verbatim>\<open>kernel/proc.c\<close>, \<^verbatim>\<open>kernel/start.c\<close> and
  \<^verbatim>\<open>kernel/main.c\<close>. The supervisor registers a handler reads or writes are a record per hart. The interrupt
  controller is a device: \<open>plic_pending\<close> are the interrupts waiting to be claimed, \<open>plic_writes\<close> the stores to
  its registers. The assembly parts (\<open>uservec\<close>, \<open>userret\<close>, \<open>kernelvec\<close>, \<open>timervec\<close>) are not modelled: the addresses
  are state components set by the linker, and \<open>usertrapret\<close> ends with the arguments of the jump to \<open>userret\<close>.
\<close>

section \<open>State\<close>

definition SSTATUS_SPP :: u64 where "SSTATUS_SPP = 256"
definition SSTATUS_SPIE :: u64 where "SSTATUS_SPIE = 32"
definition UART0_IRQ :: u32 where "UART0_IRQ = 10"
definition VIRTIO0_IRQ :: u32 where "VIRTIO0_IRQ = 1"
definition PLIC :: u64 where "PLIC = 0x0c000000"
definition PLIC_SENABLE :: "nat \<Rightarrow> u64" where "PLIC_SENABLE h = PLIC + 0x2080 + of_nat h * 0x100"
definition PLIC_SPRIORITY :: "nat \<Rightarrow> u64" where "PLIC_SPRIORITY h = PLIC + 0x201000 + of_nat h * 0x2000"
definition PLIC_SCLAIM :: "nat \<Rightarrow> u64" where "PLIC_SCLAIM h = PLIC + 0x201004 + of_nat h * 0x2000"

record scsr =
  scause :: u64
  sepc :: u64
  stval :: u64
  stvec :: u64
  sip :: u64

record trap_st = file_st +
  scsrs :: "scsr list"
  plic_pending :: "u32 list"
  plic_writes :: "(u64 \<times> u32) list"
  firstinit :: bool
  started :: bool
  ld_kernelvec :: u64
  ld_uservec :: u64
  ld_userret :: u64
  ld_usertrap :: u64

definition csr_get :: "(scsr \<Rightarrow> 'a) \<Rightarrow> ('a, 'z trap_st_scheme) kop" where
  "csr_get f = kget (\<lambda>s. f (scsrs s ! hart s))"

definition csr_set :: "(scsr \<Rightarrow> scsr) \<Rightarrow> (unit, 'z trap_st_scheme) kop" where
  "csr_set f = kmod (\<lambda>s. s\<lparr>scsrs := (scsrs s)[hart s := f (scsrs s ! hart s)]\<rparr>)"

text \<open>The access functions of \<^verbatim>\<open>riscv.h\<close>; the register \<open>tp\<close> holds the number of the hart.\<close>

definition r_satp :: "(u64, 'z trap_st_scheme) kop" where
  "r_satp = kget satp"

definition r_tp :: "(nat, 'z trap_st_scheme) kop" where
  "r_tp = kget hart"

definition r_stval :: "(u64, 'z trap_st_scheme) kop" where
  "r_stval = csr_get stval"

definition r_scause :: "(u64, 'z trap_st_scheme) kop" where
  "r_scause = csr_get scause"

definition r_sepc :: "(u64, 'z trap_st_scheme) kop" where
  "r_sepc = csr_get sepc"

definition w_sepc :: "u64 \<Rightarrow> (unit, 'z trap_st_scheme) kop" where
  "w_sepc x = csr_set (\<lambda>k. k\<lparr>sepc := x\<rparr>)"

definition r_sip :: "(u64, 'z trap_st_scheme) kop" where
  "r_sip = csr_get sip"

definition w_sip :: "u64 \<Rightarrow> (unit, 'z trap_st_scheme) kop" where
  "w_sip x = csr_set (\<lambda>k. k\<lparr>sip := x\<rparr>)"

definition w_stvec :: "u64 \<Rightarrow> (unit, 'z trap_st_scheme) kop" where
  "w_stvec x = csr_set (\<lambda>k. k\<lparr>stvec := x\<rparr>)"

definition r_sstatus :: "(u64, 'z spin_st_scheme) kop" where
  "r_sstatus = kget (\<lambda>s. sstatus (cpus s ! hart s))"

definition w_sstatus :: "u64 \<Rightarrow> (unit, 'z spin_st_scheme) kop" where
  "w_sstatus v = kmod (\<lambda>s. s\<lparr>cpus := (cpus s)[hart s := (cpus s ! hart s)\<lparr>sstatus := v\<rparr>]\<rparr>)"

section \<open>Interrupt controller\<close>

definition plic_write :: "u64 \<Rightarrow> u32 \<Rightarrow> (unit, 'z trap_st_scheme) kop" where
  "plic_write a v = kmod (\<lambda>s. s\<lparr>plic_writes := plic_writes s @ [(a, v)]\<rparr>)"

definition plicinit :: "(unit, 'z trap_st_scheme) kop" where
  "plicinit =
     kthen (plic_write (PLIC + ucast UART0_IRQ * 4) 1) (
     plic_write (PLIC + ucast VIRTIO0_IRQ * 4) 1)"

definition plicinithart :: "(unit, 'z trap_st_scheme) kop" where
  "plicinithart =
     kbind r_tp (\<lambda>h.
     kthen (plic_write (PLIC_SENABLE h) (push_bit (unat UART0_IRQ) 1 OR push_bit (unat VIRTIO0_IRQ) 1)) (
     plic_write (PLIC_SPRIORITY h) 0))"

text \<open>A claim takes the first waiting interrupt, or gives 0.\<close>

definition plic_claim :: "(u32, 'z trap_st_scheme) kop" where
  "plic_claim =
     kbind (kget plic_pending) (\<lambda>q.
     kthen (kmod (\<lambda>s. s\<lparr>plic_pending := tl q\<rparr>)) (kret (case q of [] \<Rightarrow> 0 | i # _ \<Rightarrow> i)))"

definition complate_irq :: "u32 \<Rightarrow> (unit, 'z trap_st_scheme) kop" where
  "complate_irq irq = kbind r_tp (\<lambda>h. plic_write (PLIC_SCLAIM h) irq)"

section \<open>Traps\<close>

definition clockintr :: "(unit, 'z proc_st_scheme) kop" where
  "clockintr =
     kthen (acquire TrapLk) (
     kthen (kmod (\<lambda>s. s\<lparr>ticks := ticks s + 1\<rparr>)) (
     kthen (wakeup (Some TicksCh)) (
     release TrapLk)))"

text \<open>\<open>devintr\<close>; \<open>vstat\<close> is the interrupt status register of the disk.\<close>

definition devintr :: "u32 \<Rightarrow> (nat, 'z trap_st_scheme) kop" where
  "devintr vstat =
     kbind r_scause (\<lambda>sc.
     if bit sc 63 \<and> sc AND 0xff = 9 then
       kbind plic_claim (\<lambda>irq.
       kthen (if irq = UART0_IRQ then uartinterrupt
              else if irq = VIRTIO0_IRQ then virtio_disk_isr vstat
              else printf (lit (''unknow irq:%d'' @ [CHR 0x0A])) [VInt irq]) (
       kthen (kwhen (irq \<noteq> 0) (complate_irq irq)) (
       kret 1)))
     else if sc = 0x8000000000000001 then
       kbind cpuid (\<lambda>c.
       kthen (kwhen (c = 0) clockintr) (
       kbind r_sip (\<lambda>x.
       kthen (w_sip (x AND NOT 2)) (
       kret 2))))
     else kret 0)"

text \<open>\<open>kerneltrap\<close>; when it yields, \<open>kerneltrap_resume\<close> restores the registers it had saved.\<close>

definition kerneltrap_end :: "u64 \<Rightarrow> u64 \<Rightarrow> (unit, 'z trap_st_scheme) kop" where
  "kerneltrap_end sepc0 sst0 = kthen (w_sepc sepc0) (w_sstatus sst0)"

definition kerneltrap :: "u32 \<Rightarrow> (unit, 'z trap_st_scheme) kop" where
  "kerneltrap vstat =
     kbind r_sstatus (\<lambda>sst.
     kbind r_sepc (\<lambda>pc.
     if sst AND SSTATUS_SPP = 0 then
       printf (lit (''kerneltrap: interrupt from U Model'' @ [CHR 0x0A])) []
     else kbind r_sstatus (\<lambda>sst'.
     if sst' AND SSTATUS_SIE \<noteq> 0 then
       printf (lit (''kerneltrap: Handle kernel interrupts SIE cannot be set'' @ [CHR 0x0A])) []
     else
       kbind (devintr vstat) (\<lambda>which.
       if which = 0 then
         kbind r_sepc (\<lambda>e. kbind r_stval (\<lambda>v. kbind r_scause (\<lambda>c.
         kthen (printf (lit (''sepc=%p stval=%p scause=%d'' @ [CHR 0x0A])) [VPtr e, VPtr v, VInt (ucast c)]) (
         kpanic ''kernel trap''))))
       else
         kbind myproc (\<lambda>po.
         kthen (case po of None \<Rightarrow> kret ()
                | Some p \<Rightarrow> if which = 2 then kbind (pget p pstate) (\<lambda>st. kwhen (st = RUNNING) yield) else kret ()) (
         kerneltrap_end pc sst))))))"

definition kerneltrap_resume :: "nat \<Rightarrow> bool \<Rightarrow> u64 \<Rightarrow> u64 \<Rightarrow> (unit, 'z trap_st_scheme) kop" where
  "kerneltrap_resume p ie sepc0 sst0 = kthen (yield_resume p ie) (kerneltrap_end sepc0 sst0)"

definition trapinit :: "(unit, 'z trap_st_scheme) kop" where
  "trapinit =
     kbind (kget ld_kernelvec) (\<lambda>kv.
     kthen (w_stvec kv) (initlock TrapLk ''trap''))"

text \<open>\<open>usertrapret\<close>: the result are the two arguments of \<open>userret\<close>.\<close>

definition usertrapret :: "(u64 \<times> u64, 'z trap_st_scheme) kop" where
  "usertrapret =
     kbind thisproc (\<lambda>p.
     kthen intr_off (
     kbind (kget (\<lambda>s. TRAMPOLINE + (ld_uservec s - ld_trampoline s))) (\<lambda>uv.
     kthen (w_stvec uv) (
     kbind r_satp (\<lambda>sa.
     kthen (tf_set p TF_kernel_satp sa) (
     kbind (pget p kstack) (\<lambda>ks.
     kthen (tf_set p TF_kernel_sp (ks + PGSIZE)) (
     kbind (kget ld_usertrap) (\<lambda>ut.
     kthen (tf_set p TF_kernel_trap ut) (
     kbind r_tp (\<lambda>h.
     kthen (tf_set p TF_kernel_hartid (of_nat h)) (
     kbind r_sstatus (\<lambda>x.
     kthen (w_sstatus ((x AND NOT SSTATUS_SPP) OR SSTATUS_SPIE)) (
     kbind (tf_get p TF_epc) (\<lambda>pc.
     kthen (w_sepc pc) (
     kbind (pget p pagetable) (\<lambda>pt.
     kret (TRAPFRAME, MAKE_SATP pt))))))))))))))))))"

definition usertrap_finish :: "nat \<Rightarrow> (u64 \<times> u64, 'z trap_st_scheme) kop" where
  "usertrap_finish which = kthen (kwhen (which = 2) yield) usertrapret"

definition usertrap :: "u8 list \<Rightarrow> u32 \<Rightarrow> (u64 \<times> u64, 'z trap_st_scheme) kop" where
  "usertrap stk vstat =
     kbind r_sstatus (\<lambda>sst.
     if sst AND SSTATUS_SPP \<noteq> 0 then kpanic ''usertrap: not from user mode''
     else
       kbind (kget ld_kernelvec) (\<lambda>kv.
       kthen (w_stvec kv) (
       kbind thisproc (\<lambda>p.
       kbind r_sepc (\<lambda>pc.
       kthen (tf_set p TF_epc pc) (
       kbind r_scause (\<lambda>sc.
       if sc = 8 then
         kbind (pget p killed) (\<lambda>k.
         kthen (kwhen (k \<noteq> 0) (exit (-1))) (
         kbind (tf_get p TF_epc) (\<lambda>epc.
         kthen (tf_set p TF_epc (epc + 4)) (
         kthen intr_on (
         kthen (syscall stk) (
         usertrap_finish 0))))))
       else
         kbind (devintr vstat) (\<lambda>which.
         if which \<noteq> 0 then usertrap_finish which
         else
           kbind r_scause (\<lambda>c. kbind (pget p pid) (\<lambda>n.
           kthen (printf (lit (''usertrap(): unexpected scause %p pid=%d'' @ [CHR 0x0A])) [VPtr c, VInt n]) (
           kbind r_sepc (\<lambda>e. kbind r_stval (\<lambda>v.
           kthen (printf (lit (''            sepc=%p stval=%p'' @ [CHR 0x0A])) [VPtr e, VPtr v]) (
           kpanic ''user trap''))))))))))))))"

definition usertrap_resume :: "nat \<Rightarrow> bool \<Rightarrow> (u64 \<times> u64, 'z trap_st_scheme) kop" where
  "usertrap_resume p ie = kthen (yield_resume p ie) usertrapret"

definition forkret :: "(u64 \<times> u64, 'z trap_st_scheme) kop" where
  "forkret =
     kbind thisproc (\<lambda>p.
     kthen (release (ProcLk p)) (
     kbind (kget firstinit) (\<lambda>first.
     kthen (kwhen first (
       kthen (kmod (\<lambda>s. s\<lparr>firstinit := False\<rparr>)) (initfs ROOTDEV))) (
     usertrapret))))"

section \<open>Booting\<close>

text \<open>\<open>main\<close> up to the call of \<open>scheduler\<close>; a secondary hart spins until \<open>started\<close>. The arguments stand for the
  registers of the disk and the address of its pages.\<close>

definition main :: "(nat \<Rightarrow> u32) \<Rightarrow> u64 \<Rightarrow> (unit, 'z trap_st_scheme) kop" where
  "main vregs0 vpages =
     kbind cpuid (\<lambda>c.
     if c = 0 then
       kthen consoleinit (
       kthen printinit (
       kthen trapinit (
       kthen plicinit (
       kthen plicinithart (
       kthen kinit (
       kthen initproc (
       kthen init_bcache (
       kthen init_inodecache (
       kthen init_filecache (
       kthen (virtio_disk_init vregs0 vpages) (
       kthen userinit (
       kthen (printf (lit (''OS: Start'' @ [CHR 0x0A])) []) (
       kmod (\<lambda>s. s\<lparr>started := True\<rparr>))))))))))))))
     else
       kbind (kget started) (\<lambda>go.
       if \<not> go then (\<lambda>s. Spin)
       else kthen trapinit plicinithart))"

text \<open>\<^verbatim>\<open>start.c\<close> runs in machine mode, before any of the above, on the registers of one hart.\<close>

record mcsr =
  mstatus :: u64
  mepc :: u64
  m_satp :: u64
  medeleg :: u64
  mideleg :: u64
  m_sie :: u64
  pmpaddr0 :: u64
  pmpcfg0 :: u64
  mscratch :: u64
  mtvec :: u64
  mie :: u64
  m_tp :: u64
  mhartid :: u64
  mtime :: u64
  mtimecmp :: u64
  scratch3 :: u64
  scratch4 :: u64

text \<open>The constants of \<^verbatim>\<open>memlayout.h\<close> and the access functions of \<^verbatim>\<open>riscv.h\<close> for these registers.\<close>

definition MSTATUS_MIE :: u64 where "MSTATUS_MIE = push_bit 3 1"
definition MSTATUS_MPP_MASK :: u64 where "MSTATUS_MPP_MASK = push_bit 11 3"
definition MSTATUS_MPP_S :: u64 where "MSTATUS_MPP_S = push_bit 11 1"
definition SIE_SEIE :: u64 where "SIE_SEIE = push_bit 9 1"
definition SIE_STIE :: u64 where "SIE_STIE = push_bit 5 1"
definition SIE_SSIE :: u64 where "SIE_SSIE = push_bit 1 1"
definition MIE_MTIE :: u64 where "MIE_MTIE = push_bit 7 1"
definition CLINT :: u64 where "CLINT = 0x2000000"
definition CLINT_MTIMECMP :: "u64 \<Rightarrow> u64" where "CLINT_MTIMECMP hartid = CLINT + 0x4000 + 8 * hartid"
definition INTERVAL :: u64 where "INTERVAL = 1000000"

definition w_mstatus :: "u64 \<Rightarrow> mcsr \<Rightarrow> mcsr" where "w_mstatus x k = k\<lparr>mstatus := x\<rparr>"
definition w_mepc :: "u64 \<Rightarrow> mcsr \<Rightarrow> mcsr" where "w_mepc x k = k\<lparr>mepc := x\<rparr>"
definition w_satp :: "u64 \<Rightarrow> mcsr \<Rightarrow> mcsr" where "w_satp x k = k\<lparr>m_satp := x\<rparr>"
definition w_medeleg :: "u64 \<Rightarrow> mcsr \<Rightarrow> mcsr" where "w_medeleg x k = k\<lparr>medeleg := x\<rparr>"
definition w_mideleg :: "u64 \<Rightarrow> mcsr \<Rightarrow> mcsr" where "w_mideleg x k = k\<lparr>mideleg := x\<rparr>"
definition w_sie :: "u64 \<Rightarrow> mcsr \<Rightarrow> mcsr" where "w_sie x k = k\<lparr>m_sie := x\<rparr>"
definition w_pmpaddr0 :: "u64 \<Rightarrow> mcsr \<Rightarrow> mcsr" where "w_pmpaddr0 x k = k\<lparr>pmpaddr0 := x\<rparr>"
definition w_pmpcfg0 :: "u64 \<Rightarrow> mcsr \<Rightarrow> mcsr" where "w_pmpcfg0 x k = k\<lparr>pmpcfg0 := x\<rparr>"
definition w_mscratch :: "u64 \<Rightarrow> mcsr \<Rightarrow> mcsr" where "w_mscratch x k = k\<lparr>mscratch := x\<rparr>"
definition w_mtvec :: "u64 \<Rightarrow> mcsr \<Rightarrow> mcsr" where "w_mtvec x k = k\<lparr>mtvec := x\<rparr>"
definition w_mie :: "u64 \<Rightarrow> mcsr \<Rightarrow> mcsr" where "w_mie x k = k\<lparr>mie := x\<rparr>"
definition w_tp :: "u64 \<Rightarrow> mcsr \<Rightarrow> mcsr" where "w_tp x k = k\<lparr>m_tp := x\<rparr>"

definition timer_init :: "u64 \<Rightarrow> u64 \<Rightarrow> mcsr \<Rightarrow> mcsr" where
  "timer_init scratch timervec k =
     (let hartid = mhartid k;
          k = k\<lparr>mtimecmp := mtime k + INTERVAL\<rparr>;
          k = k\<lparr>scratch3 := CLINT_MTIMECMP hartid, scratch4 := INTERVAL\<rparr>;
          k = w_mscratch scratch k;
          k = w_mtvec timervec k;
          k = w_mstatus (mstatus k OR MSTATUS_MIE) k
      in w_mie (mie k OR MIE_MTIE) k)"

definition start :: "u64 \<Rightarrow> u64 \<Rightarrow> u64 \<Rightarrow> mcsr \<Rightarrow> mcsr" where
  "start main_addr scratch timervec k =
     (let k = w_mstatus ((mstatus k AND NOT MSTATUS_MPP_MASK) OR MSTATUS_MPP_S) k;
          k = w_mepc main_addr k;
          k = w_satp 0 k;
          k = w_mideleg 0xffff (w_medeleg 0xffff k);
          k = w_sie (m_sie k OR SIE_SEIE OR SIE_STIE OR SIE_SSIE) k;
          k = w_pmpcfg0 0xf (w_pmpaddr0 0x3fffffffffffff k);
          k = timer_init scratch timervec k
      in w_tp (mhartid k) k)"

text \<open>After \<open>start\<close> the \<open>mret\<close> of \<^verbatim>\<open>start.c\<close> enters supervisor mode at \<open>main\<close>, with paging off and every trap delegated; supervisor
  interrupts of all three kinds and the machine timer are enabled, \<open>tp\<close> holds the number of the hart, and the timer is set one interval ahead.\<close>

theorem start_enters_supervisor:
  "let k' = start main_addr scratch timervec k in
     bit (mstatus k') 11 \<and> \<not> bit (mstatus k') 12 \<and> bit (mstatus k') 3 \<and> mepc k' = main_addr \<and> m_satp k' = 0
     \<and> (\<forall>n < 16. bit (medeleg k') n \<and> bit (mideleg k') n) \<and> bit (m_sie k') 9 \<and> bit (m_sie k') 5 \<and> bit (m_sie k') 1 \<and> bit (mie k') 7
     \<and> m_tp k' = mhartid k \<and> mtvec k' = timervec \<and> mscratch k' = scratch \<and> mtimecmp k' = mtime k + 1000000"
proof -
  have ffff: "(0xffff :: u64) = mask 16" by (simp add: mask_eq_exp_minus_1)
  have "bit (0xffff :: u64) n" if "n < 16" for n using that unfolding ffff by (simp only: bit_mask_iff) simp
  moreover have "(3 :: u64) = mask 2" by (simp add: mask_eq_exp_minus_1)
  ultimately show ?thesis
    by (simp add: start_def timer_init_def Let_def w_mstatus_def w_mepc_def w_satp_def w_medeleg_def w_mideleg_def w_sie_def w_pmpaddr0_def
        w_pmpcfg0_def w_mscratch_def w_mtvec_def w_mie_def w_tp_def MSTATUS_MIE_def MSTATUS_MPP_MASK_def MSTATUS_MPP_S_def SIE_SEIE_def
        SIE_STIE_def SIE_SSIE_def MIE_MTIE_def INTERVAL_def bit_or_iff bit_and_iff bit_not_iff bit_push_bit_iff bit_mask_iff)
qed

section \<open>Returning to user mode\<close>

lemma intr_off_run:
  "hart s < length (cpus s) \<Longrightarrow> intr_off s =
     Ret () (s\<lparr>cpus := (cpus s)[hart s := (cpus s ! hart s)\<lparr>sstatus := sstatus (cpus s ! hart s) AND NOT SSTATUS_SIE\<rparr>]\<rparr>)"
  by (simp add: intr_off_def kbind_Ret mycpu_ok on_cpu_def)

lemma usertrapret_bits:
  fixes x :: u64
  defines "y \<equiv> ((x AND NOT SSTATUS_SIE) AND NOT SSTATUS_SPP) OR SSTATUS_SPIE"
  shows "\<not> bit y 1" "\<not> bit y 8" "bit y 5"
proof -
  have c: "SSTATUS_SIE = 2 ^ 1" "SSTATUS_SPP = 2 ^ 8" "SSTATUS_SPIE = 2 ^ 5"
    by (simp_all add: SSTATUS_SIE_def SSTATUS_SPP_def SSTATUS_SPIE_def)
  show "\<not> bit y 1" "\<not> bit y 8" "bit y 5"
    unfolding y_def c by (simp_all add: bit_or_iff bit_and_iff bit_not_iff bit_exp_iff)
qed

text \<open>The fields of the trapframe \<open>usertrapret\<close> prepares for the next trap.\<close>

definition kernel_field :: "'z trap_st_scheme \<Rightarrow> proc \<Rightarrow> tfreg \<Rightarrow> u64 option" where
  "kernel_field s k r = (case r of TF_kernel_satp \<Rightarrow> Some (satp s) | TF_kernel_sp \<Rightarrow> Some (kstack k + PGSIZE)
     | TF_kernel_trap \<Rightarrow> Some (ld_usertrap s) | TF_kernel_hartid \<Rightarrow> Some (of_nat (hart s)) | _ \<Rightarrow> None)"

text \<open>(C26) \<open>usertrapret\<close> leaves the hart ready to enter the user program: interrupts are off until \<open>sret\<close>, which will go to
  user mode (SPP clear) with interrupts on (SPIE set); \<open>sepc\<close> is the saved program counter and \<open>stvec\<close> the user trap
  vector in the trampoline; the trapframe holds what the next trap needs, and every register of the user program
  in it is as it was; the arguments of \<open>userret\<close> are the trapframe's address and the process's page table.\<close>

theorem usertrapret_ready:
  assumes c: "calm p s" and h: "hart s < length (scsrs s)"
  defines "k \<equiv> procs s ! p"
  shows "\<exists>t. usertrapret s = Ret (TRAPFRAME, MAKE_SATP (pagetable k)) t \<and> procs t = procs s \<and> locks t = locks s
    \<and> \<not> bit (sstatus (cpus t ! hart s)) 1 \<and> \<not> bit (sstatus (cpus t ! hart s)) 8 \<and> bit (sstatus (cpus t ! hart s)) 5
    \<and> sepc (scsrs t ! hart s) = rd64 (mem s) (trapframe k + tf_off TF_epc)
    \<and> stvec (scsrs t ! hart s) = TRAMPOLINE + (ld_uservec s - ld_trampoline s)
    \<and> (\<forall>r. rd64 (mem t) (trapframe k + tf_off r) =
         (case kernel_field s k r of Some v \<Rightarrow> v | None \<Rightarrow> rd64 (mem s) (trapframe k + tf_off r)))"
proof -
  have hc: "hart s < length (cpus s)" using calm_simps(1) [OF c] by (rule cpu_ok_hart)
  define tf where "tf = trapframe k"
  define y where "y = ((sstatus (cpus s ! hart s) AND NOT SSTATUS_SIE) AND NOT SSTATUS_SPP) OR SSTATUS_SPIE"
  define m where "m = wr64 (wr64 (wr64 (wr64 (mem s) (tf + tf_off TF_kernel_satp) (satp s)) (tf + tf_off TF_kernel_sp) (kstack k + PGSIZE))
      (tf + tf_off TF_kernel_trap) (ld_usertrap s)) (tf + tf_off TF_kernel_hartid) (of_nat (hart s))"
  have fields: "rd64 m (tf + tf_off r) = (case kernel_field s k r of Some v \<Rightarrow> v | None \<Rightarrow> rd64 (mem s) (tf + tf_off r))" for r
    unfolding m_def by (cases r) (simp_all only: kernel_field_def tfreg.case option.case rd64_wr64 tf_other tfreg.distinct not_False_eq_True simp_thms)
  define t where "t = s\<lparr>cpus := (cpus s)[hart s := (cpus s ! hart s)\<lparr>sstatus := y\<rparr>],
     scsrs := (scsrs s)[hart s := (scsrs s ! hart s)\<lparr>stvec := TRAMPOLINE + (ld_uservec s - ld_trampoline s),
       sepc := rd64 m (tf + tf_off TF_epc)\<rparr>], mem := m\<rparr>"
  have "usertrapret s = Ret (TRAPFRAME, MAKE_SATP (pagetable k)) t"
    unfolding usertrapret_def
    by (simp add: kbind_Ret calm_thisproc [OF c] intr_off_run [OF hc] csr_set_def tf_set_def tf_get_def pget_def on_mem_def
        r_satp_def r_tp_def w_stvec_def w_sepc_def r_sstatus_def w_sstatus_def kbind_assoc hc h k_def [symmetric] tf_def [symmetric] t_def m_def y_def)
  moreover have "procs t = procs s" "locks t = locks s" "sstatus (cpus t ! hart s) = y" "mem t = m"
    "sepc (scsrs t ! hart s) = rd64 m (tf + tf_off TF_epc)" "stvec (scsrs t ! hart s) = TRAMPOLINE + (ld_uservec s - ld_trampoline s)"
    using h hc by (simp_all add: t_def)
  moreover have "rd64 m (tf + tf_off TF_epc) = rd64 (mem s) (tf + tf_off TF_epc)"
    using fields [of TF_epc] by (simp only: kernel_field_def tfreg.case option.case)
  moreover have "\<not> bit y 1" "\<not> bit y 8" "bit y 5"
    unfolding y_def by (rule usertrapret_bits)+
  ultimately show ?thesis
    unfolding tf_def [symmetric] by (intro exI [of _ t] conjI allI) (simp_all only: fields simp_thms)
qed

theorem usertrapret_ready_witness:
  "\<exists>(s :: trap_st) a t. usertrapret s = Ret a t \<and> sepc (scsrs t ! hart s) = 0 \<and> \<not> bit (sstatus (cpus t ! hart s)) 1"
proof -
  obtain b :: fs_st where b: "calm 0 b" using run_fs by blast
  let ?z = "\<lparr>scause = 0, sepc = 5, stval = 0, stvec = 0, sip = 0\<rparr>"
  define s where "s = (file_st.extend (fs_st.extend (b\<lparr>mem := \<lambda>_. 0\<rparr>) \<lparr>files = [], devsw = []\<rparr>)
    \<lparr>scsrs = replicate (Suc (hart b)) ?z, plic_pending = [], plic_writes = [], firstinit = False, started = True,
      ld_kernelvec = 0, ld_uservec = 0, ld_userret = 0, ld_usertrap = 0\<rparr> :: trap_st)"
  have s: "hart s = hart b" "mem s = (\<lambda>_. 0)" "length (scsrs s) = Suc (hart b)" and c: "calm 0 s"
    using b by (simp_all add: s_def fs_st.defs file_st.defs calm_def cur_def)
  have "rd64 (mem s) a = 0" for a by (simp add: s rd64_def)
  moreover have "hart s < length (scsrs s)" by (simp add: s)
  ultimately obtain a t where "usertrapret s = Ret a t" "sepc (scsrs t ! hart s) = 0" "\<not> bit (sstatus (cpus t ! hart s)) 1"
    using usertrapret_ready [OF c] by auto
  then show ?thesis by blast
qed

end
