(* ===== verification/Fdtable.thy ===== *)
theory Fdtable
  imports Syscall
begin

text \<open>
  File descriptors: what the calls of \<^verbatim>\<open>kernel/sysfile.c\<close> and \<^verbatim>\<open>kernel/proc.c\<close> do to the descriptor tables of the
  processes and to the reference counts of \<open>filecache\<close> (\<^verbatim>\<open>kernel/file.c\<close>). The invariant \<open>fd_ok\<close> says that the count of a
  file is the number of table entries, over all processes, that name it.
\<close>

section \<open>Counting descriptors\<close>

definition fd_uses :: "proc list \<Rightarrow> nat \<Rightarrow> int" where
  "fd_uses ps f = (\<Sum>k \<leftarrow> ps. int (count_list (openfs k) (Some f)))"

definition fd_ok :: "'z file_st_scheme \<Rightarrow> bool" where
  "fd_ok s \<longleftrightarrow> length (files s) = NFILE
     \<and> (\<forall>k \<in> set (procs s). length (openfs k) = OPENFILE \<and> (\<forall>f. Some f \<in> set (openfs k) \<longrightarrow> f < NFILE))
     \<and> (\<forall>f < NFILE. f_ref (files s ! f) = fd_uses (procs s) f)"

definition put_fd :: "nat \<Rightarrow> nat \<Rightarrow> nat option \<Rightarrow> proc list \<Rightarrow> proc list" where
  "put_fd p fd v ps = ps[p := (ps ! p)\<lparr>openfs := (openfs (ps ! p))[fd := v]\<rparr>]"

definition add_ref :: "int \<Rightarrow> nat \<Rightarrow> ofile list \<Rightarrow> ofile list" where
  "add_ref d f fs = fs[f := (fs ! f)\<lparr>f_ref := f_ref (fs ! f) + d\<rparr>]"

lemma count_list_update:
  "i < length xs \<Longrightarrow> int (count_list (xs[i := v]) a) = int (count_list xs a) + of_bool (v = a) - of_bool (xs ! i = a)"
proof (induction xs arbitrary: i)
  case (Cons x xs)
  show ?case
  proof (cases i)
    case (Suc j)
    then have "int (count_list (xs[j := v]) a) = int (count_list xs a) + of_bool (v = a) - of_bool (xs ! j = a)"
      using Cons by simp
    then show ?thesis by (cases "x = a") (simp_all add: Suc)
  qed (simp split: if_splits)
qed simp

lemma sum_list_update_int:
  "i < length xs \<Longrightarrow> (\<Sum>x \<leftarrow> xs[i := v]. g x) = (\<Sum>x \<leftarrow> xs. g x) + g v - (g (xs ! i) :: int)"
  by (induction xs arbitrary: i) (auto split: nat.splits)

lemma fd_uses_put:
  assumes "p < length ps" and "fd < length (openfs (ps ! p))"
  shows "fd_uses (put_fd p fd v ps) f = fd_uses ps f + of_bool (v = Some f) - of_bool (openfs (ps ! p) ! fd = Some f)"
  unfolding fd_uses_def put_fd_def sum_list_update_int [OF assms(1)] using count_list_update [OF assms(2), of v "Some f"] by simp

lemma fd_uses_pos: "k \<in> set ps \<Longrightarrow> Some f \<in> set (openfs k) \<Longrightarrow> 1 \<le> fd_uses ps f"
proof (induction ps)
  case (Cons x xs)
  have nn: "0 \<le> fd_uses xs f" unfolding fd_uses_def by (rule sum_list_nonneg) auto
  show ?case
  proof (cases "k = x")
    case True
    then have "count_list (openfs x) (Some f) \<noteq> 0" using Cons.prems(2) by (simp add: count_list_0_iff)
    then show ?thesis using nn by (simp add: fd_uses_def)
  next
    case False
    then show ?thesis using Cons by (simp add: fd_uses_def)
  qed
qed simp

text \<open>A table entry that changes, with the counts of the files it named and names.\<close>

lemma fd_ok_put:
  assumes ok: "fd_ok s" and p: "p < length (procs s)" "fd < OPENFILE" and f: "f < NFILE"
    and v: "v = Some f \<and> openfs (procs s ! p) ! fd = None \<and> d = 1 \<or> v = None \<and> openfs (procs s ! p) ! fd = Some f \<and> d = -1"
    and t: "procs t = put_fd p fd v (procs s)" "length (files t) = NFILE"
      "\<And>g. g < NFILE \<Longrightarrow> f_ref (files t ! g) = f_ref (files s ! g) + (if g = f then d else 0)"
  shows "fd_ok t"
proof -
  have k: "procs s ! p \<in> set (procs s)" using p(1) by simp
  then have l: "length (openfs (procs s ! p)) = OPENFILE" using ok by (simp add: fd_ok_def)
  have "length (openfs k) = OPENFILE \<and> (\<forall>g. Some g \<in> set (openfs k) \<longrightarrow> g < NFILE)" if "k \<in> set (procs t)" for k
  proof (cases "k \<in> set (procs s)")
    case True
    then show ?thesis using ok by (simp add: fd_ok_def)
  next
    case False
    then have eq: "k = (procs s ! p)\<lparr>openfs := (openfs (procs s ! p))[fd := v]\<rparr>"
      using that set_update_subset_insert [of "procs s" p] t(1) by (auto simp: put_fd_def)
    have "Some g \<in> set ((openfs (procs s ! p))[fd := v]) \<Longrightarrow> g = f \<or> Some g \<in> set (openfs (procs s ! p))" for g
      using set_update_subset_insert [of "openfs (procs s ! p)" fd v] v by auto
    then show ?thesis using ok k l f by (auto simp: eq fd_ok_def)
  qed
  moreover have "f_ref (files t ! g) = fd_uses (procs t) g" if "g < NFILE" for g
    using ok t(3) [OF that] fd_uses_put [of p "procs s" fd v g] p l v that by (auto simp: t(1) fd_ok_def)
  ultimately show ?thesis using t(2) by (simp add: fd_ok_def)
qed

section \<open>The routines of a quiet kernel\<close>

lemma file_section:
  assumes c: "calm p s"
  shows "release FilecacheLk ((inside FilecacheLk s)\<lparr>files := fs\<rparr>) = Ret () (s\<lparr>files := fs\<rparr>)"
proof -
  have "release FilecacheLk ((inside FilecacheLk s)\<lparr>files := fs\<rparr>) =
      Ret () ((inside FilecacheLk s)\<lparr>files := fs, locks := locks s, cpus := cpus s\<rparr>)"
    by (rule calm_release [OF c]) simp_all
  then show ?thesis by (simp add: inside_def)
qed

lemma inside_files [simp]: "files (inside L s) = files s"
  by (simp add: inside_def)

lemma filedup_run:
  assumes c: "calm p s" and r: "1 \<le> f_ref (files s ! f)"
  shows "filedup f s = Ret f (s\<lparr>files := add_ref 1 f (files s)\<rparr>)"
  using r by (simp add: filedup_def kbind_def calm_acquire [OF c] fget_def fset_def file_section [OF c] add_ref_def)

text \<open>The descriptor a call names in its first argument, and the file behind it.\<close>

definition fd_arg :: "nat \<Rightarrow> 'z proc_st_scheme \<Rightarrow> (nat \<times> nat) option" where
  "fd_arg p s = (let fd = ucast (rd64 (mem s) (trapframe (procs s ! p) + tf_off TF_a0)) :: u32 in
     if sint fd < 0 \<or> sint fd \<ge> int OPENFILE then None
     else map_option (\<lambda>f. (unat fd, f)) (openfs (procs s ! p) ! unat fd))"

lemma argfd_run: "calm p s \<Longrightarrow> argfd 0 s = Ret (fd_arg p s) s"
  by (simp add: argfd_def argint_def argraw_def kbind_def calm_thisproc tf_get_def pget_def fd_arg_def Let_def
      split: option.splits)

lemma sint_small: "0 \<le> sint w \<Longrightarrow> sint w < int n \<Longrightarrow> unat (w :: u32) < n"
proof -
  assume w: "0 \<le> sint w" "sint w < int n"
  have "unat w < 2147483648"
  proof (rule ccontr)
    assume "\<not> unat w < 2147483648"
    then have "sint w = int (unat w) - 4294967296" by (simp only: sint_u32 if_False)
    then show False using w(1) unat_u32 [of w] by linarith
  qed
  then show "unat w < n" using w(2) sint_u32 [of w] by (simp only: if_True)
qed

lemma fd_argD:
  assumes "fd_arg p s = Some (fd, f)" and "fd_ok s" and "p < length (procs s)"
  shows "fd < OPENFILE" and "openfs (procs s ! p) ! fd = Some f" and "f < NFILE" and "1 \<le> f_ref (files s ! f)"
proof -
  let ?w = "ucast (rd64 (mem s) (trapframe (procs s ! p) + tf_off TF_a0)) :: u32"
  have w: "0 \<le> sint ?w" "sint ?w < int OPENFILE" "fd = unat ?w" "openfs (procs s ! p) ! fd = Some f"
    using assms(1) by (auto simp: fd_arg_def Let_def split: if_splits)
  then show fd: "fd < OPENFILE" using sint_small [of ?w OPENFILE] by simp
  show e: "openfs (procs s ! p) ! fd = Some f" by (rule w(4))
  have k: "procs s ! p \<in> set (procs s)" using assms(3) by simp
  then have "length (openfs (procs s ! p)) = OPENFILE" using assms(2) by (simp add: fd_ok_def)
  then have m: "Some f \<in> set (openfs (procs s ! p))" using fd e by (metis nth_mem)
  then show f: "f < NFILE" using assms(2) k by (simp add: fd_ok_def)
  show "1 \<le> f_ref (files s ! f)" using fd_uses_pos [OF k m] assms(2) f by (simp add: fd_ok_def)
qed

definition free_fd :: "nat \<Rightarrow> 'z proc_st_scheme \<Rightarrow> nat option" where
  "free_fd p s = find (\<lambda>fd. openfs (procs s ! p) ! fd = None) [0..<OPENFILE]"

lemma fdalloc_loop_eq:
  "fdalloc_loop f p fds s = (case find (\<lambda>fd. openfs (procs s ! p) ! fd = None) fds of
     None \<Rightarrow> Ret (-1) s | Some fd \<Rightarrow> Ret (int fd) (s\<lparr>procs := put_fd p fd (Some f) (procs s)\<rparr>))"
  by (induction fds) (simp_all add: kbind_def pget_def pset_def put_fd_def)

lemma fdalloc_run:
  "calm p s \<Longrightarrow> fdalloc f s = (case free_fd p s of
     None \<Rightarrow> Ret (-1) s | Some fd \<Rightarrow> Ret (int fd) (s\<lparr>procs := put_fd p fd (Some f) (procs s)\<rparr>))"
  by (simp add: fdalloc_def kbind_def calm_thisproc fdalloc_loop_eq free_fd_def)

lemma put_fd_sel:
  "length (put_fd q fd v ps) = length ps"
  "i < length ps \<Longrightarrow> pstate (put_fd q fd v ps ! i) = pstate (ps ! i)" "i < length ps \<Longrightarrow> chan (put_fd q fd v ps ! i) = chan (ps ! i)"
  "i < length ps \<Longrightarrow> trapframe (put_fd q fd v ps ! i) = trapframe (ps ! i)"
  by (cases "q = i"; simp add: put_fd_def)+

lemma calm_put_fd: "calm p s \<Longrightarrow> calm p (s\<lparr>procs := put_fd q fd v (procs s)\<rparr>)"
  by (simp add: calm_def cur_def put_fd_sel)

lemma calm_files: "calm p s \<Longrightarrow> calm p (s\<lparr>files := fs\<rparr>)"
  by (rule calm_frame) simp_all

section \<open>dup and close\<close>

text \<open>(C14) \<open>dup\<close> keeps the descriptor tables and the reference counts in step. With a bad descriptor, or without a free
  one, it returns -1 and changes nothing; otherwise it returns the lowest free descriptor, which then names the
  same file, and the count of that file has grown by one.\<close>

theorem dup_counts:
  assumes c: "calm p s" and ok: "fd_ok s"
  shows "case (fd_arg p s, free_fd p s) of
      (Some (_, f), Some fd') \<Rightarrow> \<exists>t. sys_dup s = Ret (int fd') t \<and> fd_ok t \<and> calm p t
        \<and> procs t = put_fd p fd' (Some f) (procs s) \<and> files t = add_ref 1 f (files s)
    | _ \<Rightarrow> sys_dup s = Ret (-1) s"
proof (cases "fd_arg p s")
  case None
  then show ?thesis by (simp add: sys_dup_def kbind_def argfd_run [OF c])
next
  case (Some x)
  then obtain fd f where a: "fd_arg p s = Some (fd, f)" by (cases x) auto
  have p: "p < length (procs s)" using calm_simps [OF c] by simp
  note f = fd_argD [OF a ok p]
  show ?thesis
  proof (cases "free_fd p s")
    case None
    then show ?thesis by (simp add: sys_dup_def kbind_def argfd_run [OF c] a fdalloc_run [OF c])
  next
    case (Some fd')
    let ?t = "s\<lparr>procs := put_fd p fd' (Some f) (procs s)\<rparr>"
    have e: "fd' < OPENFILE" "openfs (procs s ! p) ! fd' = None" using find_in_set [OF Some [unfolded free_fd_def]] by auto
    have run: "sys_dup s = Ret (int fd') (?t\<lparr>files := add_ref 1 f (files s)\<rparr>)"
      using filedup_run [OF calm_put_fd [OF c]] f(4)
      by (simp add: sys_dup_def kbind_def argfd_run [OF c] a fdalloc_run [OF c] Some)
    have "fd_ok (?t\<lparr>files := add_ref 1 f (files s)\<rparr>)"
      using ok f(3) e by (intro fd_ok_put [OF ok p e(1) f(3), of "Some f" 1]) (auto simp: fd_ok_def add_ref_def)
    moreover have "calm p (?t\<lparr>files := add_ref 1 f (files s)\<rparr>)" by (intro calm_files calm_put_fd c)
    ultimately show ?thesis using run a Some by simp
  qed
qed

text \<open>The last close of a file gives its inode back.\<close>

definition drop_inode :: "ofile \<Rightarrow> inode list \<Rightarrow> inode list" where
  "drop_inode k ins = (case f_ip k of None \<Rightarrow> ins | Some i \<Rightarrow>
     if f_ref k = 1 \<and> (f_type k = FD_INODE \<or> f_type k = FD_DEVICE)
     then ins[i := (ins ! i)\<lparr>i_ref := i_ref (ins ! i) - 1\<rparr>] else ins)"

lemma fileclose_run:
  assumes c: "calm p s" and f: "f < length (files s)" "1 \<le> f_ref (files s ! f)"
    and i: "f_type (files s ! f) = FD_INODE \<or> f_type (files s ! f) = FD_DEVICE \<Longrightarrow>
      \<exists>i. f_ip (files s ! f) = Some i \<and> i_vaild (inodes s ! i) = 0"
  shows "\<exists>fs. fileclose (Some f) s = Ret () (s\<lparr>files := fs, inodes := drop_inode (files s ! f) (inodes s)\<rparr>)
    \<and> length fs = length (files s) \<and> (\<forall>g < length fs. f_ref (fs ! g) = f_ref (files s ! g) - (if g = f then 1 else 0))
    \<and> (\<forall>g < length fs. g \<noteq> f \<longrightarrow> fs ! g = files s ! g)
    \<and> f_ip (fs ! f) = f_ip (files s ! f)
    \<and> f_type (fs ! f) = (if f_ref (files s ! f) = 1 then FD_NONE else f_type (files s ! f))"
proof (cases "f_ref (files s ! f) = 1")
  case False
  let ?fs = "add_ref (-1) f (files s)"
  have "s\<lparr>files := fs, inodes := inodes s\<rparr> = s\<lparr>files := fs\<rparr>" for fs by simp
  moreover have "fileclose (Some f) s = Ret () (s\<lparr>files := ?fs\<rparr>)"
    using False f by (simp add: fileclose_def kbind_def calm_acquire [OF c] fget_def fset_def file_section [OF c] add_ref_def)
  moreover have "drop_inode (files s ! f) (inodes s) = inodes s" using False by (simp add: drop_inode_def split: option.splits)
  ultimately show ?thesis
    using False f by (intro exI [of _ ?fs]) (auto simp: add_ref_def nth_list_update)
next
  case True
  let ?fs = "(files s)[f := (files s ! f)\<lparr>f_ref := 0, f_type := FD_NONE\<rparr>]"
  let ?k = "(files s ! f)\<lparr>f_ref := 0\<rparr>"
  have cf: "calm p (s\<lparr>files := ?fs\<rparr>)" by (rule calm_files [OF c])
  have "fileclose (Some f) s =
      (if f_type ?k = FD_PIPE then kret ()
       else if f_type ?k = FD_INODE \<or> f_type ?k = FD_DEVICE
       then (case f_ip ?k of None \<Rightarrow> kfault ''iput(0)'' | Some ip \<Rightarrow> iput ip) else kret ()) (s\<lparr>files := ?fs\<rparr>)"
    using True f by (simp add: fileclose_def kbind_def calm_acquire [OF c] fget_def fset_def file_section [OF c])
  moreover have "\<dots> = Ret () (s\<lparr>files := ?fs, inodes := drop_inode (files s ! f) (inodes s)\<rparr>)"
  proof (cases "f_type (files s ! f) = FD_INODE \<or> f_type (files s ! f) = FD_DEVICE")
    case t: True
    then obtain i where "f_ip (files s ! f) = Some i" "i_vaild (inodes s ! i) = 0" using i by blast
    then show ?thesis using t True iput_run [OF cf, of i] by (auto simp: drop_inode_def)
  next
    case False
    then have "drop_inode (files s ! f) (inodes s) = inodes s" by (simp add: drop_inode_def split: option.splits)
    then show ?thesis using False by simp
  qed
  ultimately show ?thesis
    using True f by (intro exI [of _ ?fs]) (auto simp: nth_list_update)
qed

definition ips_ok :: "'z file_st_scheme \<Rightarrow> bool" where
  "ips_ok s \<longleftrightarrow> (\<forall>k \<in> set (files s). f_type k = FD_INODE \<or> f_type k = FD_DEVICE \<longrightarrow>
     (\<exists>i. f_ip k = Some i \<and> i_vaild (inodes s ! i) = 0))"

lemma fileclose_ok:
  assumes c: "calm p s" and ip: "ips_ok s" and f: "length (files s) = NFILE" "f < NFILE" "1 \<le> f_ref (files s ! f)"
  shows "\<exists>fs. fileclose (Some f) s = Ret () (s\<lparr>files := fs, inodes := drop_inode (files s ! f) (inodes s)\<rparr>)
    \<and> length fs = NFILE \<and> (\<forall>g < NFILE. f_ref (fs ! g) = f_ref (files s ! g) + (if g = f then -1 else 0))
    \<and> (\<forall>g < NFILE. g \<noteq> f \<longrightarrow> fs ! g = files s ! g)
    \<and> f_ip (fs ! f) = f_ip (files s ! f)
    \<and> f_type (fs ! f) = (if f_ref (files s ! f) = 1 then FD_NONE else f_type (files s ! f))"
proof -
  have "files s ! f \<in> set (files s)" using f(1,2) by simp
  then have i: "f_type (files s ! f) = FD_INODE \<or> f_type (files s ! f) = FD_DEVICE \<Longrightarrow>
      \<exists>i. f_ip (files s ! f) = Some i \<and> i_vaild (inodes s ! i) = 0"
    using ip unfolding ips_ok_def by blast
  obtain fs where "fileclose (Some f) s = Ret () (s\<lparr>files := fs, inodes := drop_inode (files s ! f) (inodes s)\<rparr>)
    \<and> length fs = length (files s) \<and> (\<forall>g < length fs. f_ref (fs ! g) = f_ref (files s ! g) - (if g = f then 1 else 0))
    \<and> (\<forall>g < length fs. g \<noteq> f \<longrightarrow> fs ! g = files s ! g)
    \<and> f_ip (fs ! f) = f_ip (files s ! f)
    \<and> f_type (fs ! f) = (if f_ref (files s ! f) = 1 then FD_NONE else f_type (files s ! f))"
    using fileclose_run [OF c _ f(3) i] f(1,2) by auto
  then show ?thesis using f(1) by (intro exI [of _ fs]) simp
qed

text \<open>(C12) \<open>close\<close> undoes one descriptor: with a bad one it returns -1 and changes nothing; otherwise the table entry is
  cleared, the count of the file goes down by one, tables and counts stay in step, and exactly the last close
  frees the file and gives its inode back.\<close>

theorem close_counts:
  assumes c: "calm p s" and ok: "fd_ok s" and ip: "ips_ok s"
  shows "case fd_arg p s of None \<Rightarrow> sys_close s = Ret (-1) s
    | Some (fd, f) \<Rightarrow> \<exists>t. sys_close s = Ret 0 t \<and> fd_ok t \<and> calm p t \<and> procs t = put_fd p fd None (procs s)
        \<and> inodes t = drop_inode (files s ! f) (inodes s)
        \<and> f_type (files t ! f) = (if f_ref (files s ! f) = 1 then FD_NONE else f_type (files s ! f))"
proof (cases "fd_arg p s")
  case None
  then show ?thesis by (simp add: sys_close_def kbind_def argfd_run [OF c])
next
  case (Some x)
  then obtain fd f where a: "fd_arg p s = Some (fd, f)" by (cases x) auto
  have p: "p < length (procs s)" using calm_simps [OF c] by simp
  note f = fd_argD [OF a ok p]
  let ?s = "s\<lparr>procs := put_fd p fd None (procs s)\<rparr>"
  have c': "calm p ?s" by (rule calm_put_fd [OF c])
  have l: "length (files ?s) = NFILE" and ip': "ips_ok ?s" using ok ip by (simp_all add: fd_ok_def ips_ok_def)
  from f(4) have r: "1 \<le> f_ref (files ?s ! f)" by simp
  from fileclose_ok [OF c' ip' l f(3) r] obtain gs where gs:
    "fileclose (Some f) ?s = Ret () (?s\<lparr>files := gs, inodes := drop_inode (files ?s ! f) (inodes ?s)\<rparr>)"
    "length gs = NFILE" "\<forall>g < NFILE. f_ref (gs ! g) = f_ref (files ?s ! g) + (if g = f then -1 else 0)"
    "f_type (gs ! f) = (if f_ref (files ?s ! f) = 1 then FD_NONE else f_type (files ?s ! f))"
    by blast
  let ?t = "?s\<lparr>files := gs, inodes := drop_inode (files s ! f) (inodes s)\<rparr>"
  have "sys_close s = Ret 0 ?t"
    using gs(1) by (simp add: sys_close_def kbind_def argfd_run [OF c] a calm_thisproc [OF c] pset_def put_fd_def)
  moreover have "fd_ok ?t" using gs(2,3) f(2) by (intro fd_ok_put [OF ok p f(1,3), of None "-1"]) auto
  moreover have "calm p ?t" by (rule calm_frame [OF c']) simp_all
  ultimately show ?thesis using a gs(4) by simp
qed

text \<open>A kernel with one process that has one file open, and 0 in its first argument register.\<close>

definition file0 :: ofile where
  "file0 = \<lparr>f_type = FD_PIPE, f_ref = 1, f_readable = 1, f_writable = 1, f_ip = None, f_off = 0, f_major = 0\<rparr>"

lemma run_files:
  obtains s :: file_st where "calm 0 s" and "fd_ok s" and "ips_ok s" and "fd_arg 0 s = Some (0, 0)" and "free_fd 0 s = Some 1"
    and "openfs (procs s ! 1) = replicate OPENFILE None" and "openfs (procs s ! 0) = (replicate OPENFILE None)[0 := Some 0]" and "f_ref (files s ! 0) = 1"
proof -
  obtain b :: fs_st where b: "calm 0 b" using run_fs by blast
  let ?blank = "\<lambda>k. k\<lparr>openfs := replicate OPENFILE None\<rparr>"
  let ?free = "\<lparr>f_type = FD_NONE, f_ref = 0, f_readable = 0, f_writable = 0, f_ip = None, f_off = 0, f_major = 0\<rparr>"
  define init where "init = (fs_st.extend (b\<lparr>mem := \<lambda>_. 0, procs := map ?blank (procs b)\<rparr>) \<lparr>files = replicate NFILE ?free, devsw = []\<rparr> :: file_st)"
  let ?s = "init\<lparr>procs := put_fd 0 0 (Some 0) (procs init), files := file0 # replicate (NFILE - 1) ?free\<rparr>"
  have l: "length (procs b) = NPROC" "0 < NPROC" using calm_simps [OF b] by (simp_all add: NPROC_def)
  have sel: "procs init = map ?blank (procs b)" "files init = replicate NFILE ?free" "mem init = (\<lambda>_. 0)"
    by (simp_all add: init_def fs_st.defs)
  have c0: "calm 0 init" using b l by (simp add: init_def calm_def cur_def fs_st.defs)
  have "count_list (replicate n None) (Some f) = 0" for n f by (induction n) simp_all
  then have z: "fd_uses (map ?blank ps) f = 0" for ps f by (induction ps) (simp_all add: fd_uses_def)
  have ok0: "fd_ok init" unfolding fd_ok_def sel using z by (auto simp: NFILE_def)
  have n0: "openfs (procs init ! 0) = replicate OPENFILE None" unfolding sel using l by simp
  have "fd_ok ?s"
  proof (rule fd_ok_put [OF ok0, of 0 0 0 "Some 0" 1])
    show "procs ?s = put_fd 0 0 (Some 0) (procs init)" by simp
    show "f_ref (files ?s ! g) = f_ref (files init ! g) + (if g = 0 then 1 else 0)" if "g < NFILE" for g
      using that by (simp add: sel file0_def nth_Cons')
    show "0 < length (procs init)" using l by (simp add: sel)
    show "Some 0 = Some 0 \<and> openfs (procs init ! 0) ! 0 = None \<and> (1 :: int) = 1
        \<or> Some (0 :: nat) = None \<and> openfs (procs init ! 0) ! 0 = Some 0 \<and> (1 :: int) = -1"
      unfolding n0 by (simp add: OPENFILE_def)
  qed (simp_all add: OPENFILE_def NFILE_def)
  moreover have "calm 0 ?s" by (rule calm_files [OF calm_put_fd [OF c0]])
  moreover have "ips_ok ?s" by (simp add: ips_ok_def file0_def)
  moreover have o: "openfs (procs ?s ! 0) = (replicate OPENFILE None)[0 := Some 0]" using l by (simp add: put_fd_def sel)
  have "rd64 (mem ?s) a = 0" for a by (simp add: rd64_def sel)
  then have "fd_arg 0 ?s = Some (0, 0)" unfolding fd_arg_def o Let_def by (simp add: OPENFILE_def)
  moreover have "[0..<OPENFILE] = 0 # 1 # [2..<OPENFILE]" by (simp add: OPENFILE_def upt_conv_Cons)
  then have "free_fd 0 ?s = Some 1" unfolding free_fd_def o by (simp add: OPENFILE_def)
  moreover have "openfs (procs ?s ! 1) = replicate OPENFILE None" using l by (simp add: put_fd_def sel NPROC_def)
  moreover have "f_ref (files ?s ! 0) = 1" by (simp add: file0_def)
  ultimately show thesis using that [of ?s] o by blast
qed

theorem dup_counts_witness:
  "\<exists>(s :: file_st) t. sys_dup s = Ret 1 t \<and> fd_ok t \<and> procs t = put_fd 0 1 (Some 0) (procs s)"
proof -
  obtain s :: file_st where s: "calm 0 s" "fd_ok s" "fd_arg 0 s = Some (0, 0)" "free_fd 0 s = Some 1"
    using run_files by blast
  obtain t where "sys_dup s = Ret 1 t" "fd_ok t" "procs t = put_fd 0 1 (Some 0) (procs s)"
    using dup_counts [OF s(1,2)] unfolding s(3,4) by auto
  then show ?thesis by blast
qed

theorem close_counts_witness:
  "\<exists>(s :: file_st) t. sys_close s = Ret 0 t \<and> fd_ok t \<and> procs t = put_fd 0 0 None (procs s)"
proof -
  obtain s :: file_st where s: "calm 0 s" "fd_ok s" "ips_ok s" "fd_arg 0 s = Some (0, 0)"
    using run_files by blast
  obtain t where "sys_close s = Ret 0 t" "fd_ok t" "procs t = put_fd 0 0 None (procs s)"
    using close_counts [OF s(1-3)] unfolding s(4) by auto
  then show ?thesis by blast
qed

section \<open>The descriptors of a process that exits\<close>

lemma drop_inode_vaild: "i_vaild (drop_inode k ins ! i) = i_vaild (ins ! i)"
proof (cases "f_ip k")
  case (Some j)
  then show ?thesis by (cases "j < length ins") (auto simp: drop_inode_def nth_list_update list_update_beyond)
qed (simp add: drop_inode_def)

lemma exit_step:
  assumes c: "calm p s" and ok: "fd_ok s" and ip: "ips_ok s" and fd: "fd < OPENFILE" "openfs (procs s ! p) ! fd = Some f"
  shows "\<exists>t. fileclose (Some f) s = Ret () t \<and> procs t = procs s \<and> calm p t
    \<and> fd_ok (t\<lparr>procs := put_fd p fd None (procs s)\<rparr>) \<and> ips_ok (t\<lparr>procs := put_fd p fd None (procs s)\<rparr>)"
proof -
  have p: "p < length (procs s)" using calm_simps [OF c] by simp
  then have k: "procs s ! p \<in> set (procs s)" by simp
  then have "length (openfs (procs s ! p)) = OPENFILE" using ok by (simp add: fd_ok_def)
  then have m: "Some f \<in> set (openfs (procs s ! p))" using fd by (metis nth_mem)
  have f: "length (files s) = NFILE" "f < NFILE" using ok k m by (simp_all add: fd_ok_def)
  then have r: "1 \<le> f_ref (files s ! f)" using fd_uses_pos [OF k m] ok by (simp add: fd_ok_def)
  from fileclose_ok [OF c ip f r] obtain fs where fs:
    "fileclose (Some f) s = Ret () (s\<lparr>files := fs, inodes := drop_inode (files s ! f) (inodes s)\<rparr>)"
    "length fs = NFILE" "\<forall>g < NFILE. f_ref (fs ! g) = f_ref (files s ! g) + (if g = f then -1 else 0)"
    "\<forall>g < NFILE. g \<noteq> f \<longrightarrow> fs ! g = files s ! g" "f_ip (fs ! f) = f_ip (files s ! f)"
    "f_type (fs ! f) = (if f_ref (files s ! f) = 1 then FD_NONE else f_type (files s ! f))"
    by blast
  let ?t = "s\<lparr>files := fs, inodes := drop_inode (files s ! f) (inodes s)\<rparr>"
  have "fd_ok (?t\<lparr>procs := put_fd p fd None (procs s)\<rparr>)"
    using fs(2,3) fd by (intro fd_ok_put [OF ok p fd(1) f(2), of None "-1"]) auto
  moreover have "ips_ok (?t\<lparr>procs := put_fd p fd None (procs s)\<rparr>)"
  proof -
    have "\<exists>i. f_ip (fs ! g) = Some i \<and> i_vaild (inodes s ! i) = 0"
      if g: "g < NFILE" and ty: "f_type (fs ! g) = FD_INODE \<or> f_type (fs ! g) = FD_DEVICE" for g
    proof -
      have "f_ip (fs ! g) = f_ip (files s ! g)" "f_type (fs ! g) = f_type (files s ! g)"
        using fs(4-6) g ty by (cases "g = f"; auto split: if_splits)+
      moreover have "files s ! g \<in> set (files s)" using g f(1) by simp
      ultimately show ?thesis using ip ty unfolding ips_ok_def by metis
    qed
    then show ?thesis using fs(2) by (auto simp: ips_ok_def in_set_conv_nth drop_inode_vaild)
  qed
  moreover have "calm p ?t" by (rule calm_frame [OF c]) simp_all
  ultimately show ?thesis using fs(1) by (intro exI [of _ ?t]) simp
qed

lemma put_fd_same: "p < length ps \<Longrightarrow> openfs (ps ! p) ! fd = v \<Longrightarrow> put_fd p fd v ps = ps"
proof -
  assume "openfs (ps ! p) ! fd = v"
  then have "(ps ! p)\<lparr>openfs := (openfs (ps ! p))[fd := v]\<rparr> = ps ! p" by (metis list_update_id proc.surjective proc.update_convs(13))
  then show ?thesis by (simp add: put_fd_def)
qed

lemma exit_files_run:
  assumes "calm p s" and "fd_ok s" and "ips_ok s" and "\<forall>fd \<in> set fds. fd < OPENFILE"
  shows "\<exists>t. exit_files p fds s = Ret () t \<and> calm p t \<and> fd_ok t \<and> ips_ok t
    \<and> procs t = foldl (\<lambda>ps fd. put_fd p fd None ps) (procs s) fds"
  using assms
proof (induction fds arbitrary: s)
  case (Cons fd fds)
  have fd: "fd < OPENFILE" using Cons.prems(4) by simp
  have p: "p < length (procs s)" using calm_simps [OF Cons.prems(1)] by simp
  obtain t where t: "(case openfs (procs s ! p) ! fd of None \<Rightarrow> kret ()
      | Some f \<Rightarrow> kthen (fileclose (Some f)) (pset p (\<lambda>k. k\<lparr>openfs := (openfs k)[fd := None]\<rparr>))) s = Ret () t"
    "calm p t" "fd_ok t" "ips_ok t" "procs t = put_fd p fd None (procs s)"
  proof (cases "openfs (procs s ! p) ! fd")
    case None
    then have "put_fd p fd None (procs s) = procs s" by (rule put_fd_same [OF p])
    then show thesis using that [of s] Cons.prems None by simp
  next
    case (Some f)
    then obtain u where u: "fileclose (Some f) s = Ret () u" "procs u = procs s" "calm p u"
      "fd_ok (u\<lparr>procs := put_fd p fd None (procs s)\<rparr>)" "ips_ok (u\<lparr>procs := put_fd p fd None (procs s)\<rparr>)"
      using exit_step [OF Cons.prems(1-3) fd] by blast
    have "calm p (u\<lparr>procs := put_fd p fd None (procs s)\<rparr>)" using calm_put_fd [OF u(3)] u(2) by metis
    then show thesis
      using that [of "u\<lparr>procs := put_fd p fd None (procs s)\<rparr>"] u Some
      by (simp add: kbind_def pset_def put_fd_def)
  qed
  then have "exit_files p (fd # fds) s = exit_files p fds t"
    by (simp only: exit_files.simps pget_def kbind_kget kbind_Ret)
  then show ?case using Cons.IH [OF t(2-4)] Cons.prems(4) t(5) by simp
qed simp

lemma foldl_put_fd:
  fixes v :: "nat \<Rightarrow> nat option"
  assumes "p < length ps" and "\<forall>fd \<in> set fds. fd < length (openfs (ps ! p))"
  defines "ts \<equiv> foldl (\<lambda>ps fd. put_fd p fd (v fd) ps) ps fds"
  shows "length ts = length ps \<and> (\<forall>q < length ps. q \<noteq> p \<longrightarrow> ts ! q = ps ! q) \<and> length (openfs (ts ! p)) = length (openfs (ps ! p))
    \<and> (\<forall>fd < length (openfs (ps ! p)). openfs (ts ! p) ! fd = (if fd \<in> set fds then v fd else openfs (ps ! p) ! fd))"
  using assms(1,2) unfolding ts_def
proof (induction fds arbitrary: ps)
  case (Cons fd fds)
  let ?ps = "put_fd p fd (v fd) ps"
  have s: "length ?ps = length ps" "openfs (?ps ! p) = (openfs (ps ! p))[fd := v fd]" "\<And>q. q \<noteq> p \<Longrightarrow> ?ps ! q = ps ! q"
    using Cons.prems(1) by (simp_all add: put_fd_def)
  have "p < length ?ps" "\<forall>fd \<in> set fds. fd < length (openfs (?ps ! p))" using s Cons.prems by simp_all
  from Cons.IH [OF this] show ?case using s Cons.prems(2) by (auto simp: nth_list_update)
qed simp

text \<open>(C15) A process that exits closes everything: \<open>exit\<close>'s loop over the descriptors ends, leaves every entry of
  its table empty, touches no other process, and keeps tables and reference counts in step.\<close>

theorem exit_closes_files:
  assumes "calm p s" and "fd_ok s" and "ips_ok s"
  shows "\<exists>t. exit_files p [0..<OPENFILE] s = Ret () t \<and> calm p t \<and> fd_ok t \<and> ips_ok t
    \<and> openfs (procs t ! p) = replicate OPENFILE None \<and> (\<forall>q < NPROC. q \<noteq> p \<longrightarrow> procs t ! q = procs s ! q)"
proof -
  have p: "p < length (procs s)" "length (procs s) = NPROC" using calm_simps [OF assms(1)] by simp_all
  then have l: "length (openfs (procs s ! p)) = OPENFILE" using assms(2) by (simp add: fd_ok_def)
  obtain t where t: "exit_files p [0..<OPENFILE] s = Ret () t" "calm p t" "fd_ok t" "ips_ok t"
      "procs t = foldl (\<lambda>ps fd. put_fd p fd None ps) (procs s) [0..<OPENFILE]"
    using exit_files_run [OF assms, of "[0..<OPENFILE]"] by auto
  have q: "\<forall>q < NPROC. q \<noteq> p \<longrightarrow> procs t ! q = procs s ! q"
    and o: "length (openfs (procs t ! p)) = OPENFILE" "\<forall>fd < OPENFILE. openfs (procs t ! p) ! fd = None"
    using foldl_put_fd [OF p(1), of "[0..<OPENFILE]" "\<lambda>_. None"] l p(2) by (simp_all add: t(5))
  have "openfs (procs t ! p) = replicate OPENFILE None" using o by (intro nth_equalityI) simp_all
  then show ?thesis using t(1-4) q by (intro exI [of _ t]) simp
qed

theorem exit_closes_files_witness:
  "\<exists>(s :: file_st) t. exit_files 0 [0..<OPENFILE] s = Ret () t \<and> fd_ok t \<and> openfs (procs t ! 0) = replicate OPENFILE None"
proof -
  obtain s :: file_st where s: "calm 0 s" "fd_ok s" "ips_ok s" using run_files by blast
  show ?thesis using exit_closes_files [OF s] by blast
qed

section \<open>The descriptors of a child\<close>

text \<open>\<open>fork\<close> copies the table while it holds the lock of the child, so nothing is assumed here about the other locks.\<close>

lemma filedup_any:
  assumes c: "cpu_ok (hart s) (cpus s)" "free_lock (locks s) FilecacheLk" and r: "1 \<le> f_ref (files s ! f)"
  shows "filedup f s = Ret f (s\<lparr>files := add_ref 1 f (files s)\<rparr>)"
proof -
  let ?a = "s\<lparr>cpus := pushc (hart s) (cpus s), locks := lock_on (hart s) FilecacheLk (locks s)\<rparr>"
  have "release FilecacheLk (?a\<lparr>files := fs\<rparr>) = Ret () ((?a\<lparr>files := fs\<rparr>)\<lparr>locks := locks s, cpus := cpus s\<rparr>)" for fs
    by (rule release_after [OF c]) simp_all
  then show ?thesis using r by (simp add: filedup_def kbind_def acquire_free [OF c] fget_def fset_def add_ref_def)
qed

lemma fork_files_run:
  assumes "cpu_ok (hart s) (cpus s)" "free_lock (locks s) FilecacheLk" "fd_ok s" and "now \<noteq> p" "now < length (procs s)" "p < length (procs s)"
    and "distinct fds" and "\<forall>fd \<in> set fds. fd < OPENFILE \<and> openfs (procs s ! p) ! fd = None" and "v = nth (openfs (procs s ! now))"
  shows "\<exists>t. fork_files now p fds s = Ret () t \<and> fd_ok t \<and> procs t = foldl (\<lambda>ps fd. put_fd p fd (v fd) ps) (procs s) fds
    \<and> hart t = hart s \<and> cpus t = cpus s \<and> locks t = locks s"
  using assms
proof (induction fds arbitrary: s)
  case (Cons fd fds)
  let ?k = "procs s ! now" and ?ps = "put_fd p fd (v fd) (procs s)"
  have fd: "fd < OPENFILE" "openfs (procs s ! p) ! fd = None" "openfs ?k ! fd = v fd" using Cons.prems(8,9) by simp_all
  have lp: "length (openfs (procs s ! p)) = OPENFILE" "length (openfs ?k) = OPENFILE" using Cons.prems(3,5,6) by (simp_all add: fd_ok_def)
  obtain t where t: "(case v fd of None \<Rightarrow> kret () | Some f \<Rightarrow>
      kbind (filedup f) (\<lambda>f'. pset p (\<lambda>k. k\<lparr>openfs := (openfs k)[fd := Some f']\<rparr>))) s = Ret () t"
    "fd_ok t" "procs t = ?ps" "hart t = hart s" "cpus t = cpus s" "locks t = locks s"
  proof (cases "v fd")
    case None
    then show thesis using that [of s] Cons.prems(3,6) fd(2) put_fd_same [of p "procs s" fd None] by simp
  next
    case (Some f)
    have k: "?k \<in> set (procs s)" using Cons.prems(5) by simp
    have m: "Some f \<in> set (openfs ?k)" using fd(1,3) lp(2) Some by (metis nth_mem)
    have f: "f < NFILE" "1 \<le> f_ref (files s ! f)" using Cons.prems(3) k m fd_uses_pos [OF k m] by (simp_all add: fd_ok_def)
    let ?t = "s\<lparr>files := add_ref 1 f (files s), procs := ?ps\<rparr>"
    have "fd_ok ?t"
      using Cons.prems(3) Some fd(2) f(1) by (intro fd_ok_put [OF Cons.prems(3,6) fd(1) f(1), of "Some f" 1]) (auto simp: fd_ok_def add_ref_def)
    then show thesis using that [of ?t] Some filedup_any [OF Cons.prems(1,2) f(2)] by (simp add: kbind_def pset_def put_fd_def)
  qed
  have eq: "fork_files now p (fd # fds) s = fork_files now p fds t"
    using fd(3) t(1) by (simp only: fork_files.simps pget_def kbind_kget kbind_Ret)
  have now: "procs t ! now = ?k" "length (procs t) = length (procs s)" using Cons.prems(4) by (simp_all add: t(3) put_fd_def)
  have c: "cpu_ok (hart t) (cpus t)" "free_lock (locks t) FilecacheLk" "now < length (procs t)" "p < length (procs t)" "distinct fds"
      "v = nth (openfs (procs t ! now))" using Cons.prems(1,2,5,6,7,9) t(4-6) now by simp_all
  have "openfs (procs t ! p) = (openfs (procs s ! p))[fd := v fd]" using Cons.prems(6) by (simp add: t(3) put_fd_def)
  moreover have "fd \<notin> set fds" using Cons.prems(7) by simp
  ultimately have e: "\<forall>e \<in> set fds. e < OPENFILE \<and> openfs (procs t ! p) ! e = None"
    using Cons.prems(8) by (metis list.set_intros(2) nth_list_update_neq)
  from Cons.IH [OF c(1,2) t(2) Cons.prems(4) c(3-5) e c(6)] show ?case unfolding eq t(3-6) by simp
qed (simp add: kret_def)

text \<open>(C16) A child inherits the open files. The loop of \<open>fork\<close> over the descriptors ends, gives the child exactly the table of its
  parent and touches no other process; every file is counted once more for each descriptor of the parent that names it, so tables and
  counts stay in step.\<close>

theorem fork_copies_files:
  assumes c: "cpu_ok (hart s) (cpus s)" "free_lock (locks s) FilecacheLk" and ok: "fd_ok s"
    and p: "now \<noteq> p" "now < length (procs s)" "p < length (procs s)" "openfs (procs s ! p) = replicate OPENFILE None"
  shows "\<exists>t. fork_files now p [0..<OPENFILE] s = Ret () t \<and> fd_ok t \<and> openfs (procs t ! p) = openfs (procs s ! now)
    \<and> (\<forall>q < length (procs s). q \<noteq> p \<longrightarrow> procs t ! q = procs s ! q) \<and> locks t = locks s \<and> cpus t = cpus s
    \<and> (\<forall>f < NFILE. f_ref (files t ! f) = f_ref (files s ! f) + int (count_list (openfs (procs s ! now)) (Some f)))"
proof -
  let ?v = "nth (openfs (procs s ! now))"
  have l: "length (openfs (procs s ! p)) = OPENFILE" "length (openfs (procs s ! now)) = OPENFILE" using ok p(2,3) by (simp_all add: fd_ok_def)
  obtain t where t: "fork_files now p [0..<OPENFILE] s = Ret () t" "fd_ok t" "locks t = locks s" "cpus t = cpus s"
      "procs t = foldl (\<lambda>ps fd. put_fd p fd (?v fd) ps) (procs s) [0..<OPENFILE]"
    using fork_files_run [OF c ok p(1-3), of "[0..<OPENFILE]" ?v] p(4) by auto
  have q: "length (procs t) = length (procs s)" "\<forall>q < length (procs s). q \<noteq> p \<longrightarrow> procs t ! q = procs s ! q"
    and o: "length (openfs (procs t ! p)) = OPENFILE" "\<forall>fd < OPENFILE. openfs (procs t ! p) ! fd = ?v fd"
    using foldl_put_fd [OF p(3), of "[0..<OPENFILE]" ?v] l by (simp_all add: t(5))
  have tab: "openfs (procs t ! p) = openfs (procs s ! now)" using o l by (intro nth_equalityI) simp_all
  have "procs t = (procs s)[p := procs t ! p]" using q p(3) by (intro nth_equalityI) (simp, metis nth_list_update_eq nth_list_update_neq)
  then have "fd_uses (procs t) f = fd_uses (procs s) f + int (count_list (openfs (procs s ! now)) (Some f))" for f
    using sum_list_update_int [OF p(3), where v = "procs t ! p" and g = "\<lambda>k. int (count_list (openfs k) (Some f))"] tab p(4)
    by (simp add: fd_uses_def)
  then have "\<forall>f < NFILE. f_ref (files t ! f) = f_ref (files s ! f) + int (count_list (openfs (procs s ! now)) (Some f))"
    using ok t(2) by (simp add: fd_ok_def)
  then show ?thesis using t(1-4) q(2) tab by blast
qed

theorem fork_copies_files_witness:
  "\<exists>(s :: file_st) t. fork_files 0 1 [0..<OPENFILE] s = Ret () t \<and> fd_ok t \<and> openfs (procs t ! 1) ! 0 = Some 0 \<and> f_ref (files t ! 0) = 2"
proof -
  obtain s :: file_st where s: "calm 0 s" "fd_ok s" "fd_arg 0 s = Some (0, 0)" "openfs (procs s ! 1) = replicate OPENFILE None"
      "openfs (procs s ! 0) = (replicate OPENFILE None)[0 := Some 0]" "f_ref (files s ! 0) = 1"
    using run_files by blast
  have l: "length (procs s) = 64" "cpu_ok (hart s) (cpus s)" "free_lock (locks s) FilecacheLk"
    using calm_simps [OF s(1)] by (simp_all add: NPROC_def)
  have n: "count_list ((replicate OPENFILE None)[0 := Some 0]) (Some 0) = 1" "(replicate OPENFILE None)[0 := Some 0] ! 0 = Some 0"
    "0 < NFILE" by (simp_all add: OPENFILE_def NFILE_def numeral_eq_Suc)
  have i: "(0 :: nat) \<noteq> 1" "0 < length (procs s)" "1 < length (procs s)" using l(1) by simp_all
  obtain t where "fork_files 0 1 [0..<OPENFILE] s = Ret () t" "fd_ok t" "openfs (procs t ! 1) = openfs (procs s ! 0)"
      "f_ref (files t ! 0) = f_ref (files s ! 0) + int (count_list (openfs (procs s ! 0)) (Some 0))"
    using fork_copies_files [OF l(2,3) s(2) i s(4)] n(3) by blast
  then show ?thesis unfolding s(5,6) n(1) using n(2) by (intro exI [of _ s] exI [of _ t]) simp
qed

end
