(* ===== verification/Ulib.thy ===== *)
theory Ulib
  imports Print
begin

text \<open>
  The library the user programs are linked with: \<^verbatim>\<open>user/ulib.c\<close>, \<^verbatim>\<open>user/printf.c\<close>. Memory is the process's
  own. Strings are arrays; reading past the end of one is \<open>None\<close>. \<open>char\<close> is unsigned on this machine. What \<open>read\<close>
  delivers to \<open>gets\<close> is a list of bytes; what \<open>printf\<close> writes is the list of bytes it puts on
  descriptor 1. The names of the source carry the prefix \<open>u\<close> where the kernel has a function of the same name.
\<close>

section \<open>ulib.c\<close>

fun umemset :: "memory \<Rightarrow> u64 \<Rightarrow> u8 \<Rightarrow> nat \<Rightarrow> memory" where
  "umemset m dest c 0 = m"
| "umemset m dest c (Suc n) = umemset (m(dest := c)) (dest + 1) c n"

definition umemmove :: "memory \<Rightarrow> u64 \<Rightarrow> u64 \<Rightarrow> int \<Rightarrow> memory" where
  "umemmove m dst src n =
     (if src > dst then copy_up m dst src (nat n)
      else copy_down m (dst + of_int n) (src + of_int n) (nat n))"

definition umemcpy :: "memory \<Rightarrow> u64 \<Rightarrow> u64 \<Rightarrow> u32 \<Rightarrow> memory" where
  "umemcpy m dst src n = umemmove m dst src (sint n)"

fun ustrlen :: "u8 list \<Rightarrow> u32 \<Rightarrow> u32 option" where
  "ustrlen [] n = None"
| "ustrlen (c # s) n = (if c = 0 then Some n else ustrlen s (n + 1))"

fun atoi_loop :: "u8 list \<Rightarrow> u32 \<Rightarrow> u32 option" where
  "atoi_loop [] n = None"
| "atoi_loop (c # s) n = (if 48 \<le> c \<and> c \<le> 57 then atoi_loop s (n * 10 + ucast c - 48) else Some n)"

definition atoi :: "u8 list \<Rightarrow> int option" where
  "atoi s = map_option sint (atoi_loop s 0)"

fun ustrcmp :: "u8 list \<Rightarrow> u8 list \<Rightarrow> int option" where
  "ustrcmp (p # ps) (q # qs) = (if p \<noteq> 0 \<and> p = q then ustrcmp ps qs else Some (uint p - uint q))"
| "ustrcmp _ _ = None"

fun memcmp :: "u8 list \<Rightarrow> u8 list \<Rightarrow> nat \<Rightarrow> int option" where
  "memcmp s1 s2 0 = Some 0"
| "memcmp (p # ps) (q # qs) (Suc n) = (if p \<noteq> q then Some (uint p - uint q) else memcmp ps qs n)"
| "memcmp _ _ (Suc n) = None"

text \<open>\<open>gets\<close>: the characters stored, without the NUL, and the input left.\<close>

fun gets_loop :: "nat \<Rightarrow> u8 list \<Rightarrow> u8 list \<times> u8 list" where
  "gets_loop 0 inp = ([], inp)"
| "gets_loop (Suc k) [] = ([], [])"
| "gets_loop (Suc k) (c # inp) =
     (if c = 10 \<or> c = 13 then ([c], inp) else let (l, r) = gets_loop k inp in (c # l, r))"

definition gets :: "int \<Rightarrow> u8 list \<Rightarrow> u8 list \<times> u8 list" where
  "gets max' inp = (let (l, r) = gets_loop (nat (max' - 1)) inp in (l @ [0], r))"

text \<open>\<open>stat\<close> from the three system calls it makes.\<close>

definition ustat :: "(int, 's) kop \<Rightarrow> (int \<Rightarrow> (int, 's) kop) \<Rightarrow> (int \<Rightarrow> (int, 's) kop) \<Rightarrow> (int, 's) kop" where
  "ustat open_call fstat_call close_call =
     kbind open_call (\<lambda>fd.
     if fd < 0 then kret (-1)
     else kbind (fstat_call fd) (\<lambda>r. kthen (close_call fd) (kret r)))"

text \<open>\<open>strchr\<close>: the index of the first occurrence, \<open>Some None\<close> for a null pointer.\<close>

fun strchr :: "u8 list \<Rightarrow> u8 \<Rightarrow> nat \<Rightarrow> nat option option" where
  "strchr [] c i = None"
| "strchr (x # s) c i = (if x = 0 then Some None else if x = c then Some (Some i) else strchr s c (Suc i))"

fun ustrcpy :: "u8 list \<Rightarrow> u8 list \<Rightarrow> u8 list option" where
  "ustrcpy (_ # s) (c # t) = (if c = 0 then Some (c # s) else map_option (Cons c) (ustrcpy s t))"
| "ustrcpy _ _ = None"

section \<open>printf.c\<close>

definition uprintInt :: "u32 \<Rightarrow> u8 list option" where
  "uprintInt val = map_option rev (digits_loop (sint val) [])"

fun uprint :: "u8 list \<Rightarrow> u8 list option" where
  "uprint [] = None"
| "uprint (c # s) = (if c = 0 then Some [] else map_option (Cons c) (uprint s))"

definition uprintPtr :: "u64 \<Rightarrow> u8 list" where
  "uprintPtr ptr = [48, 120] @ ptr_digits 16 ptr"

text \<open>One conversion: what it writes and the arguments left.\<close>

definition uconvert :: "u8 \<Rightarrow> va list \<Rightarrow> (u8 list \<times> va list) option" where
  "uconvert nxt ap =
     (if nxt = 100 then
        (case ap of VInt v # ap' \<Rightarrow> map_option (\<lambda>o'. (o', ap')) (uprintInt v) | _ \<Rightarrow> None)
      else if nxt = 115 then
        (case ap of VStr v # ap' \<Rightarrow>
           (case v of None \<Rightarrow> Some ([], ap') | Some str \<Rightarrow> map_option (\<lambda>o'. (o', ap')) (uprint str))
         | _ \<Rightarrow> None)
      else if nxt = 112 then
        (case ap of VPtr v # ap' \<Rightarrow> Some (uprintPtr v, ap') | _ \<Rightarrow> None)
      else Some ([nxt], ap))"

fun uprintf_loop :: "u8 list \<Rightarrow> va list \<Rightarrow> u8 list option" where
  "uprintf_loop [] ap = None"
| "uprintf_loop [c] ap = (if c = 0 then Some [] else None)"
| "uprintf_loop (c # nxt # s) ap =
     (if c = 0 then Some []
      else if c \<noteq> 37 then map_option (Cons c) (uprintf_loop (nxt # s) ap)
      else if nxt = 0 then map_option (Cons c) (uprintf_loop s ap)
      else case uconvert nxt ap of None \<Rightarrow> None
        | Some (o', ap') \<Rightarrow> map_option (\<lambda>r. o' @ r) (uprintf_loop s ap'))"

definition uprintf :: "u8 list option \<Rightarrow> va list \<Rightarrow> u8 list option" where
  "uprintf s ap = (case s of None \<Rightarrow> Some [] | Some f \<Rightarrow> uprintf_loop f ap)"

section \<open>Memory and numbers of the user library\<close>

lemma copy_down_range:
  fixes dst src N :: u64
  assumes "N \<noteq> 0" and "dst = src \<or> unat N \<le> unat (src - dst)"
  shows "copy_down m (dst + N) (src + N) (unat N) =
    (\<lambda>a. if unat (a - dst) < unat N then m (src + (a - dst)) else m a)"
proof -
  have "copy_down m (dst + N) (src + N) (unat N) =
      (\<lambda>a. if unat (dst + N - 1 - a) < unat N then m (src + N - (dst + N - a)) else m a)"
    using assms unat_lt_2p64 [of N] by (intro copy_down_eq) auto
  moreover have "unat (dst + N - 1 - a) < unat N \<longleftrightarrow> unat (a - dst) < unat N" for a
  proof -
    have "dst + N - 1 - a = N - 1 - (a - dst)" by simp
    then show ?thesis using below_range_flip [OF assms(1), of "a - dst"] by (simp only: simp_thms)
  qed
  moreover have "src + N - (dst + N - a) = src + (a - dst)" for a by simp
  ultimately show ?thesis by (simp only:)
qed

lemma umemmove_eq:
  assumes "n < 2 ^ 31" and "unat src + n \<le> 2 ^ 64" and "unat dst + n \<le> 2 ^ 64"
  shows "umemmove m dst src (int n) = (\<lambda>a. if unat (a - dst) < n then m (src + (a - dst)) else m a)"
proof (cases "src > dst \<or> n = 0")
  case True
  then have "src > dst \<Longrightarrow> n \<le> unat (dst - src)"
    using assms by (simp add: unat_sub_if' word_less_nat_alt)
  with True assms(1) show ?thesis by (auto simp: umemmove_def copy_up_eq)
next
  case False
  let ?N = "of_nat n :: u64"
  have u: "unat ?N = n" using assms(1) by (simp add: unat_of_nat)
  have "?N \<noteq> 0" using False u by (metis unat_0)
  note N = u this
  have "dst = src \<or> unat ?N \<le> unat (src - dst)"
    using False assms by (simp add: N unat_sub_if' word_less_nat_alt word_unat_eq_iff) linarith
  from copy_down_range [OF N(2) this, of m] False show ?thesis by (simp add: umemmove_def N)
qed

text \<open>The \<open>memmove\<close> of the user library and the one of the kernel, which choose the direction of copying by
  different tests, do the same to memory, for every overlap of the two ranges.\<close>

theorem umemmove_memmove:
  assumes "0 \<le> n" and "n < 2 ^ 31" and "unat src + nat n \<le> 2 ^ 64" and "unat dst + nat n \<le> 2 ^ 64"
  shows "umemmove m dst src n = memmove m dst src (of_int n)"
proof -
  define k where "k = nat n"
  have n: "n = int k" and k: "k < 2 ^ 31" using assms(1,2) by (simp_all add: k_def nat_less_iff)
  have u: "unat (of_nat k :: u32) = k" using k by (simp add: unat_of_nat)
  have b: "unat src + k \<le> 2 ^ 64" "unat dst + k \<le> 2 ^ 64" using assms(3,4) by (simp_all add: k_def)
  from b have "memmove m dst src (of_nat k) = (\<lambda>a. if unat (a - dst) < k then m (src + (a - dst)) else m a)"
    using memmove_eq [of src "of_nat k" dst m] unfolding u by blast
  then show ?thesis using umemmove_eq [OF k b, of m] unfolding n of_int_of_nat_eq by (simp only:)
qed

theorem umemmove_memmove_witness:
  "umemmove (\<lambda>a. ucast a) 0x1004 0x1000 8 = memmove (\<lambda>a. ucast a) 0x1004 0x1000 8"
  using umemmove_memmove [where n = 8 and src = "0x1000" and dst = "0x1004" and m = "\<lambda>a. ucast a"]
  by simp

lemma atoi_loop_digit:
  "d < 10 \<Longrightarrow> atoi_loop ((48 + of_nat d) # s) a = atoi_loop s (a * 10 + of_nat d)"
proof -
  assume d: "d < 10"
  have u: "unat (48 + of_nat d :: u8) = 48 + d" using d by (simp add: unat_word_ariths unat_of_nat)
  have c: "48 \<le> (48 + of_nat d :: u8)" "(48 + of_nat d :: u8) \<le> 57" using d u by (simp_all add: word_le_nat_alt)
  have "(ucast (48 + of_nat d :: u8) :: u32) = 48 + of_nat d"
    using d by (simp add: word_unat_eq_iff unsigned_ucast_eq unat_word_ariths unat_of_nat take_bit_nat_eq_self)
  with c show ?thesis by simp
qed

lemma atoi_loop_decimal:
  "atoi_loop (decimal n @ s) a = atoi_loop s (a * 10 ^ length (decimal n) + of_nat n)"
proof (induction n arbitrary: s a rule: decimal.induct)
  case (1 n)
  show ?case
  proof (cases "n < 10")
    case True
    then have "decimal n = [48 + of_nat n]" by (simp add: decimal.simps)
    then show ?thesis using True by (simp add: atoi_loop_digit del: atoi_loop.simps)
  next
    case False
    then have dn: "decimal n = decimal (n div 10) @ [48 + of_nat (n mod 10)]"
      by (subst decimal.simps) simp
    have "of_nat n = (of_nat (n div 10) * 10 + of_nat (n mod 10) :: u32)"
      by (metis div_mult_mod_eq of_nat_add of_nat_mult of_nat_numeral)
    then show ?thesis
      by (simp add: dn "1.IH" [OF False] atoi_loop_digit algebra_simps del: atoi_loop.simps)
  qed
qed

lemma uprintInt_decimal: "uprintInt (of_nat n) = Some (decimal n)" if "n < 2 ^ 31"
proof -
  have "sint (of_nat n :: u32) = int n" using that by (simp add: sint_u32 unat_of_nat)
  moreover have "length (decimal n) \<le> 10" using that by (intro length_decimal) simp_all
  ultimately show ?thesis using digits_loop_decimal [of "[]" n] by (simp add: uprintInt_def)
qed

text \<open>What \<open>printf\<close> of the user library prints for a \<open>%d\<close> is read back by \<open>atoi\<close> as the same number,
  for every non-negative \<open>int\<close>, whatever follows it in the string.\<close>

theorem printf_atoi_roundtrip:
  assumes "0 \<le> v" and "v < 2 ^ 31" and "\<not> (48 \<le> c \<and> c \<le> 57)"
  shows "\<exists>out. uprintf (Some (lit ''%d'')) [VInt (of_int v)] = Some out \<and> atoi (out @ c # rest) = Some v"
proof -
  define n where "n = nat v"
  have n: "v = int n" "n < 2 ^ 31" using assms(1,2) by (simp_all add: n_def nat_less_iff)
  have "uprintf (Some (lit ''%d'')) [VInt (of_nat n)] = Some (decimal n)"
    using n(2) by (simp add: uprintf_def lit_def uconvert_def uprintInt_decimal)
  moreover have "atoi (decimal n @ c # rest) = Some v"
    using n assms(3) by (auto simp: atoi_def atoi_loop_decimal sint_u32 unat_of_nat)
  ultimately show ?thesis unfolding n(1) of_int_of_nat_eq by blast
qed

theorem printf_atoi_roundtrip_witness:
  "\<exists>out. uprintf (Some (lit ''%d'')) [VInt 2025] = Some out \<and> atoi (out @ [10, 0]) = Some 2025"
  using printf_atoi_roundtrip [of 2025 10 "[0]"] by simp

section \<open>The two printf\<close>

lemma uprint_cstr: "uprint str = Some out \<longleftrightarrow> 0 \<in> set str \<and> out = cstr str"
  by (induction str arbitrary: out) (auto simp: cstr_def)

lemma convert_agrees:
  assumes "cpu_ok (hart s) (cpus s)" and "\<not> panicked s" and "uconvert nxt ap = Some (out, ap')"
  shows "convert nxt ap s = Ret ap' (emitted out s)"
proof -
  consider (d) v where "nxt = 100" "ap = VInt v # ap'" "uprintInt v = Some out"
    | (s) v where "nxt = 115" "ap = VStr v # ap'" "case v of None \<Rightarrow> out = [] | Some str \<Rightarrow> uprint str = Some out"
    | (p) v where "nxt = 112" "ap = VPtr v # ap'" "out = uprintPtr v"
    | (c) "nxt \<noteq> 100" "nxt \<noteq> 115" "nxt \<noteq> 112" "ap' = ap" "out = [nxt]"
    using assms(3) by (auto simp: uconvert_def split: if_splits list.splits va.splits option.splits)
  then show ?thesis
  proof cases
    case d
    then show ?thesis using put_chars_ok [OF assms(1,2)]
      by (auto simp: convert_def printInt_def uprintInt_def kbind_def split: option.splits)
  next
    case s
    then show ?thesis using print_ok [OF assms(1,2)]
      by (auto simp: convert_def kbind_def uprint_cstr split: option.splits)
  next
    case p
    then show ?thesis using put_chars_ok [of "emitted [48, 120] s"] assms(1,2)
      by (simp add: convert_def printPtr_def uprintPtr_def kbind_def uart_putc_ok)
  next
    case c
    then show ?thesis using assms(1,2) by (simp add: convert_def kbind_def uart_putc_ok)
  qed
qed

lemma printf_loop_agrees:
  assumes "uprintf_loop fmt ap = Some out" and "cpu_ok (hart s) (cpus s)" and "\<not> panicked s"
  shows "printf_loop fmt ap s = Ret () (emitted out s)"
  using assms
proof (induction fmt ap arbitrary: out s rule: uprintf_loop.induct)
  case (3 c nxt f ap)
  show ?case
  proof (cases "c = 0 \<or> c \<noteq> 37 \<or> nxt = 0")
    case True
    then show ?thesis using 3 by (auto simp: kbind_def uart_putc_ok)
  next
    case False
    then obtain o1 ap' o2 where o: "uconvert nxt ap = Some (o1, ap')" "uprintf_loop f ap' = Some o2" "out = o1 @ o2"
      using "3.prems"(1) by (auto split: option.splits)
    have "convert nxt ap s = Ret ap' (emitted o1 s)" by (rule convert_agrees [OF "3.prems"(2,3) o(1)])
    moreover have "printf_loop f ap' (emitted o1 s) = Ret () (emitted o2 (emitted o1 s))"
      using False o "3.prems" by (intro "3.IH"(3)) auto
    ultimately show ?thesis using False o(3) by (simp add: kbind_Ret)
  qed
qed auto

lemma printf_run:
  assumes "uprintf (Some fmt) ap = Some out" and "cpu_ok (hart s) (cpus s)" and "\<not> panicked s"
    and "pr_locking s \<longrightarrow> free_lock (locks s) PrLk"
  shows "printf fmt ap s = Ret () (emitted out s)"
proof (cases "pr_locking s")
  case False
  have "printf_loop fmt ap s = Ret () (emitted out s)" using assms by (intro printf_loop_agrees) (simp_all add: uprintf_def)
  then show ?thesis using False by (simp add: printf_def kbind_Ret)
next
  case True
  let ?a = "s\<lparr>cpus := pushc (hart s) (cpus s), locks := lock_on (hart s) PrLk (locks s)\<rparr>"
  have f: "free_lock (locks s) PrLk" using True assms(4) by blast
  have acq: "acquire PrLk s = Ret () ?a" by (rule acquire_free [OF assms(2) f])
  have run: "printf_loop fmt ap ?a = Ret () (emitted out ?a)"
    using assms by (intro printf_loop_agrees) (simp_all add: uprintf_def)
  have "release PrLk (emitted out ?a) = Ret () ((emitted out ?a)\<lparr>locks := locks s, cpus := cpus s\<rparr>)"
    by (rule release_after [OF assms(2) f]) (simp_all add: emitted_def)
  moreover have "(emitted out ?a)\<lparr>locks := locks s, cpus := cpus s\<rparr> = emitted out s"
    by (cases s) (simp add: emitted_def)
  ultimately show ?thesis using True acq run by (simp add: printf_def kbind_Ret)
qed

text \<open>(C29) The two \<open>printf\<close> agree: whenever the one of the user library prints a text for a format and arguments (so the
  arguments fit the format and no number is negative), the one of the kernel, with or without its lock, sends
  exactly the same bytes to the UART and changes nothing else.\<close>

theorem printf_agrees:
  assumes "uprintf (Some fmt) ap = Some out" and "cpu_ok (hart s) (cpus s)" and "\<not> panicked s"
    and "pr_locking s \<longrightarrow> free_lock (locks s) PrLk"
  shows "printf fmt ap s = Ret () (emitted out s)"
  using assms by (rule printf_run)

theorem printf_agrees_witness:
  "printf (lit ''pid %d'') [VInt 42] run_tty = Ret () (emitted (map of_char ''pid 42'') run_tty)"
proof (rule printf_agrees)
  have "decimal 42 = map of_char ''42''" by (simp add: decimal.simps)
  then have "uprintInt 42 = Some (map of_char ''42'')" using uprintInt_decimal [of 42] by simp
  then show "uprintf (Some (lit ''pid %d'')) [VInt 42] = Some (map of_char ''pid 42'')"
    by (simp add: uprintf_def lit_def uconvert_def)
qed (use run_tty_facts in \<open>simp_all add: wakers_ok_def\<close>)

end
