(* ===== verification/Diskinit.thy ===== *)
theory Diskinit
  imports Virtio Ulib
begin

text \<open>
  What \<open>virtio_disk_init\<close> of \<^verbatim>\<open>kernel/virt.c\<close> establishes: the state in which the driver can take its first request.
\<close>

lemma init_banner:
  "\<exists>out. uprintf (Some (lit (''magic:%p,ver:%d,deviceId:%d,vendor:%p'' @ [CHR 0x0A]))) [VPtr a, VInt 1, VInt 2, VPtr b] = Some out"
proof -
  have "uprintInt 1 = Some (decimal 1)" "uprintInt 2 = Some (decimal 2)" using uprintInt_decimal [of 1] uprintInt_decimal [of 2] by simp_all
  then show ?thesis by (simp add: uprintf_def lit_def uconvert_def)
qed

lemma bit_refused: "n < 32 \<Longrightarrow> bit (foldl (\<lambda>f k. f AND NOT (push_bit k 1)) (x :: u32) ks) n \<longleftrightarrow> bit x n \<and> n \<notin> set ks"
proof (induction ks arbitrary: x)
  case (Cons k ks)
  have "bit (x AND NOT (push_bit k 1)) n \<longleftrightarrow> bit x n \<and> n \<noteq> k"
    using Cons.prems by (simp add: bit_and_iff bit_not_iff bit_exp_iff possible_bit_word)
  then show ?case using Cons.IH [OF Cons.prems] by auto
qed simp

text \<open>(C37) The disk driver starts ready. On a device that identifies itself as a virtio disk with a queue of at least \<open>NUM\<close> entries,
  \<open>virtio_disk_init\<close> walks through the states of the handshake in the order the device asks for (acknowledge, driver, features, features
  accepted, driver ready), refuses the seven features the driver does not know, announces the queue, and leaves the driver idle with all
  descriptors free and its lock free. Buffers, processes and the disk are as they were.\<close>

theorem virtio_disk_init_ready:
  assumes c: "cpu_ok (hart s) (cpus s)" "\<not> panicked s" "pr_locking s \<longrightarrow> free_lock (locks s) PrLk"
    and dev: "rd VIRTIO_MMIO_MAGIC_VALUE = 0x74726976" "rd VIRTIO_MMIO_VERSION = 1" "rd VIRTIO_MMIO_DEVICE_ID = 2"
      "rd VIRTIO_MMIO_VENDOR_ID = 0x554d4551" "of_nat NUM \<le> rd VIRTIO_MMIO_QUEUE_NUM_MAX"
    and z: "lk_cpu (locks s DiskLk) = None" "used_idx (vd s) = 0" "dev_seen s = 0" "length (info_b (vd s)) = NUM" "length (info_status (vd s)) = NUM" "length (ops (vd s)) = NUM"
  shows "\<exists>t f. virtio_disk_init rd pages s = Ret () t \<and> driver_idle t \<and> free_lock (locks t) DiskLk
    \<and> vregs t = vregs s @ [(VIRTIO_MMIO_STATUS, 1), (VIRTIO_MMIO_STATUS, 3), (VIRTIO_MMIO_DRIVER_FEATURES, f), (VIRTIO_MMIO_STATUS, 11),
        (VIRTIO_MMIO_STATUS, 15), (VIRTIO_MMIO_GUEST_PAGE_SIZE, 4096), (VIRTIO_MMIO_QUEUE_SEL, 0), (VIRTIO_MMIO_QUEUE_NUM, 8),
        (VIRTIO_MMIO_QUEUE_PFN, ucast (drop_bit 12 pages))]
    \<and> (\<forall>k < 32. bit f k \<longleftrightarrow> bit (rd VIRTIO_MMIO_DEVICE_FEATURES) k \<and> k \<notin> {5, 7, 11, 12, 27, 28, 29})
    \<and> bufs t = bufs s \<and> procs t = procs s \<and> sectors t = sectors s"
proof -
  let ?i = "s\<lparr>locks := (locks s)(DiskLk := (locks s DiskLk)\<lparr>lk_name := ''virtlock'', locked := 0\<rparr>)\<rparr>"
  let ?fmt = "lit (''magic:%p,ver:%d,deviceId:%d,vendor:%p'' @ [CHR 0x0A])"
  let ?f = "foldl (\<lambda>f k. f AND NOT (push_bit k 1)) (rd VIRTIO_MMIO_DEVICE_FEATURES) [VIRTIO_BLK_F_RO, VIRTIO_BLK_F_SCSI,
         VIRTIO_BLK_F_CONFIG_WCE, VIRTIO_BLK_F_MQ, VIRTIO_F_ANY_LAYOUT, VIRTIO_RING_F_EVENT_IDX, VIRTIO_RING_F_INDIRECT_DESC]"
  let ?regs = "[(VIRTIO_MMIO_STATUS, 1), (VIRTIO_MMIO_STATUS, 3), (VIRTIO_MMIO_DRIVER_FEATURES, ?f), (VIRTIO_MMIO_STATUS, 11),
        (VIRTIO_MMIO_STATUS, 15), (VIRTIO_MMIO_GUEST_PAGE_SIZE, 4096), (VIRTIO_MMIO_QUEUE_SEL, 0), (VIRTIO_MMIO_QUEUE_NUM, 8),
        (VIRTIO_MMIO_QUEUE_PFN, ucast (drop_bit 12 pages))]"
  obtain out where out: "uprintf (Some ?fmt) [VPtr 0x74726976, VInt 1, VInt 2, VPtr 0x554d4551] = Some out" using init_banner by blast
  have "printf ?fmt [VPtr 0x74726976, VInt 1, VInt 2, VPtr 0x554d4551] ?i = Ret () (emitted out ?i)"
    by (rule printf_run [OF out]) (use c in \<open>simp_all add: free_lock_def\<close>)
  moreover have q: "rd VIRTIO_MMIO_QUEUE_NUM_MAX \<noteq> 0" "\<not> rd VIRTIO_MMIO_QUEUE_NUM_MAX < of_nat NUM"
    using dev(5) by (auto simp: NUM_def)
  ultimately have run: "virtio_disk_init rd pages s = Ret () ((emitted out ?i)\<lparr>vregs := vregs s @ ?regs, vd := (blank_vdisk (vd s))\<lparr>vfree := replicate NUM True\<rparr>\<rparr>)"
    by (simp add: virtio_disk_init_def initlock_def kbind_def dev(1-4) mmio_write_def on_vd_def Let_def VIRTIO_CONFIG_S_ACKNOWLEDGE_def
        VIRTIO_CONFIG_S_DRIVER_def VIRTIO_CONFIG_S_FEATURES_OK_def VIRTIO_CONFIG_S_DRIVER_OK_def emitted_def NUM_def [symmetric] del: foldl.simps)
      (simp add: NUM_def)
  have bits: "\<forall>k < 32. bit ?f k \<longleftrightarrow> bit (rd VIRTIO_MMIO_DEVICE_FEATURES) k \<and> k \<notin> {5, 7, 11, 12, 27, 28, 29}"
    unfolding VIRTIO_BLK_F_RO_def VIRTIO_BLK_F_SCSI_def VIRTIO_BLK_F_CONFIG_WCE_def VIRTIO_BLK_F_MQ_def VIRTIO_F_ANY_LAYOUT_def
      VIRTIO_RING_F_EVENT_IDX_def VIRTIO_RING_F_INDIRECT_DESC_def by (intro allI impI, subst bit_refused) auto
  let ?t = "(emitted out ?i)\<lparr>vregs := vregs s @ ?regs, vd := (blank_vdisk (vd s))\<lparr>vfree := replicate NUM True\<rparr>\<rparr>"
  have "driver_idle ?t" "free_lock (locks ?t) DiskLk" "vregs ?t = vregs s @ ?regs" "bufs ?t = bufs s" "procs ?t = procs s" "sectors ?t = sectors s"
    using z by (simp_all add: driver_idle_def blank_vdisk_def emitted_def free_lock_def del: foldl.simps)
  then show ?thesis using run bits by blast
qed

theorem virtio_disk_init_ready_witness:
  "\<exists>t :: disk_st. virtio_disk_init (\<lambda>r. if r = 0 then 0x74726976 else if r = 4 then 1 else if r = 8 then 2 else if r = 12 then 0x554d4551
     else if r = 16 then 0x30006e54 else 1024) 0x80020000 run_disk = Ret () t \<and> driver_idle t"
proof -
  let ?rd = "\<lambda>r :: nat. if r = 0 then 0x74726976 else if r = 4 then 1 else if r = 8 then 2 else if r = 12 then 0x554d4551
     else if r = 16 then 0x30006e54 else 1024 :: u32"
  have c: "cpu_ok (hart run_disk) (cpus run_disk)" "\<not> panicked run_disk" "pr_locking run_disk \<longrightarrow> free_lock (locks run_disk) PrLk"
    using calm_simps [OF run_disk_calm] run_tty_facts(3) by (simp_all add: run_disk_def tty_st.defs)
  have dev: "?rd VIRTIO_MMIO_MAGIC_VALUE = 0x74726976" "?rd VIRTIO_MMIO_VERSION = 1" "?rd VIRTIO_MMIO_DEVICE_ID = 2"
      "?rd VIRTIO_MMIO_VENDOR_ID = 0x554d4551" "of_nat NUM \<le> ?rd VIRTIO_MMIO_QUEUE_NUM_MAX"
    by (simp_all add: VIRTIO_MMIO_MAGIC_VALUE_def VIRTIO_MMIO_VERSION_def VIRTIO_MMIO_DEVICE_ID_def VIRTIO_MMIO_VENDOR_ID_def
        VIRTIO_MMIO_QUEUE_NUM_MAX_def NUM_def)
  have z: "lk_cpu (locks run_disk DiskLk) = None" "used_idx (vd run_disk) = 0" "dev_seen run_disk = 0" "length (info_b (vd run_disk)) = NUM"
      "length (info_status (vd run_disk)) = NUM" "length (ops (vd run_disk)) = NUM"
    using calm_simps(5) [OF run_disk_calm, of DiskLk] by (simp_all add: free_lock_def run_disk_sel idle_vd_def)
  show ?thesis using virtio_disk_init_ready [OF c dev z, of "0x80020000"] by blast
qed

end
