(* ===== verification/Uprogs.thy ===== *)
theory Uprogs
  imports Ulib Syscall
begin

text \<open>
  The user programs: \<^verbatim>\<open>user/init.c\<close>, \<^verbatim>\<open>user/sh.c\<close> and \<^verbatim>\<open>user/ls.c\<close>. A program is an automaton over the points of its \<open>main\<close>
  at which it calls the kernel: at each point it makes one call, and the reply takes it to the next point. What the kernel
  answers is left open, so the theorems hold for every kernel; \<open>fork\<close> is followed in the parent (a positive reply) and in the
  child (reply 0), and a reply to \<open>exec\<close> means that it has failed.
\<close>

section \<open>Programs and their runs\<close>

text \<open>The system calls of \<^verbatim>\<open>users.h\<close>. A string argument is the memory behind the pointer.\<close>

datatype ucall = CWrite int "u8 list" | COpen "u8 list" u32 | CDup int | CMknod "u8 list" int int | CFork
  | CExec "u8 list" "u8 list list option" | CWait | CRead int nat | CExit int | CSbrk int | CFstat int | CClose int

text \<open>A reply: the result, and the bytes stored behind the pointer of \<open>read\<close> and \<open>fstat\<close>.\<close>

type_synonym reply = "int \<times> u8 list"

text \<open>Where a program is: at a point, in the middle of a \<open>printf\<close> (the bytes still to be written, and the point after it), ended
  by \<open>exit\<close>, or at a place where C gives it no meaning.\<close>

datatype 'c place = At 'c | Out "u8 list" 'c | Exited int | Undef string

type_synonym 'c program = "'c \<Rightarrow> ucall \<times> (reply \<Rightarrow> 'c place)"

definition putc :: "int \<Rightarrow> u8 \<Rightarrow> ucall" where
  "putc fd c = CWrite fd [c]"

definition after_out :: "u8 list \<Rightarrow> 'c \<Rightarrow> 'c place" where
  "after_out cs k = (if cs = [] then At k else Out cs k)"

text \<open>A call of \<open>printf\<close>: one \<open>putc\<close> on descriptor 1 for every byte.\<close>

definition says :: "u8 list \<Rightarrow> va list \<Rightarrow> 'c \<Rightarrow> 'c place" where
  "says fmt ap k = (case uprintf (Some fmt) ap of None \<Rightarrow> Undef ''printf'' | Some cs \<Rightarrow> after_out cs k)"

text \<open>The next call, with the place each reply leads to.\<close>

fun ustep :: "'c program \<Rightarrow> 'c place \<Rightarrow> (ucall \<times> (reply \<Rightarrow> 'c place)) option" where
  "ustep prog (At k) = Some (prog k)"
| "ustep prog (Out [] k) = Some (prog k)"
| "ustep prog (Out (c # cs) k) = Some (putc 1 c, \<lambda>_. after_out cs k)"
| "ustep prog (Exited n) = None"
| "ustep prog (Undef m) = None"

inductive run :: "'c program \<Rightarrow> 'c place \<Rightarrow> (ucall \<times> reply) list \<Rightarrow> 'c place \<Rightarrow> bool" for prog s where
  run_here: "run prog s [] s"
| run_call: "run prog s tr t \<Longrightarrow> ustep prog t = Some (c, k) \<Longrightarrow> run prog s (tr @ [(c, r)]) (k r)"

text \<open>The calls a program makes when it gets the replies \<open>rs\<close>, and where it is then.\<close>

fun play :: "'c program \<Rightarrow> 'c place \<Rightarrow> reply list \<Rightarrow> ucall list \<times> 'c place" where
  "play prog s [] = ([], s)"
| "play prog s (r # rs) = (case ustep prog s of None \<Rightarrow> ([], s)
     | Some (c, k) \<Rightarrow> (let (cs, t) = play prog (k r) rs in (c # cs, t)))"

section \<open>init.c\<close>

datatype init_pc = InitOpen | InitMknod | InitReopen | InitDup1 | InitDup2 | InitFork | InitFailed
  | InitExec | InitWait int

definition argv :: "u8 list list" where
  "argv = [lit ''sh'']"

text \<open>The head of the endless loop.\<close>

definition init_turn :: "init_pc place" where
  "init_turn = says (lit (''init: starting sh'' @ [CHR 0x0A])) [] InitFork"

definition init_main :: "init_pc program" where
  "init_main pc = (case pc of
     InitOpen \<Rightarrow> (COpen (lit ''console'') O_RDWR, \<lambda>(r, _). if r < 0 then At InitMknod else At InitDup1)
   | InitMknod \<Rightarrow> (CMknod (lit ''console'') 1 0, \<lambda>_. At InitReopen)
   | InitReopen \<Rightarrow> (COpen (lit ''console'') O_RDWR, \<lambda>_. At InitDup1)
   | InitDup1 \<Rightarrow> (CDup 0, \<lambda>_. At InitDup2)
   | InitDup2 \<Rightarrow> (CDup 0, \<lambda>_. init_turn)
   | InitFork \<Rightarrow> (CFork, \<lambda>(q, _).
       if q < 0 then says (lit (''init: fork failed'' @ [CHR 0x0A])) [] InitFailed
       else if q = 0 then At InitExec
       else At (InitWait q))
   | InitExec \<Rightarrow> (CExec (lit ''sh'') (Some argv), \<lambda>_. says (lit (''init: exec sh failed'' @ [CHR 0x0A])) [] InitFailed)
   | InitFailed \<Rightarrow> (CExit 1, \<lambda>_. Exited 1)
   | InitWait q \<Rightarrow> (CWait, \<lambda>(wpid, _).
       if wpid = q then init_turn
       else if wpid < 0 then says (lit (''init: wait returned an error'' @ [CHR 0x0A])) [] InitFailed
       else At (InitWait q)))"

section \<open>sh.c\<close>

datatype sh_pc = ShOpen | ShRead | ShFork | ShExec | ShWait

text \<open>The variables of \<open>main\<close>. \<open>buf\<close> and \<open>c\<close> have one place on the stack, and no turn of the loop clears them.\<close>

record sh_st =
  sh_at :: sh_pc
  sh_buf :: "u8 list"
  sh_c :: u8
  sh_i :: nat

definition sh_prompt :: "sh_st \<Rightarrow> sh_st place" where
  "sh_prompt s = says (lit ''$ '') [] (s\<lparr>sh_at := ShRead, sh_i := 0\<rparr>)"

text \<open>The statement after the reading loop.\<close>

definition sh_line :: "sh_st \<Rightarrow> sh_st place" where
  "sh_line s = (if sh_i s + 1 < 100 then At (s\<lparr>sh_at := ShFork, sh_buf := (sh_buf s)[sh_i s + 1 := 0]\<rparr>)
     else Undef ''buf[100]'')"

text \<open>One turn of the reading loop, from the reply of \<open>read\<close>. At the end of input \<open>read\<close> stores nothing and \<open>c\<close> keeps its value.\<close>

definition sh_key :: "sh_st \<Rightarrow> reply \<Rightarrow> sh_st place" where
  "sh_key s rep = (let c = (case snd rep of [] \<Rightarrow> sh_c s | b # _ \<Rightarrow> b); s = s\<lparr>sh_c := c\<rparr> in
     if fst rep < 0 then sh_line s
     else if c = 10 \<or> c = 13 then sh_line s
     else let s = s\<lparr>sh_buf := (sh_buf s)[sh_i s := c], sh_i := sh_i s + 1\<rparr> in
       if sh_i s + 1 < 100 then At s else sh_line s)"

definition sh_main :: "sh_st program" where
  "sh_main s = (case sh_at s of
     ShOpen \<Rightarrow> (COpen (lit ''console'') O_RDWR, \<lambda>(fd, _). if fd \<ge> 0 \<and> \<not> fd > 3 then At s else sh_prompt s)
   | ShRead \<Rightarrow> (CRead 0 1, sh_key s)
   | ShFork \<Rightarrow> (CFork, \<lambda>(q, _). if q = 0 then At (s\<lparr>sh_at := ShExec\<rparr>) else At (s\<lparr>sh_at := ShWait\<rparr>))
   | ShExec \<Rightarrow> (CExec (sh_buf s) None, \<lambda>_. At (s\<lparr>sh_at := ShWait\<rparr>))
   | ShWait \<Rightarrow> (CWait, \<lambda>_. sh_prompt s))"

section \<open>ls.c\<close>

datatype ls_pc = LsOpen | LsFstat | LsRead | LsClose | LsExit

text \<open>The variables of \<open>main\<close>: the descriptor, and the bytes of \<open>struct stat st\<close> and \<open>struct dirent d\<close>.\<close>

record ls_st =
  ls_at :: ls_pc
  ls_fd :: int
  ls_stat :: "u8 list"
  ls_d :: "u8 list"

definition ls_line :: "ls_st \<Rightarrow> ls_st place" where
  "ls_line s = says (lit (''%s %d %d %d'' @ [CHR 0x0A]))
     [VStr (Some (drop 2 (ls_d s))), VInt (scast (rd16 (ls_stat s) 8)), VInt (rd32 (ls_stat s) 4), VInt (rd32 (ls_stat s) 16)] s"

definition ls_main :: "ls_st program" where
  "ls_main s = (case ls_at s of
     LsOpen \<Rightarrow> (COpen (lit ''/'') 0, \<lambda>(fd, _).
       if fd < 0 then says (lit (''ls: cannot open'' @ [CHR 0x0A])) [] (s\<lparr>ls_at := LsExit, ls_fd := fd\<rparr>)
       else At (s\<lparr>ls_at := LsFstat, ls_fd := fd\<rparr>))
   | LsFstat \<Rightarrow> (CFstat (ls_fd s), \<lambda>(r, bs). let s = s\<lparr>ls_stat := put (ls_stat s) 0 bs\<rparr> in
       if r < 0 then says (lit ''ls: connot to stat'') [] (s\<lparr>ls_at := LsClose\<rparr>)
       else At (s\<lparr>ls_at := LsRead\<rparr>))
   | LsRead \<Rightarrow> (CRead (ls_fd s) 16, \<lambda>(r, bs). let s = s\<lparr>ls_d := put (ls_d s) 0 bs\<rparr> in
       if r = 16 then if rd16 (ls_d s) 0 = 0 then At s else ls_line s
       else At (s\<lparr>ls_at := LsClose\<rparr>))
   | LsClose \<Rightarrow> (CClose (ls_fd s), \<lambda>_. At (s\<lparr>ls_at := LsExit\<rparr>))
   | LsExit \<Rightarrow> (CExit 0, \<lambda>_. Exited 0))"

section \<open>Runs\<close>

lemma play_append:
  "play prog s rs = (cs, t) \<Longrightarrow> length cs = length rs \<Longrightarrow> play prog s (rs @ qs) = (cs @ fst (play prog t qs), snd (play prog t qs))"
  by (induction prog s rs arbitrary: cs rule: play.induct) (auto split: option.splits prod.splits)

text \<open>The step relation and the function say the same.\<close>

lemma run_imp_play: "run prog s tr t \<Longrightarrow> play prog s (map snd tr) = (map fst tr, t)"
proof (induction rule: run.induct)
  case (run_call tr t c k r)
  then show ?case using play_append [OF run_call.IH, of "[r]"] by simp
qed simp

lemma run_step: "ustep prog s = Some (c, k) \<Longrightarrow> run prog (k r) tr t \<Longrightarrow> run prog s ((c, r) # tr) t"
  by (rotate_tac, induction rule: run.induct) (metis append_Nil run.intros, metis append_Cons run_call)

lemma play_imp_run: "play prog s rs = (cs, t) \<Longrightarrow> length cs = length rs \<Longrightarrow> run prog s (zip cs rs) t"
proof (induction prog s rs arbitrary: cs rule: play.induct)
  case (2 prog s r rs)
  then show ?case by (auto split: option.splits prod.splits intro!: run_step)
qed (simp add: run_here)

text \<open>Rules for a program that is writing.\<close>

lemma play_after_out:
  "length rs = length cs \<Longrightarrow> play prog (after_out cs k) (rs @ qs) = (map (putc 1) cs @ fst (play prog (At k) qs), snd (play prog (At k) qs))"
proof (induction cs arbitrary: rs)
  case (Cons c cs)
  then obtain r rs' where "rs = r # rs'" "length rs' = length cs" by (cases rs) auto
  then show ?case using Cons.IH [of rs'] by (simp add: after_out_def split: prod.splits if_splits)
qed (simp add: after_out_def)

lemma uprintf_loop_plain: "\<forall>c \<in> set s. c \<noteq> 0 \<and> c \<noteq> 37 \<Longrightarrow> uprintf_loop (s @ [0]) ap = Some s"
proof (induction s)
  case (Cons c s)
  then show ?case by (cases "s @ [0]") auto
qed simp

lemma says_plain [simp]:
  "\<forall>c \<in> set (map of_char s). c \<noteq> (0 :: u8) \<and> c \<noteq> 37 \<Longrightarrow> s \<noteq> [] \<Longrightarrow> says (lit s) ap k = Out (map of_char s) k"
  unfolding says_def uprintf_def lit_def using uprintf_loop_plain [of "map of_char s" ap] by (simp add: after_out_def)

section \<open>init keeps one shell\<close>

text \<open>The children the program has forked and not seen in a \<open>wait\<close>, from the calls it has made.\<close>

definition unreaped :: "(ucall \<times> reply) list \<Rightarrow> int list" where
  "unreaped tr = foldl (\<lambda>ps (c, r). case c of CFork \<Rightarrow> if fst r > 0 then fst r # ps else ps | CWait \<Rightarrow> remove1 (fst r) ps | _ \<Rightarrow> ps) [] tr"

definition forks :: "(ucall \<times> reply) list \<Rightarrow> int list" where
  "forks tr = map (fst \<circ> snd) (filter (\<lambda>x. fst x = CFork) tr)"

lemma unreaped_snoc:
  "unreaped [] = []"
  "unreaped (tr @ [(c, r)]) = (case c of CFork \<Rightarrow> if fst r > 0 then fst r # unreaped tr else unreaped tr | CWait \<Rightarrow> remove1 (fst r) (unreaped tr) | _ \<Rightarrow> unreaped tr)"
  by (simp_all add: unreaped_def split: ucall.splits)

lemma forks_snoc: "forks [] = []" "forks (tr @ [(c, r)]) = (if c = CFork then forks tr @ [fst r] else forks tr)"
  by (simp_all add: forks_def)

definition init_pc_ok :: "(ucall \<times> reply) list \<Rightarrow> init_pc \<Rightarrow> bool" where
  "init_pc_ok tr pc \<longleftrightarrow> (0 \<in> set (forks tr) \<longrightarrow> unreaped tr = [] \<and> pc \<in> {InitExec, InitFailed}) \<and>
     (case pc of InitWait q \<Rightarrow> unreaped tr = [q] | InitFailed \<Rightarrow> length (unreaped tr) \<le> 1 | _ \<Rightarrow> unreaped tr = [])"

fun init_inv :: "(ucall \<times> reply) list \<Rightarrow> init_pc place \<Rightarrow> bool" where
  "init_inv tr (At pc) = init_pc_ok tr pc"
| "init_inv tr (Out cs pc) = (init_pc_ok tr pc \<and> pc \<in> {InitFork, InitFailed})"
| "init_inv tr (Exited n) = (init_pc_ok tr InitFailed \<and> n = 1)"
| "init_inv tr (Undef m) = False"

lemma init_inv_out: "init_inv tr (after_out cs pc) \<longleftrightarrow> init_pc_ok tr pc \<and> (cs = [] \<or> pc \<in> {InitFork, InitFailed})"
  by (simp add: after_out_def)

lemma init_inv_run: "run init_main (At InitOpen) tr t \<Longrightarrow> init_inv tr t"
proof (induction rule: run.induct)
  case run_here
  show ?case by (simp add: init_pc_ok_def unreaped_snoc forks_snoc)
next
  case (run_call tr t c k r)
  have at: "init_inv (tr @ [(c, r)]) (k r)" if "init_pc_ok tr pc" "init_main pc = (c, k)" for pc
    using that by (cases r) (auto simp: init_main_def init_turn_def init_pc_ok_def unreaped_snoc forks_snoc split: init_pc.splits if_splits)
  show ?case
  proof (cases t)
    case (Out cs pc)
    then show ?thesis
    proof (cases cs)
      case (Cons b bs)
      then show ?thesis using run_call Out by (auto simp: init_inv_out init_pc_ok_def unreaped_snoc forks_snoc putc_def)
    qed (use run_call at in auto)
  qed (use run_call at in auto)
qed

text \<open>(C19) \<open>init\<close> keeps one shell. Whatever the kernel answers, \<open>init\<close> has at most one child it has not waited for; when it
  waits, that child is the one it forked last, and before it forks again it has none. The child of a \<open>fork\<close> never gets back into the
  loop of its parent: it is at \<open>exec\<close> or on its way to \<open>exit(1)\<close>. The program makes no call outside the defined behaviour of C.\<close>

theorem init_one_shell:
  assumes "run init_main (At InitOpen) tr t"
  shows "length (unreaped tr) \<le> 1 \<and> (\<forall>q. t = At (InitWait q) \<longrightarrow> unreaped tr = [q]) \<and> (t = At InitFork \<longrightarrow> unreaped tr = [])
     \<and> (0 \<in> set (forks tr) \<longrightarrow> unreaped tr = [] \<and> (t = At InitExec \<or> t = At InitFailed \<or> (\<exists>cs. t = Out cs InitFailed) \<or> t = Exited 1))
     \<and> (\<forall>m. t \<noteq> Undef m)"
  using init_inv_run [OF assms] by (cases t) (auto simp: init_pc_ok_def split: init_pc.splits)

theorem init_one_shell_witness:
  "\<exists>tr. run init_main (At InitOpen) tr (At (InitWait 3)) \<and> forks tr = [2, 3] \<and> unreaped tr = [3]"
proof -
  let ?w = "replicate 18 (1 :: int, [] :: u8 list)"
  let ?rs = "[(0, []), (1, []), (2, [])] @ ?w @ [(2, []), (9, []), (2, [])] @ ?w @ [(3, [])]"
  let ?tr = "zip (fst (play init_main (At InitOpen) ?rs)) ?rs"
  have p: "play init_main (At InitOpen) ?rs = (fst (play init_main (At InitOpen) ?rs), At (InitWait 3))" "length (fst (play init_main (At InitOpen) ?rs)) = length ?rs"
    "forks ?tr = [2, 3]" by code_simp+
  from init_one_shell [OF play_imp_run [OF p(1,2)]] show ?thesis using play_imp_run [OF p(1,2)] p(3) by blast
qed

section \<open>The shell and its line\<close>

text \<open>A byte typed on the console, as \<open>read(0, &c, 1)\<close> delivers it.\<close>

definition typed :: "u8 \<Rightarrow> reply" where
  "typed b = (1, [b])"

lemma sh_says [simp]: "sh_prompt s = Out (map of_char ''$ '') (s\<lparr>sh_at := ShRead, sh_i := 0\<rparr>)"
  by (simp add: sh_prompt_def)

lemma play_read:
  "sh_at s = ShRead \<Longrightarrow> play sh_main (At s) (r # rs) = (CRead 0 1 # fst (play sh_main (sh_key s r) rs), snd (play sh_main (sh_key s r) rs))"
  by (simp add: sh_main_def split: prod.splits)

lemma sh_key_typed:
  "b \<notin> {10, 13} \<Longrightarrow> sh_i s < 98 \<Longrightarrow> sh_key s (typed b) = At (s\<lparr>sh_c := b, sh_buf := (sh_buf s)[sh_i s := b], sh_i := Suc (sh_i s)\<rparr>)"
  "b \<in> {10, 13} \<Longrightarrow> sh_i s < 99 \<Longrightarrow> sh_key s (typed b) = At (s\<lparr>sh_at := ShFork, sh_c := b, sh_buf := (sh_buf s)[Suc (sh_i s) := 0]\<rparr>)"
  "b \<notin> {10, 13} \<Longrightarrow> sh_i s = 98 \<Longrightarrow> sh_key s (typed b) = Undef ''buf[100]''"
  by (auto simp: sh_key_def typed_def sh_line_def)

lemma sh_reads:
  assumes "sh_at s = ShRead" and "length (sh_buf s) = 100" and "sh_i s + length l \<le> 98" and "\<forall>b \<in> set l. b \<notin> {10, 13}"
  shows "\<exists>c. play sh_main (At s) (map typed l @ qs) = (replicate (length l) (CRead 0 1) @
     fst (play sh_main (At (s\<lparr>sh_buf := put (sh_buf s) (sh_i s) l, sh_c := c, sh_i := sh_i s + length l\<rparr>)) qs),
     snd (play sh_main (At (s\<lparr>sh_buf := put (sh_buf s) (sh_i s) l, sh_c := c, sh_i := sh_i s + length l\<rparr>)) qs))"
  using assms
proof (induction l arbitrary: s)
  case Nil
  have "s = s\<lparr>sh_buf := put (sh_buf s) (sh_i s) [], sh_c := sh_c s, sh_i := sh_i s + length []\<rparr>" by simp
  then show ?case by (metis append_Nil list.map(1) list.size(3) prod.collapse replicate_0)
next
  case (Cons b l)
  let ?s = "s\<lparr>sh_c := b, sh_buf := (sh_buf s)[sh_i s := b], sh_i := Suc (sh_i s)\<rparr>"
  have k: "sh_key s (typed b) = At ?s" using Cons.prems by (intro sh_key_typed) auto
  from Cons.IH [of ?s] Cons.prems obtain c where c: "play sh_main (At ?s) (map typed l @ qs) = (replicate (length l) (CRead 0 1) @
     fst (play sh_main (At (?s\<lparr>sh_buf := put (sh_buf ?s) (sh_i ?s) l, sh_c := c, sh_i := sh_i ?s + length l\<rparr>)) qs),
     snd (play sh_main (At (?s\<lparr>sh_buf := put (sh_buf ?s) (sh_i ?s) l, sh_c := c, sh_i := sh_i ?s + length l\<rparr>)) qs))" by auto
  have "?s\<lparr>sh_buf := put (sh_buf ?s) (sh_i ?s) l, sh_c := c, sh_i := sh_i ?s + length l\<rparr>
     = s\<lparr>sh_buf := put (sh_buf s) (sh_i s) (b # l), sh_c := c, sh_i := sh_i s + length (b # l)\<rparr>" using Cons.prems by (simp add: put_Cons)
  with c have "play sh_main (At ?s) (map typed l @ qs) = (replicate (length l) (CRead 0 1) @
     fst (play sh_main (At (s\<lparr>sh_buf := put (sh_buf s) (sh_i s) (b # l), sh_c := c, sh_i := sh_i s + length (b # l)\<rparr>)) qs),
     snd (play sh_main (At (s\<lparr>sh_buf := put (sh_buf s) (sh_i s) (b # l), sh_c := c, sh_i := sh_i s + length (b # l)\<rparr>)) qs))" by simp
  then show ?case using play_read [OF Cons.prems(1), of "typed b" "map typed l @ qs"] k by (intro exI [of _ c]) simp
qed

lemma put_line: "length l + 1 < length buf \<Longrightarrow> (put buf 0 l)[Suc (length l) := 0] = l @ buf ! length l # 0 # drop (length l + 2) buf"
  by (intro nth_equalityI) (auto simp: put_def nth_append nth_list_update nth_Cons' intro!: arg_cong [where f = "nth buf"])

text \<open>(C20) What the shell runs. At its prompt, with a line \<open>l\<close> typed on the console, \<open>sh\<close> reads up to the end of the line and forks. The
  child calls \<open>exec\<close> with the line followed by the byte that was in \<open>buf\<close> after it, and only then the NUL: the path is the line typed if
  that byte happens to be 0. When the \<open>exec\<close> returns, the child goes on to \<open>wait\<close> and then prints a prompt of its own, a second shell on
  the same console. A line of 99 characters or more makes the shell write beyond \<open>buf\<close>.\<close>

theorem sh_runs_line:
  assumes s: "sh_at s = ShRead" "sh_i s = 0" "length (sh_buf s) = 100" and l: "\<forall>b \<in> set l. b \<notin> {10, 13}" and e: "eol \<in> {10, 13}"
  shows "if length l \<le> 98 then
     \<exists>c. play sh_main (At s) (map typed (l @ [eol]) @ [(0, []), (r, []), (w, [])]) =
       (replicate (length l + 1) (CRead 0 1) @ [CFork, CExec (l @ sh_buf s ! length l # 0 # drop (length l + 2) (sh_buf s)) None, CWait],
        Out (map of_char ''$ '') (s\<lparr>sh_c := c, sh_buf := l @ sh_buf s ! length l # 0 # drop (length l + 2) (sh_buf s)\<rparr>))
     else snd (play sh_main (At s) (map typed l)) = Undef ''buf[100]''"
proof (cases "length l \<le> 98")
  case True
  let ?qs = "[typed eol, (0, []), (r, []), (w, [])]"
  let ?b = "l @ sh_buf s ! length l # 0 # drop (length l + 2) (sh_buf s)"
  obtain c where c: "play sh_main (At s) (map typed l @ ?qs) = (replicate (length l) (CRead 0 1) @
     fst (play sh_main (At (s\<lparr>sh_buf := put (sh_buf s) 0 l, sh_c := c, sh_i := length l\<rparr>)) ?qs),
     snd (play sh_main (At (s\<lparr>sh_buf := put (sh_buf s) 0 l, sh_c := c, sh_i := length l\<rparr>)) ?qs))"
    using sh_reads [of s l ?qs] s l True by auto
  let ?s = "s\<lparr>sh_buf := put (sh_buf s) 0 l, sh_c := c, sh_i := length l\<rparr>"
  have b: "(put (sh_buf s) 0 l)[Suc (length l) := 0] = ?b" using True s(3) by (intro put_line) simp
  have k: "sh_key ?s (typed eol) = At (?s\<lparr>sh_at := ShFork, sh_c := eol, sh_buf := ?b\<rparr>)"
    using sh_key_typed(2) [OF e, of ?s] True b by simp
  have s': "s\<lparr>sh_at := ShRead, sh_i := 0\<rparr> = s" using s(1,2) by simp
  have "play sh_main (At ?s) ?qs = ([CRead 0 1, CFork, CExec ?b None, CWait],
     Out (map of_char ''$ '') (s\<lparr>sh_c := eol, sh_buf := ?b\<rparr>))"
    using play_read [of ?s "typed eol" "[(0, []), (r, []), (w, [])]"] k s by (simp add: sh_main_def)
  with c True show ?thesis by (intro if_P [THEN iffD2]) (auto intro!: exI [of _ eol] simp: replicate_append_same)
next
  case False
  then obtain a b d where l': "l = a @ b # d" "length a = 98" by (metis id_take_nth_drop length_take min.absorb4 not_le)
  obtain c where "play sh_main (At s) (map typed a @ map typed (b # d)) = (replicate (length a) (CRead 0 1) @
     fst (play sh_main (At (s\<lparr>sh_buf := put (sh_buf s) 0 a, sh_c := c, sh_i := length a\<rparr>)) (map typed (b # d))),
     snd (play sh_main (At (s\<lparr>sh_buf := put (sh_buf s) 0 a, sh_c := c, sh_i := length a\<rparr>)) (map typed (b # d))))"
    using sh_reads [of s a "map typed (b # d)"] s l l' by auto
  moreover have "play sh_main (Undef m) rs = ([], Undef m)" for m rs by (cases rs) simp_all
  ultimately show ?thesis using False l l' s play_read sh_key_typed(3) by simp
qed

theorem sh_runs_line_witness:
  "\<exists>b t. play sh_main (At \<lparr>sh_at = ShRead, sh_buf = map of_char ''init'' @ replicate 96 0, sh_c = 10, sh_i = 0\<rparr>)
     (map typed (map of_char ''sh'' @ [10]) @ [(0, []), (-1, []), (-1, [])]) = ([CRead 0 1, CRead 0 1, CRead 0 1, CFork, CExec b None, CWait], Out (map of_char ''$ '') t)
     \<and> cstr b = map of_char ''shi''"
proof -
  let ?s = "\<lparr>sh_at = ShRead, sh_buf = map of_char ''init'' @ replicate 96 0, sh_c = 10, sh_i = 0\<rparr> :: sh_st"
  let ?l = "map of_char ''sh'' :: u8 list"
  let ?b = "?l @ sh_buf ?s ! length ?l # 0 # drop (length ?l + 2) (sh_buf ?s)"
  have s: "sh_at ?s = ShRead" "sh_i ?s = 0" "length (sh_buf ?s) = 100" and l: "\<forall>b \<in> set ?l. b \<notin> {10, 13}" and le: "length ?l \<le> 98" by simp_all
  have e: "(10 :: u8) \<in> {10, 13}" by simp
  have "replicate (length ?l + 1) (CRead 0 1) = [CRead 0 1, CRead 0 1, CRead 0 1]" by (simp add: numeral_eq_Suc)
  moreover have "cstr ?b = map of_char ''shi''" by code_simp
  ultimately show ?thesis using sh_runs_line [OF s l e, of "-1" "-1", unfolded if_P [OF le]] by (metis append_Cons append_Nil)
qed

text \<open>The last \<open>n\<close> calls were reads of the reading loop that did not end it.\<close>

definition keys :: "nat \<Rightarrow> (ucall \<times> reply) list \<Rightarrow> bool" where
  "keys n tr \<longleftrightarrow> n \<le> length tr \<and> (\<forall>(c, r) \<in> set (drop (length tr - n) tr). c = CRead 0 1 \<and> 0 \<le> fst r \<and> take 1 (snd r) \<notin> {[10], [13]})"

lemma keys_zero [simp]: "keys 0 tr"
  by (simp add: keys_def)

lemma keys_Suc: "keys n tr \<Longrightarrow> 0 \<le> fst r \<Longrightarrow> take 1 (snd r) \<notin> {[10], [13]} \<Longrightarrow> keys (Suc n) (tr @ [(CRead 0 1, r)])"
  by (auto simp: keys_def)

definition sh_ok :: "(ucall \<times> reply) list \<Rightarrow> sh_st \<Rightarrow> bool" where
  "sh_ok tr s \<longleftrightarrow> length (sh_buf s) = 100 \<and> (sh_at s = ShRead \<longrightarrow> sh_i s < 99 \<and> keys (sh_i s) tr)
     \<and> (sh_at s \<in> {ShFork, ShExec} \<longrightarrow> 0 \<in> set (sh_buf s))"

fun sh_inv :: "(ucall \<times> reply) list \<Rightarrow> sh_st place \<Rightarrow> bool" where
  "sh_inv tr (At s) = sh_ok tr s"
| "sh_inv tr (Out cs s) = (length (sh_buf s) = 100 \<and> sh_at s = ShRead \<and> sh_i s = 0)"
| "sh_inv tr (Exited n) = False"
| "sh_inv tr (Undef m) = (m = ''buf[100]'' \<and> keys 99 tr)"

lemma sh_line_inv: "length (sh_buf s) = 100 \<Longrightarrow> sh_i s < 99 \<Longrightarrow> sh_inv tr (sh_line s)"
  by (auto simp: sh_line_def sh_ok_def intro: set_update_memI)

lemma sh_key_inv:
  assumes "sh_ok tr s" and "sh_at s = ShRead"
  shows "sh_inv (tr @ [(CRead 0 1, r)]) (sh_key s r)"
proof -
  let ?c = "case snd r of [] \<Rightarrow> sh_c s | b # _ \<Rightarrow> b"
  have s: "length (sh_buf s) = 100" "sh_i s < 99" "keys (sh_i s) tr" using assms by (simp_all add: sh_ok_def)
  show ?thesis
  proof (cases "fst r < 0 \<or> ?c = 10 \<or> ?c = 13")
    case True
    then show ?thesis using s by (auto simp: sh_key_def Let_def intro!: sh_line_inv)
  next
    case False
    then have "keys (Suc (sh_i s)) (tr @ [(CRead 0 1, r)])" using s(3) by (intro keys_Suc) (auto split: list.splits)
    moreover have "Suc (sh_i s) = 99" if "\<not> Suc (sh_i s) < 99" using s(2) that by simp
    ultimately show ?thesis using False s(1) assms(2) by (auto simp: sh_key_def Let_def sh_ok_def sh_line_def)
  qed
qed

lemma sh_inv_run:
  assumes "run sh_main (At s0) tr t" and "sh_at s0 = ShOpen" and "length (sh_buf s0) = 100"
  shows "sh_inv tr t"
  using assms(1)
proof (induction rule: run.induct)
  case run_here
  show ?case using assms by (simp add: sh_ok_def)
next
  case (run_call tr t c k r)
  have at: "sh_inv (tr @ [(c, r)]) (k r)" if "sh_ok tr s" "sh_main s = (c, k)" for s
    using that sh_key_inv [of tr s r] by (cases r) (auto simp: sh_main_def sh_ok_def split: sh_pc.splits if_splits)
  show ?case
  proof (cases t)
    case (Out cs s)
    then have s: "length (sh_buf s) = 100" "sh_at s = ShRead" "sh_i s = 0" using run_call.IH by simp_all
    then have ok: "sh_ok tr' s" for tr' by (simp add: sh_ok_def)
    show ?thesis using run_call(2) Out s ok at [of s] by (cases cs) (auto simp: after_out_def)
  qed (use run_call at in auto)
qed

text \<open>(C21) The shell and its buffer. Whatever the kernel answers, the shell never exits, the string it passes to \<open>exec\<close> ends inside
  \<open>buf\<close>, and the only step outside the defined behaviour of C is the write to \<open>buf[100]\<close>, which happens only directly after 99
  characters that end no line.\<close>

theorem sh_stays_in_buffer:
  assumes "run sh_main (At s0) tr t" and "sh_at s0 = ShOpen" and "length (sh_buf s0) = 100"
  shows "(\<forall>s. t = At s \<longrightarrow> sh_at s \<in> {ShFork, ShExec} \<longrightarrow> length (sh_buf s) = 100 \<and> 0 \<in> set (sh_buf s))
     \<and> (\<forall>n. t \<noteq> Exited n) \<and> (\<forall>m. t = Undef m \<longrightarrow> m = ''buf[100]'' \<and> keys 99 tr)"
  using sh_inv_run [OF assms] by (cases t) (auto simp: sh_ok_def)

theorem sh_stays_in_buffer_witness:
  "\<exists>tr. run sh_main (At \<lparr>sh_at = ShOpen, sh_buf = replicate 100 7, sh_c = 0, sh_i = 0\<rparr>) tr (Undef ''buf[100]'') \<and> keys 99 tr"
proof -
  let ?s = "\<lparr>sh_at = ShOpen, sh_buf = replicate 100 7, sh_c = 0, sh_i = 0\<rparr> :: sh_st"
  let ?rs = "[(4, []), (1, []), (1, [])] @ replicate 99 (1, [97 :: u8]) :: reply list"
  have p: "play sh_main (At ?s) ?rs = (fst (play sh_main (At ?s) ?rs), Undef ''buf[100]'')" "length (fst (play sh_main (At ?s) ?rs)) = length ?rs"
    by code_simp+
  note r = play_imp_run [OF p]
  show ?thesis using sh_stays_in_buffer [OF r] r by auto
qed

end
