(* ===== verification/Mkfs.thy ===== *)
theory Mkfs
  imports Fsblocks
begin

text \<open>
  The program that builds a file system image: \<^verbatim>\<open>mkfs.c\<close>. The image file is the list of its blocks. \<open>die\<close> ends the
  program with the outcome \<open>Fault\<close>, a failed \<open>assert\<close> with \<open>Panic\<close>. The machine it runs on is little endian. The
  names \<open>balloc\<close>, \<open>ialloc\<close> and \<open>main\<close> of the source are \<open>mk_balloc\<close>, \<open>mk_ialloc\<close> and \<open>mkfs\<close> here.
\<close>

section \<open>State\<close>

definition FSSIZE :: nat where "FSSIZE = 2000"
definition NINODES :: nat where "NINODES = 200"
definition nbitmap :: nat where "nbitmap = FSSIZE div (BSIZE * 8) + 1"
definition ninodeblocks :: nat where "ninodeblocks = NINODES div IPB + 1"
definition LOGSIZE :: nat where "LOGSIZE = 30"
definition nmeta :: nat where "nmeta = 2 + LOGSIZE + ninodeblocks + nbitmap"

record mk_st =
  img :: "u8 list list"
  mk_sb :: superblock
  freeinode :: u32
  freeblock :: u32

section \<open>Sectors and inodes\<close>

definition xshort :: "u16 \<Rightarrow> u16" where
  "xshort x = rd16 (wr16 [0, 0] 0 x) 0"

definition xint :: "u32 \<Rightarrow> u32" where
  "xint x = rd32 (wr32 [0, 0, 0, 0] 0 x) 0"

text \<open>The offset \<open>sec * BSIZE\<close> is computed in 32 bits. Writing beyond the end leaves a hole of zeroes; reading beyond
  the end is a short read.\<close>

definition sect_index :: "u32 \<Rightarrow> nat" where
  "sect_index sec = unat (sec * 1024) div 1024"

definition wsect :: "u32 \<Rightarrow> u8 list \<Rightarrow> (unit, 'z mk_st_scheme) kop" where
  "wsect sec buf = kmod (\<lambda>s.
     let n = sect_index sec; im = img s @ replicate (Suc n - length (img s)) (replicate BSIZE 0) in s\<lparr>img := im[n := buf]\<rparr>)"

definition rsect :: "u32 \<Rightarrow> (u8 list, 'z mk_st_scheme) kop" where
  "rsect sec = kbind (kget img) (\<lambda>im. if sect_index sec < length im then kret (im ! sect_index sec) else kfault ''read'')"

definition winode :: "u32 \<Rightarrow> dinode \<Rightarrow> (unit, 'z mk_st_scheme) kop" where
  "winode inum ip =
     kbind (kget (\<lambda>s. IBLOCK inum (mk_sb s))) (\<lambda>bn.
     kbind (rsect bn) (\<lambda>buf.
     wsect bn (enc_dinode buf (unat inum mod IPB) ip)))"

definition rinode :: "u32 \<Rightarrow> (dinode, 'z mk_st_scheme) kop" where
  "rinode inum =
     kbind (kget (\<lambda>s. IBLOCK inum (mk_sb s))) (\<lambda>bn.
     kbind (rsect bn) (\<lambda>buf.
     kret (dec_dinode buf (unat inum mod IPB))))"

definition mk_ialloc :: "u16 \<Rightarrow> (u32, 'z mk_st_scheme) kop" where
  "mk_ialloc type =
     kbind (kget freeinode) (\<lambda>inum.
     kthen (kmod (\<lambda>s. s\<lparr>freeinode := freeinode s + 1\<rparr>)) (
     kthen (winode inum \<lparr>di_type = xshort type, di_major = 0, di_minor = 0, di_nlink = xshort 1, di_size = xint 0,
        di_addrs = replicate 13 0\<rparr>) (
     kret inum)))"

fun mk_bits :: "u8 list \<Rightarrow> nat list \<Rightarrow> u8 list" where
  "mk_bits buf [] = buf"
| "mk_bits buf (i # is) = mk_bits (buf[i div 8 := (buf ! (i div 8)) OR push_bit (i mod 8) 1]) is"

definition mk_balloc :: "nat \<Rightarrow> (unit, 'z mk_st_scheme) kop" where
  "mk_balloc used =
     (if \<not> used < BSIZE * 8 then kpanic ''assert(used < BSIZE*8)''
      else kbind (kget (\<lambda>s. bmapstart (mk_sb s))) (\<lambda>bn. wsect bn (mk_bits (replicate BSIZE 0) [0..<used])))"

section \<open>Appending to a file\<close>

definition new_block :: "(u32, 'z mk_st_scheme) kop" where
  "new_block = kbind (kget freeblock) (\<lambda>b. kthen (kmod (\<lambda>s. s\<lparr>freeblock := freeblock s + 1\<rparr>)) (kret (xint b)))"

text \<open>The block for file block \<open>fbn\<close>, allocated if there is none; the inode is a local copy.\<close>

definition block_for :: "dinode \<Rightarrow> nat \<Rightarrow> (dinode \<times> u32, 'z mk_st_scheme) kop" where
  "block_for din fbn =
     (if fbn < NDIRECT then
        kbind (if xint (di_addrs din ! fbn) = 0
               then kbind new_block (\<lambda>b. kret (din\<lparr>di_addrs := (di_addrs din)[fbn := b]\<rparr>))
               else kret din) (\<lambda>din'.
        kret (din', xint (di_addrs din' ! fbn)))
      else
        kbind (if xint (di_addrs din ! NDIRECT) = 0
               then kbind new_block (\<lambda>b. kret (din\<lparr>di_addrs := (di_addrs din)[NDIRECT := b]\<rparr>))
               else kret din) (\<lambda>din'.
        kbind (rsect (xint (di_addrs din' ! NDIRECT))) (\<lambda>ind.
        if rd32 ind (4 * (fbn - NDIRECT)) = 0 then
          kbind new_block (\<lambda>b.
          let ind' = wr32 ind (4 * (fbn - NDIRECT)) b in
          kthen (wsect (xint (di_addrs din' ! NDIRECT)) ind') (
          kret (din', xint (rd32 ind' (4 * (fbn - NDIRECT))))))
        else kret (din', xint (rd32 ind (4 * (fbn - NDIRECT)))))))"

function iappend_loop :: "dinode \<Rightarrow> nat \<Rightarrow> u8 list \<Rightarrow> (dinode \<times> nat, 'z mk_st_scheme) kop" where
  "iappend_loop din off p =
     (if p = [] then kret (din, off)
      else if \<not> off div BSIZE < MAXFILE then kpanic ''assert(fbn < MAXFILE)''
      else
        let fbn = off div BSIZE; n1 = min (length p) ((fbn + 1) * BSIZE - off) in
        kbind (block_for din fbn) (\<lambda>(din', x).
        kbind (rsect x) (\<lambda>buf.
        kthen (wsect x (take (off - fbn * BSIZE) buf @ take n1 p @ drop (off - fbn * BSIZE + n1) buf)) (
        iappend_loop din' (off + n1) (drop n1 p)))))"
  by pat_completeness auto
termination
proof (relation "measure (\<lambda>(din, off, p). length p)", goal_cases)
  case (2 din off p)
  have "(off div BSIZE + 1) * BSIZE - off > 0" by (simp add: BSIZE_def)
  then show ?case using 2 by (cases p) (auto simp: min_def)
qed simp

declare iappend_loop.simps [simp del]

definition iappend :: "u32 \<Rightarrow> u8 list \<Rightarrow> (unit, 'z mk_st_scheme) kop" where
  "iappend inum p =
     kbind (rinode inum) (\<lambda>din.
     kbind (iappend_loop din (unat (xint (di_size din))) p) (\<lambda>(din', off).
     winode inum (din'\<lparr>di_size := xint (of_nat off)\<rparr>)))"

section \<open>The program\<close>

definition dirent :: "u16 \<Rightarrow> u8 list \<Rightarrow> u8 list" where
  "dirent inum name = wr16 (replicate 2 0 @ take DIRSIZ (cstr name @ replicate DIRSIZ 0)) 0 (xshort inum)"

text \<open>The name of a file in the image: without \<open>src/user/\<close> and without a leading underscore.\<close>

definition short_name :: "u8 list \<Rightarrow> u8 list" where
  "short_name arg =
     (let s = (if take 9 arg = map of_char ''src/user/'' then drop 9 arg else arg) in
      case s of c # cs \<Rightarrow> if c = 95 then cs else s | [] \<Rightarrow> s)"

text \<open>A file is read in pieces of a block.\<close>

fun append_file :: "u32 \<Rightarrow> u8 list list \<Rightarrow> (unit, 'z mk_st_scheme) kop" where
  "append_file inum [] = kret ()"
| "append_file inum (c # cs) = kthen (iappend inum c) (append_file inum cs)"

definition pieces :: "u8 list \<Rightarrow> u8 list list" where
  "pieces d = map (\<lambda>i. take BSIZE (drop (i * BSIZE) d)) [0..<(length d + BSIZE - 1) div BSIZE]"

fun add_files :: "u32 \<Rightarrow> (u8 list \<times> u8 list) list \<Rightarrow> (unit, 'z mk_st_scheme) kop" where
  "add_files rootino [] = kret ()"
| "add_files rootino ((arg, d) # fs) =
     kbind (mk_ialloc 2) (\<lambda>inum.
     kthen (iappend rootino (dirent (ucast inum) (short_name arg))) (
     kthen (append_file inum (pieces d)) (
     add_files rootino fs)))"

fun wipe :: "nat list \<Rightarrow> (unit, 'z mk_st_scheme) kop" where
  "wipe [] = kret ()"
| "wipe (i # is) = kthen (wsect (of_nat i) (replicate BSIZE 0)) (wipe is)"

definition put_super :: "superblock \<Rightarrow> u8 list" where
  "put_super b = put_ints 0 [magic b, sb_size b, nblocks b, ninodes b, nlog b, logstart b, inodestart b, bmapstart b, dataStart b] 9
     (replicate BSIZE 0)"

definition the_super :: superblock where
  "the_super = \<lparr>magic = FSMAGIC, sb_size = xint (of_nat FSSIZE), nblocks = xint (of_nat (FSSIZE - nmeta)),
     ninodes = xint (of_nat NINODES), nlog = xint (of_nat LOGSIZE), logstart = xint 2, inodestart = xint (of_nat (2 + LOGSIZE)),
     bmapstart = xint (of_nat (2 + LOGSIZE + ninodeblocks)), dataStart = 0\<rparr>"

definition mkfs :: "(u8 list \<times> u8 list) list \<Rightarrow> (unit, 'z mk_st_scheme) kop" where
  "mkfs fs =
     kthen (kmod (\<lambda>s. s\<lparr>mk_sb := the_super\<rparr>)) (
     kthen (kmod (\<lambda>s. s\<lparr>freeblock := of_nat nmeta\<rparr>)) (
     kthen (wipe [0..<FSSIZE]) (
     kthen (wsect 1 (put_super the_super)) (
     kbind (mk_ialloc 1) (\<lambda>rootino.
     if rootino \<noteq> ROOTINO then kpanic ''assert(rootino == ROOTINO)''
     else
       kthen (iappend rootino (dirent (ucast rootino) (map of_char ''.''))) (
       kthen (iappend rootino (dirent (ucast rootino) (map of_char ''..''))) (
       kthen (add_files rootino fs) (
       kbind (rinode rootino) (\<lambda>din.
       kthen (winode rootino (din\<lparr>di_size := xint ((xint (di_size din) div 1024 + 1) * 1024)\<rparr>)) (
       kbind (kget (\<lambda>s. unat (freeblock s))) mk_balloc))))))))))"

section \<open>The shape of the image\<close>

text \<open>\<open>shaped P f Q\<close>: from a state with \<open>P\<close> the run of \<open>f\<close> ends in one of the failed assertions, in a short read, or returns
  with \<open>Q\<close>.\<close>

definition asserts :: "string set" where
  "asserts = {''assert(used < BSIZE*8)'', ''assert(fbn < MAXFILE)'', ''assert(rootino == ROOTINO)''}"

definition shaped :: "('s \<Rightarrow> bool) \<Rightarrow> ('a, 's) kop \<Rightarrow> ('a \<Rightarrow> 's \<Rightarrow> bool) \<Rightarrow> bool" where
  "shaped P f Q \<longleftrightarrow> (\<forall>s. P s \<longrightarrow> (case f s of Ret x t \<Rightarrow> Q x t | Panic e \<Rightarrow> e \<in> asserts | Fault e \<Rightarrow> e = ''read''
     | Spin \<Rightarrow> False | Switch t \<Rightarrow> False))"

definition blocks_ok :: "nat \<Rightarrow> 'z mk_st_scheme \<Rightarrow> bool" where
  "blocks_ok n s \<longleftrightarrow> n \<le> length (img s) \<and> (\<forall>b \<in> set (img s). length b = BSIZE) \<and> mk_sb s = the_super"

lemma shaped_kbind:
  assumes "shaped P m R" and "\<And>x. shaped (R x) (f x) Q"
  shows "shaped P (kbind m f) Q"
  using assms by (fastforce simp: shaped_def kbind_def split: outcome.splits)

lemma shaped_kret: "(\<And>s. P s \<Longrightarrow> Q x s) \<Longrightarrow> shaped P (kret x) Q"
  by (simp add: shaped_def)

lemma shaped_Ret: "(\<And>s. P s \<Longrightarrow> Q x s) \<Longrightarrow> shaped P (Ret x) Q"
  by (simp add: shaped_def)

lemma shaped_kget: "shaped P (kget f) (\<lambda>x. P)"
  by (simp add: shaped_def)

lemma shaped_kmod: "(\<And>s. P s \<Longrightarrow> Q () (f s)) \<Longrightarrow> shaped P (kmod f) Q"
  by (simp add: shaped_def)

lemma shaped_kpanic: "e \<in> asserts \<Longrightarrow> shaped P (kpanic e) Q"
  by (simp add: shaped_def)

lemma shaped_kfault: "shaped P (kfault ''read'') Q"
  by (simp add: shaped_def)

lemma shaped_if: "(b \<Longrightarrow> shaped P f Q) \<Longrightarrow> (\<not> b \<Longrightarrow> shaped P g Q) \<Longrightarrow> shaped P (if b then f else g) Q"
  by simp

lemma shaped_weaken: "shaped P f Q \<Longrightarrow> (\<And>x s. Q x s \<Longrightarrow> Q' x s) \<Longrightarrow> shaped P f Q'"
  by (auto simp: shaped_def split: outcome.splits)

lemma shaped_fact: "(A \<Longrightarrow> shaped P f Q) \<Longrightarrow> shaped (\<lambda>s. A \<and> P s) f Q"
  by (auto simp: shaped_def)

lemma wsect_shaped:
  assumes "length b = BSIZE"
  shows "shaped (blocks_ok n) (wsect sec b) (\<lambda>_ s. blocks_ok n s \<and> sect_index sec < length (img s))"
proof -
  have "set (xs[i := b]) \<subseteq> insert b (set xs)" for xs i by (rule set_update_subset_insert)
  then show ?thesis using assms
    by (fastforce simp: shaped_def wsect_def blocks_ok_def Let_def set_replicate_conv_if split: if_splits)
qed

lemma wsect_keeps: "length b = BSIZE \<Longrightarrow> shaped (blocks_ok n) (wsect sec b) (\<lambda>_. blocks_ok n)"
  by (rule shaped_weaken [OF wsect_shaped]) simp_all

lemma rsect_shaped: "shaped (blocks_ok n) (rsect sec) (\<lambda>b s. length b = BSIZE \<and> blocks_ok n s)"
  by (simp add: shaped_def rsect_def blocks_ok_def)

lemma winode_shaped: "shaped (blocks_ok n) (winode inum ip) (\<lambda>_. blocks_ok n)"
  unfolding winode_def
  by (rule shaped_kbind [OF shaped_kget shaped_kbind [OF rsect_shaped]])
    (auto intro!: shaped_fact wsect_keeps)

lemma rinode_shaped: "shaped (blocks_ok n) (rinode inum) (\<lambda>_. blocks_ok n)"
  unfolding rinode_def
  by (rule shaped_kbind [OF shaped_kget shaped_kbind [OF rsect_shaped]]) (auto intro!: shaped_fact shaped_kret)

lemma mk_ialloc_shaped: "shaped (blocks_ok n) (mk_ialloc type) (\<lambda>_. blocks_ok n)"
  unfolding mk_ialloc_def
  by (rule shaped_kbind [OF shaped_kget shaped_kbind [OF shaped_kmod shaped_kbind [OF winode_shaped shaped_kret]]])
    (simp_all add: blocks_ok_def)

lemma new_block_shaped: "shaped (blocks_ok n) new_block (\<lambda>_. blocks_ok n)"
  unfolding new_block_def
  by (rule shaped_kbind [OF shaped_kget shaped_kbind [OF shaped_kmod shaped_kret]]) (simp_all add: blocks_ok_def)

lemma block_for_shaped: "shaped (blocks_ok n) (block_for din fbn) (\<lambda>_. blocks_ok n)"
proof -
  have al: "shaped (blocks_ok n) (if c then kbind new_block (\<lambda>b. kret (g b)) else kret din') (\<lambda>_. blocks_ok n)"
    for c and g :: "u32 \<Rightarrow> dinode" and din'
    by (intro shaped_if shaped_kbind [OF new_block_shaped] shaped_kret)
  have put: "shaped (blocks_ok n) (kthen (wsect x (wr32 ind k b)) (kret r)) (\<lambda>_. blocks_ok n)"
    if "length ind = BSIZE" for x ind k b and r :: "dinode \<times> u32"
    using that by (intro shaped_kbind [OF wsect_shaped] shaped_kret) auto
  show ?thesis
    unfolding block_for_def Let_def
    by (intro shaped_if shaped_kbind [OF al] shaped_kret shaped_kbind [OF rsect_shaped] shaped_fact
        shaped_kbind [OF new_block_shaped] put)
qed

lemma splice_length: "a + n \<le> k \<Longrightarrow> n \<le> length p \<Longrightarrow> length b = k \<Longrightarrow> length (take a b @ take n p @ drop (a + n) b) = k"
  by simp

lemma iappend_loop_shaped: "shaped (blocks_ok n :: 'z mk_st_scheme \<Rightarrow> bool) (iappend_loop din off p) (\<lambda>_. blocks_ok n)"
proof (induction p arbitrary: din off rule: measure_induct_rule [of length])
  case (less p)
  let ?f = "off div BSIZE"
  let ?n = "min (length p) ((?f + 1) * BSIZE - off)"
  have len: "length (take (off - ?f * BSIZE) b @ take ?n p @ drop (off - ?f * BSIZE + ?n) b) = BSIZE"
    if "length b = BSIZE" for b
  proof -
    have "off - ?f * BSIZE + ?n \<le> BSIZE" by (simp add: BSIZE_def)
    then show ?thesis using that by (intro splice_length) simp_all
  qed
  have rest: "shaped (blocks_ok n :: 'z mk_st_scheme \<Rightarrow> bool) (iappend_loop d o' (drop ?n p)) (\<lambda>_. blocks_ok n)" if "p \<noteq> []" for d o'
  proof (rule less.IH)
    have "0 < ?n" using that by (simp add: BSIZE_def)
    then show "length (drop ?n p) < length p" using that by (cases p) simp_all
  qed
  have turn: "shaped (blocks_ok n :: 'z mk_st_scheme \<Rightarrow> bool) (kbind (rsect x) (\<lambda>b. kthen (wsect x (take (off - ?f * BSIZE) b @ take ?n p @ drop (off - ?f * BSIZE + ?n) b))
      (iappend_loop d (off + ?n) (drop ?n p)))) (\<lambda>_. blocks_ok n)" if "p \<noteq> []" for d x
    by (intro shaped_kbind [OF rsect_shaped] shaped_fact shaped_kbind [OF wsect_keeps [OF len] rest [OF that]])
  show ?case
    unfolding iappend_loop.simps [of din off p] Let_def split_def
    by (intro shaped_if shaped_kret shaped_kpanic shaped_kbind [OF block_for_shaped] turn) (simp_all add: asserts_def)
qed

lemma iappend_shaped: "shaped (blocks_ok n) (iappend inum p) (\<lambda>_. blocks_ok n)"
  unfolding iappend_def
  by (rule shaped_kbind [OF rinode_shaped shaped_kbind [OF iappend_loop_shaped]]) (simp add: split_def winode_shaped)

lemma append_file_shaped: "shaped (blocks_ok n) (append_file inum cs) (\<lambda>_. blocks_ok n)"
  by (induction cs) (auto intro: shaped_Ret shaped_kbind [OF iappend_shaped])

lemma add_files_shaped: "shaped (blocks_ok n) (add_files r fs) (\<lambda>_. blocks_ok n)"
  by (induction r fs rule: add_files.induct)
    (auto intro!: shaped_Ret shaped_kbind [OF mk_ialloc_shaped] shaped_kbind [OF iappend_shaped]
      shaped_kbind [OF append_file_shaped])

lemma sect_index_small: "i < 4194304 \<Longrightarrow> sect_index (of_nat i) = i"
  by (simp add: sect_index_def unat_word_ariths unat_of_nat)

lemma wipe_shaped: "m \<le> n \<Longrightarrow> n \<le> 4194304 \<Longrightarrow> shaped (blocks_ok m :: 'z mk_st_scheme \<Rightarrow> bool) (wipe [m..<n]) (\<lambda>_. blocks_ok n)"
proof (induction "n - m" arbitrary: m)
  case 0
  then show ?case by (simp add: shaped_Ret)
next
  case (Suc k)
  then have m: "m < n" "[m..<n] = m # [Suc m..<n]" by (simp_all add: upt_conv_Cons)
  have "shaped (blocks_ok m :: 'z mk_st_scheme \<Rightarrow> bool) (wsect (of_nat m) (replicate BSIZE 0)) (\<lambda>_. blocks_ok (Suc m))"
    using m(1) Suc.prems(2) by (intro shaped_weaken [OF wsect_shaped]) (simp_all add: sect_index_small blocks_ok_def)
  moreover have "shaped (blocks_ok (Suc m) :: 'z mk_st_scheme \<Rightarrow> bool) (wipe [Suc m..<n]) (\<lambda>_. blocks_ok n)"
    by (rule Suc.hyps(1)) (use Suc.hyps(2) Suc.prems(2) m(1) in simp_all)
  ultimately show ?case unfolding m(2) wipe.simps by (rule shaped_kbind)
qed

lemma mk_balloc_shaped: "shaped (blocks_ok n) (mk_balloc used) (\<lambda>_. blocks_ok n)"
proof -
  have "length (mk_bits b is) = length b" for b "is" by (induction b "is" rule: mk_bits.induct) simp_all
  then show ?thesis
    unfolding mk_balloc_def
    by (intro shaped_if shaped_kpanic shaped_kbind [OF shaped_kget] wsect_keeps) (simp_all add: asserts_def)
qed

lemma length_put_super: "length (put_super b) = BSIZE"
  by (simp add: put_super_def)

lemma mk_bits_mark: "mk_bits d cs = foldl mark d cs"
  by (induction d cs rule: mk_bits.induct) (simp_all add: mark_def)

lemma map_bit_mk_bits:
  "(\<And>c. c \<in> set cs \<Longrightarrow> c div 8 < length d) \<Longrightarrow> map_bit (mk_bits d cs) b \<longleftrightarrow> b \<in> set cs \<or> map_bit d b"
  unfolding mk_bits_mark
proof (induction cs arbitrary: d)
  case (Cons c cs)
  have "map_bit (foldl mark (mark d c) cs) b \<longleftrightarrow> b \<in> set cs \<or> map_bit (mark d c) b"
    using Cons.prems by (intro Cons.IH) (simp add: mark_def)
  then show ?case using Cons.prems map_bit_mark(1) [of c d b] by auto
qed simp

text \<open>The last step of \<open>mkfs\<close> writes a bitmap in which exactly the blocks below \<open>freeblock\<close> are taken.\<close>

definition bitmap_ok :: "'z mk_st_scheme \<Rightarrow> bool" where
  "bitmap_ok s \<longleftrightarrow> unat (freeblock s) < BSIZE * 8
     \<and> img s ! unat (bmapstart the_super) = mk_bits (replicate BSIZE 0) [0..<unat (freeblock s)]"

lemma bmapstart_super: "bmapstart the_super = 45"
  by (simp add: the_super_def ninodeblocks_def LOGSIZE_def NINODES_def IPB_def BSIZE_def xint_def rd32_wr32)

lemma length_mk_bits [simp]: "length (mk_bits b cs) = length b"
  by (induction b cs rule: mk_bits.induct) simp_all

lemma wsect_bitmap:
  assumes "blocks_ok FSSIZE s" and "length b = BSIZE"
  shows "wsect 45 b s = Ret () (s\<lparr>img := (img s)[45 := b]\<rparr>)" and "blocks_ok FSSIZE (s\<lparr>img := (img s)[45 := b]\<rparr>)"
proof -
  have l: "2000 \<le> length (img s)" using assms(1) by (simp add: blocks_ok_def FSSIZE_def)
  then show w: "wsect 45 b s = Ret () (s\<lparr>img := (img s)[45 := b]\<rparr>)" by (simp add: wsect_def sect_index_def)
  show "blocks_ok FSSIZE (s\<lparr>img := (img s)[45 := b]\<rparr>)"
    using wsect_keeps [OF assms(2), of FSSIZE 45] assms(1) w by (auto simp: shaped_def)
qed

lemma last_step_shaped:
  "shaped (blocks_ok FSSIZE) (kbind (kget (\<lambda>s. unat (freeblock s))) mk_balloc) (\<lambda>_ s. blocks_ok FSSIZE s \<and> bitmap_ok s)"
  unfolding shaped_def
proof (intro allI impI)
  fix s :: "'z mk_st_scheme"
  assume s: "blocks_ok FSSIZE s"
  let ?b = "mk_bits (replicate BSIZE 0) [0..<unat (freeblock s)]"
  let ?t = "s\<lparr>img := (img s)[45 := ?b]\<rparr>"
  have l: "45 < length (img s)" and sb: "mk_sb s = the_super" using s by (auto simp: blocks_ok_def FSSIZE_def)
  note w = wsect_bitmap [OF s, of ?b]
  have run: "kbind (kget (\<lambda>s. unat (freeblock s))) mk_balloc s =
      (if unat (freeblock s) < BSIZE * 8 then Ret () ?t else Panic ''assert(used < BSIZE*8)'')"
    using w(1) by (simp add: mk_balloc_def sb bmapstart_super)
  have "blocks_ok FSSIZE ?t \<and> bitmap_ok ?t" if "unat (freeblock s) < BSIZE * 8"
    using w(2) that l by (simp add: bitmap_ok_def bmapstart_super)
  then show "case kbind (kget (\<lambda>s. unat (freeblock s))) mk_balloc s of Ret x t \<Rightarrow> blocks_ok FSSIZE t \<and> bitmap_ok t
      | Panic e \<Rightarrow> e \<in> asserts | Fault e \<Rightarrow> e = ''read'' | Spin \<Rightarrow> False | Switch t \<Rightarrow> False"
    unfolding run by (cases "unat (freeblock s) < BSIZE * 8") (simp_all add: asserts_def)
qed

lemma mkfs_shaped: "shaped (\<lambda>s. img s = []) (mkfs fs) (\<lambda>_ s. blocks_ok FSSIZE s \<and> bitmap_ok s)"
proof -
  have s0: "shaped (\<lambda>s. img s = []) (kmod (\<lambda>s. s\<lparr>mk_sb := the_super\<rparr>)) (\<lambda>_. blocks_ok 0 :: 'a mk_st_scheme \<Rightarrow> bool)"
    by (intro shaped_kmod) (simp add: blocks_ok_def)
  have s1: "shaped (blocks_ok 0) (kmod (\<lambda>s. s\<lparr>freeblock := of_nat nmeta\<rparr>)) (\<lambda>_. blocks_ok 0 :: 'a mk_st_scheme \<Rightarrow> bool)"
    by (intro shaped_kmod) (simp add: blocks_ok_def)
  have wipe0: "shaped (blocks_ok 0) (wipe [0..<FSSIZE]) (\<lambda>_. blocks_ok FSSIZE :: 'a mk_st_scheme \<Rightarrow> bool)"
    by (intro wipe_shaped) (simp_all add: FSSIZE_def)
  have super: "shaped (blocks_ok FSSIZE) (wsect 1 (put_super the_super)) (\<lambda>_. blocks_ok FSSIZE :: 'a mk_st_scheme \<Rightarrow> bool)"
    by (rule wsect_keeps [OF length_put_super])
  show ?thesis
    unfolding mkfs_def
    by (intro shaped_kbind [OF s0] shaped_kbind [OF s1] shaped_kbind [OF wipe0] shaped_kbind [OF super] shaped_kbind [OF mk_ialloc_shaped]
        shaped_if shaped_kpanic shaped_kbind [OF iappend_shaped] shaped_kbind [OF add_files_shaped]
        shaped_kbind [OF rinode_shaped] shaped_kbind [OF winode_shaped] last_step_shaped)
      (simp_all add: asserts_def)
qed


section \<open>The empty file system\<close>

lemma xint_id [simp]: "xint x = x"
  by (simp add: xint_def rd32_wr32)

lemma xshort_id [simp]: "xshort x = x"
  by (simp add: xshort_def rd16_wr16)

lemma super_parts: "inodestart the_super = 32" "sb_size the_super = 2000" "IBLOCK 1 the_super = 32"
  by (simp_all add: the_super_def LOGSIZE_def FSSIZE_def IBLOCK_def IPB_def)

lemma wsect_in: "sect_index sec < length (img s) \<Longrightarrow> wsect sec b s = Ret () (s\<lparr>img := (img s)[sect_index sec := b]\<rparr>)"
  by (simp add: wsect_def Let_def Suc_leI)

lemma rsect_in: "sect_index sec < length (img s) \<Longrightarrow> rsect sec s = Ret (img s ! sect_index sec) s"
  by (simp add: rsect_def)

lemma wipe_run:
  "m + n \<le> 4194304 \<Longrightarrow> img s = replicate m (replicate BSIZE 0) \<Longrightarrow>
   wipe [m..<m + n] s = Ret () (s\<lparr>img := replicate (m + n) (replicate BSIZE 0)\<rparr>)"
proof (induction n arbitrary: m s)
  case (Suc n)
  let ?z = "replicate BSIZE (0 :: u8)"
  have u: "[m..<m + Suc n] = m # [Suc m..<Suc m + n]" by (simp add: upt_conv_Cons del: upt_Suc)
  have rep: "replicate (Suc m) ?z = replicate m ?z @ [?z]" by (simp add: replicate_append_same)
  have "wsect (of_nat m) ?z s = Ret () (s\<lparr>img := replicate (Suc m) ?z\<rparr>)"
    unfolding rep using Suc.prems by (simp add: wsect_def sect_index_small list_update_append)
  then show ?case unfolding u wipe.simps using Suc.IH [of "Suc m" "s\<lparr>img := replicate (Suc m) ?z\<rparr>"] Suc.prems(1)
    by (simp add: kbind_Ret del: replicate_Suc)
qed simp

text \<open>\<open>iappend\<close> of a piece that stays in the first block of a file.\<close>

lemma iappend_first_block:
  assumes sb: "mk_sb s = the_super" and len: "length (img s) = 2000" "length (img s ! 32) = BSIZE"
    and din: "dec_dinode (img s ! 32) 1 = din" "length (di_addrs din) = 13" "unat (di_size din) = off"
    and p: "p \<noteq> []" "off + length p \<le> BSIZE"
    and x: "x = (if di_addrs din ! 0 = 0 then freeblock s else di_addrs din ! 0)" "46 \<le> x" "x < 2000"
  defines "din' \<equiv> din\<lparr>di_addrs := (di_addrs din)[0 := x], di_size := of_nat (off + length p)\<rparr>"
  shows "iappend 1 p s = Ret () (s\<lparr>freeblock := (if di_addrs din ! 0 = 0 then freeblock s + 1 else freeblock s),
     img := (img s)[unat x := take off (img s ! unat x) @ p @ drop (off + length p) (img s ! unat x), 32 := enc_dinode (img s ! 32) 1 din']\<rparr>)"
proof -
  let ?s1 = "s\<lparr>freeblock := (if di_addrs din ! 0 = 0 then freeblock s + 1 else freeblock s)\<rparr>"
  let ?d1 = "din\<lparr>di_addrs := (di_addrs din)[0 := x]\<rparr>"
  have ux: "46 \<le> unat x" "unat x < 2000" using x(2,3) by (simp_all add: word_le_nat_alt word_less_nat_alt)
  have si: "sect_index x = unat x" using sect_index_small [of "unat x"] ux by simp
  have o: "off < BSIZE" "off div BSIZE = 0" using p by (cases p; simp add: BSIZE_def)+
  have s32: "sect_index 32 = 32" by (simp add: sect_index_def)
  have rin: "rinode 1 s = Ret din s"
    using len din(1) by (simp add: rinode_def sb super_parts IPB_def kbind_Ret [OF rsect_in] s32)
  have blkfor: "block_for din 0 s = Ret (?d1, x) ?s1"
    using x(1) din(2) by (cases "di_addrs din ! 0 = 0") (simp_all add: block_for_def NDIRECT_def new_block_def kbind_assoc kbind_Ret)
  have n1: "min (length p) ((0 + 1) * BSIZE - off) = length p" using p(2) by simp
  let ?im = "(img s)[unat x := take off (img s ! unat x) @ p @ drop (off + length p) (img s ! unat x)]"
  have loop: "iappend_loop din off p s = Ret (?d1, off + length p) (?s1\<lparr>img := ?im\<rparr>)"
    using p(1) o ux len(1)
    by (subst iappend_loop.simps)
      (simp add: Let_def MAXFILE_def NDIRECT_def n1 [simplified] kbind_Ret [of "block_for din 0" s, OF blkfor] rsect_in wsect_in si
        iappend_loop.simps [of _ _ "[]"] kbind_Ret)
  have "winode 1 din' (?s1\<lparr>img := ?im\<rparr>) = Ret () (?s1\<lparr>img := ?im[32 := enc_dinode (img s ! 32) 1 din']\<rparr>)"
    using ux len by (simp add: winode_def sb super_parts IPB_def kbind_Ret [OF rsect_in] wsect_in s32)
  then show ?thesis
    using din(3) by (simp add: iappend_def kbind_Ret [of "rinode 1" s, OF rin] kbind_Ret [of "iappend_loop din off p" s, OF loop] din'_def)
qed

text \<open>The root directory of an image without files.\<close>

definition root_dinode :: "u32 \<Rightarrow> u32 \<Rightarrow> dinode" where
  "root_dinode sz b = \<lparr>di_type = 1, di_major = 0, di_minor = 0, di_nlink = 1, di_size = sz, di_addrs = (replicate 13 0)[0 := b]\<rparr>"

definition mk0 :: mk_st where
  "mk0 = \<lparr>img = [], mk_sb = the_super, freeinode = 1, freeblock = 0\<rparr>"

lemma length_dirent: "length (dirent n nm) = 16"
  by (simp add: dirent_def DIRSIZ_def)

definition root_state :: "mk_st \<Rightarrow> nat \<Rightarrow> u32 \<Rightarrow> bool" where
  "root_state s sz b \<longleftrightarrow> mk_sb s = the_super \<and> length (img s) = 2000 \<and> length (img s ! 32) = BSIZE
     \<and> dec_dinode (img s ! 32) 1 = root_dinode (of_nat sz) b \<and> freeblock s = (if b = 0 then 46 else 47)"

lemma dec_enc_root: "length d = BSIZE \<Longrightarrow> dec_dinode (enc_dinode d 1 (root_dinode sz b)) 1 = root_dinode sz b"
  by (intro dec_enc_dinode) (simp_all add: root_dinode_def BSIZE_def)

lemma sect_index_32: "sect_index 32 = 32" "sect_index 1 = 1"
  by (simp_all add: sect_index_def)

lemma winode_root:
  assumes "mk_sb s = the_super" and "length (img s) = 2000"
  shows "winode 1 d s = Ret () (s\<lparr>img := (img s)[32 := enc_dinode (img s ! 32) 1 d]\<rparr>)"
  using assms by (simp add: winode_def super_parts IPB_def kbind_Ret [OF rsect_in] wsect_in sect_index_32)

lemma iappend_root:
  assumes s: "root_state s sz b" and b: "b = 0 \<or> b = 46" and p: "p \<noteq> []" "sz + length p \<le> BSIZE"
  obtains t where "iappend 1 p s = Ret () t" and "root_state t (sz + length p) 46"
proof -
  have sz: "unat (of_nat sz :: u32) = sz" using p by (simp add: BSIZE_def unat_of_nat)
  have d: "dec_dinode (img s ! 32) 1 = root_dinode (of_nat sz) b" using s by (simp add: root_state_def)
  let ?t = "s\<lparr>freeblock := 47, img := (img s)[46 := take sz (img s ! 46) @ p @ drop (sz + length p) (img s ! 46),
      32 := enc_dinode (img s ! 32) 1 (root_dinode (of_nat (sz + length p)) 46)]\<rparr>"
  have "iappend 1 p s = Ret () ?t"
    using iappend_first_block [of s "root_dinode (of_nat sz) b" sz p 46] s d sz p b
    by (auto simp: root_state_def root_dinode_def)
  moreover have "root_state ?t (sz + length p) 46"
    using s dec_enc_root [of "img s ! 32" "of_nat (sz + length p)" 46] by (simp add: root_state_def)
  ultimately show thesis by (rule that)
qed

lemma iappend_dirent:
  assumes "root_state s sz b" and "b = 0 \<or> b = 46" and "sz + 16 \<le> BSIZE"
  obtains t where "iappend 1 (dirent n nm) s = Ret () t" and "root_state t (sz + 16) 46"
proof -
  have "dirent n nm \<noteq> []" using length_dirent [of n nm] by auto
  then obtain t where "iappend 1 (dirent n nm) s = Ret () t" "root_state t (sz + length (dirent n nm)) 46"
    using iappend_root [OF assms(1,2), of "dirent n nm"] assms(3) unfolding length_dirent by metis
  then show thesis unfolding length_dirent by (rule that)
qed

lemma mkfs_empty:
  obtains m where "mkfs [] mk0 = Ret () m" and "freeblock m = 47" and "dec_dinode (img m ! 32) 1 = root_dinode 1024 46"
    and "length (img m) = 2000"
proof -
  let ?z = "replicate BSIZE (0 :: u8)"
  define s0 where "s0 = mk0\<lparr>mk_sb := the_super, freeblock := of_nat nmeta\<rparr>"
  have nm: "of_nat nmeta = (46 :: u32)"
    by (simp add: nmeta_def LOGSIZE_def ninodeblocks_def NINODES_def IPB_def nbitmap_def FSSIZE_def BSIZE_def)
  have s0: "img s0 = []" "mk_sb s0 = the_super" "freeinode s0 = 1" "freeblock s0 = 46" by (simp_all add: s0_def mk0_def nm)
  define s1 where "s1 = s0\<lparr>img := replicate 2000 ?z\<rparr>"
  have w1: "wipe [0..<FSSIZE] s0 = Ret () s1" using wipe_run [of 0 2000 s0] s0(1) by (simp add: FSSIZE_def s1_def)
  define s2 where "s2 = s1\<lparr>img := (img s1)[1 := put_super the_super]\<rparr>"
  have l1: "length (img s1) = 2000" "img s1 ! 32 = ?z" by (simp_all add: s1_def)
  have w2: "wsect 1 (put_super the_super) s1 = Ret () s2"
    using wsect_in [of 1 s1] l1(1) by (simp add: sect_index_32 s2_def)
  have l2: "length (img s2) = 2000" "img s2 ! 32 = ?z" "mk_sb s2 = the_super" "freeinode s2 = 1" "freeblock s2 = 46"
    using l1 s0 by (simp_all add: s2_def s1_def)
  have rp: "(replicate 13 (0 :: u32))[0 := 0] = replicate 13 0" by (simp add: list_update_same_conv)
  define s3 where "s3 = s2\<lparr>freeinode := 2, img := (img s2)[32 := enc_dinode ?z 1 (root_dinode 0 0)]\<rparr>"
  have w3: "mk_ialloc 1 s2 = Ret 1 s3"
    using l2 winode_root [of "s2\<lparr>freeinode := 2\<rparr>"] rp
    by (simp add: mk_ialloc_def root_dinode_def kbind_Ret s3_def)
  have "root_state s3 0 0" using l2 dec_enc_root [of ?z 0 0] by (simp add: s3_def root_state_def)
  then obtain s4 where w4: "iappend 1 (dirent 1 (map of_char ''.'')) s3 = Ret () s4" "root_state s4 (0 + 16) 46"
    by (rule iappend_dirent) (simp_all add: BSIZE_def)
  from w4(2) obtain s5 where w5: "iappend 1 (dirent 1 (map of_char ''..'')) s4 = Ret () s5" "root_state s5 (0 + 16 + 16) 46"
    by (rule iappend_dirent) (simp_all add: BSIZE_def)
  have l5: "mk_sb s5 = the_super" "length (img s5) = 2000" "length (img s5 ! 32) = BSIZE" "freeblock s5 = 47"
      "dec_dinode (img s5 ! 32) 1 = root_dinode 32 46"
    using w5(2) by (simp_all add: root_state_def)
  have r6: "rinode 1 s5 = Ret (root_dinode 32 46) s5"
    using l5 by (simp add: rinode_def super_parts IPB_def kbind_Ret [OF rsect_in] sect_index_32)
  define s6 where "s6 = s5\<lparr>img := (img s5)[32 := enc_dinode (img s5 ! 32) 1 (root_dinode 1024 46)]\<rparr>"
  have w6: "winode 1 (root_dinode 1024 46) s5 = Ret () s6" using winode_root [OF l5(1,2)] by (simp add: s6_def)
  define m where "m = s6\<lparr>img := (img s6)[45 := mk_bits (replicate BSIZE 0) [0..<47]]\<rparr>"
  have w7: "mk_balloc (unat (freeblock s6)) s6 = Ret () m"
    using l5 by (simp add: mk_balloc_def BSIZE_def s6_def bmapstart_super wsect_in sect_index_def m_def)
  have d6: "(root_dinode 32 46)\<lparr>di_size := di_size (root_dinode 32 46) div 1024 * 1024 + 1024\<rparr> = root_dinode 1024 46"
    by (simp add: root_dinode_def)
  have "mkfs [] mk0 = Ret () m"
    unfolding mkfs_def
    by (simp only: kbind_kmod s0_def [symmetric] kbind_Ret w1 w2 w3)
      (simp add: ROOTINO_def kbind_Ret w4(1) [simplified] w5(1) [simplified] r6 d6 w6 w7)
  then show thesis
    using that [of m] l5 dec_enc_root [OF l5(3), of 1024 46] by (simp add: m_def s6_def)
qed

end
