(* ===== verification/Mkimage.thy ===== *)
theory Mkimage
  imports Mkfs "HOL-Library.Multiset"
begin

text \<open>
  What an image built by \<open>mkfs\<close> holds. A file is seen as the triple of its disk inode, the number of its blocks and its
  bytes; the invariant \<open>fs_inv\<close> says that the blocks behind the inodes hold these bytes, that no block belongs to two
  files, that the blocks in use are exactly those between the meta data and \<open>freeblock\<close>, and that the others are zero.
  \<open>iappend\<close> appends to the bytes of one file and leaves the others alone, and \<open>mkfs\<close> stores every file it is given.
\<close>

section \<open>Files in an image\<close>

definition nblk :: "nat \<Rightarrow> nat" where
  "nblk sz = (sz + BSIZE - 1) div BSIZE"

text \<open>The block that holds block \<open>j\<close> of a file.\<close>

definition blk_at :: "u8 list list \<Rightarrow> dinode \<Rightarrow> nat \<Rightarrow> nat" where
  "blk_at im d j = (if j < NDIRECT then unat (di_addrs d ! j)
     else unat (rd32 (im ! unat (di_addrs d ! NDIRECT)) (4 * (j - NDIRECT))))"

definition blks :: "u8 list list \<Rightarrow> dinode \<Rightarrow> nat \<Rightarrow> nat list" where
  "blks im d n = map (blk_at im d) [0..<n] @ (if n > NDIRECT then [unat (di_addrs d ! NDIRECT)] else [])"

definition bytes_of :: "u8 list list \<Rightarrow> dinode \<Rightarrow> nat \<Rightarrow> u8 list" where
  "bytes_of im d n = concat (map (\<lambda>j. im ! blk_at im d j) [0..<n])"

definition file_bytes :: "u8 list list \<Rightarrow> dinode \<Rightarrow> u8 list" where
  "file_bytes im d = take (unat (di_size d)) (bytes_of im d (nblk (unat (di_size d))))"

text \<open>The number of blocks a file of \<open>n\<close> data blocks takes.\<close>

definition cost :: "nat \<Rightarrow> nat" where
  "cost n = n + (if n > NDIRECT then 1 else 0)"

type_synonym mfile = "dinode \<times> nat \<times> u8 list"

definition unused_zero :: "u8 list list \<Rightarrow> dinode \<Rightarrow> nat \<Rightarrow> bool" where
  "unused_zero im d n \<longleftrightarrow> (\<forall>j < NDIRECT. n \<le> j \<longrightarrow> di_addrs d ! j = 0) \<and> (n \<le> NDIRECT \<longrightarrow> di_addrs d ! NDIRECT = 0)
     \<and> (NDIRECT < n \<longrightarrow> (\<forall>j < MAXFILE. n \<le> j \<longrightarrow> blk_at im d j = 0))"

definition file_ok :: "u8 list list \<Rightarrow> mfile \<Rightarrow> bool" where
  "file_ok im f = (case f of (d, n, c) \<Rightarrow> length (di_addrs d) = 13 \<and> n \<le> MAXFILE \<and> length c \<le> n * BSIZE \<and> unused_zero im d n
     \<and> bytes_of im d n = c @ replicate (n * BSIZE - length c) 0)"

definition all_blks :: "u8 list list \<Rightarrow> mfile list \<Rightarrow> nat multiset" where
  "all_blks im A = (\<Sum>(d, n, c) \<leftarrow> A. mset (blks im d n))"

definition fs_inv :: "u8 list list \<Rightarrow> nat \<Rightarrow> mfile list \<Rightarrow> bool" where
  "fs_inv im F A \<longleftrightarrow> length im = FSSIZE \<and> (\<forall>b \<in> set im. length b = BSIZE) \<and> nmeta \<le> F \<and> F \<le> FSSIZE
     \<and> (\<forall>b < FSSIZE. F \<le> b \<longrightarrow> im ! b = replicate BSIZE 0)
     \<and> (\<forall>f \<in> set A. file_ok im f) \<and> all_blks im A = mset [nmeta..<F]"

section \<open>Frames\<close>

lemma blk_at_frame:
  assumes "n > NDIRECT \<Longrightarrow> im' ! unat (di_addrs d ! NDIRECT) = im ! unat (di_addrs d ! NDIRECT)" and "n > NDIRECT \<or> j < n"
  shows "blk_at im' d j = blk_at im d j"
  using assms by (auto simp: blk_at_def)

lemma blks_frame:
  assumes "\<And>b. b \<in> set (blks im d n) \<Longrightarrow> im' ! b = im ! b"
  shows "blks im' d n = blks im d n" and "bytes_of im' d n = bytes_of im d n" and "unused_zero im' d n = unused_zero im d n"
proof -
  have ind: "im' ! unat (di_addrs d ! NDIRECT) = im ! unat (di_addrs d ! NDIRECT)" if "n > NDIRECT"
    using assms that by (simp add: blks_def)
  have at: "blk_at im' d j = blk_at im d j" if "n > NDIRECT \<or> j < n" for j
    by (rule blk_at_frame [OF ind that])
  show "blks im' d n = blks im d n" by (simp add: blks_def at)
  have "im' ! blk_at im d j = im ! blk_at im d j" if "j < n" for j
    using assms that by (simp add: blks_def)
  then show "bytes_of im' d n = bytes_of im d n"
    unfolding bytes_of_def by (intro arg_cong [where f = concat] map_cong refl) (simp add: at)
  show "unused_zero im' d n = unused_zero im d n" by (auto simp: unused_zero_def at)
qed

lemma file_ok_frame:
  "(\<And>b. b \<in> set (blks im d n) \<Longrightarrow> im' ! b = im ! b) \<Longrightarrow> file_ok im' (d, n, c) = file_ok im (d, n, c)"
  using blks_frame [of im d n im'] by (simp add: file_ok_def)

lemma all_blks_frame:
  "(\<And>d n c b. (d, n, c) \<in> set A \<Longrightarrow> b \<in> set (blks im d n) \<Longrightarrow> im' ! b = im ! b) \<Longrightarrow> all_blks im' A = all_blks im A"
proof (induction A)
  case (Cons f A)
  obtain d n c where f: "f = (d, n, c)" by (cases f)
  have "blks im' d n = blks im d n" by (rule blks_frame(1)) (rule Cons.prems [of d n c], simp_all add: f)
  moreover have "all_blks im' A = all_blks im A" by (rule Cons.IH) (meson Cons.prems list.set_intros(2))
  ultimately show ?case by (simp add: all_blks_def f)
qed (simp add: all_blks_def)

lemma all_blks_Nil [simp]: "all_blks im [] = {#}"
  by (simp add: all_blks_def)

lemma all_blks_append [simp]: "all_blks im (A @ B) = all_blks im A + all_blks im B"
  by (simp add: all_blks_def)

lemma all_blks_Cons [simp]: "all_blks im ((d, n, c) # A) = mset (blks im d n) + all_blks im A"
  by (simp add: all_blks_def)

lemma set_all_blks: "(d, n, c) \<in> set A \<Longrightarrow> set (blks im d n) \<subseteq> set_mset (all_blks im A)"
  by (induction A) (auto simp: all_blks_def)

section \<open>One file changes\<close>

lemma fs_inv_blks:
  assumes "fs_inv im F A" and "(d, n, c) \<in> set A" and "b \<in> set (blks im d n)"
  shows "nmeta \<le> b" and "b < F"
proof -
  have "b \<in> set_mset (all_blks im A)" using set_all_blks [OF assms(2)] assms(3) by blast
  then show "nmeta \<le> b" and "b < F" using assms(1) by (auto simp: fs_inv_def)
qed

lemma fs_inv_disjoint:
  assumes inv: "fs_inv im F (A1 @ (d, n, c) # A2)" and f: "(d', n', c') \<in> set (A1 @ A2)" and b: "b \<in> set (blks im d' n')"
  shows "b \<notin> set (blks im d n)"
proof
  assume "b \<in> set (blks im d n)"
  then have 1: "count (mset (blks im d n)) b \<ge> 1" by (simp add: Suc_leI)
  have "b \<in> set_mset (all_blks im (A1 @ A2))" using set_all_blks [OF f] b by blast
  then have 2: "count (all_blks im (A1 @ A2)) b \<ge> 1" by (metis Suc_leI One_nat_def count_greater_zero_iff)
  have "count (mset [nmeta..<F]) b \<le> 1"
    using distinct_count_atmost_1 [of "[nmeta..<F]"] by (simp split: if_splits)
  moreover have "mset [nmeta..<F] = mset (blks im d n) + all_blks im (A1 @ A2)" using inv by (simp add: fs_inv_def ac_simps)
  ultimately have "count (mset (blks im d n)) b + count (all_blks im (A1 @ A2)) b \<le> 1" by (metis count_union)
  then show False using 1 2 by linarith
qed

lemma fs_upd:
  assumes inv: "fs_inv im F A" and i: "i < length A" "A ! i = (d, n, c)"
    and im': "length im' = FSSIZE" "\<forall>b \<in> set im'. length b = BSIZE" and F': "F \<le> F'" "F' \<le> FSSIZE"
    and keep: "\<And>b. b < FSSIZE \<Longrightarrow> b \<notin> set (blks im d n) \<Longrightarrow> b < F \<or> F' \<le> b \<Longrightarrow> im' ! b = im ! b"
    and new: "file_ok im' (d', n', c')" "mset (blks im' d' n') = mset (blks im d n) + mset [F..<F']"
  shows "fs_inv im' F' (A[i := (d', n', c')])" and "\<forall>b < nmeta. im' ! b = im ! b"
proof -
  let ?A1 = "take i A" and ?A2 = "drop (Suc i) A"
  have A: "A = ?A1 @ (d, n, c) # ?A2" using id_take_nth_drop [OF i(1)] i(2) by simp
  have A': "A[i := (d', n', c')] = ?A1 @ (d', n', c') # ?A2" by (rule upd_conv_take_nth_drop [OF i(1)])
  have F: "nmeta \<le> F" "F \<le> FSSIZE" using inv by (auto simp: fs_inv_def)
  have old: "nmeta \<le> b \<and> b < F" if "b \<in> set (blks im d n)" for b
    using fs_inv_blks [OF inv _ that, of c] i by (metis nth_mem)
  show "\<forall>b < nmeta. im' ! b = im ! b" using keep F old by (meson leD less_le_trans)
  have other: "im' ! b = im ! b" if f: "(e, k, x) \<in> set (?A1 @ ?A2)" and b: "b \<in> set (blks im e k)" for e k x b
  proof -
    have "(e, k, x) \<in> set A" using f by (metis A Un_iff list.set_intros(2) set_append)
    then have "b < F" by (rule fs_inv_blks(2) [OF inv _ b])
    moreover have "b \<notin> set (blks im d n)" using fs_inv_disjoint [OF _ f b] inv A by metis
    ultimately show ?thesis using keep F by simp
  qed
  have "file_ok im' f" if "f \<in> set (?A1 @ ?A2)" for f
  proof (cases f)
    case (fields e k x)
    have "file_ok im f" using that inv by (auto simp: fs_inv_def dest: in_set_takeD in_set_dropD)
    then show ?thesis using file_ok_frame [of im e k im' x] other [of e k x] that by (simp add: fields)
  qed
  then have ok: "\<forall>f \<in> set (A[i := (d', n', c')]). file_ok im' f" unfolding A' using new(1) by auto
  have rest: "all_blks im' (?A1 @ ?A2) = all_blks im (?A1 @ ?A2)" by (rule all_blks_frame) (rule other)
  have "all_blks im' (A[i := (d', n', c')]) = mset (blks im' d' n') + all_blks im' (?A1 @ ?A2)" unfolding A' by simp
  also have "\<dots> = all_blks im A + mset [F..<F']" unfolding rest new(2) by (subst (3) A) (simp add: ac_simps)
  also have "\<dots> = mset ([nmeta..<F] @ [F..<F'])" using inv by (simp add: fs_inv_def)
  also have "[nmeta..<F] @ [F..<F'] = [nmeta..<F']" using F F'(1) upt_add_eq_append [of nmeta F "F' - F"] by simp
  finally have all: "all_blks im' (A[i := (d', n', c')]) = mset [nmeta..<F']" .
  have "im' ! b = replicate BSIZE 0" if "b < FSSIZE" "F' \<le> b" for b
    using keep [of b] that inv F'(1) old [of b] by (auto simp: fs_inv_def)
  then show "fs_inv im' F' (A[i := (d', n', c')])" using im' F F' ok all by (simp add: fs_inv_def)
qed

section \<open>The last block of a file\<close>

lemma fs_inv_distinct:
  assumes "fs_inv im F A" and "(d, n, c) \<in> set A"
  shows "distinct (blks im d n)"
proof -
  have "mset (blks im d n) \<subseteq># all_blks im A" using assms(2) by (induction A) (auto simp: all_blks_def intro: subset_mset.add_increasing)
  then have "mset (blks im d n) \<subseteq># mset [nmeta..<F]" using assms(1) by (simp add: fs_inv_def)
  then have "count (mset (blks im d n)) b \<le> count (mset [nmeta..<F]) b" for b by (rule mset_subset_eq_count)
  moreover have "count (mset [nmeta..<F]) b \<le> 1" for b
    using distinct_count_atmost_1 [of "[nmeta..<F]"] by (simp split: if_splits)
  ultimately have "count (mset (blks im d n)) b \<le> 1" for b using le_trans by blast
  then show ?thesis unfolding distinct_count_atmost_1
    by (metis One_nat_def count_greater_zero_iff le_antisym less_one not_le Suc_leI count_eq_zero_iff set_mset_mset)
qed

lemma upd_lengths: "\<forall>b \<in> set im. length b = n \<Longrightarrow> length v = n \<Longrightarrow> \<forall>b \<in> set (im[x := v]). length b = n"
  by (metis insert_iff set_update_subset_insert subset_iff)

lemma fs_inv_len: "fs_inv im F A \<Longrightarrow> b < FSSIZE \<Longrightarrow> length (im ! b) = BSIZE"
  by (simp add: fs_inv_def)

lemma bytes_of_Suc: "bytes_of im d (Suc k) = bytes_of im d k @ im ! blk_at im d k"
  by (simp add: bytes_of_def)

lemma bytes_of_cong: "(\<And>j. j < n \<Longrightarrow> im' ! blk_at im' d' j = im ! blk_at im d j) \<Longrightarrow> bytes_of im' d' n = bytes_of im d n"
  unfolding bytes_of_def by (intro arg_cong [where f = concat] map_cong refl) simp

lemma length_bytes_of: "(\<And>j. j < n \<Longrightarrow> length (im ! blk_at im d j) = BSIZE) \<Longrightarrow> length (bytes_of im d n) = n * BSIZE"
  by (induction n) (simp_all add: bytes_of_Suc, simp add: bytes_of_def)

lemma blk_at_mem: "j < n \<Longrightarrow> blk_at im d j \<in> set (blks im d n)"
  by (simp add: blks_def)

lemma fs_inv_length_bytes:
  assumes "fs_inv im F A" and "(d, n, c) \<in> set A" and "k \<le> n"
  shows "length (bytes_of im d k) = k * BSIZE"
proof (rule length_bytes_of)
  fix j assume "j < k"
  then have "blk_at im d j < F" using fs_inv_blks(2) [OF assms(1,2) blk_at_mem] assms(3) by simp
  then show "length (im ! blk_at im d j) = BSIZE" using assms(1) by (intro fs_inv_len [OF assms(1)]) (simp add: fs_inv_def)
qed

lemma last_block:
  assumes "fs_inv im F A" and "(d, Suc k, c) \<in> set A" and "k * BSIZE \<le> length c"
  shows "bytes_of im d k = take (k * BSIZE) c" and "im ! blk_at im d k = drop (k * BSIZE) c @ replicate (Suc k * BSIZE - length c) 0"
proof -
  have "bytes_of im d (Suc k) = c @ replicate (Suc k * BSIZE - length c) 0" using assms(1,2) by (auto simp: fs_inv_def file_ok_def)
  then have e: "bytes_of im d k @ im ! blk_at im d k = take (k * BSIZE) c @ (drop (k * BSIZE) c @ replicate (Suc k * BSIZE - length c) 0)"
    by (simp add: bytes_of_Suc)
  have l: "length (bytes_of im d k) = length (take (k * BSIZE) c)" using fs_inv_length_bytes [OF assms(1,2), of k] assms(3) by simp
  from append_eq_append_conv [THEN iffD1, OF disjI1 [OF l] e]
  show "bytes_of im d k = take (k * BSIZE) c" and "im ! blk_at im d k = drop (k * BSIZE) c @ replicate (Suc k * BSIZE - length c) 0"
    by blast+
qed

lemma write_last:
  assumes inv: "fs_inv im F A" and i: "i < length A" "A ! i = (d, Suc k, c)"
    and off: "k * BSIZE \<le> length c" "length c + length q \<le> Suc k * BSIZE"
  defines "x \<equiv> blk_at im d k" and "a \<equiv> length c - k * BSIZE"
  defines "im' \<equiv> im[x := take a (im ! x) @ q @ drop (a + length q) (im ! x)]"
  shows "fs_inv im' F (A[i := (d, Suc k, c @ q)])" and "\<forall>b < nmeta. im' ! b = im ! b"
proof -
  have m: "(d, Suc k, c) \<in> set A" using i by (metis nth_mem)
  have xm: "x \<in> set (blks im d (Suc k))" by (simp add: x_def blk_at_mem)
  have F: "F \<le> FSSIZE" "length im = FSSIZE" "\<forall>b \<in> set im. length b = BSIZE" and ok: "file_ok im (d, Suc k, c)"
    using inv m by (auto simp: fs_inv_def)
  have xF: "x < FSSIZE" using fs_inv_blks(2) [OF inv m xm] F by simp
  note lb = last_block [OF inv m off(1), folded x_def]
  have new: "take a (im ! x) @ q @ drop (a + length q) (im ! x) = drop (k * BSIZE) c @ q @ replicate (Suc k * BSIZE - length c - length q) 0"
    using off by (simp add: lb(2) a_def)
  have nl: "length (take a (im ! x) @ q @ drop (a + length q) (im ! x)) = BSIZE" unfolding new using off by simp
  have len: "length im' = FSSIZE" and lens: "\<forall>b \<in> set im'. length b = BSIZE"
    unfolding im'_def using F(2) by simp (rule upd_lengths [OF F(3) nl])
  have dist: "distinct (blks im d (Suc k))" by (rule fs_inv_distinct [OF inv m])
  have ind: "x \<noteq> unat (di_addrs d ! NDIRECT)" if "Suc k > NDIRECT" using dist that by (auto simp: blks_def x_def)
  have at: "blk_at im' d j = blk_at im d j" if "NDIRECT < Suc k \<or> j < Suc k" for j
    using ind by (intro blk_at_frame [of "Suc k"] that) (simp add: im'_def)
  have ne: "blk_at im d j \<noteq> x" if "j < k" for j
    using dist that unfolding blks_def x_def by (metis atLeast0LessThan distinct_append distinct_map inj_on_def lessI less_SucI lessThan_iff less_irrefl set_upt)
  have low: "bytes_of im' d k = bytes_of im d k" 
  proof (rule bytes_of_cong)
    fix j assume j: "j < k"
    then have "im' ! blk_at im d j = im ! blk_at im d j" using ne [OF j] by (simp add: im'_def)
    then show "im' ! blk_at im' d j = im ! blk_at im d j" using at [of j] j by simp
  qed
  have "im' ! blk_at im' d k = drop (k * BSIZE) c @ q @ replicate (Suc k * BSIZE - length c - length q) 0"
    using F(2) xF at [of k] by (simp add: x_def [symmetric]) (simp add: im'_def new)
  then have "bytes_of im' d (Suc k) = take (k * BSIZE) c @ drop (k * BSIZE) c @ q @ replicate (Suc k * BSIZE - length c - length q) 0"
    unfolding bytes_of_Suc low lb(1) by (simp only: append_assoc)
  then have bytes: "bytes_of im' d (Suc k) = (c @ q) @ replicate (Suc k * BSIZE - length (c @ q)) 0" by simp
  have "unused_zero im' d (Suc k)" using ok by (auto simp: file_ok_def unused_zero_def at)
  then have okn: "file_ok im' (d, Suc k, c @ q)" using ok bytes off(2) by (simp add: file_ok_def)
  have b: "blks im' d (Suc k) = blks im d (Suc k)" by (simp add: blks_def at)
  have bl: "mset (blks im' d (Suc k)) = mset (blks im d (Suc k)) + mset [F..<F]" unfolding b by simp
  have keep: "im' ! b = im ! b" if "b \<notin> set (blks im d (Suc k))" for b using xm that unfolding im'_def by (metis nth_list_update_neq)
  show "fs_inv im' F (A[i := (d, Suc k, c @ q)])" and "\<forall>b < nmeta. im' ! b = im ! b"
    using fs_upd [OF inv i len lens order_refl F(1) keep okn bl] by blast+
qed

section \<open>A new block\<close>

lemma rd32_zero: "i + 3 < n \<Longrightarrow> rd32 (replicate n 0) i = 0"
  by (simp add: rd32_def)

lemma unat_block: "b \<le> FSSIZE + 2 \<Longrightarrow> unat (of_nat b :: u32) = b"
  by (simp add: FSSIZE_def unat_of_nat)

lemma file_ok_grow:
  assumes ok: "file_ok im (d, n, c)" and full: "length c = n * BSIZE" and n: "n < MAXFILE"
    and d': "length (di_addrs d') = 13" "unused_zero im' d' (Suc n)"
    and old: "bytes_of im' d' n = bytes_of im d n" and x: "im' ! blk_at im' d' n = replicate BSIZE 0"
  shows "file_ok im' (d', Suc n, c)"
  using assms by (simp add: file_ok_def bytes_of_Suc)

lemma alloc_direct:
  assumes inv: "fs_inv im F A" and i: "i < length A" "A ! i = (d, n, c)" and n: "n < NDIRECT" and full: "length c = n * BSIZE"
    and F: "F < FSSIZE"
  defines "d' \<equiv> d\<lparr>di_addrs := (di_addrs d)[n := of_nat F]\<rparr>"
  shows "fs_inv im (Suc F) (A[i := (d', Suc n, c)])" and "blk_at im d' n = F"
proof -
  have m: "(d, n, c) \<in> set A" using i by (metis nth_mem)
  have ok: "file_ok im (d, n, c)" and im: "length im = FSSIZE" "\<forall>b \<in> set im. length b = BSIZE" "im ! F = replicate BSIZE 0"
    using inv m F by (auto simp: fs_inv_def)
  have la: "length (di_addrs d) = 13" using ok by (simp add: file_ok_def)
  show x: "blk_at im d' n = F" using n la F by (simp add: blk_at_def d'_def unat_block NDIRECT_def)
  have at: "blk_at im d' j = blk_at im d j" if "j < n" for j using that n by (simp add: blk_at_def d'_def)
  then have old: "bytes_of im d' n = bytes_of im d n" by (intro bytes_of_cong) simp
  have "unused_zero im d' (Suc n)" using ok n by (auto simp: file_ok_def unused_zero_def d'_def NDIRECT_def)
  then have okn: "file_ok im (d', Suc n, c)"
    using n la im(3) x by (intro file_ok_grow [OF ok full _ _ _ old]) (simp_all add: d'_def MAXFILE_def)
  have "map (blk_at im d') [0..<n] = map (blk_at im d) [0..<n]" by (simp add: at)
  then have b: "blks im d' (Suc n) = map (blk_at im d) [0..<n] @ [F]" using n x by (simp add: blks_def)
  have bl: "mset (blks im d' (Suc n)) = mset (blks im d n) + mset [F..<Suc F]" unfolding b using n by (simp add: blks_def)
  have F1: "F \<le> Suc F" "Suc F \<le> FSSIZE" using F by simp_all
  show "fs_inv im (Suc F) (A[i := (d', Suc n, c)])" by (rule fs_upd(1) [OF inv i im(1,2) F1 refl okn bl])
qed

lemma alloc_first_indirect:
  assumes inv: "fs_inv im F A" and i: "i < length A" "A ! i = (d, NDIRECT, c)" and full: "length c = NDIRECT * BSIZE"
    and F: "Suc F < FSSIZE"
  defines "d' \<equiv> d\<lparr>di_addrs := (di_addrs d)[NDIRECT := of_nat F]\<rparr>" and "im' \<equiv> im[F := wr32 (im ! F) 0 (of_nat (Suc F))]"
  shows "fs_inv im' (Suc (Suc F)) (A[i := (d', Suc NDIRECT, c)])" and "blk_at im' d' NDIRECT = Suc F"
    and "\<forall>b < nmeta. im' ! b = im ! b"
proof -
  have m: "(d, NDIRECT, c) \<in> set A" using i by (metis nth_mem)
  have ok: "file_ok im (d, NDIRECT, c)" and im: "length im = FSSIZE" "\<forall>b \<in> set im. length b = BSIZE" "im ! F = replicate BSIZE 0"
      "im ! Suc F = replicate BSIZE 0"
    using inv m F by (auto simp: fs_inv_def)
  have la: "length (di_addrs d) = 13" using ok by (simp add: file_ok_def)
  have lw: "length (wr32 (im ! F) 0 (of_nat (Suc F))) = BSIZE" by (simp add: im)
  have len: "length im' = FSSIZE" and lens: "\<forall>b \<in> set im'. length b = BSIZE"
    unfolding im'_def using im(1) by simp (rule upd_lengths [OF im(2) lw])
  have ind: "unat (di_addrs d' ! NDIRECT) = F" "im' ! F = wr32 (replicate BSIZE 0) 0 (of_nat (Suc F))"
    using la F im by (simp_all add: d'_def im'_def NDIRECT_def unat_block)
  show x: "blk_at im' d' NDIRECT = Suc F"
    using F by (simp add: blk_at_def ind rd32_wr32 BSIZE_def unat_block del: of_nat_Suc)
  have at: "blk_at im' d' j = blk_at im d j" if "j < NDIRECT" for j using that by (simp add: blk_at_def d'_def)
  have "im' ! blk_at im d j = im ! blk_at im d j" if "j < NDIRECT" for j
    using fs_inv_blks(2) [OF inv m blk_at_mem [OF that]] by (simp add: im'_def)
  then have old: "bytes_of im' d' NDIRECT = bytes_of im d NDIRECT" by (intro bytes_of_cong) (simp add: at)
  have "blk_at im' d' j = 0" if "Suc NDIRECT \<le> j" "j < MAXFILE" for j
  proof -
    have "rd32 (wr32 (replicate BSIZE 0) 0 (of_nat (Suc F))) (4 * (j - NDIRECT)) = rd32 (replicate BSIZE 0) (4 * (j - NDIRECT))"
      using that by (intro rd_cong(2) wr_other(2)) (simp_all add: NDIRECT_def)
    also have "\<dots> = 0" using that by (intro rd32_zero) (simp add: BSIZE_def MAXFILE_def NINDIRECT_def)
    finally show ?thesis using that by (simp add: blk_at_def ind)
  qed
  then have "unused_zero im' d' (Suc NDIRECT)" by (simp add: unused_zero_def)
  then have okn: "file_ok im' (d', Suc NDIRECT, c)"
    using la im(4) x by (intro file_ok_grow [OF ok full _ _ _ old]) (simp_all add: d'_def im'_def MAXFILE_def NINDIRECT_def)
  have b: "blks im' d' (Suc NDIRECT) = map (blk_at im d) [0..<NDIRECT] @ [Suc F, F]" using x ind(1) by (simp add: blks_def at)
  have bl: "mset (blks im' d' (Suc NDIRECT)) = mset (blks im d NDIRECT) + mset [F..<Suc (Suc F)]" unfolding b by (simp add: blks_def)
  have F1: "F \<le> Suc (Suc F)" "Suc (Suc F) \<le> FSSIZE" using F by simp_all
  have keep: "im' ! b = im ! b" if "b < F \<or> Suc (Suc F) \<le> b" for b using that by (auto simp: im'_def nth_list_update)
  show "fs_inv im' (Suc (Suc F)) (A[i := (d', Suc NDIRECT, c)])" and "\<forall>b < nmeta. im' ! b = im ! b"
    using fs_upd [OF inv i len lens F1 keep okn bl] by blast+
qed

lemma alloc_indirect:
  assumes inv: "fs_inv im F A" and i: "i < length A" "A ! i = (d, n, c)" and n: "NDIRECT < n" "n < MAXFILE"
    and full: "length c = n * BSIZE" and F: "F < FSSIZE"
  defines "y \<equiv> unat (di_addrs d ! NDIRECT)"
  defines "im' \<equiv> im[y := wr32 (im ! y) (4 * (n - NDIRECT)) (of_nat F)]"
  shows "fs_inv im' (Suc F) (A[i := (d, Suc n, c)])" and "blk_at im' d n = F" and "\<forall>b < nmeta. im' ! b = im ! b"
proof -
  have m: "(d, n, c) \<in> set A" using i by (metis nth_mem)
  have ok: "file_ok im (d, n, c)" and im: "length im = FSSIZE" "\<forall>b \<in> set im. length b = BSIZE" "im ! F = replicate BSIZE 0"
    using inv m F by (auto simp: fs_inv_def)
  have ym: "y \<in> set (blks im d n)" using n(1) by (simp add: blks_def y_def)
  have yF: "y < F" by (rule fs_inv_blks(2) [OF inv m ym])
  have ly: "length (im ! y) = BSIZE" using yF F by (intro fs_inv_len [OF inv]) simp
  then have lw: "length (wr32 (im ! y) (4 * (n - NDIRECT)) (of_nat F)) = BSIZE" by simp
  have len: "length im' = FSSIZE" and lens: "\<forall>b \<in> set im'. length b = BSIZE"
    unfolding im'_def using im(1) by simp (rule upd_lengths [OF im(2) lw])
  have iy: "im' ! y = wr32 (im ! y) (4 * (n - NDIRECT)) (of_nat F)" using yF F im(1) by (simp add: im'_def)
  show x: "blk_at im' d n = F"
  proof -
    have "4 * (n - NDIRECT) + 3 < length (im ! y)" using n ly by (simp add: BSIZE_def MAXFILE_def NINDIRECT_def)
    then show ?thesis using n(1) F by (simp add: blk_at_def y_def [symmetric] iy rd32_wr32 unat_block)
  qed
  have at: "blk_at im' d j = blk_at im d j" if "j \<noteq> n" for j
  proof (cases "j < NDIRECT")
    case False
    then have "rd32 (wr32 (im ! y) (4 * (n - NDIRECT)) (of_nat F)) (4 * (j - NDIRECT)) = rd32 (im ! y) (4 * (j - NDIRECT))"
      using that n(1) by (intro rd_cong(2) wr_other(2)) linarith+
    then show ?thesis using False by (simp add: blk_at_def y_def [symmetric] iy)
  qed (simp add: blk_at_def)
  have dist: "distinct (blks im d n)" by (rule fs_inv_distinct [OF inv m])
  then have "y \<noteq> blk_at im d j" if "j < n" for j using that n(1) by (auto simp: blks_def y_def)
  then have "im' ! blk_at im d j = im ! blk_at im d j" if "j < n" for j using that by (simp add: im'_def)
  then have old: "bytes_of im' d n = bytes_of im d n" by (intro bytes_of_cong) (simp add: at)
  have "unused_zero im' d (Suc n)" using ok n by (auto simp: file_ok_def unused_zero_def at)
  then have okn: "file_ok im' (d, Suc n, c)"
    using ok n(2) im(3) x yF by (intro file_ok_grow [OF ok full _ _ _ old]) (simp_all add: file_ok_def im'_def)
  have b: "blks im' d (Suc n) = map (blk_at im d) [0..<n] @ [F, y]" using n(1) x by (simp add: blks_def at y_def)
  have bl: "mset (blks im' d (Suc n)) = mset (blks im d n) + mset [F..<Suc F]" unfolding b using n(1) by (simp add: blks_def y_def)
  have F1: "F \<le> Suc F" "Suc F \<le> FSSIZE" using F by simp_all
  have keep: "im' ! b = im ! b" if "b \<notin> set (blks im d n)" for b using ym that unfolding im'_def by (metis nth_list_update_neq)
  show "fs_inv im' (Suc F) (A[i := (d, Suc n, c)])" and "\<forall>b < nmeta. im' ! b = im ! b"
    using fs_upd [OF inv i len lens F1 keep okn bl] by blast+
qed

section \<open>block_for\<close>

definition mk_inv :: "'z mk_st_scheme \<Rightarrow> mfile list \<Rightarrow> bool" where
  "mk_inv s A \<longleftrightarrow> mk_sb s = the_super \<and> fs_inv (img s) (unat (freeblock s)) A"

definition grown :: "'z mk_st_scheme \<Rightarrow> 'z mk_st_scheme \<Rightarrow> bool" where
  "grown s t \<longleftrightarrow> freeinode t = freeinode s \<and> (\<forall>b < nmeta. img t ! b = img s ! b)"

lemma grown_refl [simp]: "grown s s"
  by (simp add: grown_def)

lemma grown_trans: "grown s t \<Longrightarrow> grown t u \<Longrightarrow> grown s u"
  by (simp add: grown_def)

lemma sect_index_block: "b < FSSIZE \<Longrightarrow> unat x = b \<Longrightarrow> sect_index x = b"
  using sect_index_small [of b] by (auto simp: FSSIZE_def)

lemma mk_inv_nth:
  assumes "mk_inv s A" and "i < length A" and "A ! i = (d, n, c)"
  shows "fs_inv (img s) (unat (freeblock s)) A" and "(d, n, c) \<in> set A" and "length (di_addrs d) = 13"
    and "length (img s) = FSSIZE" and "unused_zero (img s) d n"
proof -
  show m: "(d, n, c) \<in> set A" using assms(2,3) by (metis nth_mem)
  show "fs_inv (img s) (unat (freeblock s)) A" using assms(1) by (simp add: mk_inv_def)
  then show "length (di_addrs d) = 13" "length (img s) = FSSIZE" "unused_zero (img s) d n"
    using m by (auto simp: fs_inv_def file_ok_def)
qed

lemma block_for_old:
  assumes s: "mk_inv s A" and i: "i < length A" "A ! i = (din, Suc k, c)"
  shows "block_for din k s = Ret (din, of_nat (blk_at (img s) din k)) s"
proof -
  note n = mk_inv_nth [OF s i]
  have pos: "0 < b \<and> b < FSSIZE" if "b \<in> set (blks (img s) din (Suc k))" for b
    using fs_inv_blks [OF n(1,2) that] n(1) by (auto simp: fs_inv_def nmeta_def)
  have x: "0 < blk_at (img s) din k" using pos [OF blk_at_mem] by simp
  show ?thesis
  proof (cases "k < NDIRECT")
    case True
    then show ?thesis using x by (auto simp: block_for_def blk_at_def)
  next
    case False
    let ?y = "di_addrs din ! NDIRECT"
    have "unat ?y \<in> set (blks (img s) din (Suc k))" using False by (simp add: blks_def)
    from pos [OF this] have y: "?y \<noteq> 0" "sect_index ?y = unat ?y" "unat ?y < length (img s)"
      using n(4) sect_index_block by (auto simp: unat_gt_0)
    then show ?thesis using False x by (auto simp: block_for_def blk_at_def rsect_in kbind_Ret)
  qed
qed

lemma new_block_run: "new_block s = Ret (freeblock s) (s\<lparr>freeblock := freeblock s + 1\<rparr>)"
  by (simp add: new_block_def)

lemma cost_Suc: "cost (Suc n) = cost n + (if n = NDIRECT then 2 else 1)"
  by (simp add: cost_def)

lemma unat_freeblock: "unat (freeblock s) < FSSIZE \<Longrightarrow> unat (freeblock s + 1) = Suc (unat (freeblock s))"
  by (simp add: FSSIZE_def unat_word_ariths)

lemma block_for_new:
  assumes s: "mk_inv s A" and i: "i < length A" "A ! i = (din, n, c)" and full: "length c = n * BSIZE" and n: "n < MAXFILE"
    and room: "unat (freeblock s) + cost (Suc n) \<le> FSSIZE + cost n"
  shows "\<exists>din' x t. block_for din n s = Ret (din', x) t \<and> mk_inv t (A[i := (din', Suc n, c)]) \<and> unat x = blk_at (img t) din' n
     \<and> grown s t \<and> unat (freeblock t) + cost n = unat (freeblock s) + cost (Suc n) \<and> din' = din\<lparr>di_addrs := di_addrs din'\<rparr>"
proof -
  note inv = mk_inv_nth [OF s i]
  let ?F = "unat (freeblock s)"
  have F: "?F < FSSIZE" and F1: "n = NDIRECT \<Longrightarrow> Suc ?F < FSSIZE" using room by (simp_all add: cost_Suc split: if_splits)
  note uF = unat_freeblock [OF F]
  consider (direct) "n < NDIRECT" | (first) "n = NDIRECT" | (ind) "NDIRECT < n" by linarith
  then show ?thesis
  proof cases
    case direct
    let ?d = "din\<lparr>di_addrs := (di_addrs din)[n := freeblock s]\<rparr>" and ?t = "s\<lparr>freeblock := freeblock s + 1\<rparr>"
    note a = alloc_direct [OF inv(1) i direct full F, simplified]
    have z: "di_addrs din ! n = 0" using inv(5) direct by (simp add: unused_zero_def)
    have "block_for din n s = Ret (?d, freeblock s) ?t"
      using direct inv(3) z by (simp add: block_for_def new_block_run kbind_Ret kbind_assoc NDIRECT_def)
    moreover have "mk_inv ?t (A[i := (?d, Suc n, c)])" using a(1) s by (simp add: mk_inv_def uF)
    moreover have "cost (Suc n) = cost n + 1" using direct by (simp add: cost_Suc)
    ultimately show ?thesis using a(2) uF by (intro exI [of _ ?d] exI [of _ "freeblock s"] exI [of _ ?t]) (simp add: grown_def)
  next
    case first
    let ?d = "din\<lparr>di_addrs := (di_addrs din)[NDIRECT := freeblock s]\<rparr>"
    let ?im = "(img s)[?F := wr32 (img s ! ?F) 0 (freeblock s + 1)]"
    let ?t = "s\<lparr>freeblock := freeblock s + 1 + 1, img := ?im\<rparr>"
    have e: "word_of_nat ?F = freeblock s" "word_of_nat (Suc ?F) = freeblock s + 1" by simp_all
    note a = alloc_first_indirect [OF inv(1) i(1) _ _ F1 [OF first], of din c, unfolded e, OF i(2) [unfolded first] full [unfolded first]]
    have z: "di_addrs din ! NDIRECT = 0" using inv(5) first by (simp add: unused_zero_def)
    have zb: "img s ! ?F = replicate BSIZE 0" using inv(1) F by (simp add: fs_inv_def)
    have si: "sect_index (freeblock s) = ?F" by (rule sect_index_block [OF F refl])
    have u1: "unat (freeblock s + 1 + 1) = Suc (Suc ?F)" using F1 [OF first] uF unat_freeblock [of "s\<lparr>freeblock := freeblock s + 1\<rparr>"] by simp
    have "block_for din n s = Ret (?d, freeblock s + 1) ?t"
      using first inv(3,4) z zb si F
      by (simp add: block_for_def new_block_run kbind_Ret kbind_assoc NDIRECT_def rsect_in wsect_in rd32_zero rd32_wr32 BSIZE_def)
    moreover have "mk_inv ?t (A[i := (?d, Suc n, c)])" using a(1) s u1 by (simp add: mk_inv_def first)
    moreover have "cost (Suc n) = cost n + 2" using first by (simp add: cost_Suc)
    ultimately show ?thesis using a(2,3) uF u1 first
      by (intro exI [of _ ?d] exI [of _ "freeblock s + 1"] exI [of _ ?t]) (simp add: grown_def)
  next
    case ind
    let ?y = "unat (di_addrs din ! NDIRECT)"
    let ?im = "(img s)[?y := wr32 (img s ! ?y) (4 * (n - NDIRECT)) (freeblock s)]"
    let ?t = "s\<lparr>freeblock := freeblock s + 1, img := ?im\<rparr>"
    note a = alloc_indirect [OF inv(1) i ind n full F, simplified]
    have "?y \<in> set (blks (img s) din n)" using ind by (simp add: blks_def)
    note fs_inv_blks [OF inv(1,2) this]
    then have y: "di_addrs din ! NDIRECT \<noteq> 0" "?y < FSSIZE" using F by (auto simp: nmeta_def)
    have si: "sect_index (di_addrs din ! NDIRECT) = ?y" by (rule sect_index_block [OF y(2) refl])
    have "blk_at (img s) din n = 0" using inv(5) ind n by (simp add: unused_zero_def)
    then have z: "rd32 (img s ! ?y) (4 * (n - NDIRECT)) = 0" using ind by (simp add: blk_at_def unat_eq_0)
    have "4 * (n - NDIRECT) + 3 < length (img s ! ?y)"
      using n fs_inv_len [OF inv(1) y(2)] by (simp add: MAXFILE_def NINDIRECT_def BSIZE_def)
    then have "block_for din n s = Ret (din, freeblock s) ?t"
      using ind inv(4) z si y
      by (simp add: block_for_def new_block_run kbind_Ret kbind_assoc rsect_in wsect_in rd32_wr32)
    moreover have "mk_inv ?t (A[i := (din, Suc n, c)])" using a(1) s by (simp add: mk_inv_def uF)
    moreover have "cost (Suc n) = cost n + 1" using ind by (simp add: cost_Suc)
    ultimately show ?thesis using a(2,3) uF
      by (intro exI [of _ din] exI [of _ "freeblock s"] exI [of _ ?t]) (simp add: grown_def)
  qed
qed

section \<open>iappend\<close>

lemma nblk_eq: "k * BSIZE < z \<Longrightarrow> z \<le> Suc k * BSIZE \<Longrightarrow> nblk z = Suc k"
  unfolding nblk_def BSIZE_def by (rule div_nat_eqI) simp_all

lemma nblk_step:
  assumes "0 < m" and "m \<le> (z div BSIZE + 1) * BSIZE - z"
  shows "nblk (z + m) = Suc (z div BSIZE)"
proof (rule nblk_eq)
  have "z div BSIZE * BSIZE \<le> z" by (rule div_times_less_eq_dividend)
  then show "z div BSIZE * BSIZE < z + m" using assms(1) by linarith
  show "z + m \<le> Suc (z div BSIZE) * BSIZE" using assms by simp
qed

lemma nblk_mono: "x \<le> y \<Longrightarrow> nblk x \<le> nblk y"
  unfolding nblk_def BSIZE_def by (intro div_le_mono) simp

lemma cost_mono: "x \<le> y \<Longrightarrow> cost x \<le> cost y"
  by (simp add: cost_def)

lemma block_for_run:
  assumes s: "mk_inv s A" and i: "i < length A" "A ! i = (din, nblk (length c), c)" and k: "k = length c div BSIZE" "k < MAXFILE"
    and room: "unat (freeblock s) + cost (Suc k) \<le> FSSIZE + cost (nblk (length c))"
  shows "\<exists>din' x t. block_for din k s = Ret (din', x) t \<and> mk_inv t (A[i := (din', Suc k, c)]) \<and> unat x = blk_at (img t) din' k
     \<and> grown s t \<and> unat (freeblock t) + cost (nblk (length c)) = unat (freeblock s) + cost (Suc k) \<and> din' = din\<lparr>di_addrs := di_addrs din'\<rparr>"
proof (cases "length c mod BSIZE = 0")
  case True
  then have full: "length c = k * BSIZE" and n: "nblk (length c) = k" using k(1) by (auto simp: nblk_def BSIZE_def)
  show ?thesis using block_for_new [OF s i(1) i(2) [unfolded n] full k(2)] room n by simp
next
  case False
  have "k * BSIZE + length c mod BSIZE = length c" "length c mod BSIZE < BSIZE" by (simp_all add: k(1) BSIZE_def)
  then have n: "nblk (length c) = Suc k" using False by (intro nblk_eq) simp_all
  note old = block_for_old [OF s i(1) i(2) [unfolded n]]
  have "unat (freeblock s) \<le> FSSIZE" using s by (simp add: mk_inv_def fs_inv_def)
  moreover have "blk_at (img s) din k < unat (freeblock s)"
    by (rule fs_inv_blks(2) [OF mk_inv_nth(1,2) [OF s i] blk_at_mem]) (simp add: n)
  ultimately have "unat (of_nat (blk_at (img s) din k) :: u32) = blk_at (img s) din k" by (simp add: unat_block)
  moreover have "A[i := (din, Suc k, c)] = A" using i(2) n by (metis list_update_id)
  ultimately show ?thesis using old s n by (intro exI [of _ din] exI [of _ "of_nat (blk_at (img s) din k)"] exI [of _ s]) simp
qed

lemma iappend_loop_run:
  "mk_inv s A \<Longrightarrow> i < length A \<Longrightarrow> A ! i = (din, nblk (length c), c) \<Longrightarrow> length c + length p \<le> MAXFILE * BSIZE \<Longrightarrow>
   unat (freeblock s) + cost (nblk (length c + length p)) \<le> FSSIZE + cost (nblk (length c)) \<Longrightarrow>
   \<exists>din' t. iappend_loop din (length c) p s = Ret (din', length c + length p) t \<and> mk_inv t (A[i := (din', nblk (length c + length p), c @ p)])
     \<and> grown s t \<and> unat (freeblock t) + cost (nblk (length c)) = unat (freeblock s) + cost (nblk (length c + length p))
     \<and> din' = din\<lparr>di_addrs := di_addrs din'\<rparr>"
proof (induction p arbitrary: s A din c rule: measure_induct_rule [of length])
  case (less p)
  note s = less.prems(1) and i = less.prems(2,3) and fits = less.prems(4) and room = less.prems(5)
  show ?case
  proof (cases "p = []")
    case True
    have "A[i := (din, nblk (length c), c)] = A" using i(2) by (metis list_update_id)
    then show ?thesis using s i True by (intro exI [of _ din] exI [of _ s]) (simp add: iappend_loop.simps)
  next
    case False
    define k where "k = length c div BSIZE"
    define m where "m = min (length p) ((k + 1) * BSIZE - length c)"
    let ?q = "take m p"
    have m: "0 < m" "m \<le> length p" "length ?q = m" "m \<le> (length c div BSIZE + 1) * BSIZE - length c"
      using False by (auto simp: m_def k_def BSIZE_def)
    have nb: "nblk (length c + m) = Suc k" using nblk_step [OF m(1,4)] by (simp add: k_def)
    have le: "cost (Suc k) \<le> cost (nblk (length c + length p))" unfolding nb [symmetric] using m(2) by (intro cost_mono nblk_mono) simp
    have kM: "k < MAXFILE" using fits False by (cases p) (auto simp: k_def BSIZE_def MAXFILE_def NDIRECT_def NINDIRECT_def)
    have kl: "k * BSIZE \<le> length c" "length c + length ?q \<le> Suc k * BSIZE" unfolding m(3) using m(4) by (auto simp: k_def BSIZE_def)
    obtain d1 x t where b: "block_for din k s = Ret (d1, x) t" "mk_inv t (A[i := (d1, Suc k, c)])" "unat x = blk_at (img t) d1 k"
        "grown s t" "unat (freeblock t) + cost (nblk (length c)) = unat (freeblock s) + cost (Suc k)" "d1 = din\<lparr>di_addrs := di_addrs d1\<rparr>"
      using block_for_run [OF s i k_def kM] room le by auto
    let ?A = "A[i := (d1, Suc k, c)]"
    have iA: "i < length ?A" "?A ! i = (d1, Suc k, c)" using i(1) by simp_all
    note it = mk_inv_nth [OF b(2) iA]
    have xF: "unat x < FSSIZE" unfolding b(3) using fs_inv_blks(2) [OF it(1,2) blk_at_mem] it(1) by (fastforce simp: fs_inv_def)
    have si: "sect_index x = unat x" by (rule sect_index_block [OF xF refl])
    let ?im = "(img t)[unat x := take (length c - k * BSIZE) (img t ! unat x) @ ?q @ drop (length c - k * BSIZE + m) (img t ! unat x)]"
    let ?t = "t\<lparr>img := ?im\<rparr>"
    note w = write_last [OF it(1) iA kl, unfolded m(3), folded b(3)]
    have t: "mk_inv ?t (A[i := (d1, nblk (length (c @ ?q)), c @ ?q)])" using w(1) b(2) i(1) nb m(3) by (simp add: mk_inv_def)
    have m': "min (length p) (BSIZE + k * BSIZE - length c) = m" by (simp add: m_def)
    have run: "iappend_loop din (length c) p s = iappend_loop d1 (length (c @ ?q)) (drop m p) ?t"
      using False kM b(1) it(4) xF m(3) si
      by (subst iappend_loop.simps) (simp add: Let_def k_def [symmetric] m' kbind_Ret rsect_in wsect_in)
    have tot: "length (c @ ?q) + length (drop m p) = length c + length p" using m(2,3) by simp
    have "\<exists>din' u. iappend_loop d1 (length (c @ ?q)) (drop m p) ?t = Ret (din', length (c @ ?q) + length (drop m p)) u
       \<and> mk_inv u ((A[i := (d1, nblk (length (c @ ?q)), c @ ?q)])[i := (din', nblk (length (c @ ?q) + length (drop m p)), (c @ ?q) @ drop m p)])
       \<and> grown ?t u \<and> unat (freeblock u) + cost (nblk (length (c @ ?q))) = unat (freeblock ?t) + cost (nblk (length (c @ ?q) + length (drop m p)))
       \<and> din' = d1\<lparr>di_addrs := di_addrs din'\<rparr>"
      using m i(1) fits room b(5) nb le by (intro less.IH [OF _ t]) (simp_all add: tot del: length_append, simp_all)
    then obtain d2 u where u: "iappend_loop d1 (length (c @ ?q)) (drop m p) ?t = Ret (d2, length c + length p) u"
        "mk_inv u (A[i := (d2, nblk (length c + length p), c @ p)])" "grown ?t u"
        "unat (freeblock u) + cost (Suc k) = unat (freeblock t) + cost (nblk (length c + length p))" "d2 = d1\<lparr>di_addrs := di_addrs d2\<rparr>"
      unfolding tot using nb m(3) by auto
    have "grown t ?t" using w(2) by (simp add: grown_def)
    then have "grown s u" using b(4) u(3) grown_trans by blast
    moreover have "d2 = din\<lparr>di_addrs := di_addrs d2\<rparr>" using b(6) u(5) by (metis dinode.surjective dinode.update_convs(6))
    ultimately show ?thesis using run u b(5) by (intro exI [of _ d2] exI [of _ u]) simp
  qed
qed

section \<open>The inode table\<close>

definition inode_at :: "u8 list list \<Rightarrow> nat \<Rightarrow> dinode" where
  "inode_at im i = dec_dinode (im ! (2 + LOGSIZE + i div IPB)) (i mod IPB)"

text \<open>Files 1, 2, ... of the list are the inodes of these numbers; there is no inode 0.\<close>

definition img_inv :: "'z mk_st_scheme \<Rightarrow> mfile list \<Rightarrow> bool" where
  "img_inv s A \<longleftrightarrow> mk_inv s A \<and> freeinode s = of_nat (length A) \<and> length A \<le> NINODES
     \<and> (\<forall>i d n c. 0 < i \<longrightarrow> i < length A \<longrightarrow> A ! i = (d, n, c) \<longrightarrow>
          inode_at (img s) i = d \<and> di_size d = of_nat (length c) \<and> n = nblk (length c))"

lemma fs_inv_meta:
  assumes inv: "fs_inv im F A" and b: "b < nmeta" and v: "length v = BSIZE"
  shows "fs_inv (im[b := v]) F A"
proof -
  have f: "F \<le> FSSIZE" "nmeta \<le> F" "length im = FSSIZE" and l: "\<forall>b \<in> set im. length b = BSIZE" using inv by (auto simp: fs_inv_def)
  have same: "im[b := v] ! x = im ! x" if "(d, n, c) \<in> set A" "x \<in> set (blks im d n)" for d n c x
    using fs_inv_blks(1) [OF inv that] b by simp
  have ok: "file_ok (im[b := v]) g" if "g \<in> set A" for g
  proof (cases g)
    case (fields d n c)
    then show ?thesis using file_ok_frame [of im d n "im[b := v]" c] same [of d n c] that inv by (auto simp: fs_inv_def)
  qed
  have bl: "all_blks (im[b := v]) A = all_blks im A" by (rule all_blks_frame) (rule same)
  have z: "im[b := v] ! x = replicate BSIZE 0" if "x < FSSIZE" "F \<le> x" for x using that inv b f(2) by (simp add: fs_inv_def)
  show ?thesis unfolding fs_inv_def using f upd_lengths [OF l v] ok bl z inv by (auto simp: fs_inv_def)
qed

lemma iblock_nat:
  assumes "i < NINODES"
  shows "sect_index (IBLOCK (of_nat i) the_super) = 2 + LOGSIZE + i div IPB" and "2 + LOGSIZE + i div IPB < nmeta - 1"
    and "unat (of_nat i :: u32) mod IPB = i mod IPB" and "unat (IBLOCK (of_nat i) the_super) = 2 + LOGSIZE + i div IPB"
proof -
  have u: "unat (of_nat i :: u32) = i" using assms by (simp add: NINODES_def unat_of_nat)
  have "i div 16 < 13" using assms by (simp add: NINODES_def)
  then show lt: "2 + LOGSIZE + i div IPB < nmeta - 1"
    by (simp add: LOGSIZE_def IPB_def nmeta_def ninodeblocks_def NINODES_def nbitmap_def FSSIZE_def BSIZE_def)
  show "unat (of_nat i :: u32) mod IPB = i mod IPB" by (simp add: u)
  have b: "unat (IBLOCK (of_nat i) the_super) = 32 + i div 16"
    using \<open>i div 16 < 13\<close> by (simp add: IBLOCK_def super_parts IPB_def unat_word_ariths u unat_of_nat)
  then show "unat (IBLOCK (of_nat i) the_super) = 2 + LOGSIZE + i div IPB" by (simp add: LOGSIZE_def IPB_def)
  from b show "sect_index (IBLOCK (of_nat i) the_super) = 2 + LOGSIZE + i div IPB"
    using \<open>i div 16 < 13\<close> by (intro sect_index_block) (simp_all add: FSSIZE_def LOGSIZE_def IPB_def)
qed

lemma nmeta_46: "nmeta = 46"
  by (simp add: nmeta_def LOGSIZE_def ninodeblocks_def NINODES_def IPB_def nbitmap_def FSSIZE_def BSIZE_def)

lemma rinode_run:
  assumes s: "mk_inv s A" and i: "i < NINODES"
  shows "rinode (of_nat i) s = Ret (inode_at (img s) i) s"
proof -
  have "length (img s) = FSSIZE" "mk_sb s = the_super" using s by (auto simp: mk_inv_def fs_inv_def)
  then show ?thesis using iblock_nat [OF i]
    by (simp add: rinode_def inode_at_def rsect_in kbind_Ret nmeta_46 FSSIZE_def)
qed

lemma winode_run:
  assumes s: "mk_inv s A" and i: "i < NINODES" and d: "length (di_addrs d) = 13"
  obtains t where "winode (of_nat i) d s = Ret () t" and "mk_inv t A" and "freeblock t = freeblock s" and "freeinode t = freeinode s"
    and "\<And>j. j < NINODES \<Longrightarrow> inode_at (img t) j = (if j = i then d else inode_at (img s) j)"
    and "\<And>b. b < 2 + LOGSIZE \<Longrightarrow> img t ! b = img s ! b"
proof -
  let ?b = "2 + LOGSIZE + i div IPB"
  let ?t = "s\<lparr>img := (img s)[?b := enc_dinode (img s ! ?b) (i mod IPB) d]\<rparr>"
  have l: "length (img s) = FSSIZE" "mk_sb s = the_super" and inv: "fs_inv (img s) (unat (freeblock s)) A"
    using s by (auto simp: mk_inv_def fs_inv_def)
  have b: "?b < nmeta" using iblock_nat(2) [OF i] by simp
  then have bF: "?b < FSSIZE" by (simp add: nmeta_46 FSSIZE_def)
  have lb: "length (img s ! ?b) = BSIZE" by (rule fs_inv_len [OF inv bF])
  have run: "winode (of_nat i) d s = Ret () ?t"
    using iblock_nat [OF i] l bF by (simp add: winode_def rsect_in wsect_in kbind_Ret)
  have inv': "mk_inv ?t A" using fs_inv_meta [OF inv b, of "enc_dinode (img s ! ?b) (i mod IPB) d"] lb l(2) by (simp add: mk_inv_def)
  have at: "inode_at (img ?t) j = (if j = i then d else inode_at (img s) j)" if j: "j < NINODES" for j
  proof -
    consider "j = i" | "j \<noteq> i" "j div IPB = i div IPB" | "j div IPB \<noteq> i div IPB" by blast
    then show ?thesis
    proof cases
      case 1
      have "64 * (i mod IPB) + 64 \<le> length (img s ! ?b)" unfolding lb by (simp add: BSIZE_def IPB_def)
      then have "dec_dinode (enc_dinode (img s ! ?b) (i mod IPB) d) (i mod IPB) = d" using d by (intro dec_enc_dinode)
      then show ?thesis using 1 l bF by (simp add: inode_at_def)
    next
      case 2
      then have ne: "j mod IPB \<noteq> i mod IPB" by (metis div_mult_mod_eq)
      have "dec_dinode (enc_dinode (img s ! ?b) (i mod IPB) d) (j mod IPB) = dec_dinode (img s ! ?b) (j mod IPB)"
        by (intro dec_dinode_cong enc_dinode_other) (use ne in linarith)
      then show ?thesis using 2 l bF by (simp add: inode_at_def)
    next
      case 3
      then show ?thesis by (auto simp: inode_at_def)
    qed
  qed
  have low: "img ?t ! x = img s ! x" if "x < 2 + LOGSIZE" for x using that by simp
  show thesis by (rule that [OF run inv' _ _ at low]) simp_all
qed

lemma img_invD:
  assumes "img_inv s A" and "0 < i" and "i < length A" and "A ! i = (d, n, c)"
  shows "mk_inv s A" and "i < NINODES" and "inode_at (img s) i = d" and "di_size d = of_nat (length c)" and "n = nblk (length c)"
  using assms by (auto simp: img_inv_def)

section \<open>Appending to a file of the image\<close>

definition low_same :: "'z mk_st_scheme \<Rightarrow> 'z mk_st_scheme \<Rightarrow> bool" where
  "low_same s t \<longleftrightarrow> (\<forall>b < 2 + LOGSIZE. img t ! b = img s ! b)"

lemma low_same_refl [simp]: "low_same s s"
  by (simp add: low_same_def)

lemma low_same_trans: "low_same s t \<Longrightarrow> low_same t u \<Longrightarrow> low_same s u"
  by (simp add: low_same_def)

lemma blk_at_size [simp]: "blk_at im (d\<lparr>di_size := z\<rparr>) j = blk_at im d j"
  by (simp add: blk_at_def)

lemma bytes_of_size [simp]: "bytes_of im (d\<lparr>di_size := z\<rparr>) n = bytes_of im d n"
  by (simp add: bytes_of_def)

lemma fs_inv_size:
  assumes inv: "fs_inv im F A" and i: "i < length A" "A ! i = (d, n, c)"
  shows "fs_inv im F (A[i := (d\<lparr>di_size := z\<rparr>, n, c)])"
proof -
  let ?d = "d\<lparr>di_size := z\<rparr>"
  have at: "blk_at im ?d = blk_at im d" by (simp add: fun_eq_iff)
  have m: "(d, n, c) \<in> set A" using i by (metis nth_mem)
  have "file_ok im (?d, n, c)" using inv m by (auto simp: fs_inv_def file_ok_def unused_zero_def bytes_of_def at)
  moreover have b: "blks im ?d n = blks im d n" by (simp add: blks_def at)
  have "mset (blks im ?d n) = mset (blks im d n) + mset [F..<F]" unfolding b by simp
  moreover have "length im = FSSIZE" "\<forall>b \<in> set im. length b = BSIZE" "F \<le> FSSIZE" using inv by (auto simp: fs_inv_def)
  ultimately show ?thesis using fs_upd(1) [OF inv i, of im F ?d n c] by blast
qed

text \<open>\<open>iappend\<close> on the abstract files: the bytes of one file grow, and as many blocks are taken as this needs.\<close>

lemma iappend_run:
  assumes s: "img_inv s A" and i: "0 < i" "i < length A" "A ! i = (d, n, c)" and fits: "length c + length p \<le> MAXFILE * BSIZE"
    and room: "unat (freeblock s) + cost (nblk (length c + length p)) \<le> FSSIZE + cost n"
  obtains d' t where "iappend (of_nat i) p s = Ret () t" and "img_inv t (A[i := (d', nblk (length c + length p), c @ p)])"
    and "low_same s t" and "unat (freeblock t) + cost n = unat (freeblock s) + cost (nblk (length c + length p))" and "di_type d' = di_type d"
    and "di_nlink d' = di_nlink d"
proof -
  note D = img_invD [OF s i]
  let ?n = "nblk (length c + length p)"
  have M: "MAXFILE * BSIZE = 274432" by (simp add: MAXFILE_def NDIRECT_def NINDIRECT_def BSIZE_def)
  have off: "unat (di_size d) = length c" using fits unfolding D(4) M by (simp add: unat_of_nat)
  have "\<exists>d1 t. iappend_loop d (length c) p s = Ret (d1, length c + length p) t \<and> mk_inv t (A[i := (d1, ?n, c @ p)])
     \<and> grown s t \<and> unat (freeblock t) + cost (nblk (length c)) = unat (freeblock s) + cost ?n \<and> d1 = d\<lparr>di_addrs := di_addrs d1\<rparr>"
    using i D(5) fits room by (intro iappend_loop_run [OF D(1)]) simp_all
  then obtain d1 t where l: "iappend_loop d (length c) p s = Ret (d1, length c + length p) t" "mk_inv t (A[i := (d1, ?n, c @ p)])"
     "grown s t" "unat (freeblock t) + cost (nblk (length c)) = unat (freeblock s) + cost ?n" "d1 = d\<lparr>di_addrs := di_addrs d1\<rparr>" by blast
  let ?d = "d1\<lparr>di_size := of_nat (length c + length p)\<rparr>"
  let ?A = "A[i := (d1, ?n, c @ p)]"
  have iA: "i < length ?A" "?A ! i = (d1, ?n, c @ p)" using i(2) by simp_all
  have la: "length (di_addrs ?d) = 13" using mk_inv_nth(3) [OF l(2) iA] by simp
  have "fs_inv (img t) (unat (freeblock t)) (?A[i := (?d, ?n, c @ p)])"
    using l(2) by (intro fs_inv_size [OF _ iA]) (simp add: mk_inv_def)
  then have t': "mk_inv t (A[i := (?d, ?n, c @ p)])" using l(2) by (simp add: mk_inv_def)
  obtain u where u: "winode (of_nat i) ?d t = Ret () u" "mk_inv u (A[i := (?d, ?n, c @ p)])" "freeblock u = freeblock t" "freeinode u = freeinode t"
      "\<And>j. j < NINODES \<Longrightarrow> inode_at (img u) j = (if j = i then ?d else inode_at (img t) j)" "\<And>b. b < 2 + LOGSIZE \<Longrightarrow> img u ! b = img t ! b"
    using winode_run [OF t' D(2) la] by blast
  have run: "iappend (of_nat i) p s = Ret () u"
    using u(1) by (simp add: iappend_def kbind_Ret rinode_run [OF D(1,2)] D(3) off l(1))
  have same: "inode_at (img t) j = inode_at (img s) j" if "j < NINODES" for j
    using l(3) iblock_nat(2) [OF that] by (simp add: inode_at_def grown_def)
  have "inode_at (img u) j = d' \<and> di_size d' = of_nat (length c') \<and> n' = nblk (length c')"
    if j: "0 < j" "j < length A" and e: "A[i := (?d, ?n, c @ p)] ! j = (d', n', c')" for j d' n' c'
  proof (cases "j = i")
    case True
    have "d' = ?d" "n' = ?n" "c' = c @ p" using e i(2) unfolding True by (simp_all del: of_nat_add)
    then show ?thesis using True u(5) [OF D(2)] by simp
  next
    case False
    then have "A ! j = (d', n', c')" using e by simp
    note img_invD [OF s j this]
    then show ?thesis using False u(5) [of j] same [of j] by simp
  qed
  moreover have "freeinode u = of_nat (length A)" "length A \<le> NINODES" using u(4) l(3) s by (simp_all add: grown_def img_inv_def)
  ultimately have inv: "img_inv u (A[i := (?d, ?n, c @ p)])" using u(2) by (simp add: img_inv_def)
  have low: "low_same s u" using l(3) u(6) by (simp add: low_same_def grown_def nmeta_46 LOGSIZE_def)
  have "di_type ?d = di_type d" "di_nlink ?d = di_nlink d" by (subst l(5), simp)+
  with run inv low l(4) D(5) u(3) show thesis by (intro that [of u ?d]) simp_all
qed

section \<open>New inodes and whole files\<close>

definition new_dinode :: "u16 \<Rightarrow> dinode" where
  "new_dinode type = \<lparr>di_type = type, di_major = 0, di_minor = 0, di_nlink = 1, di_size = 0, di_addrs = replicate 13 0\<rparr>"

lemma file_ok_new: "file_ok im (new_dinode type, 0, [])"
  by (simp add: file_ok_def unused_zero_def bytes_of_def new_dinode_def NDIRECT_def)

lemma mk_ialloc_run:
  assumes s: "img_inv s A" and n: "0 < length A" "length A < NINODES"
  obtains t where "mk_ialloc type s = Ret (of_nat (length A)) t" and "img_inv t (A @ [(new_dinode type, 0, [])])" and "low_same s t"
    and "freeblock t = freeblock s"
proof -
  let ?s = "s\<lparr>freeinode := freeinode s + 1\<rparr>" and ?A = "A @ [(new_dinode type, 0, [])]"
  have "mk_inv s A" and fi: "freeinode s = of_nat (length A)" using s by (simp_all add: img_inv_def)
  moreover have "blks (img s) (new_dinode type) 0 = []" by (simp add: blks_def)
  ultimately have s1: "mk_inv ?s ?A" using file_ok_new by (simp add: mk_inv_def fs_inv_def)
  have "length (di_addrs (new_dinode type)) = 13" by (simp add: new_dinode_def)
  from winode_run [OF s1 n(2) this] obtain t where t: "winode (of_nat (length A)) (new_dinode type) ?s = Ret () t" "mk_inv t ?A"
      "freeblock t = freeblock ?s" "freeinode t = freeinode ?s"
      "\<And>j. j < NINODES \<Longrightarrow> inode_at (img t) j = (if j = length A then new_dinode type else inode_at (img ?s) j)"
      "\<And>b. b < 2 + LOGSIZE \<Longrightarrow> img t ! b = img ?s ! b" by blast
  have run: "mk_ialloc type s = Ret (of_nat (length A)) t"
    using t(1) by (simp add: mk_ialloc_def kbind_Ret fi new_dinode_def)
  have "inode_at (img t) j = d \<and> di_size d = of_nat (length c) \<and> n = nblk (length c)"
    if j: "0 < j" "j < length ?A" and e: "?A ! j = (d, n, c)" for j d n c
  proof (cases "j = length A")
    case True
    have "d = new_dinode type" "n = 0" "c = []" using e by (simp_all add: True)
    moreover have "di_size (new_dinode type) = 0" by (simp add: new_dinode_def)
    ultimately show ?thesis using True t(5) [OF n(2)] by (simp add: nblk_def BSIZE_def)
  next
    case False
    then have "j < length A" "A ! j = (d, n, c)" using j e by (simp_all add: nth_append)
    from img_invD [OF s j(1) this] show ?thesis using t(5) [of j] False by simp
  qed
  then have "img_inv t ?A" using t(2,4) fi n(2) by (simp add: img_inv_def)
  with run t(3,6) show thesis by (intro that [of t]) (simp_all add: low_same_def)
qed

lemma append_file_run:
  assumes "img_inv s A" and "0 < i" "i < length A" "A ! i = (d, n, c)" and "length c + length (concat ps) \<le> MAXFILE * BSIZE"
    and "unat (freeblock s) + cost (nblk (length c + length (concat ps))) \<le> FSSIZE + cost n"
  shows "\<exists>d' t. append_file (of_nat i) ps s = Ret () t \<and> img_inv t (A[i := (d', nblk (length c + length (concat ps)), c @ concat ps)])
     \<and> low_same s t \<and> unat (freeblock t) + cost n = unat (freeblock s) + cost (nblk (length c + length (concat ps)))
     \<and> di_type d' = di_type d \<and> di_nlink d' = di_nlink d"
  using assms
proof (induction ps arbitrary: s A d n c)
  case Nil
  have "n = nblk (length c)" by (rule img_invD(5) [OF Nil.prems(1-4)])
  moreover have "A[i := (d, n, c)] = A" using Nil.prems(4) by (metis list_update_id)
  ultimately show ?case using Nil.prems(1) by (intro exI [of _ d] exI [of _ s]) simp
next
  case (Cons p ps)
  note s = Cons.prems(1) and i = Cons.prems(2-4) and fits = Cons.prems(5) and room = Cons.prems(6)
  have fits1: "length c + length p \<le> MAXFILE * BSIZE" using fits by simp
  have "cost (nblk (length c + length p)) \<le> cost (nblk (length c + length (concat (p # ps))))" by (intro cost_mono nblk_mono) simp
  then have room1: "unat (freeblock s) + cost (nblk (length c + length p)) \<le> FSSIZE + cost n" using room by simp
  obtain d1 t where t: "iappend (of_nat i) p s = Ret () t" "img_inv t (A[i := (d1, nblk (length c + length p), c @ p)])" "low_same s t"
      "unat (freeblock t) + cost n = unat (freeblock s) + cost (nblk (length c + length p))" "di_type d1 = di_type d" "di_nlink d1 = di_nlink d"
    using iappend_run [OF s i fits1 room1] by blast
  let ?A = "A[i := (d1, nblk (length c + length p), c @ p)]"
  have iA: "i < length ?A" "?A ! i = (d1, nblk (length c + length p), c @ p)" using i by simp_all
  have f2: "length (c @ p) + length (concat ps) \<le> MAXFILE * BSIZE" using fits by simp
  have r2: "unat (freeblock t) + cost (nblk (length (c @ p) + length (concat ps))) \<le> FSSIZE + cost (nblk (length c + length p))"
    using room t(4) by (simp add: add.assoc)
  obtain d2 u where u: "append_file (of_nat i) ps t = Ret () u"
      "img_inv u (?A[i := (d2, nblk (length (c @ p) + length (concat ps)), (c @ p) @ concat ps)])" "low_same t u"
      "unat (freeblock u) + cost (nblk (length c + length p)) = unat (freeblock t) + cost (nblk (length (c @ p) + length (concat ps)))"
      "di_type d2 = di_type d1" "di_nlink d2 = di_nlink d1"
    using Cons.IH [OF t(2) i(1) iA f2 r2] by blast
  have "append_file (of_nat i) (p # ps) s = Ret () u" using t(1) u(1) by (simp add: kbind_Ret)
  moreover have "low_same s u" using t(3) u(3) low_same_trans by blast
  ultimately show ?case using u(2,4-6) t(4-6) by (intro exI [of _ d2] exI [of _ u]) (simp add: add.assoc)
qed

lemma concat_pieces: "concat (pieces d) = d"
proof -
  have "concat (map (\<lambda>i. take BSIZE (drop (i * BSIZE) d)) [0..<n]) = take (n * BSIZE) d" for n
    by (induction n) (simp_all add: take_add [symmetric] add.commute)
  moreover have "length d \<le> (length d + BSIZE - 1) div BSIZE * BSIZE"
    using div_mult_mod_eq [of "length d + 1023" 1024] mod_less_divisor [of 1024 "length d + 1023"] by (simp add: BSIZE_def)
  ultimately show ?thesis by (simp add: pieces_def)
qed

text \<open>The entries of the root directory for the files, the first of which gets inode number \<open>n\<close>.\<close>

fun dir_entries :: "nat \<Rightarrow> (u8 list \<times> u8 list) list \<Rightarrow> u8 list" where
  "dir_entries n [] = []"
| "dir_entries n ((arg, d) # fs) = dirent (of_nat n) (short_name arg) @ dir_entries (Suc n) fs"

lemma length_dir_entries [simp]: "length (dir_entries n fs) = 16 * length fs"
  by (induction n fs rule: dir_entries.induct) (simp_all add: length_dirent)

definition data_cost :: "(u8 list \<times> u8 list) list \<Rightarrow> nat" where
  "data_cost fs = (\<Sum>(arg, d) \<leftarrow> fs. cost (nblk (length d)))"

lemma ucast_inum: "k < NINODES \<Longrightarrow> ucast (of_nat k :: u32) = (of_nat k :: u16)"
  by (simp add: NINODES_def unsigned_of_nat take_bit_nat_eq_self)

lemma cost_0 [simp]: "cost 0 = 0" "nblk 0 = 0"
  by (simp_all add: cost_def nblk_def BSIZE_def)

text \<open>One file: its inode, its directory entry, its bytes.\<close>

lemma add_file_run:
  assumes s: "img_inv s A" and r: "Suc 0 < length A" "A ! Suc 0 = (d, n, c)" and num: "length A < NINODES"
    and fits: "length x \<le> MAXFILE * BSIZE" "length c + 16 \<le> MAXFILE * BSIZE"
    and room: "unat (freeblock s) + cost (nblk (length c + 16)) + cost (nblk (length x)) \<le> FSSIZE + cost n"
  obtains t d' e where "\<And>fs. add_files 1 ((arg, x) # fs) s = add_files 1 fs t"
    and "img_inv t (A[Suc 0 := (d', nblk (length c + 16), c @ dirent (of_nat (length A)) (short_name arg))] @ [(e, nblk (length x), x)])"
    and "low_same s t" and "unat (freeblock t) + cost n = unat (freeblock s) + cost (nblk (length c + 16)) + cost (nblk (length x))"
    and "di_type d' = di_type d" and "di_nlink d' = di_nlink d" and "di_type e = 2" and "di_nlink e = 1"
proof -
  let ?de = "dirent (of_nat (length A)) (short_name arg)"
  have A0: "0 < length A" using r(1) by linarith
  obtain s1 where s1: "mk_ialloc 2 s = Ret (of_nat (length A)) s1" "img_inv s1 (A @ [(new_dinode 2, 0, [])])" "low_same s s1"
      "freeblock s1 = freeblock s"
    using mk_ialloc_run [OF s A0 num, of 2] by blast
  let ?A1 = "A @ [(new_dinode 2, 0, [])]"
  have r1: "0 < Suc 0" "Suc 0 < length ?A1" "?A1 ! Suc 0 = (d, n, c)" using r by (auto simp: nth_append)
  have f1: "length c + length ?de \<le> MAXFILE * BSIZE" using fits(2) by (simp add: length_dirent)
  have m1: "unat (freeblock s1) + cost (nblk (length c + length ?de)) \<le> FSSIZE + cost n" using room s1(4) by (simp add: length_dirent)
  obtain d' s2 where s2: "iappend (of_nat (Suc 0)) ?de s1 = Ret () s2" "img_inv s2 (?A1[Suc 0 := (d', nblk (length c + length ?de), c @ ?de)])"
      "low_same s1 s2" "unat (freeblock s2) + cost n = unat (freeblock s1) + cost (nblk (length c + length ?de))" "di_type d' = di_type d"
      "di_nlink d' = di_nlink d"
    using iappend_run [OF s1(2) r1 f1 m1] by blast
  let ?A2 = "A[Suc 0 := (d', nblk (length c + 16), c @ ?de)]"
  have A2: "?A1[Suc 0 := (d', nblk (length c + length ?de), c @ ?de)] = ?A2 @ [(new_dinode 2, 0, [])]"
    using r(1) by (simp add: list_update_append length_dirent)
  note inv2 = s2(2) [unfolded A2]
  let ?A3 = "?A2 @ [(new_dinode 2, 0, [])]"
  have r2: "length A < length ?A3" "?A3 ! length A = (new_dinode 2, 0, [])" by (simp_all add: nth_append)
  have f2: "length ([] :: u8 list) + length (concat (pieces x)) \<le> MAXFILE * BSIZE" using fits(1) by (simp add: concat_pieces)
  have m2: "unat (freeblock s2) + cost (nblk (length ([] :: u8 list) + length (concat (pieces x)))) \<le> FSSIZE + cost 0"
    using room s2(4) s1(4) by (simp add: concat_pieces length_dirent)
  obtain e t where t: "append_file (of_nat (length A)) (pieces x) s2 = Ret () t" "img_inv t (?A3[length A := (e, nblk (length x), x)])"
      "low_same s2 t" "unat (freeblock t) = unat (freeblock s2) + cost (nblk (length x))" "di_type e = 2" "di_nlink e = 1"
    using append_file_run [OF inv2 A0 r2 f2 m2] by (auto simp: concat_pieces new_dinode_def)
  have "add_files 1 ((arg, x) # fs) s = add_files 1 fs t" for fs
    using s2(1) t(1) by (simp add: kbind_Ret s1(1) ucast_inum [OF num])
  moreover have "?A3[length A := (e, nblk (length x), x)] = ?A2 @ [(e, nblk (length x), x)]" by (simp add: list_update_append)
  moreover have "low_same s t" using s1(3) s2(3) t(3) low_same_trans by blast
  ultimately show thesis using t s2(4-6) s1(4) by (intro that [of t d' e]) (simp_all add: length_dirent)
qed

lemma add_files_run:
  assumes "img_inv s A" and "Suc 0 < length A" "A ! Suc 0 = (d, n, c)" and "length A + length fs \<le> NINODES"
    and "\<forall>f \<in> set fs. length (snd f) \<le> MAXFILE * BSIZE" and "length c + 16 * length fs \<le> MAXFILE * BSIZE"
    and "unat (freeblock s) + cost (nblk (length c + 16 * length fs)) + data_cost fs \<le> FSSIZE + cost n"
  shows "\<exists>t B d'. add_files 1 fs s = Ret () t \<and> img_inv t B \<and> low_same s t \<and> length B = length A + length fs
     \<and> B ! Suc 0 = (d', nblk (length c + 16 * length fs), c @ dir_entries (length A) fs) \<and> di_type d' = di_type d \<and> di_nlink d' = di_nlink d
     \<and> (\<forall>j < length A. j \<noteq> Suc 0 \<longrightarrow> B ! j = A ! j)
     \<and> (\<forall>k < length fs. \<exists>e. B ! (length A + k) = (e, nblk (length (snd (fs ! k))), snd (fs ! k)) \<and> di_type e = 2 \<and> di_nlink e = 1)
     \<and> unat (freeblock t) + cost n = unat (freeblock s) + cost (nblk (length c + 16 * length fs)) + data_cost fs"
  using assms
proof (induction fs arbitrary: s A d n c)
  case Nil
  have "n = nblk (length c)" using img_invD(5) [OF Nil.prems(1) _ Nil.prems(2,3)] by simp
  then show ?case using Nil.prems by (intro exI [of _ s] exI [of _ A] exI [of _ d]) (simp add: data_cost_def)
next
  case (Cons f fs)
  obtain arg x where f: "f = (arg, x)" by (cases f)
  note s = Cons.prems(1) and r = Cons.prems(2,3)
  have num: "length A < NINODES" using Cons.prems(4) by simp
  have fits: "length x \<le> MAXFILE * BSIZE" "length c + 16 \<le> MAXFILE * BSIZE" using Cons.prems(5,6) by (simp_all add: f)
  have "cost (nblk (length c + 16)) \<le> cost (nblk (length c + 16 * length (f # fs)))" by (intro cost_mono nblk_mono) simp
  then have room: "unat (freeblock s) + cost (nblk (length c + 16)) + cost (nblk (length x)) \<le> FSSIZE + cost n"
    using Cons.prems(7) by (simp add: data_cost_def f)
  let ?de = "dirent (of_nat (length A)) (short_name arg)"
  obtain t d1 e where t: "\<And>fs. add_files 1 ((arg, x) # fs) s = add_files 1 fs t"
    "img_inv t (A[Suc 0 := (d1, nblk (length c + 16), c @ ?de)] @ [(e, nblk (length x), x)])" "low_same s t"
    "unat (freeblock t) + cost n = unat (freeblock s) + cost (nblk (length c + 16)) + cost (nblk (length x))"
    "di_type d1 = di_type d" "di_nlink d1 = di_nlink d" "di_type e = 2" "di_nlink e = 1"
    using add_file_run [OF s r num fits room, of arg] by blast
  let ?A = "A[Suc 0 := (d1, nblk (length c + 16), c @ ?de)] @ [(e, nblk (length x), x)]"
  have r1: "Suc 0 < length ?A" "?A ! Suc 0 = (d1, nblk (length c + 16), c @ ?de)" using r(1) by (auto simp: nth_append)
  have len: "length (c @ ?de) + 16 * length fs = length c + 16 * length (f # fs)" by (simp add: length_dirent)
  have p: "length ?A + length fs \<le> NINODES" "\<forall>f \<in> set fs. length (snd f) \<le> MAXFILE * BSIZE" using Cons.prems(4,5) by simp_all
  have p': "length (c @ ?de) + 16 * length fs \<le> MAXFILE * BSIZE"
    "unat (freeblock t) + cost (nblk (length (c @ ?de) + 16 * length fs)) + data_cost fs \<le> FSSIZE + cost (nblk (length c + 16))"
    unfolding len using Cons.prems(6,7) t(4) by (simp_all add: data_cost_def f)
  obtain u B d2 where u: "add_files 1 fs t = Ret () u" "img_inv u B" "low_same t u" "length B = length ?A + length fs"
     "B ! Suc 0 = (d2, nblk (length c + 16 * length (f # fs)), (c @ ?de) @ dir_entries (length ?A) fs)" "di_type d2 = di_type d1" "di_nlink d2 = di_nlink d1"
     and old: "\<forall>j < length ?A. j \<noteq> Suc 0 \<longrightarrow> B ! j = ?A ! j"
     and new: "\<forall>k < length fs. \<exists>e. B ! (length ?A + k) = (e, nblk (length (snd (fs ! k))), snd (fs ! k)) \<and> di_type e = 2 \<and> di_nlink e = 1"
     and fb: "unat (freeblock u) + cost (nblk (length c + 16)) = unat (freeblock t) + cost (nblk (length c + 16 * length (f # fs))) + data_cost fs"
    using Cons.IH [OF t(2) r1 p p', unfolded len] by blast
  have files: "\<exists>e. B ! (length A + k) = (e, nblk (length (snd ((f # fs) ! k))), snd ((f # fs) ! k)) \<and> di_type e = 2 \<and> di_nlink e = 1"
    if "k < length (f # fs)" for k
  proof (cases k)
    case 0
    have "B ! length A = ?A ! length A" using old r(1) by simp
    then have "B ! length A = (e, nblk (length x), x)" by (simp add: nth_append)
    then show ?thesis using 0 t(7,8) by (simp add: f)
  next
    case (Suc m)
    then show ?thesis using new that by simp
  qed
  have keep: "B ! j = A ! j" if "j < length A" "j \<noteq> Suc 0" for j using old that by (simp add: nth_append)
  have run: "add_files 1 (f # fs) s = Ret () u" using t(1) u(1) by (simp only: f)
  have dirs: "(c @ ?de) @ dir_entries (length ?A) fs = c @ dir_entries (length A) (f # fs)" by (simp add: f)
  have "low_same s u" using t(3) u(3) low_same_trans by blast
  moreover have "unat (freeblock u) + cost n = unat (freeblock s) + cost (nblk (length c + 16 * length (f # fs))) + data_cost (f # fs)"
    using fb t(4) by (simp add: data_cost_def f)
  ultimately show ?case
    using run u(2,4-7) t(5,6) keep files unfolding dirs
    by (intro exI [of _ u] exI [of _ B] exI [of _ d2]) simp
qed

section \<open>The image\<close>

lemma dec_put_super: "dec_superblock (put_super b) = b"
proof -
  let ?xs = "[magic b, sb_size b, nblocks b, ninodes b, nlog b, logstart b, inodestart b, bmapstart b, dataStart b]"
  have "rd32 (put_super b) (0 + 4 * j) = ?xs ! j" if "j < 9" for j
    unfolding put_super_def using that by (intro put_ints_get) (simp_all add: BSIZE_def)
  from this [of 0] this [of 1] this [of 2] this [of 3] this [of 4] this [of 5] this [of 6] this [of 7] this [of 8]
  show ?thesis by (simp add: dec_superblock_def)
qed

lemma bytes_of_prefix: "n \<le> m \<Longrightarrow> \<exists>r. bytes_of im d m = bytes_of im d n @ r"
proof (induction m)
  case (Suc m)
  then show ?case by (cases "n = Suc m") (auto simp: bytes_of_Suc)
qed simp

lemma file_bytes_ok:
  assumes "file_ok im (d, nblk (length c), c)" and "unat z = length c"
  shows "file_bytes im (d\<lparr>di_size := z\<rparr>) = c"
  using assms by (simp add: file_bytes_def file_ok_def)

text \<open>A directory whose size has been rounded up still starts with its entries.\<close>

lemma file_bytes_rounded:
  assumes ok: "file_ok im (d, nblk (length c), c)" and z: "unat z = (length c div BSIZE + 1) * BSIZE"
  shows "take (length c) (file_bytes im (d\<lparr>di_size := z\<rparr>)) = c"
proof -
  have "length c \<le> (length c div BSIZE + 1) * BSIZE"
    using div_mult_mod_eq [of "length c" BSIZE] mod_less_divisor [of BSIZE "length c"] by (simp add: BSIZE_def)
  then have le: "length c \<le> unat z" by (simp add: z)
  then obtain r where r: "bytes_of im d (nblk (unat z)) = bytes_of im d (nblk (length c)) @ r" using bytes_of_prefix nblk_mono by blast
  then show ?thesis using ok le by (simp add: file_bytes_def file_ok_def min_def)
qed

definition no_file :: mfile where
  "no_file = (new_dinode 0, 0, [])"

lemma mkfs_start:
  fixes s :: "'z mk_st_scheme"
  assumes s: "img s = []" "freeinode s = 1"
  obtains t where "\<And>f :: unit \<Rightarrow> ('b, 'z mk_st_scheme) kop. kthen (kmod (\<lambda>s. s\<lparr>mk_sb := the_super\<rparr>)) (kthen (kmod (\<lambda>s. s\<lparr>freeblock := of_nat nmeta\<rparr>))
      (kthen (wipe [0..<FSSIZE]) (kbind (wsect 1 (put_super the_super)) f))) s = f () t"
    and "img_inv t [no_file]" and "unat (freeblock t) = nmeta" and "img t ! 1 = put_super the_super"
proof -
  let ?z = "replicate BSIZE (0 :: u8)"
  let ?s = "s\<lparr>mk_sb := the_super, freeblock := of_nat nmeta\<rparr>"
  let ?t = "?s\<lparr>img := (replicate FSSIZE ?z)[1 := put_super the_super]\<rparr>"
  have w: "wipe [0..<FSSIZE] ?s = Ret () (?s\<lparr>img := replicate FSSIZE ?z\<rparr>)"
    using wipe_run [of 0 FSSIZE ?s] s(1) by (simp add: FSSIZE_def)
  have "wsect 1 (put_super the_super) (?s\<lparr>img := replicate FSSIZE ?z\<rparr>) = Ret () ?t"
    by (subst wsect_in) (simp_all add: sect_index_32 FSSIZE_def)
  with w have run: "kthen (kmod (\<lambda>s. s\<lparr>mk_sb := the_super\<rparr>)) (kthen (kmod (\<lambda>s. s\<lparr>freeblock := of_nat nmeta\<rparr>))
      (kthen (wipe [0..<FSSIZE]) (kbind (wsect 1 (put_super the_super)) f))) s = f () ?t" for f :: "unit \<Rightarrow> ('b, 'z mk_st_scheme) kop"
    by (simp add: kbind_Ret)
  have u: "unat (of_nat nmeta :: u32) = nmeta" by (simp add: nmeta_46)
  have fs: "fs_inv (replicate FSSIZE ?z) nmeta [no_file]"
    using file_ok_new [of "replicate FSSIZE ?z" 0] by (simp add: fs_inv_def no_file_def blks_def nmeta_46 FSSIZE_def)
  have "fs_inv (img ?t) nmeta [no_file]"
    using fs_inv_meta [OF fs, of 1 "put_super the_super"] length_put_super by (simp add: nmeta_46)
  then have "img_inv ?t [no_file]" using s(2) by (simp add: img_inv_def mk_inv_def u NINODES_def)
  moreover have "img ?t ! 1 = put_super the_super" by (simp add: FSSIZE_def)
  ultimately show thesis using u by (intro that [OF run]) simp_all
qed

text \<open>The directory and the files, before the size of the directory is rounded.\<close>

definition dots :: "u8 list" where
  "dots = dirent 1 (map of_char ''.'') @ dirent 1 (map of_char ''..'')"

lemma length_dots: "length dots = 32"
  by (simp add: dots_def length_dirent)

lemma mkfs_files:
  assumes t: "img_inv t [no_file]" "unat (freeblock t) = nmeta" and num: "length fs + 2 \<le> NINODES"
    and sizes: "\<forall>f \<in> set fs. length (snd f) \<le> MAXFILE * BSIZE"
    and room: "cost (nblk (16 * (length fs + 2))) + data_cost fs \<le> FSSIZE - nmeta"
  obtains s1 s2 s3 s4 B d where "mk_ialloc 1 t = Ret 1 s1" and "iappend 1 (dirent 1 (map of_char ''.'')) s1 = Ret () s2"
    and "iappend 1 (dirent 1 (map of_char ''..'')) s2 = Ret () s3" and "add_files 1 fs s3 = Ret () s4"
    and "img_inv s4 B" and "low_same t s4" and "length B = length fs + 2"
    and "B ! Suc 0 = (d, nblk (16 * (length fs + 2)), dots @ dir_entries 2 fs)" and "di_type d = 1"
    and "\<forall>k < length fs. \<exists>e. B ! (k + 2) = (e, nblk (length (snd (fs ! k))), snd (fs ! k)) \<and> di_type e = 2 \<and> di_nlink e = 1"
    and "unat (freeblock s4) = nmeta + cost (nblk (16 * (length fs + 2))) + data_cost fs"
proof -
  let ?L = "16 * (length fs + 2)"
  have F: "nmeta + cost (nblk ?L) + data_cost fs \<le> FSSIZE" using room by (simp add: nmeta_46 FSSIZE_def)
  have M: "?L \<le> MAXFILE * BSIZE" using num by (simp add: NINODES_def MAXFILE_def NDIRECT_def NINDIRECT_def BSIZE_def)
  have c: "cost (nblk 16) \<le> cost (nblk ?L)" "cost (nblk 32) \<le> cost (nblk ?L)" by (auto intro!: cost_mono nblk_mono)
  obtain s1 where s1: "mk_ialloc 1 t = Ret 1 s1" "img_inv s1 [no_file, (new_dinode 1, 0, [])]" "low_same t s1" "freeblock s1 = freeblock t"
    using mk_ialloc_run [OF t(1), of 1] by (auto simp: NINODES_def)
  have r1: "0 < Suc 0" "Suc 0 < length [no_file, (new_dinode 1, 0, [])]" "[no_file, (new_dinode 1, 0, [])] ! Suc 0 = (new_dinode 1, 0, [])" by simp_all
  have m1: "length ([] :: u8 list) + length (dirent 1 (map of_char ''.'')) \<le> MAXFILE * BSIZE"
    "unat (freeblock s1) + cost (nblk (length ([] :: u8 list) + length (dirent 1 (map of_char ''.'')))) \<le> FSSIZE + cost 0"
    using M F c(1) s1(4) t(2) by (simp_all add: length_dirent)
  obtain d2 s2 where s2: "iappend 1 (dirent 1 (map of_char ''.'')) s1 = Ret () s2"
      "img_inv s2 [no_file, (d2, nblk 16, dirent 1 (map of_char ''.''))]" "low_same s1 s2" "unat (freeblock s2) = nmeta + cost (nblk 16)" "di_type d2 = 1"
    using iappend_run [OF s1(2) r1 m1] s1(4) t(2) by (simp add: length_dirent new_dinode_def) blast
  let ?A2 = "[no_file, (d2, nblk 16, dirent 1 (map of_char ''.''))]"
  have r2: "0 < Suc 0" "Suc 0 < length ?A2" "?A2 ! Suc 0 = (d2, nblk 16, dirent 1 (map of_char ''.''))" by simp_all
  have m2: "length (dirent 1 (map of_char ''.'')) + length (dirent 1 (map of_char ''..'')) \<le> MAXFILE * BSIZE"
    "unat (freeblock s2) + cost (nblk (length (dirent 1 (map of_char ''.'')) + length (dirent 1 (map of_char ''..'')))) \<le> FSSIZE + cost (nblk 16)"
    using M F c(2) s2(4) by (simp_all add: length_dirent)
  obtain d3 s3 where s3: "iappend 1 (dirent 1 (map of_char ''..'')) s2 = Ret () s3" "img_inv s3 [no_file, (d3, nblk 32, dots)]" "low_same s2 s3"
      "unat (freeblock s3) = nmeta + cost (nblk 32)" "di_type d3 = 1"
    using iappend_run [OF s2(2) r2 m2] s2(4,5) by (simp add: length_dirent dots_def) blast
  let ?A3 = "[no_file, (d3, nblk 32, dots)]"
  have r3: "Suc 0 < length ?A3" "?A3 ! Suc 0 = (d3, nblk 32, dots)" "length ?A3 + length fs \<le> NINODES" using num by simp_all
  have l: "length dots + 16 * length fs = ?L" by (simp add: length_dots)
  have m3: "length dots + 16 * length fs \<le> MAXFILE * BSIZE"
    "unat (freeblock s3) + cost (nblk (length dots + 16 * length fs)) + data_cost fs \<le> FSSIZE + cost (nblk 32)"
    unfolding l s3(4) using M F by simp_all
  obtain s4 B d where s4: "add_files 1 fs s3 = Ret () s4" "img_inv s4 B" "low_same s3 s4" "length B = 2 + length fs"
      "B ! Suc 0 = (d, nblk ?L, dots @ dir_entries 2 fs)" "di_type d = di_type d3"
      "\<forall>k < length fs. \<exists>e. B ! (2 + k) = (e, nblk (length (snd (fs ! k))), snd (fs ! k)) \<and> di_type e = 2 \<and> di_nlink e = 1"
      "unat (freeblock s4) + cost (nblk 32) = unat (freeblock s3) + cost (nblk ?L) + data_cost fs"
    using add_files_run [OF s3(2) r3 sizes m3] by (auto simp: l numeral_2_eq_2)
  have "low_same t s4" using s1(3) s2(3) s3(3) s4(3) low_same_trans by blast
  with s1(1) s2(1) s3 s4 show thesis by (intro that [of s1 s2 s3 s4 B d]) (simp_all add: add.commute)
qed

lemma mk_balloc_run:
  assumes s: "mk_inv s A"
  shows "\<exists>m. kbind (kget (\<lambda>s. unat (freeblock s))) mk_balloc s = Ret () m \<and> mk_inv m A \<and> freeblock m = freeblock s
     \<and> (\<forall>j < NINODES. inode_at (img m) j = inode_at (img s) j) \<and> low_same s m"
proof -
  let ?b = "mk_bits (replicate BSIZE 0) [0..<unat (freeblock s)]"
  let ?m = "s\<lparr>img := (img s)[45 := ?b]\<rparr>"
  have sb: "mk_sb s = the_super" and inv: "fs_inv (img s) (unat (freeblock s)) A" and l: "length (img s) = FSSIZE" "unat (freeblock s) \<le> FSSIZE"
    using s by (auto simp: mk_inv_def fs_inv_def)
  have "wsect 45 ?b s = Ret () ?m" using l(1) by (subst wsect_in) (simp_all add: sect_index_def FSSIZE_def)
  then have run: "kbind (kget (\<lambda>s. unat (freeblock s))) mk_balloc s = Ret () ?m"
    using l(2) by (simp add: mk_balloc_def BSIZE_def FSSIZE_def sb bmapstart_super)
  have "mk_inv ?m A" using fs_inv_meta [OF inv, of 45 ?b] sb by (simp add: mk_inv_def nmeta_46)
  moreover have "inode_at (img ?m) j = inode_at (img s) j" if "j < NINODES" for j
    using iblock_nat(2) [OF that] by (simp add: inode_at_def nmeta_46)
  moreover have "low_same s ?m" by (simp add: low_same_def LOGSIZE_def)
  ultimately show ?thesis using run by (intro exI [of _ ?m]) simp
qed

lemma mkfs_finish:
  assumes s: "img_inv s B" and b: "Suc 0 < length B" "B ! Suc 0 = (d, n, c)" and lc: "length c < 2 ^ 20"
  obtains m where "kbind (rinode 1) (\<lambda>din. kthen (winode 1 (din\<lparr>di_size := xint ((xint (di_size din) div 1024 + 1) * 1024)\<rparr>))
      (kbind (kget (\<lambda>s. unat (freeblock s))) mk_balloc)) s = Ret () m"
    and "mk_inv m B" and "freeblock m = freeblock s" and "low_same s m"
    and "\<exists>z. inode_at (img m) 1 = d\<lparr>di_size := z\<rparr> \<and> unat z = (length c div BSIZE + 1) * BSIZE"
    and "\<forall>j < NINODES. j \<noteq> 1 \<longrightarrow> inode_at (img m) j = inode_at (img s) j"
proof -
  note D = img_invD [OF s _ b, simplified]
  have one: "1 < NINODES" by (simp add: NINODES_def)
  let ?z = "(di_size d div 1024 + 1) * 1024"
  have uc: "unat (di_size d) = length c" using lc unfolding D(4) by (simp add: unat_of_nat)
  have "unat (di_size d div 1024) = length c div 1024" by (simp add: unat_div uc)
  moreover have "length c div 1024 < 1024" using lc by (simp add: div_less_iff_less_mult)
  ultimately have z: "unat ?z = (length c div BSIZE + 1) * BSIZE" by (simp add: unat_word_ariths BSIZE_def)
  have la: "length (di_addrs (d\<lparr>di_size := ?z\<rparr>)) = 13" using mk_inv_nth(3) [OF D(1) b] by simp
  obtain t where t: "winode (of_nat 1) (d\<lparr>di_size := ?z\<rparr>) s = Ret () t" "mk_inv t B" "freeblock t = freeblock s" "freeinode t = freeinode s"
    "\<And>j. j < NINODES \<Longrightarrow> inode_at (img t) j = (if j = 1 then d\<lparr>di_size := ?z\<rparr> else inode_at (img s) j)" "\<And>b. b < 2 + LOGSIZE \<Longrightarrow> img t ! b = img s ! b"
    using winode_run [OF D(1) one la] by blast
  obtain m where m: "kbind (kget (\<lambda>s. unat (freeblock s))) mk_balloc t = Ret () m" "mk_inv m B" "freeblock m = freeblock t"
     "\<forall>j < NINODES. inode_at (img m) j = inode_at (img t) j" "low_same t m"
    using mk_balloc_run [OF t(2)] by blast
  have r: "rinode 1 s = Ret d s" using rinode_run [OF D(1) one] D(3) by simp
  have "winode 1 (d\<lparr>di_size := xint ((xint (di_size d) div 1024 + 1) * 1024)\<rparr>) s = Ret () t" using t(1) by (simp only: xint_id of_nat_1)
  then have run: "kbind (rinode 1) (\<lambda>din. kthen (winode 1 (din\<lparr>di_size := xint ((xint (di_size din) div 1024 + 1) * 1024)\<rparr>))
      (kbind (kget (\<lambda>s. unat (freeblock s))) mk_balloc)) s = Ret () m"
    using m(1) by (simp only: kbind_Ret r)
  have "low_same s t" using t(6) by (simp add: low_same_def)
  then have "low_same s m" using m(5) by (rule low_same_trans)
  moreover have "inode_at (img m) 1 = d\<lparr>di_size := ?z\<rparr>" using m(4) t(5) [OF one] one by simp
  moreover have "\<forall>j < NINODES. j \<noteq> 1 \<longrightarrow> inode_at (img m) j = inode_at (img s) j" using m(4) t(5) by simp
  ultimately show thesis using run m(2,3) t(3) z by (intro that [of m]) auto
qed

text \<open>The whole run, in terms of the abstract files.\<close>

lemma mkfs_run:
  fixes s :: "'z mk_st_scheme"
  assumes s: "img s = []" "freeinode s = 1" and num: "length fs + 2 \<le> NINODES"
    and sizes: "\<forall>f \<in> set fs. length (snd f) \<le> MAXFILE * BSIZE"
    and room: "cost (nblk (16 * (length fs + 2))) + data_cost fs \<le> FSSIZE - nmeta"
  obtains m B d z where "mkfs fs s = Ret () m" and "mk_inv m B" and "length B = length fs + 2" and "img m ! 1 = put_super the_super"
    and "B ! Suc 0 = (d, nblk (16 * (length fs + 2)), dots @ dir_entries 2 fs)" and "di_type d = 1"
    and "inode_at (img m) 1 = d\<lparr>di_size := z\<rparr>" and "unat z = ((16 * (length fs + 2)) div BSIZE + 1) * BSIZE"
    and "\<forall>k < length fs. \<exists>e. B ! (k + 2) = (e, nblk (length (snd (fs ! k))), snd (fs ! k)) \<and> inode_at (img m) (k + 2) = e
      \<and> di_type e = 2 \<and> di_nlink e = 1 \<and> unat (di_size e) = length (snd (fs ! k))"
    and "unat (freeblock m) = nmeta + cost (nblk (16 * (length fs + 2))) + data_cost fs"
proof -
  obtain t where t: "\<And>f :: unit \<Rightarrow> (unit, 'z mk_st_scheme) kop. kthen (kmod (\<lambda>s. s\<lparr>mk_sb := the_super\<rparr>)) (kthen (kmod (\<lambda>s. s\<lparr>freeblock := of_nat nmeta\<rparr>))
      (kthen (wipe [0..<FSSIZE]) (kbind (wsect 1 (put_super the_super)) f))) s = f () t"
    "img_inv t [no_file]" "unat (freeblock t) = nmeta" "img t ! 1 = put_super the_super"
    using mkfs_start [OF s] by blast
  obtain s1 s2 s3 s4 B d where f: "mk_ialloc 1 t = Ret 1 s1" "iappend 1 (dirent 1 (map of_char ''.'')) s1 = Ret () s2"
    "iappend 1 (dirent 1 (map of_char ''..'')) s2 = Ret () s3" "add_files 1 fs s3 = Ret () s4" "img_inv s4 B" "low_same t s4" "length B = length fs + 2"
    "B ! Suc 0 = (d, nblk (16 * (length fs + 2)), dots @ dir_entries 2 fs)" "di_type d = 1"
    and files: "\<forall>k < length fs. \<exists>e. B ! (k + 2) = (e, nblk (length (snd (fs ! k))), snd (fs ! k)) \<and> di_type e = 2 \<and> di_nlink e = 1"
    and fb: "unat (freeblock s4) = nmeta + cost (nblk (16 * (length fs + 2))) + data_cost fs"
    using mkfs_files [OF t(2,3) num sizes room] by blast
  let ?c = "dots @ dir_entries 2 fs"
  have L: "length ?c = 16 * (length fs + 2)" by (simp add: length_dots)
  have lc: "length ?c < 2 ^ 20" unfolding L using num by (simp add: NINODES_def)
  have one: "Suc 0 < length B" by (simp add: f(7))
  obtain m where m: "kbind (rinode 1) (\<lambda>din. kthen (winode 1 (din\<lparr>di_size := xint ((xint (di_size din) div 1024 + 1) * 1024)\<rparr>))
      (kbind (kget (\<lambda>s. unat (freeblock s))) mk_balloc)) s4 = Ret () m"
    "mk_inv m B" "freeblock m = freeblock s4" "low_same s4 m"
    "\<exists>z. inode_at (img m) 1 = d\<lparr>di_size := z\<rparr> \<and> unat z = (length ?c div BSIZE + 1) * BSIZE"
    "\<forall>j < NINODES. j \<noteq> 1 \<longrightarrow> inode_at (img m) j = inode_at (img s4) j"
    using mkfs_finish [OF f(5) one f(8) lc] by blast
  then obtain z where z: "inode_at (img m) 1 = d\<lparr>di_size := z\<rparr>" "unat z = (length ?c div BSIZE + 1) * BSIZE" by blast
  have u: "ucast (1 :: u32) = (1 :: u16)" by simp
  have run: "mkfs fs s = Ret () m"
    unfolding mkfs_def t(1) ROOTINO_def using m(1) by (simp only: kbind_Ret f(1-4) u simp_thms if_False)
  have sb: "img m ! 1 = put_super the_super" using t(4) f(6) m(4) by (simp add: low_same_def)
  have "\<exists>e. B ! (k + 2) = (e, nblk (length (snd (fs ! k))), snd (fs ! k)) \<and> inode_at (img m) (k + 2) = e
      \<and> di_type e = 2 \<and> di_nlink e = 1 \<and> unat (di_size e) = length (snd (fs ! k))" if k: "k < length fs" for k
  proof -
    let ?x = "snd (fs ! k)"
    obtain e where e: "B ! (k + 2) = (e, nblk (length ?x), ?x)" "di_type e = 2" "di_nlink e = 1" using files k by blast
    have kB: "0 < k + 2" "k + 2 < length B" using k f(7) by simp_all
    note D = img_invD [OF f(5) kB e(1)]
    have "length ?x \<le> 274432" using sizes k by (simp add: MAXFILE_def NDIRECT_def NINDIRECT_def BSIZE_def)
    then have "unat (di_size e) = length ?x" unfolding D(4) by (simp add: unat_of_nat)
    then show ?thesis using e m(6) D(2,3) by simp
  qed
  then show thesis using fb m(3) z(2) unfolding L by (intro that [OF run m(2) f(7) sb f(8,9) z(1)]) simp_all
qed

lemma mk_inv_file:
  assumes "mk_inv m B" and "i < length B" and "B ! i = f"
  shows "file_ok (img m) f"
  using assms nth_mem [of i B] by (auto simp: mk_inv_def fs_inv_def)

text \<open>(C11) \<open>mkfs\<close> stores what it is given. If the files are no more than the inodes, each at most \<open>MAXFILE\<close> blocks long, and
  together with the root directory they fit, counting the indirect blocks, then the program succeeds; the kernel decodes the
  superblock from block 1; inode \<open>k + 2\<close> is the regular file number \<open>k\<close> with exactly its bytes; inode 1 is a directory that starts with
  the entries of ".", ".." and the files in order; and exactly the blocks needed have been taken.\<close>

theorem mkfs_stores_files:
  fixes s :: "'z mk_st_scheme"
  assumes s: "img s = []" "freeinode s = 1" and num: "length fs + 2 \<le> NINODES"
    and sizes: "\<forall>f \<in> set fs. length (snd f) \<le> MAXFILE * BSIZE"
    and room: "cost (nblk (16 * (length fs + 2))) + data_cost fs \<le> FSSIZE - nmeta"
  shows "\<exists>m. mkfs fs s = Ret () m \<and> length (img m) = FSSIZE \<and> dec_superblock (img m ! 1) = the_super
     \<and> (\<forall>k < length fs. di_type (inode_at (img m) (k + 2)) = 2 \<and> di_nlink (inode_at (img m) (k + 2)) = 1
          \<and> unat (di_size (inode_at (img m) (k + 2))) = length (snd (fs ! k)) \<and> file_bytes (img m) (inode_at (img m) (k + 2)) = snd (fs ! k))
     \<and> di_type (inode_at (img m) 1) = 1 \<and> take (16 * (length fs + 2)) (file_bytes (img m) (inode_at (img m) 1)) = dots @ dir_entries 2 fs
     \<and> unat (freeblock m) = nmeta + cost (nblk (16 * (length fs + 2))) + data_cost fs"
proof -
  obtain m B d z where m: "mkfs fs s = Ret () m" "mk_inv m B" "length B = length fs + 2" "img m ! 1 = put_super the_super"
    "B ! Suc 0 = (d, nblk (16 * (length fs + 2)), dots @ dir_entries 2 fs)" "di_type d = 1"
    "inode_at (img m) 1 = d\<lparr>di_size := z\<rparr>" "unat z = ((16 * (length fs + 2)) div BSIZE + 1) * BSIZE"
    and files: "\<forall>k < length fs. \<exists>e. B ! (k + 2) = (e, nblk (length (snd (fs ! k))), snd (fs ! k)) \<and> inode_at (img m) (k + 2) = e
      \<and> di_type e = 2 \<and> di_nlink e = 1 \<and> unat (di_size e) = length (snd (fs ! k))"
    and fb: "unat (freeblock m) = nmeta + cost (nblk (16 * (length fs + 2))) + data_cost fs"
    using mkfs_run [OF assms] by blast
  let ?c = "dots @ dir_entries 2 fs"
  have L: "length ?c = 16 * (length fs + 2)" by (simp add: length_dots)
  have "file_ok (img m) (d, nblk (length ?c), ?c)" unfolding L by (rule mk_inv_file [OF m(2) _ m(5)]) (simp add: m(3))
  from file_bytes_rounded [OF this] have root: "take (16 * (length fs + 2)) (file_bytes (img m) (inode_at (img m) 1)) = ?c"
    unfolding m(7) L using m(8) by blast
  have "di_type (inode_at (img m) (k + 2)) = 2 \<and> di_nlink (inode_at (img m) (k + 2)) = 1
     \<and> unat (di_size (inode_at (img m) (k + 2))) = length (snd (fs ! k)) \<and> file_bytes (img m) (inode_at (img m) (k + 2)) = snd (fs ! k)"
    if k: "k < length fs" for k
  proof -
    obtain e where e: "B ! (k + 2) = (e, nblk (length (snd (fs ! k))), snd (fs ! k))" "inode_at (img m) (k + 2) = e"
      "di_type e = 2" "di_nlink e = 1" "unat (di_size e) = length (snd (fs ! k))" using files k by blast
    have "file_ok (img m) (e, nblk (length (snd (fs ! k))), snd (fs ! k))" by (rule mk_inv_file [OF m(2) _ e(1)]) (simp add: m(3) k)
    from file_bytes_ok [OF this e(5)] show ?thesis using e by simp
  qed
  moreover have "length (img m) = FSSIZE" using m(2) by (simp add: mk_inv_def fs_inv_def)
  ultimately show ?thesis using m root fb by (intro exI [of _ m]) (simp add: dec_put_super)
qed

theorem mkfs_stores_files_witness:
  "\<exists>m. mkfs [(map of_char ''src/user/_hi'', [104, 105, 33])] mk0 = Ret () m \<and> file_bytes (img m) (inode_at (img m) 2) = [104, 105, 33]"
proof -
  let ?fs = "[(map of_char ''src/user/_hi'', [104, 105, 33 :: u8])]"
  have "cost (nblk (16 * (length ?fs + 2))) + data_cost ?fs \<le> FSSIZE - nmeta"
    by (simp add: cost_def nblk_def data_cost_def BSIZE_def FSSIZE_def nmeta_46 NDIRECT_def)
  from mkfs_stores_files [OF _ _ _ _ this, of mk0] show ?thesis
    by (auto simp: mk0_def NINODES_def MAXFILE_def BSIZE_def NDIRECT_def numeral_2_eq_2)
qed

end
