(* ===== verification/Mount.thy ===== *)
theory Mount
  imports Mkimage
begin

text \<open>
  The kernel on an image built by \<open>mkfs\<close>: what \<open>initfs\<close>, \<open>ilock\<close> and \<open>readi\<close> of \<^verbatim>\<open>kernel/fs.c\<close> find on a disk that holds the image
  \<^verbatim>\<open>mkfs.c\<close> has written. Both programs lay the superblock, the inodes and the blocks out on their own.
\<close>

section \<open>A disk with an image\<close>

text \<open>The sectors of a disk that holds an image.\<close>

definition image_disk :: "u8 list list \<Rightarrow> u64 \<Rightarrow> u8 list" where
  "image_disk im a = (let b = unat a div 2 in
     if b < length im then take 512 (drop (512 * (unat a mod 2)) (im ! b)) else replicate 512 0)"

lemma length_image_disk: "\<forall>b \<in> set im. length b = BSIZE \<Longrightarrow> length (image_disk im a) = 512"
  by (auto simp: image_disk_def Let_def BSIZE_def nth_mem)

lemma disk_block_image:
  assumes "\<forall>b \<in> set im. length b = BSIZE" and "n < length im" and "n < 2147483648"
  shows "disk_block (image_disk im) (of_nat n) = im ! n"
proof -
  have "unat (of_nat n * 2 :: u32) = 2 * n" using assms(3) by (simp add: unat_word_ariths unat_of_nat)
  then have u: "unat (sector_of (of_nat n)) = 2 * n" by (simp add: sector_of_def unat_ucast_32_64)
  then have u1: "unat (sector_of (of_nat n) + 1) = 2 * n + 1" using assms(3) by (simp add: unat_word_ariths)
  have l: "length (im ! n) = 1024" using assms(1,2) by (simp add: BSIZE_def)
  have "[0..<2] = [0, Suc 0]" by code_simp
  then have "disk_block (image_disk im) (of_nat n) = take 512 (im ! n) @ take 512 (drop 512 (im ! n))"
    using assms(2) u u1 by (simp add: disk_block_def rd_sectors_def image_disk_def)
  also have "take 512 (drop 512 (im ! n)) = drop 512 (im ! n)" using l by simp
  finally show ?thesis by simp
qed

section \<open>Mounting\<close>

lemma quiet_sb: "quiet p dev (s\<lparr>sb := b\<rparr>) = quiet p dev s" "steady (s\<lparr>sb := b\<rparr>) = steady s" "blk (s\<lparr>sb := b\<rparr>) = blk s"
proof -
  have "calm p (s\<lparr>sb := b\<rparr>) = calm p s" by (simp add: calm_def cur_def)
  then show "quiet p dev (s\<lparr>sb := b\<rparr>) = quiet p dev s" by (simp add: quiet_def driver_idle_def)
  show "steady (s\<lparr>sb := b\<rparr>) = steady s" by (simp add: steady_def)
  show "blk (s\<lparr>sb := b\<rparr>) = blk s" by (intro ext) (simp add: blk_def split: option.splits)
qed

lemma working_sb:
  assumes "working p dev n r s t"
  shows "working p dev n r (s\<lparr>sb := b\<rparr>) (t\<lparr>sb := b\<rparr>)"
proof -
  have c: "calm p (t\<lparr>sb := b\<rparr>) = calm p t" by (simp add: calm_def cur_def)
  have "t = disk_of t s" using assms by (simp add: working_def only_disk_def)
  then have "t\<lparr>sb := b\<rparr> = (disk_of t s)\<lparr>sb := b\<rparr>" by simp
  then have "only_disk (s\<lparr>sb := b\<rparr>) (t\<lparr>sb := b\<rparr>)" by (simp add: only_disk_def disk_of_def)
  then show ?thesis using assms c by (simp add: working_def driver_idle_def held_buf_def)
qed

lemma initfs_run:
  assumes q: "quiet p dev s" and st: "steady s" and b: "b = dec_superblock (disk_block (sectors s) 1)" and m: "magic b = FSMAGIC"
  obtains t where "initfs dev s = Ret () t" "quiet p dev t" "steady t" "only_disk (s\<lparr>sb := b\<rparr>) t" "sectors t = sectors s"
proof -
  let ?s = "s\<lparr>sb := b\<rparr>"
  have qs: "quiet p dev ?s" "steady ?s" using q st by (simp_all add: quiet_sb)
  obtain r t where r: "bread dev 1 s = Ret r t" "working p dev 1 r s t" "sectors t = sectors s"
    "b_data (bufs t ! r) = blk s dev 1" "\<And>m. blk t dev m = blk s dev m"
    using bread_quiet [OF q, of 1] st by metis
  have d: "b_data (bufs t ! r) = disk_block (sectors s) 1" using r(4) blk_steady [OF q st] by simp
  let ?t = "t\<lparr>sb := b\<rparr>"
  have w: "working p dev 1 r ?s ?t" by (rule working_sb [OF r(2)])
  obtain u where u: "brelease r ?t = Ret () u" "quiet p dev u" "steady u" "only_disk ?s u" "sectors u = sectors ?s"
    using steady_read [OF qs w] r(3-5) by (auto simp: quiet_sb)
  have "sb u = b" using only_disk_fs [OF u(4)] by simp
  then have "initfs dev s = Ret () u"
    using r(1) u(1) m d by (simp add: initfs_def readsb_def kbind_def bget_field_apply b [symmetric])
  then show thesis using that u by simp
qed

section \<open>A file of the image\<close>

lemma bytes_of_block:
  "(\<And>j. j < n \<Longrightarrow> length (im ! blk_at im d j) = BSIZE) \<Longrightarrow> j < n \<Longrightarrow> im ! blk_at im d j = take BSIZE (drop (j * BSIZE) (bytes_of im d n))"
proof (induction n)
  case (Suc n)
  have l: "length (bytes_of im d n) = n * BSIZE" by (rule length_bytes_of) (rule Suc.prems(1), simp)
  show ?case
  proof (cases "j = n")
    case True
    then show ?thesis using l Suc.prems(1) [of n] by (simp add: bytes_of_Suc)
  next
    case False
    then have j: "j < n" using Suc.prems(2) by simp
    then have "(j + 1) * BSIZE \<le> n * BSIZE" by (intro mult_le_mono1) simp
    then show ?thesis using Suc.IH [OF _ j] Suc.prems(1) l by (simp add: bytes_of_Suc)
  qed
qed simp

lemma nblk_less: "off < z \<Longrightarrow> off div BSIZE < nblk z"
  unfolding nblk_def BSIZE_def using div_le_mono [of "off + 1024" "z + 1024 - 1" 1024] by simp

text \<open>Bytes of a file that lie in one of its direct blocks.\<close>

lemma file_block:
  assumes m: "mk_inv m B" and i: "i < length B" "B ! i = (d, nblk (length x), x)" and off: "off < length x" "off div BSIZE < NDIRECT"
    and n: "off + n \<le> length x" "off mod BSIZE + n \<le> BSIZE"
  defines "a \<equiv> di_addrs d ! (off div BSIZE)"
  shows "a \<noteq> 0" and "unat a < FSSIZE" and "take n (drop (off mod BSIZE) (img m ! unat a)) = take n (drop off x)"
proof -
  note D = mk_inv_nth [OF m i]
  let ?j = "off div BSIZE"
  have j: "?j < nblk (length x)" by (rule nblk_less [OF off(1)])
  have a: "blk_at (img m) d ?j = unat a" using off(2) by (simp add: blk_at_def a_def)
  have rng: "nmeta \<le> b \<and> b < FSSIZE" if "b \<in> set (blks (img m) d (nblk (length x)))" for b
    using fs_inv_blks [OF D(1,2) that] D(1) by (simp add: fs_inv_def)
  show "unat a < FSSIZE" and "a \<noteq> 0" using rng [OF blk_at_mem [OF j]] unfolding a by (auto simp: nmeta_46)
  have "length (img m ! blk_at (img m) d k) = BSIZE" if "k < nblk (length x)" for k
    using rng [OF blk_at_mem [OF that]] by (intro fs_inv_len [OF D(1)]) simp
  from bytes_of_block [OF this j] have blk: "img m ! unat a = take BSIZE (drop (?j * BSIZE) (bytes_of (img m) d (nblk (length x))))"
    unfolding a by blast
  have y: "bytes_of (img m) d (nblk (length x)) = x @ replicate (nblk (length x) * BSIZE - length x) 0"
    using mk_inv_file [OF m i] by (simp add: file_ok_def)
  have e: "off mod BSIZE + ?j * BSIZE = off" by simp
  have "drop (off mod BSIZE) (img m ! unat a) = take (BSIZE - off mod BSIZE) (drop off (bytes_of (img m) d (nblk (length x))))"
    unfolding blk by (simp only: drop_take drop_drop e)
  moreover have "min n (BSIZE - off mod BSIZE) = n" using n(2) by simp
  ultimately have "take n (drop (off mod BSIZE) (img m ! unat a)) = take n (drop off (bytes_of (img m) d (nblk (length x))))"
    by (simp only: take_take)
  then show "take n (drop (off mod BSIZE) (img m ! unat a)) = take n (drop off x)" unfolding y using n(1) by simp
qed

lemma dinode_of_image:
  assumes "mk_inv m B" and "i < NINODES" and "sectors s = image_disk (img m)" and "sb s = the_super"
  shows "dinode_of s (of_nat i) = inode_at (img m) i" and "unat (IBLOCK (of_nat i) (sb s)) < 2147483648"
proof -
  let ?b = "2 + LOGSIZE + i div IPB"
  have l: "length (img m) = FSSIZE" "\<forall>b \<in> set (img m). length b = BSIZE" using assms(1) by (auto simp: mk_inv_def fs_inv_def)
  note ib = iblock_nat [OF assms(2)]
  have b: "?b < FSSIZE" "?b < 2147483648" using ib(2) by (simp_all add: nmeta_46 FSSIZE_def)
  then have "disk_block (image_disk (img m)) (of_nat ?b) = img m ! ?b" using l by (intro disk_block_image) simp_all
  moreover have "IBLOCK (of_nat i) the_super = of_nat ?b" using ib(4) by (metis of_nat_unat ucast_id)
  ultimately show "dinode_of s (of_nat i) = inode_at (img m) i"
    using assms(3,4) ib(3) by (simp add: dinode_of_def inode_at_def)
  show "unat (IBLOCK (of_nat i) (sb s)) < 2147483648" using ib(4) b(2) assms(4) by simp
qed

text \<open>\<open>readi\<close> of a file of the image, within a direct block; the size in the inode may be larger than the file.\<close>

lemma readi_image:
  assumes B: "mk_inv m B" "j < length B" "B ! j = (e, nblk (length x), x)"
    and u: "quiet p dev u" "steady u" "sectors u = image_disk (img m)"
    and k: "i_dev (inodes u ! i) = dev" "i_addrs (inodes u ! i) = di_addrs e" "length x \<le> unat (i_size (inodes u ! i))"
      "unat (i_size (inodes u ! i)) < 2 ^ 20"
    and off: "unat off < length x" "unat off div BSIZE < NDIRECT" "unat off mod BSIZE + unat n \<le> BSIZE"
    and n': "n' = min (unat n) (unat (i_size (inodes u ! i)) - unat off)" "unat off + n' \<le> length x"
  shows "\<exists>v. readi i (Local y) off n u = Ret (int n', take n' (drop (unat off) x)) v \<and> quiet p dev v \<and> steady v \<and> only_disk u v
     \<and> sectors v = sectors u"
proof -
  let ?a = "di_addrs e ! (unat off div BSIZE)"
  have l: "length (img m) = FSSIZE" "\<forall>b \<in> set (img m). length b = BSIZE" using B(1) by (auto simp: mk_inv_def fs_inv_def)
  have n: "unat off mod BSIZE + n' \<le> BSIZE" using off(3) n'(1) by simp
  note blk = file_block [OF B off(1,2) n'(2) n]
  have db: "disk_block (sectors u) ?a = img m ! unat ?a"
    unfolding u(3) using disk_block_image [OF l(2), of "unat ?a"] blk(2) l(1) by (simp add: FSSIZE_def)
  have "unat n \<le> 1024" using off(3) by (simp add: BSIZE_def)
  then have on: "unat (off + n) = unat off + unat n" using off(1) k(3,4) by (simp add: unat_word_ariths)
  have cut: "n' = (if off > i_size (inodes u ! i) \<or> off + n < off then 0
      else if off + n > i_size (inodes u ! i) then unat (i_size (inodes u ! i)) - unat off else unat n)"
    using off(1) k(3) on n'(1) by (auto simp: word_less_nat_alt)
  have q: "quiet p (i_dev (inodes u ! i)) u" using u(1) k(1) by simp
  have a: "?a = i_addrs (inodes u ! i) ! (unat off div BSIZE)" "unat ?a < 2147483648" "unat (i_size (inodes u ! i)) < 2147483648"
    using k(2,4) blk(2) by (simp_all add: FSSIZE_def)
  have len: "n' \<le> length (drop (unat off mod BSIZE) (img m ! unat ?a))" using n blk(2) l by simp
  obtain v where v: "readi i (Local y) off n u = Ret (int n', cycle (drop (unat off mod BSIZE) (img m ! unat ?a)) n') v"
      "quiet p dev v" "steady v" "only_disk u v" "sectors v = sectors u"
    using readi_run [OF q u(2) off(2) a(1) blk(1) a(2,3) cut refl, of y] k(1) unfolding db by blast
  have "cycle (drop (unat off mod BSIZE) (img m ! unat ?a)) n' = take n' (drop (unat off) x)"
    unfolding cycle_short [OF len] by (rule blk(3))
  then show ?thesis using v by (intro exI [of _ v]) simp
qed

lemma read_loaded:
  assumes B: "mk_inv m B" "j < length B" "B ! j = (e, nblk (length x), x)" "unat (di_size e) = length x"
    and u: "quiet p dev u" "steady u" "sectors u = image_disk (img m)"
    and k: "i_dev (inodes u ! i) = dev \<and> i_addrs (inodes u ! i) = di_addrs e \<and> i_size (inodes u ! i) = di_size e" "length x \<le> MAXFILE * BSIZE"
    and off: "unat off < length x" "unat off div BSIZE < NDIRECT" "unat off mod BSIZE + unat n \<le> BSIZE"
  shows "\<exists>v. readi i (Local y) off n u = Ret (int (min (unat n) (length x - unat off)), take (unat n) (drop (unat off) x)) v"
proof -
  let ?n = "min (unat n) (unat (i_size (inodes u ! i)) - unat off)"
  have sz: "length x \<le> unat (i_size (inodes u ! i))" "unat (i_size (inodes u ! i)) < 2 ^ 20"
    using k B(4) by (simp_all add: MAXFILE_def NDIRECT_def NINDIRECT_def BSIZE_def)
  have "unat off + ?n \<le> length x" using off(1) k(1) B(4) by simp
  from readi_image [OF B(1-3) u _ _ sz off refl this, of y] k(1)
  obtain v where v: "readi i (Local y) off n u = Ret (int ?n, take ?n (drop (unat off) x)) v" by blast
  moreover have "take ?n (drop (unat off) x) = take (unat n) (drop (unat off) x)"
    using k(1) B(4) by (cases "unat n \<le> length x - unat off") (simp_all add: min_def)
  ultimately show ?thesis using k(1) B(4) by auto
qed

text \<open>\<open>initfs\<close> and \<open>ilock\<close> on an image.\<close>

lemma mount_image:
  assumes s: "quiet p dev s" "steady s" "sectors s = image_disk (img m)" and B: "mk_inv m B" "img m ! 1 = put_super the_super"
  obtains t where "initfs dev s = Ret () t" "quiet p dev t" "steady t" "sectors t = image_disk (img m)" "inodes t = inodes s" "sb t = the_super"
proof -
  have l: "length (img m) = FSSIZE" "\<forall>b \<in> set (img m). length b = BSIZE" using B(1) by (auto simp: mk_inv_def fs_inv_def)
  have "disk_block (sectors s) (of_nat 1) = img m ! 1" unfolding s(3) using l by (intro disk_block_image) (simp_all add: FSSIZE_def)
  then have sup: "the_super = dec_superblock (disk_block (sectors s) 1)" using B(2) by (simp add: dec_put_super)
  obtain t where t: "initfs dev s = Ret () t" "quiet p dev t" "steady t" "only_disk (s\<lparr>sb := the_super\<rparr>) t" "sectors t = sectors s"
    using initfs_run [OF s(1,2) sup] by (auto simp: the_super_def)
  then show thesis using only_disk_fs [OF t(4)] s(3) by (intro that [of t]) simp_all
qed

lemma ilock_image:
  assumes B: "mk_inv m B" "j < NINODES" "inode_at (img m) j = e"
    and t: "quiet p dev t" "steady t" "sectors t = image_disk (img m)" "sb t = the_super"
    and i: "i < length (inodes t)" "i_dev (inodes t ! i) = dev" "i_inum (inodes t ! i) = of_nat j" "i_ref (inodes t ! i) \<ge> 1"
      "sl_locked (i_splock (inodes t ! i)) = 0" "i_vaild (inodes t ! i) = 0"
  obtains u where "ilock (Some i) t = Ret () u" "quiet p dev u" "steady u" "sectors u = image_disk (img m)" "sb u = the_super" "procs u = procs t"
    "inodes u = (inodes t)[i := load_part e (locked_inode p t (inodes t ! i))]"
proof -
  note dn = dinode_of_image [OF B(1,2) t(3,4)]
  obtain u where u: "ilock (Some i) t = Ret () u" "only_disk (t\<lparr>inodes := (inodes t)[i := load_part e (locked_inode p t (inodes t ! i))]\<rparr>) u"
      "quiet p dev u" "steady u" "sectors u = sectors t"
    using ilock_run [of p t i] t(1,2) dn B(3) i by auto
  then show thesis using only_disk_fs [OF u(2)] only_disk_sel [OF u(2)] t(3,4) by (intro that [of u]) simp_all
qed

text \<open>The kernel reads back the files \<open>mkfs\<close> has stored. On a disk that holds the image, \<open>initfs\<close> accepts the superblock, \<open>ilock\<close>
  of the inode of the file number \<open>k\<close> loads its type and size, and \<open>readi\<close>, asked for bytes inside one of the twelve direct blocks,
  delivers exactly these bytes of the file, cut at its end.\<close>

theorem kernel_reads_mkfs_file:
  assumes m: "mkfs fs m0 = Ret () m" "img m0 = []" "freeinode m0 = 1" and fs: "length fs + 2 \<le> NINODES"
      "\<forall>f \<in> set fs. length (snd f) \<le> MAXFILE * BSIZE" "cost (nblk (16 * (length fs + 2))) + data_cost fs \<le> FSSIZE - nmeta"
    and k: "k < length fs" "x = snd (fs ! k)"
    and s: "quiet p dev s" "steady s" "sectors s = image_disk (img m)"
    and i: "i < length (inodes s)" "i_dev (inodes s ! i) = dev" "i_inum (inodes s ! i) = of_nat (k + 2)" "i_ref (inodes s ! i) \<ge> 1"
      "sl_locked (i_splock (inodes s ! i)) = 0" "i_vaild (inodes s ! i) = 0"
    and off: "unat off < length x" "unat off div BSIZE < NDIRECT" "unat off mod BSIZE + unat n \<le> BSIZE"
  shows "\<exists>t u v. initfs dev s = Ret () t \<and> sb t = the_super \<and> ilock (Some i) t = Ret () u
     \<and> i_type (inodes u ! i) = 2 \<and> unat (i_size (inodes u ! i)) = length x
     \<and> readi i (Local y) off n u = Ret (int (min (unat n) (length x - unat off)), take (unat n) (drop (unat off) x)) v"
proof -
  obtain m' B where m': "mkfs fs m0 = Ret () m'" and B': "mk_inv m' B" "length B = length fs + 2" "img m' ! 1 = put_super the_super"
    and files': "\<forall>k < length fs. \<exists>e. B ! (k + 2) = (e, nblk (length (snd (fs ! k))), snd (fs ! k)) \<and> inode_at (img m') (k + 2) = e
      \<and> di_type e = 2 \<and> di_nlink e = 1 \<and> unat (di_size e) = length (snd (fs ! k))"
    by (rule mkfs_run [OF m(2,3) fs]) blast
  have "m' = m" using m' m(1) by simp
  note B = B' [unfolded this] and files = files' [unfolded this]
  obtain e where e: "B ! (k + 2) = (e, nblk (length x), x)" "inode_at (img m) (k + 2) = e" "di_type e = 2" "unat (di_size e) = length x"
    using files k by blast
  have kB: "k + 2 < length B" "k + 2 < NINODES" using k(1) B(2) fs(1) by simp_all
  obtain t where t: "initfs dev s = Ret () t" "quiet p dev t" "steady t" "sectors t = image_disk (img m)" "inodes t = inodes s" "sb t = the_super"
    using mount_image [OF s B(1,3)] .
  obtain u where u: "ilock (Some i) t = Ret () u" "quiet p dev u" "steady u" "sectors u = image_disk (img m)"
      "inodes u = (inodes t)[i := load_part e (locked_inode p t (inodes t ! i))]"
    using ilock_image [OF B(1) kB(2) e(2) t(2-4,6), of i] i unfolding t(5) by blast
  have ku: "i_dev (inodes u ! i) = dev" "i_addrs (inodes u ! i) = di_addrs e" "i_size (inodes u ! i) = di_size e" "i_type (inodes u ! i) = 2"
    using i(1,2) e(3) t(5) unfolding u(5) by (simp_all add: load_part_def locked_inode_def)
  have "\<exists>v. readi i (Local y) off n u = Ret (int (min (unat n) (length x - unat off)), take (unat n) (drop (unat off) x)) v"
    using fs(2) k by (intro read_loaded [OF B(1) kB(1) e(1,4) u(2-4) _ _ off]) (simp_all add: ku)
  then show ?thesis using t(1,6) u(1) ku e(4) by auto
qed

theorem kernel_reads_mkfs_file_witness:
  "\<exists>m (s :: fs_st) t u v. mkfs [(map of_char ''src/user/_hi'', [104, 105, 33])] mk0 = Ret () m \<and> sectors s = image_disk (img m)
     \<and> initfs 1 s = Ret () t \<and> ilock (Some 0) t = Ret () u \<and> readi 0 (Local []) 1 7 u = Ret (2, [105, 33]) v"
proof -
  let ?fs = "[(map of_char ''src/user/_hi'', [104, 105, 33 :: u8])]"
  let ?k = "blank_inode\<lparr>i_dev := 1, i_inum := 2, i_ref := 1\<rparr>"
  have m0: "img mk0 = []" "freeinode mk0 = 1" by (simp_all add: mk0_def)
  have fs: "length ?fs + 2 \<le> NINODES" "\<forall>f \<in> set ?fs. length (snd f) \<le> MAXFILE * BSIZE"
    "cost (nblk (16 * (length ?fs + 2))) + data_cost ?fs \<le> FSSIZE - nmeta"
    by (simp_all add: cost_def nblk_def data_cost_def BSIZE_def FSSIZE_def nmeta_46 NDIRECT_def NINODES_def MAXFILE_def)
  obtain m B where m: "mkfs ?fs mk0 = Ret () m" "mk_inv m B" by (rule mkfs_run [OF m0 fs]) blast
  then have l: "\<forall>b \<in> set (img m). length b = BSIZE" by (auto simp: mk_inv_def fs_inv_def)
  obtain s :: fs_st where s: "quiet 0 1 s" "steady s" "sectors s = image_disk (img m)" "inodes s = [?k]"
    by (rule run_quiet [of "image_disk (img m)" sb0 "[?k]"]) (simp_all add: length_image_disk [OF l])
  have i: "0 < length (inodes s)" "i_dev (inodes s ! 0) = 1" "i_inum (inodes s ! 0) = of_nat (0 + 2)" "i_ref (inodes s ! 0) \<ge> 1"
      "sl_locked (i_splock (inodes s ! 0)) = 0" "i_vaild (inodes s ! 0) = 0"
    using s(4) by (simp_all add: blank_inode_def)
  have k: "0 < length ?fs" "[104, 105, 33] = snd (?fs ! 0)" by simp_all
  have "unat (1 :: u32) < length [104, 105, 33 :: u8]" "unat (1 :: u32) div BSIZE < NDIRECT" "unat (1 :: u32) mod BSIZE + unat (7 :: u32) \<le> BSIZE"
    by (simp_all add: BSIZE_def NDIRECT_def)
  from kernel_reads_mkfs_file [OF m(1) m0 fs k s(1-3) i this, of "[]"] show ?thesis using m(1) s(3) by auto
qed

end
