(* ===== verification/Lookup.thy ===== *)
theory Lookup
  imports Mount
begin

text \<open>
  Looking a name up in the root directory of an image: \<open>rootsub\<close> and \<open>inodeByName\<close> of \<^verbatim>\<open>kernel/fs.c\<close>, with which \<open>exec\<close> finds its
  program, on the directory that \<^verbatim>\<open>mkfs.c\<close> has written, with a cold inode cache, as it is when the first process starts.
\<close>

section \<open>Names\<close>

text \<open>What a directory entry keeps of a name, and \<open>strncmp\<close> compares: the characters up to a NUL, at most \<open>DIRSIZ\<close> of them.\<close>

definition dir_key :: "u8 list \<Rightarrow> u8 list" where
  "dir_key name = take DIRSIZ (cstr name)"

lemma cstr_take: "cstr (take n s) = take n (cstr s)"
  by (induction s arbitrary: n) (auto simp: cstr_def take_Cons' split: if_splits)

lemma strncmp_defined: "n \<le> length q \<Longrightarrow> 0 \<in> set p \<or> n \<le> length p \<Longrightarrow> \<exists>r. strncmp p q n = Some r"
  by (induction p q n rule: strncmp.induct) auto

lemma cstr_pad: "cstr (cstr s @ replicate n 0) = cstr s"
  unfolding cstr_def by (cases n) (auto simp: takeWhile_append dest: set_takeWhileD)

lemma drop_dirent: "drop 2 (dirent inum name) = take DIRSIZ (cstr name @ replicate DIRSIZ 0)"
  by (simp add: dirent_def wr16_def numeral_2_eq_2)

lemma rd16_dirent: "rd16 (dirent inum name) 0 = inum"
  by (simp add: dirent_def rd16_wr16 DIRSIZ_def)

lemma strncmp_dirent:
  assumes "0 \<in> set name"
  shows "\<exists>r. strncmp name (drop 2 (dirent inum nm)) DIRSIZ = Some r \<and> (r = 0 \<longleftrightarrow> dir_key name = dir_key nm)"
proof -
  have l: "DIRSIZ \<le> length (drop 2 (dirent inum nm))" by (simp add: drop_dirent)
  obtain r where r: "strncmp name (drop 2 (dirent inum nm)) DIRSIZ = Some r" using strncmp_defined [OF l, of name] assms by blast
  have "cstr (take DIRSIZ (drop 2 (dirent inum nm))) = dir_key nm"
    unfolding drop_dirent dir_key_def by (simp only: take_take min.idem cstr_take cstr_pad)
  then show ?thesis using r strncmp_zero_iff [OF r] by (simp add: cstr_take dir_key_def)
qed

section \<open>Entries\<close>

text \<open>The directory as a list of entries (inode number and name).\<close>

definition entries :: "(u8 list \<times> u8 list) list \<Rightarrow> (nat \<times> u8 list) list" where
  "entries fs = (1, map of_char ''.'') # (1, map of_char ''..'') # zip [2..<length fs + 2] (map (short_name \<circ> fst) fs)"

lemma dir_entries_concat: "dir_entries n fs = concat (map (\<lambda>(i, nm). dirent (of_nat i) nm) (zip [n..<length fs + n] (map (short_name \<circ> fst) fs)))"
proof (induction n fs rule: dir_entries.induct)
  case (2 n arg d fs)
  have "[n..<length ((arg, d) # fs) + n] = n # [Suc n..<length fs + Suc n]" by (simp add: upt_conv_Cons del: upt_Suc)
  then show ?case using 2 by simp
qed simp

lemma directory_concat: "dots @ dir_entries 2 fs = concat (map (\<lambda>(i, nm). dirent (of_nat i) nm) (entries fs))"
  by (simp add: entries_def dots_def dir_entries_concat)

lemma length_entries: "length (entries fs) = length fs + 2"
  by (simp add: entries_def del: upt_Suc)

lemma entries_file: "k < length fs \<Longrightarrow> entries fs ! (k + 2) = (k + 2, short_name (fst (fs ! k)))"
  by (simp add: entries_def del: upt_Suc)

lemma entries_early:
  assumes "dir_key name \<notin> {map of_char ''.'', map of_char ''..''}" and "\<forall>j < k. dir_key name \<noteq> dir_key (short_name (fst (fs ! j)))"
    and "k < length fs" and "j < k + 2"
  shows "dir_key name \<noteq> dir_key (snd (entries fs ! j))"
proof (cases "j < 2")
  case True
  have "dir_key (map of_char ''.'') = map of_char ''.''" "dir_key (map of_char ''..'') = map of_char ''..''" by code_simp+
  moreover have "j = 0 \<or> j = 1" using True by linarith
  ultimately show ?thesis using assms(1) by (elim disjE) (simp_all add: entries_def)
next
  case False
  then obtain i where "j = i + 2" by (metis add.commute le_Suc_ex not_less)
  then show ?thesis using entries_file [of i fs] assms(2-4) by simp
qed

lemma concat_entry:
  "q < length es \<Longrightarrow> take 16 (drop (16 * q) (concat (map (\<lambda>(i, nm). dirent (of_nat i) nm) es))) = dirent (of_nat (fst (es ! q))) (snd (es ! q))"
proof (induction es arbitrary: q)
  case (Cons e es)
  then show ?case by (cases q; cases e) (simp_all add: length_dirent)
qed simp

lemma length_concat_entries: "length (concat (map (\<lambda>(i, nm). dirent (of_nat i) nm) es)) = 16 * length es"
  by (induction es) (auto simp: length_dirent)

section \<open>The search\<close>

definition dir_bytes :: "(nat \<times> u8 list) list \<Rightarrow> u8 list" where
  "dir_bytes es = concat (map (\<lambda>(i, nm). dirent (of_nat i) nm) es)"

text \<open>The slot \<open>r\<close> of the inode cache holds the directory with the entries \<open>es\<close>, its size perhaps rounded up.\<close>

definition holds_dir :: "nat \<Rightarrow> 'y mk_st_scheme \<Rightarrow> (nat \<times> u8 list) list \<Rightarrow> u32 \<Rightarrow> nat \<Rightarrow> 'z fs_st_scheme \<Rightarrow> bool" where
  "holds_dir p m es dev r u \<longleftrightarrow> quiet p dev u \<and> steady u \<and> sectors u = image_disk (img m) \<and> i_dev (inodes u ! r) = dev
     \<and> 16 * length es \<le> unat (i_size (inodes u ! r)) \<and> unat (i_size (inodes u ! r)) < 2 ^ 20
     \<and> (\<exists>B j e. mk_inv m B \<and> j < length B \<and> B ! j = (e, nblk (16 * length es), dir_bytes es) \<and> i_addrs (inodes u ! r) = di_addrs e)"

lemma holds_dir_only_disk:
  "holds_dir p m es dev r u \<Longrightarrow> quiet p dev v \<Longrightarrow> steady v \<Longrightarrow> only_disk u v \<Longrightarrow> sectors v = sectors u \<Longrightarrow> holds_dir p m es dev r v"
  using only_disk_fs [of u v] by (simp add: holds_dir_def)

lemma read_entry:
  assumes u: "holds_dir p m es dev r u" and q: "q < length es" "length es \<le> 768"
  shows "\<exists>v. readi r (Local y) (of_nat (16 * q)) 16 u = Ret (16, dirent (of_nat (fst (es ! q))) (snd (es ! q))) v \<and> holds_dir p m es dev r v
     \<and> only_disk u v"
proof -
  obtain B j e where B: "mk_inv m B" "j < length B" "B ! j = (e, nblk (length (dir_bytes es)), dir_bytes es)" "i_addrs (inodes u ! r) = di_addrs e"
    using u unfolding holds_dir_def dir_bytes_def length_concat_entries by blast
  note len = length_concat_entries [of es, folded dir_bytes_def]
  have uo: "unat (of_nat (16 * q) :: u32) = 16 * q" using q by (simp add: unat_of_nat del: of_nat_mult)
  have d: "unat (of_nat (16 * q) :: u32) < length (dir_bytes es)" "unat (of_nat (16 * q) :: u32) div BSIZE < NDIRECT"
    unfolding uo len using q by (simp_all add: BSIZE_def NDIRECT_def div_less_iff_less_mult)
  have "16 * q mod 1024 = 16 * (q mod 64)" using mult_mod_right [of 16 q 64] by simp
  then have b: "unat (of_nat (16 * q) :: u32) mod BSIZE + unat (16 :: u32) \<le> BSIZE" unfolding uo by (simp add: BSIZE_def)
  have sz: "length (dir_bytes es) \<le> unat (i_size (inodes u ! r))" "unat (i_size (inodes u ! r)) < 2 ^ 20" using u by (simp_all add: holds_dir_def len)
  have n: "16 = min (unat (16 :: u32)) (unat (i_size (inodes u ! r)) - unat (of_nat (16 * q) :: u32))"
    "unat (of_nat (16 * q) :: u32) + 16 \<le> length (dir_bytes es)" unfolding uo using sz q(1) by (simp_all add: len)
  have s: "quiet p dev u" "steady u" "sectors u = image_disk (img m)" "i_dev (inodes u ! r) = dev" using u by (simp_all add: holds_dir_def)
  obtain v where v: "readi r (Local y) (of_nat (16 * q)) 16 u = Ret (int 16, take 16 (drop (unat (of_nat (16 * q) :: u32)) (dir_bytes es))) v"
      "quiet p dev v" "steady v" "only_disk u v" "sectors v = sectors u"
    using readi_image [OF B(1-3) s B(4) sz d b n, of y] by blast
  have "take 16 (drop (unat (of_nat (16 * q) :: u32)) (dir_bytes es)) = dirent (of_nat (fst (es ! q))) (snd (es ! q))"
    unfolding uo dir_bytes_def by (rule concat_entry [OF q(1)])
  then show ?thesis using v(1,4) holds_dir_only_disk [OF u v(2-5)] by (intro exI [of _ v]) simp
qed

lemma inodeByName_loop_finds:
  assumes "holds_dir p m es dev r u" and "0 \<in> set name" and "length es \<le> 768" "length es \<le> N" and "q \<le> k" "k < length es"
    and "\<forall>j. q \<le> j \<longrightarrow> j < k \<longrightarrow> dir_key name \<noteq> dir_key (snd (es ! j))" and "dir_key name = dir_key (snd (es ! k))" and "fst (es ! k) < 65536"
  shows "\<exists>v. inodeByName_loop r name (map (\<lambda>i. 16 * i) [q..<N]) u = kbind (iget dev (of_nat (fst (es ! k)))) (\<lambda>i. kret (Some i)) v
     \<and> holds_dir p m es dev r v \<and> only_disk u v"
  using assms
proof (induction "k - q" arbitrary: q u)
  case 0
  then have q: "q = k" "k < N" by simp_all
  then have up: "[q..<N] = k # [Suc k..<N]" by (simp add: upt_conv_Cons)
  obtain v where v: "readi r (Local (replicate 16 0)) (of_nat (16 * k)) 16 u = Ret (16, dirent (of_nat (fst (es ! k))) (snd (es ! k))) v"
      "holds_dir p m es dev r v" "only_disk u v" using read_entry [OF 0(2) 0(7) 0(4)] by blast
  have c: "strncmp name (drop 2 (dirent (of_nat (fst (es ! k))) (snd (es ! k)))) DIRSIZ = Some 0"
    using strncmp_dirent [OF 0(3), of "of_nat (fst (es ! k))" "snd (es ! k)"] 0(9) by auto
  have n: "ucast (of_nat (fst (es ! k)) :: u16) = (of_nat (fst (es ! k)) :: u32)"
    using 0(10) by (simp add: unsigned_of_nat take_bit_nat_eq_self)
  have "i_dev (inodes v ! r) = dev" using v(2) by (simp add: holds_dir_def)
  then show ?case unfolding up using v c n by (intro exI [of _ v]) (simp add: kbind_Ret rd16_dirent iget_field_apply kret_def del: of_nat_mult)
next
  case (Suc x)
  then have q: "q < k" "q < N" "q < length es" by simp_all
  then have up: "[q..<N] = q # [Suc q..<N]" by (simp add: upt_conv_Cons)
  obtain v where v: "readi r (Local (replicate 16 0)) (of_nat (16 * q)) 16 u = Ret (16, dirent (of_nat (fst (es ! q))) (snd (es ! q))) v"
      "holds_dir p m es dev r v" "only_disk u v" using read_entry [OF Suc(3) q(3) Suc(5)] by blast
  obtain c where c: "strncmp name (drop 2 (dirent (of_nat (fst (es ! q))) (snd (es ! q)))) DIRSIZ = Some c" "c \<noteq> 0"
    using strncmp_dirent [OF Suc(4), of "of_nat (fst (es ! q))" "snd (es ! q)"] Suc(9) q(1) by auto
  have "inodeByName_loop r name (map (\<lambda>i. 16 * i) [q..<N]) u = inodeByName_loop r name (map (\<lambda>i. 16 * i) [Suc q..<N]) v"
    unfolding up using v(1) c by (simp add: kbind_Ret del: of_nat_mult)
  moreover have x: "x = k - Suc q" "Suc q \<le> k" and rest: "\<forall>j. Suc q \<le> j \<longrightarrow> j < k \<longrightarrow> dir_key name \<noteq> dir_key (snd (es ! j))"
    using Suc(2,9) q(1) by auto
  obtain w where "inodeByName_loop r name (map (\<lambda>i. 16 * i) [Suc q..<N]) v = kbind (iget dev (of_nat (fst (es ! k)))) (\<lambda>i. kret (Some i)) w"
     "holds_dir p m es dev r w" "only_disk v w"
    using Suc(1) [OF x(1) v(2) Suc(4-6) x(2) Suc(8) rest Suc(10,11)] by blast
  ultimately show ?case using only_disk_trans [OF v(3)] by (intro exI [of _ w]) simp
qed

section \<open>Looking up a file\<close>

lemma iunlockput_run:
  assumes c: "calm p t" and i: "i < length (inodes t)" "i_ref (inodes t ! i) \<ge> 1" "i_vaild (inodes t ! i) = 0"
    and l: "sl_locked (i_splock (inodes t ! i)) = 1" "sl_pid (i_splock (inodes t ! i)) = pid (procs t ! p)"
  shows "iunlockput i t = Ret () (t\<lparr>inodes := (inodes t)[i := (inodes t ! i)\<lparr>i_splock := (i_splock (inodes t ! i))\<lparr>sl_locked := 0, sl_pid := 0\<rparr>,
     i_ref := i_ref (inodes t ! i) - 1\<rparr>]\<rparr>)"
proof -
  let ?k = "(inodes t ! i)\<lparr>i_splock := (i_splock (inodes t ! i))\<lparr>sl_locked := 0, sl_pid := 0\<rparr>\<rparr>"
  let ?t = "t\<lparr>inodes := (inodes t)[i := ?k]\<rparr>"
  have "iunlock (Some i) t = sleep_unlock (inode_lk i) t"
    using ilk.holdingsleep_ok [OF c, of i] i l by (simp add: iunlock_def kbind_def iget_field_apply inode_lk_def)
  also have "\<dots> = Ret () ?t" using ilk.sleep_unlock_ok [OF c, of i] i(1) by (simp add: inode_lk_def)
  finally have ul: "iunlock (Some i) t = Ret () ?t" .
  have "calm p ?t" by (rule calm_frame [OF c]) simp_all
  then have "iput i ?t = Ret () (?t\<lparr>inodes := (inodes ?t)[i := (inodes ?t ! i)\<lparr>i_ref := i_ref (inodes ?t ! i) - 1\<rparr>]\<rparr>)"
    using i by (intro iput_run) simp_all
  then show ?thesis using ul i(1) by (simp add: iunlockput_def kbind_def)
qed

text \<open>A cold inode cache: no reference, no lock.\<close>

definition cold :: "inode list \<Rightarrow> bool" where
  "cold ins \<longleftrightarrow> length ins = INODES \<and> (\<forall>k \<in> set ins. i_ref k = 0 \<and> sl_locked (i_splock k) = 0)"

lemma iget_cold:
  assumes c: "calm p s" and l: "length (inodes s) = INODES" and r: "r < INODES" "i_ref (inodes s ! r) = 0"
    and low: "\<And>j. j < r \<Longrightarrow> i_ref (inodes s ! j) \<noteq> 0" and n: "\<And>j. j < INODES \<Longrightarrow> \<not> names dev inum (inodes s ! j)"
  shows "iget dev inum s = Ret r (s\<lparr>inodes := (inodes s)[r := (inodes s ! r)\<lparr>i_dev := dev, i_inum := inum, i_ref := 1, i_vaild := 0\<rparr>]\<rparr>)"
proof -
  have "find (\<lambda>i. names dev inum (inodes s ! i)) [0..<INODES] = None" using n by (auto simp: find_None_iff)
  moreover have "find (\<lambda>i. i_ref (inodes s ! i) = 0) [0..<INODES] = Some r"
    using r low by (auto simp: find_Some_iff intro!: exI [of _ r])
  ultimately show ?thesis by (simp add: iget_run [OF c])
qed

lemma quiet_calm: "quiet p dev s \<Longrightarrow> calm p s"
  by (simp add: quiet_def)

text \<open>The root directory, fetched and locked.\<close>

lemma root_locked:
  assumes B: "mk_inv m B" "inode_at (img m) 1 = d\<lparr>di_size := z\<rparr>"
    and t: "quiet p ROOTDEV t" "steady t" "sectors t = image_disk (img m)" "sb t = the_super" and cold: "cold (inodes t)"
  obtains t' u k where "rooti t = Ret 0 t'" "ilock (Some 0) t' = Ret () u" "quiet p ROOTDEV u" "steady u" "sectors u = image_disk (img m)"
    "sb u = the_super" "procs u = procs t" "inodes u = (inodes t)[0 := k]" "i_dev k = ROOTDEV" "i_inum k = 1" "i_ref k = 1" "i_vaild k = 0"
    "i_type k = di_type d" "i_size k = z" "i_addrs k = di_addrs d" "sl_locked (i_splock k) = 1" "sl_pid (i_splock k) = pid (procs t ! p)"
proof -
  have len: "length (inodes t) = INODES" and z0: "\<And>j. j < INODES \<Longrightarrow> i_ref (inodes t ! j) = 0 \<and> sl_locked (i_splock (inodes t ! j)) = 0"
    using cold by (auto simp: cold_def)
  have two: "0 < INODES" "1 < NINODES" by (simp_all add: INODES_def NINODES_def)
  let ?k0 = "(inodes t ! 0)\<lparr>i_dev := ROOTDEV, i_inum := ROOTINO, i_ref := 1, i_vaild := 0\<rparr>"
  let ?t = "t\<lparr>inodes := (inodes t)[0 := ?k0]\<rparr>"
  have root: "rooti t = Ret 0 ?t"
    unfolding rooti_def by (rule iget_cold [OF quiet_calm [OF t(1)] len two(1)]) (simp_all add: z0 two names_def)
  have at: "0 < length (inodes ?t)" "inodes ?t ! 0 = ?k0" using len two by simp_all
  obtain u where u: "ilock (Some 0) ?t = Ret () u" "quiet p ROOTDEV u" "steady u" "sectors u = image_disk (img m)" "sb u = the_super" "procs u = procs ?t"
    "inodes u = (inodes ?t)[0 := load_part (d\<lparr>di_size := z\<rparr>) (locked_inode p ?t (inodes ?t ! 0))]"
    by (rule ilock_image [OF B(1) two(2) B(2), of p ROOTDEV ?t 0]) (use t at z0 two in \<open>simp_all add: quiet_inodes ROOTINO_def\<close>)
  let ?k = "load_part (d\<lparr>di_size := z\<rparr>) (locked_inode p ?t ?k0)"
  have k: "i_dev ?k = ROOTDEV" "i_inum ?k = 1" "i_ref ?k = 1" "i_vaild ?k = 0" "i_type ?k = di_type d" "i_size ?k = z" "i_addrs ?k = di_addrs d"
    "sl_locked (i_splock ?k) = 1" "sl_pid (i_splock ?k) = pid (procs t ! p)"
    by (simp_all add: load_part_def locked_inode_def lock_of_def ROOTINO_def)
  have "inodes u = (inodes t)[0 := ?k]" "procs u = procs t" using u(6,7) at(2) by simp_all
  then show thesis using that [OF root u(1-5)] k by blast
qed

lemma rootsub_finds:
  assumes B: "mk_inv m B" "Suc 0 < length B" "B ! Suc 0 = (d, nblk (16 * length es), dir_bytes es)" "inode_at (img m) 1 = d\<lparr>di_size := z\<rparr>"
      "16 * length es \<le> unat z" "unat z < 2 ^ 20"
    and t: "quiet p ROOTDEV t" "steady t" "sectors t = image_disk (img m)" "sb t = the_super" and cold: "cold (inodes t)"
    and name: "0 \<in> set name" and es: "length es \<le> 768" "k < length es" "fst (es ! k) < 65536" "fst (es ! k) \<noteq> 1"
    and key: "\<forall>j < k. dir_key name \<noteq> dir_key (snd (es ! j))" "dir_key name = dir_key (snd (es ! k))"
  shows "\<exists>u. rootsub name t = Ret (Some 1) u \<and> quiet p ROOTDEV u \<and> steady u \<and> sectors u = image_disk (img m) \<and> sb u = the_super
     \<and> length (inodes u) = INODES \<and> i_dev (inodes u ! 1) = ROOTDEV \<and> i_inum (inodes u ! 1) = of_nat (fst (es ! k)) \<and> i_ref (inodes u ! 1) = 1
     \<and> sl_locked (i_splock (inodes u ! 1)) = 0 \<and> i_vaild (inodes u ! 1) = 0 \<and> (\<forall>j < INODES. j \<noteq> 1 \<longrightarrow> i_ref (inodes u ! j) = 0)"
proof -
  have len: "length (inodes t) = INODES" and z0: "\<And>j. j < INODES \<Longrightarrow> i_ref (inodes t ! j) = 0 \<and> sl_locked (i_splock (inodes t ! j)) = 0"
    using cold by (auto simp: cold_def)
  have two: "0 < INODES" "1 < INODES" by (simp_all add: INODES_def)
  obtain t' u r where root: "rooti t = Ret 0 t'" and u: "ilock (Some 0) t' = Ret () u" "quiet p ROOTDEV u" "steady u" "sectors u = image_disk (img m)"
    "sb u = the_super" "procs u = procs t" and iu: "inodes u = (inodes t)[0 := r]"
    and k: "i_dev r = ROOTDEV" "i_inum r = 1" "i_ref r = 1" "i_vaild r = 0" "i_size r = z" "i_addrs r = di_addrs d"
      "sl_locked (i_splock r) = 1" "sl_pid (i_splock r) = pid (procs t ! p)"
    by (rule root_locked [OF B(1,4) t cold]) blast
  have k0: "inodes u ! 0 = r" using iu len two by simp
  have hd: "holds_dir p m es ROOTDEV 0 u"
    unfolding holds_dir_def k0 k(1,5,6) using u(2-4) B by auto
  have N: "length es \<le> (unat z + 15) div 16" using B(5) by simp
  obtain v where v: "inodeByName_loop 0 name (map (\<lambda>i. 16 * i) [0..<(unat z + 15) div 16]) u = kbind (iget ROOTDEV (of_nat (fst (es ! k)))) (\<lambda>i. kret (Some i)) v"
     "holds_dir p m es ROOTDEV 0 v" "only_disk u v"
    using inodeByName_loop_finds [OF hd name es(1) N le0 es(2) _ key(2) es(3)] key(1) by blast
  have iv: "inodes v = (inodes t)[0 := r]" "sb v = the_super" "procs v = procs t"
    using only_disk_fs [OF v(3)] only_disk_sel [OF v(3)] iu u(5,6) by simp_all
  have qv: "quiet p ROOTDEV v" "steady v" "sectors v = image_disk (img m)" using v(2) by (simp_all add: holds_dir_def)
  let ?n = "of_nat (fst (es ! k)) :: u32"
  have n1: "?n \<noteq> 1" using es(3,4) by (simp add: word_unat_eq_iff unat_of_nat)
  let ?k1 = "(inodes t ! 1)\<lparr>i_dev := ROOTDEV, i_inum := ?n, i_ref := 1, i_vaild := 0\<rparr>"
  let ?v = "v\<lparr>inodes := (inodes t)[0 := r, 1 := ?k1]\<rparr>"
  have "\<not> names ROOTDEV ?n (inodes v ! j)" if "j < INODES" for j
    using that n1 k z0 [OF that] unfolding iv by (cases j) (simp_all add: names_def len)
  then have "iget ROOTDEV ?n v = Ret 1 (v\<lparr>inodes := (inodes v)[1 := (inodes v ! 1)\<lparr>i_dev := ROOTDEV, i_inum := ?n, i_ref := 1, i_vaild := 0\<rparr>]\<rparr>)"
    using two k(3) z0 by (intro iget_cold [OF quiet_calm [OF qv(1)]]) (simp_all add: iv len)
  then have found: "inodeByName 0 name u = Ret (Some 1) ?v"
    using v(1) by (simp add: inodeByName_def entry_offs_def iget_field_apply kbind_Ret k0 k(5) iv kret_def)
  have qv': "quiet p ROOTDEV ?v" using qv by (simp add: quiet_inodes)
  let ?w = "?v\<lparr>inodes := (inodes ?v)[0 := r\<lparr>i_splock := (i_splock r)\<lparr>sl_locked := 0, sl_pid := 0\<rparr>, i_ref := 0\<rparr>]\<rparr>"
  have "inodes ?v ! 0 = r" "0 < length (inodes ?v)" "procs ?v = procs t" using len two iv by simp_all
  then have put: "iunlockput 0 ?v = Ret () ?w"
    using iunlockput_run [OF quiet_calm [OF qv'], of 0] k by simp
  have run: "rootsub name t = Ret (Some 1) ?w" by (simp only: rootsub_def kbind_Ret root u(1) found put kret_def)
  have "i_ref (inodes ?w ! j) = 0" if "j < INODES" "j \<noteq> 1" for j using that z0 [OF that(1)] len by (cases j) simp_all
  then show ?thesis using run qv iv z0 [OF two(2)] two len by (intro exI [of _ ?w]) (simp add: quiet_inodes)
qed



end
