(* ===== verification/Listing.thy ===== *)
theory Listing
  imports Uprogs Lookup
begin

text \<open>
  The program \<open>ls\<close> of \<^verbatim>\<open>user/ls.c\<close> beside the kernel, on the root directory of an image built by \<open>mkfs\<close>: the user program, the
  \<open>printf\<close> of its library, \<open>stati\<close> and \<open>readi\<close> of the kernel, the buffer cache, the disk and the image builder together.
\<close>

section \<open>A program beside the one who answers its calls\<close>

fun serve :: "'c program \<Rightarrow> (ucall \<Rightarrow> 'e \<Rightarrow> reply \<times> 'e) \<Rightarrow> nat \<Rightarrow> 'c place \<Rightarrow> 'e \<Rightarrow> 'c place \<times> 'e" where
  "serve prog srv 0 s e = (s, e)"
| "serve prog srv (Suc n) s e = (case ustep prog s of None \<Rightarrow> (s, e)
     | Some (c, k) \<Rightarrow> (let (r, e') = srv c e in serve prog srv n (k r) e'))"

lemma serve_add: "serve prog srv a s e = (t, f) \<Longrightarrow> serve prog srv (a + b) s e = serve prog srv b t f"
proof (induction a arbitrary: s e)
  case (Suc a)
  show ?case
  proof (cases "ustep prog s")
    case None
    then have "serve prog srv b s e = (s, e)" by (cases b) simp_all
    then show ?thesis using Suc.prems None by simp
  qed (use Suc in \<open>auto split: prod.splits\<close>)
qed simp

text \<open>How the kernel answers the calls of a program that has the directory in slot \<open>r\<close> open: \<open>read\<close> and \<open>fstat\<close> as \<open>fileread\<close> and
  \<open>filestat\<close> do it between locking and unlocking the inode, with the offset of the open file, and a console that takes what is
  written.\<close>

definition dir_call :: "nat \<Rightarrow> ucall \<Rightarrow> 'z fs_st_scheme \<times> nat \<times> u8 list \<Rightarrow> reply \<times> 'z fs_st_scheme \<times> nat \<times> u8 list" where
  "dir_call r c e = (case e of (k, off, out) \<Rightarrow> (case c of
     CWrite fd bs \<Rightarrow> ((int (length bs), []), (k, off, out @ bs))
   | COpen nm fl \<Rightarrow> ((3, []), e)
   | CFstat fd \<Rightarrow> (case stati r k of Ret st k' \<Rightarrow> ((0, enc_stat (replicate 24 0) st), (k', off, out)) | _ \<Rightarrow> ((-1, []), e))
   | CRead fd n \<Rightarrow> (case readi r (Local (replicate 16 0)) (of_nat off) (of_nat n) k of
       Ret (x, bs) k' \<Rightarrow> ((x, bs), (k', off + n, out)) | _ \<Rightarrow> ((-1, []), e))
   | CClose fd \<Rightarrow> ((0, []), e)
   | _ \<Rightarrow> ((-1, []), e)))"

lemma serve_out:
  "serve prog (dir_call r) (length cs) (after_out cs k) (v, off, out) = (At k, (v, off, out @ cs))"
proof (induction cs arbitrary: out)
  case (Cons c cs)
  then show ?case using Cons.IH [of "out @ [c]"] by (simp add: after_out_def dir_call_def putc_def)
qed (simp add: after_out_def)

section \<open>What is printed for an entry\<close>

definition ls_text :: "nat \<Rightarrow> nat \<Rightarrow> nat \<Rightarrow> u8 list \<Rightarrow> u8 list" where
  "ls_text type ino sz nm = cstr nm @ 32 # decimal type @ 32 # decimal ino @ 32 # decimal sz @ [10]"

lemma rd32_other:
  "j + 4 \<le> i \<or> i + 2 \<le> j \<Longrightarrow> rd32 (wr16 d i v) j = rd32 d j" "j + 4 \<le> i \<or> i + 4 \<le> j \<Longrightarrow> rd32 (wr32 d i w) j = rd32 d j"
  by (rule rd_cong; rule wr_other; linarith)+

lemma stat_fields:
  "length junk = 24 \<Longrightarrow> length (enc_stat junk st) = 24"
  "length junk = 24 \<Longrightarrow> rd16 (enc_stat junk st) 8 = st_type st"
  "length junk = 24 \<Longrightarrow> rd32 (enc_stat junk st) 4 = st_ino st"
  "length junk = 24 \<Longrightarrow> rd32 (enc_stat junk st) 16 = ucast (st_size st)"
  by (simp_all add: enc_stat_def rd_other rd32_other rd16_wr16 rd32_wr32)

lemma uprint_entry: "length (cstr nm) < DIRSIZ \<Longrightarrow> uprint (drop 2 (dirent i nm)) = Some (cstr nm)"
proof -
  assume l: "length (cstr nm) < DIRSIZ"
  then have "take DIRSIZ (cstr nm @ replicate DIRSIZ 0) = cstr nm @ replicate (DIRSIZ - length (cstr nm)) 0" by simp
  then show ?thesis using l unfolding drop_dirent uprint_cstr by (simp add: cstr_pad)
qed

text \<open>The state of \<open>ls\<close> while it reads entries, with the fields of \<open>st\<close> it prints.\<close>

definition ls_listing :: "nat \<Rightarrow> nat \<Rightarrow> nat \<Rightarrow> ls_st \<Rightarrow> bool" where
  "ls_listing type ino sz s \<longleftrightarrow> ls_at s = LsRead \<and> length (ls_d s) = 16 \<and> rd16 (ls_stat s) 8 = of_nat type \<and> rd32 (ls_stat s) 4 = of_nat ino
     \<and> rd32 (ls_stat s) 16 = of_nat sz \<and> type < 2 ^ 15 \<and> ino < 2 ^ 31 \<and> sz < 2 ^ 31"

lemma scast_small: "n < 2 ^ 15 \<Longrightarrow> scast (of_nat n :: u16) = (of_nat n :: u32)"
proof -
  assume n: "n < 2 ^ 15"
  have "sint (of_nat n :: u16) = int n" using n by (simp add: sint_uint signed_take_bit_int_eq_self uint_nat unat_of_nat)
  then show ?thesis by (simp add: scast_eq)
qed

lemma ls_line_entry:
  assumes "ls_listing type ino sz s" and "length (cstr nm) < DIRSIZ"
  shows "ls_line (s\<lparr>ls_d := dirent i nm\<rparr>) = after_out (ls_text type ino sz nm) (s\<lparr>ls_d := dirent i nm\<rparr>)"
proof -
  have "uprintInt (scast (rd16 (ls_stat s) 8)) = Some (decimal type)" "uprintInt (rd32 (ls_stat s) 4) = Some (decimal ino)"
    "uprintInt (rd32 (ls_stat s) 16) = Some (decimal sz)"
    using assms(1) by (simp_all add: ls_listing_def scast_small uprintInt_decimal)
  then have "uprintf (Some (lit (''%s %d %d %d'' @ [CHR 0x0A]))) [VStr (Some (drop 2 (dirent i nm))), VInt (scast (rd16 (ls_stat s) 8)),
      VInt (rd32 (ls_stat s) 4), VInt (rd32 (ls_stat s) 16)] = Some (ls_text type ino sz nm)"
    using uprint_entry [OF assms(2), of i] by (simp add: uprintf_def lit_def uconvert_def ls_text_def)
  then show ?thesis by (simp add: ls_line_def says_def)
qed

section \<open>The reading loop\<close>

text \<open>What is printed for a list of entries: nothing for those without an inode.\<close>

definition ls_lines :: "nat \<Rightarrow> nat \<Rightarrow> nat \<Rightarrow> (nat \<times> u8 list) list \<Rightarrow> u8 list" where
  "ls_lines type ino sz es = concat (map (\<lambda>(i, nm). if i = 0 then [] else ls_text type ino sz nm) es)"

lemma read_end:
  assumes "unat (i_size (inodes u ! r)) = off"
  shows "readi r (Local y) (of_nat off) 16 u = Ret (0, []) u"
proof -
  have z: "i_size (inodes u ! r) = of_nat off" using assms by auto
  have "readi_loop r (Local y) k 0 0 [] u = Ret (0, []) u" for k by (subst readi_loop.simps) (simp add: kret_def)
  then show ?thesis unfolding readi_def by (simp add: iget_field_apply kbind_Ret z kret_def split: if_splits)
qed

lemma put_all: "length bs = length buf \<Longrightarrow> put buf 0 bs = bs"
  by (simp add: put_def)

lemma serve_read:
  assumes s: "ls_listing type ino sz s" and r: "readi r (Local (replicate 16 0)) (of_nat off) 16 v = Ret (16, dirent (of_nat i) nm) w"
    and e: "i < 65536" "i \<noteq> 0 \<Longrightarrow> length (cstr nm) < DIRSIZ"
  shows "\<exists>n. serve ls_main (dir_call r) n (At s) (v, off, out)
     = (At (s\<lparr>ls_d := dirent (of_nat i) nm\<rparr>), (w, off + 16, out @ ls_lines type ino sz [(i, nm)]))"
proof -
  let ?s = "s\<lparr>ls_d := dirent (of_nat i) nm\<rparr>"
  let ?t = "if i = 0 then [] else ls_text type ino sz nm"
  have at: "ls_at s = LsRead" "put (ls_d s) 0 (dirent (of_nat i) nm) = dirent (of_nat i) nm"
    using s by (simp_all add: ls_listing_def put_all length_dirent)
  have z: "of_nat i = (0 :: u16) \<longleftrightarrow> i = 0" using e(1) by (simp add: word_unat_eq_iff unat_of_nat)
  have "serve ls_main (dir_call r) 1 (At s) (v, off, out) = (after_out ?t ?s, (w, off + 16, out))"
    using at r e ls_line_entry [OF s, of nm "of_nat i"] by (simp add: ls_main_def dir_call_def rd16_dirent z after_out_def)
  from serve_add [OF this, of "length ?t"] serve_out [of ls_main r ?t ?s w "off + 16" out]
  show ?thesis by (intro exI [of _ "1 + length ?t"]) (simp add: ls_lines_def)
qed

lemma ls_loop:
  assumes "holds_dir p m es dev r v" and "unat (i_size (inodes v ! r)) = 16 * length es" and "length es \<le> 768" and "q \<le> length es"
    and "ls_listing type ino sz s" and "\<forall>(i, nm) \<in> set es. i < 65536 \<and> (i \<noteq> 0 \<longrightarrow> length (cstr nm) < DIRSIZ)"
  shows "\<exists>n w d. serve ls_main (dir_call r) n (At s) (v, 16 * q, out)
     = (At (s\<lparr>ls_at := LsClose, ls_d := d\<rparr>), (w, 16 * length es + 16, out @ ls_lines type ino sz (drop q es)))"
  using assms
proof (induction "length es - q" arbitrary: q s v out)
  case 0
  then have q: "q = length es" "ls_at s = LsRead" by (simp_all add: ls_listing_def)
  have "serve ls_main (dir_call r) 1 (At s) (v, 16 * q, out) = (At (s\<lparr>ls_at := LsClose, ls_d := ls_d s\<rparr>), (v, 16 * length es + 16, out))"
    using q read_end [OF 0(3)] by (simp add: ls_main_def dir_call_def del: of_nat_mult)
  then show ?case unfolding q by (intro exI [of _ 1] exI [of _ v] exI [of _ "ls_d s"]) (simp add: ls_lines_def)
next
  case (Suc x)
  have q: "q < length es" using Suc(2) by simp
  obtain i nm where e: "es ! q = (i, nm)" by (cases "es ! q")
  have i: "i < 65536" "i \<noteq> 0 \<Longrightarrow> length (cstr nm) < DIRSIZ" using Suc(8) nth_mem [OF q] e by auto
  obtain w where w: "readi r (Local (replicate 16 0)) (of_nat (16 * q)) 16 v = Ret (16, dirent (of_nat i) nm) w" "holds_dir p m es dev r w" "only_disk v w"
    using read_entry [OF Suc(3) q Suc(5)] e by fastforce
  let ?s = "s\<lparr>ls_d := dirent (of_nat i) nm\<rparr>"
  let ?o = "out @ ls_lines type ino sz [(i, nm)]"
  obtain n where n: "serve ls_main (dir_call r) n (At s) (v, 16 * q, out) = (At ?s, (w, 16 * Suc q, ?o))"
    using serve_read [OF Suc(7) w(1) i] by (auto simp: add.commute)
  have sz: "unat (i_size (inodes w ! r)) = 16 * length es" using only_disk_fs [OF w(3)] Suc(4) by simp
  have ls: "ls_listing type ino sz ?s" using Suc(7) by (simp add: ls_listing_def length_dirent)
  have x: "x = length es - Suc q" "Suc q \<le> length es" using Suc(2) q by simp_all
  obtain n' u d where n': "serve ls_main (dir_call r) n' (At ?s) (w, 16 * Suc q, ?o)
     = (At (?s\<lparr>ls_at := LsClose, ls_d := d\<rparr>), (u, 16 * length es + 16, ?o @ ls_lines type ino sz (drop (Suc q) es)))"
    using Suc(1) [OF x(1) w(2) sz Suc(5) x(2) ls Suc(8), of ?o] by blast
  have "ls_lines type ino sz (drop q es) = ls_lines type ino sz [(i, nm)] @ ls_lines type ino sz (drop (Suc q) es)"
    using Cons_nth_drop_Suc [OF q] e by (metis append_Cons append_Nil concat_append ls_lines_def map_append)
  then show ?case using serve_add [OF n, of n'] n' by (intro exI [of _ "n + n'"] exI [of _ u] exI [of _ d]) simp
qed

section \<open>The directory of an image\<close>

text \<open>The rest of the last block of a file is zero, so the file may as well be taken to end in zeros.\<close>

lemma mk_inv_pad:
  assumes B: "mk_inv m B" "j < length B" "B ! j = (e, n, c)" and k: "length c + k \<le> n * BSIZE"
  shows "mk_inv m (B[j := (e, n, c @ replicate k 0)])"
proof -
  let ?B = "B[j := (e, n, c @ replicate k 0)]"
  have "file_ok (img m) (e, n, c)" by (rule mk_inv_file [OF B])
  moreover have "replicate (n * BSIZE - length c) 0 = replicate k 0 @ replicate (n * BSIZE - (length c + k)) (0 :: u8)"
    using k by (simp add: replicate_add [symmetric])
  ultimately have ok: "file_ok (img m) (e, n, c @ replicate k 0)" using k by (simp add: file_ok_def)
  have "map (\<lambda>(d, n, c). mset (blks (img m) d n)) ?B = map (\<lambda>(d, n, c). mset (blks (img m) d n)) B"
    using B(2,3) by (simp add: map_update list_update_same_conv)
  then have "all_blks (img m) ?B = all_blks (img m) B" by (simp add: all_blks_def)
  moreover have "\<forall>f \<in> set ?B. file_ok (img m) f" 
    using B(1) ok set_update_subset_insert [of B j "(e, n, c @ replicate k 0)"] unfolding mk_inv_def fs_inv_def by blast
  ultimately show ?thesis using B(1) by (simp add: mk_inv_def fs_inv_def)
qed

lemma dir_bytes_pad: "dir_bytes (es @ replicate k (0, [])) = dir_bytes es @ replicate (16 * k) 0"
proof -
  have "dirent 0 [] = replicate 16 0" by code_simp
  then have "concat (replicate k (dirent 0 [])) = replicate (16 * k) 0" by (induction k) (simp_all add: replicate_add [symmetric])
  then show ?thesis by (simp add: dir_bytes_def)
qed

lemma nblk_entries: "l mod 64 \<noteq> 0 \<Longrightarrow> nblk (16 * l) = l div 64 + 1"
proof -
  assume "l mod 64 \<noteq> 0"
  then have b: "1023 < 16 * (l mod 64) + 1023" "16 * (l mod 64) + 1023 < 2048" using mod_less_divisor [of 64 l] by linarith+
  have "16 * l + 1024 - 1 = 1024 * (l div 64) + (16 * (l mod 64) + 1023)" using div_mult_mod_eq [of l 64] by linarith
  moreover have "(16 * (l mod 64) + 1023) div 1024 = 1" using b by (intro div_nat_eqI) simp_all
  ultimately show ?thesis unfolding nblk_def BSIZE_def by (simp add: div_mult_self3)
qed

lemma padded_root:
  assumes B: "mk_inv m B" "Suc 0 < length B" "B ! Suc 0 = (d, nblk (16 * length es), dir_bytes es)"
    and z: "unat z = (16 * length es div BSIZE + 1) * BSIZE" "length es mod 64 \<noteq> 0" "length es \<le> 200"
    and u: "quiet p ROOTDEV u" "steady u" "sectors u = image_disk (img m)" "inodes u ! r = k" "i_dev k = ROOTDEV" "i_size k = z" "i_addrs k = di_addrs d"
  defines "es' \<equiv> es @ replicate (64 * nblk (16 * length es) - length es) (0, [])"
  shows "holds_dir p m es' ROOTDEV r u" and "unat (i_size (inodes u ! r)) = 16 * length es'" and "length es' \<le> 768"
proof -
  let ?n = "nblk (16 * length es)"
  have n: "?n = length es div 64 + 1" by (rule nblk_entries [OF z(2)])
  have le: "length es \<le> 64 * ?n" unfolding n using div_mult_mod_eq [of "length es" 64] mod_less_divisor [of 64 "length es"] by simp
  then have len: "length es' = 64 * ?n" by (simp add: es'_def)
  have "16 * length es div 1024 = length es div 64" by simp
  then have uz: "unat z = 16 * length es'" unfolding len n z(1) BSIZE_def by simp
  have "nblk (16 * length es') = ?n" unfolding len by (simp add: nblk_def BSIZE_def)
  moreover have "mk_inv m (B[Suc 0 := (d, ?n, dir_bytes es')])"
    unfolding es'_def dir_bytes_pad using length_concat_entries [of es, folded dir_bytes_def] le by (intro mk_inv_pad [OF B]) (simp add: BSIZE_def)
  moreover have "length es div 64 \<le> 3" using z(3) by simp
  ultimately show "holds_dir p m es' ROOTDEV r u" "unat (i_size (inodes u ! r)) = 16 * length es'" "length es' \<le> 768"
    using u uz B(2) n len unfolding holds_dir_def by (auto intro!: exI [of _ "B[Suc 0 := (d, ?n, dir_bytes es')]"] exI [of _ "Suc 0"])
qed

lemma ls_start:
  assumes l: "ls_at l = LsOpen" "length (ls_stat l) = 24" "length (ls_d l) = 16"
    and k: "i_type (inodes v ! r) = 1" "i_inum (inodes v ! r) = 1" "unat (i_size (inodes v ! r)) = sz" "sz < 2 ^ 31"
  obtains a where "serve ls_main (dir_call r) 2 (At l) (v, 0, []) = (At a, (v, 0, []))" and "ls_listing 1 1 sz a"
proof -
  let ?st = "\<lparr>st_dev = i_dev (inodes v ! r), st_ino = 1, st_type = 1, st_nlink = i_nlink (inodes v ! r), st_size = ucast (i_size (inodes v ! r))\<rparr>"
  let ?b = "enc_stat (replicate 24 0) ?st"
  let ?a = "l\<lparr>ls_fd := 3, ls_stat := ?b, ls_at := LsRead\<rparr>"
  have st: "stati r v = Ret ?st v" using k(1,2) by (simp add: stati_def kget_def Let_def)
  have "ucast (ucast (i_size (inodes v ! r)) :: u64) = i_size (inodes v ! r)"
    by (rule bit_word_eqI) (auto simp: bit_ucast_iff)
  moreover have "i_size (inodes v ! r) = of_nat sz" using k(3) by auto
  ultimately have "ls_listing 1 1 sz ?a" using l(3) k(4) by (simp add: ls_listing_def stat_fields)
  moreover have "serve ls_main (dir_call r) (Suc (Suc 0)) (At l) (v, 0, []) = (At ?a, (v, 0, []))"
    using l(1,2) st by (simp add: ls_main_def dir_call_def put_all stat_fields)
  ultimately show thesis using that [of ?a] by (simp add: numeral_2_eq_2)
qed



end
