(* ===== verification/Sched.thy ===== *)
theory Sched
  imports Proc
begin

text \<open>
  The endless loop of \<open>scheduler\<close> in \<^verbatim>\<open>kernel/proc.c\<close>: a round over the process table, which is left at a \<open>swtch\<close> and goes on with
  the next process when the hart comes back. What is shown is that the rounds are fair.
\<close>

section \<open>The loops\<close>

text \<open>The inner loop from some process on; the \<open>swtch\<close> of a turn leaves it.\<close>

fun scheduler_loop :: "nat \<Rightarrow> nat list \<Rightarrow> (unit, 'z proc_st_scheme) kop" where
  "scheduler_loop c [] = kret ()"
| "scheduler_loop c (p # ps) = kthen (scheduler_turn c p) (scheduler_loop c ps)"

text \<open>A turn of the outer loop.\<close>

definition scheduler_round :: "nat \<Rightarrow> (unit, 'z proc_st_scheme) kop" where
  "scheduler_round c = kthen intr_on (scheduler_loop c all_procs)"

section \<open>One round\<close>

text \<open>The hart is in its scheduler: it holds no lock, and no process lock is held.\<close>

definition idle :: "nat \<Rightarrow> 'z proc_st_scheme \<Rightarrow> bool" where
  "idle c s \<longleftrightarrow> hart s = c \<and> c < length (cpus s) \<and> noff (cpus s ! c) = 0 \<and> length (procs s) = NPROC
     \<and> (\<forall>p < NPROC. free_lock (locks s) (ProcLk p))"

definition runnable :: "'z proc_st_scheme \<Rightarrow> nat \<Rightarrow> bool" where
  "runnable s p \<longleftrightarrow> pstate (procs s ! p) = RUNNABLE"

text \<open>A lock taken and given back leaves \<open>intena\<close> as it found the interrupt enable bit, and nothing else.\<close>

definition settle :: "nat \<Rightarrow> 'z proc_st_scheme \<Rightarrow> 'z proc_st_scheme" where
  "settle c s = s\<lparr>cpus := (cpus s)[c := (cpus s ! c)\<lparr>intena := sie (cpus s ! c)\<rparr>]\<rparr>"

definition dispatched :: "nat \<Rightarrow> nat \<Rightarrow> 'z proc_st_scheme \<Rightarrow> 'z proc_st_scheme" where
  "dispatched c p s = s\<lparr>cpus := (pushc c (cpus s))[c := (pushc c (cpus s) ! c)\<lparr>cpu_p := Some p\<rparr>],
     locks := lock_on c (ProcLk p) (locks s), procs := (procs s)[p := (procs s ! p)\<lparr>pstate := RUNNING\<rparr>]\<rparr>"

lemma settle_facts:
  assumes "idle c s"
  shows "idle c (settle c s)" "settle c (settle c s) = settle c s" "runnable (settle c s) = runnable s"
    "pushc c (cpus (settle c s)) = pushc c (cpus s)" "cpu_ok c (cpus (settle c s))" "dispatched c p (settle c s) = dispatched c p s"
proof -
  have h: "c < length (cpus s)" "noff (cpus s ! c) = 0" using assms by (simp_all add: idle_def)
  show p: "pushc c (cpus (settle c s)) = pushc c (cpus s)" using h by (cases "cpus s ! c") (simp add: pushc_def settle_def sie_def)
  show "idle c (settle c s)" "runnable (settle c s) = runnable s" using assms by (auto simp: idle_def settle_def runnable_def fun_eq_iff)
  show "settle c (settle c s) = settle c s" "cpu_ok c (cpus (settle c s))" using h by (simp_all add: settle_def cpu_ok_def sie_def)
  show "dispatched c p (settle c s) = dispatched c p s" unfolding dispatched_def p by (simp add: settle_def)
qed

lemma turn_skip:
  assumes "idle c s" and "p < NPROC" and "\<not> runnable s p"
  shows "scheduler_turn c p s = Ret () (settle c s)"
proof -
  note f = settle_facts [OF assms(1)]
  let ?a = "s\<lparr>cpus := pushc c (cpus s), locks := lock_on c (ProcLk p) (locks s)\<rparr>"
  have h: "hart s = c" "c < length (cpus s)" "free_lock (locks s) (ProcLk p)" using assms(1,2) by (simp_all add: idle_def)
  have "acquire (ProcLk p) s = Ret () ?a" using acquire_taken [of s "ProcLk p"] h by (simp add: free_lock_def)
  moreover have "release (ProcLk p) ?a = Ret () (?a\<lparr>locks := lock_off (ProcLk p) (locks ?a), cpus := popc c (cpus ?a)\<rparr>)"
    using release_held [of ?a "ProcLk p"] h pushc_facts [OF f(5)] unfolding f(4) by simp
  moreover have "popc c (pushc c (cpus s)) = cpus (settle c s)" using popc_pushc [OF f(5)] f(4) by simp
  ultimately show ?thesis using assms(3) h(3)
    by (simp add: scheduler_turn_def kbind_def pget_def runnable_def) (simp add: settle_def)
qed

lemma turn_pick:
  assumes "idle c s" and "p < NPROC" and "runnable s p"
  shows "scheduler_turn c p s = Switch (dispatched c p s)"
proof -
  have h: "hart s = c" "c < length (cpus s)" "free_lock (locks s) (ProcLk p)" using assms(1,2) by (simp_all add: idle_def)
  then have "acquire (ProcLk p) s = Ret () (s\<lparr>cpus := pushc c (cpus s), locks := lock_on c (ProcLk p) (locks s)\<rparr>)"
    using acquire_taken [of s "ProcLk p"] by (simp add: free_lock_def)
  then show ?thesis using assms(3) h(1) by (simp add: scheduler_turn_def kbind_def pget_def pset_def on_cpu_def runnable_def dispatched_def)
qed

lemma scheduler_loop_scan:
  assumes "idle c s" and "set ps \<subseteq> {..<NPROC}"
  shows "scheduler_loop c ps s = (case find (runnable s) ps of None \<Rightarrow> Ret () (if ps = [] then s else settle c s)
     | Some p \<Rightarrow> Switch (dispatched c p s))"
  using assms
proof (induction ps arbitrary: s)
  case (Cons p ps)
  show ?case
  proof (cases "runnable s p")
    case True
    then show ?thesis using turn_pick [OF Cons.prems(1)] Cons.prems(2) by (simp add: kbind_def)
  next
    case False
    note f = settle_facts [OF Cons.prems(1)]
    have "scheduler_loop c ps (settle c s) = (case find (runnable s) ps of None \<Rightarrow> Ret () (settle c s) | Some p \<Rightarrow> Switch (dispatched c p s))"
      using Cons.IH [OF f(1)] Cons.prems(2) by (auto simp: f(2,3,6) split: option.split)
    then show ?thesis using turn_skip [OF Cons.prems(1) _ False] Cons.prems(2) False by (simp add: kbind_def)
  qed
qed (simp add: kret_def)

lemma round_scan:
  assumes "idle c s"
  obtains u where "scheduler_round c s = scheduler_loop c all_procs u" and "idle c u" and "runnable u = runnable s"
proof -
  let ?u = "s\<lparr>cpus := (cpus s)[c := (cpus s ! c)\<lparr>sstatus := sstatus (cpus s ! c) OR SSTATUS_SIE\<rparr>]\<rparr>"
  have "intr_on s = Ret () ?u" using assms by (simp add: intr_on_def kbind_def mycpu_ok on_cpu_def idle_def)
  then have "scheduler_round c s = scheduler_loop c all_procs ?u" by (simp add: scheduler_round_def kbind_def)
  moreover have "idle c ?u" "runnable ?u = runnable s" using assms by (auto simp: idle_def runnable_def fun_eq_iff)
  ultimately show thesis by (rule that)
qed

section \<open>Fairness\<close>

text \<open>The next process the hart switches to when its loop is at position \<open>i\<close>: in the rest of this round, or in the next one.\<close>

definition next_dispatch :: "nat \<Rightarrow> nat \<Rightarrow> 'z proc_st_scheme \<Rightarrow> nat \<Rightarrow> 'z proc_st_scheme \<Rightarrow> bool" where
  "next_dispatch c i s p t \<longleftrightarrow> cpu_p (cpus t ! c) = Some p \<and> (scheduler_loop c [i..<NPROC] s = Switch t \<or>
     (\<exists>u. scheduler_loop c [i..<NPROC] s = Ret () u \<and> scheduler_round c u = Switch t))"

lemma cpu_p_dispatched [simp]: "idle c s \<Longrightarrow> cpu_p (cpus (dispatched c p s) ! c) = Some p"
  by (simp add: dispatched_def idle_def)

lemma scan_from:
  "idle c s \<Longrightarrow> scheduler_loop c [i..<NPROC] s = (case find (runnable s) [i..<NPROC] of
     None \<Rightarrow> Ret () (if NPROC \<le> i then s else settle c s) | Some p \<Rightarrow> Switch (dispatched c p s))"
  by (subst scheduler_loop_scan) auto

lemma round_from:
  assumes "idle c s" and "u = s \<or> u = settle c s"
  shows "(find (runnable s) all_procs = Some p \<longrightarrow> (\<exists>t. scheduler_round c u = Switch t \<and> cpu_p (cpus t ! c) = Some p))
     \<and> (scheduler_round c u = Switch t \<longrightarrow> cpu_p (cpus t ! c) = Some p \<longrightarrow> find (runnable s) all_procs = Some p)"
proof -
  have u: "idle c u" "runnable u = runnable s" using assms settle_facts by auto
  obtain v where "scheduler_round c u = scheduler_loop c all_procs v" "idle c v" "runnable v = runnable s"
    using round_scan [OF u(1)] u(2) by metis
  then show ?thesis using scan_from [of c v 0] by (auto split: option.splits)
qed

lemma next_dispatch_first:
  assumes "idle c s" and "next_dispatch c i s p t"
  shows "find (runnable s) [i..<NPROC] = Some p \<or> find (runnable s) [i..<NPROC] = None \<and> find (runnable s) all_procs = Some p"
  using assms round_from [OF assms(1)] by (auto simp: next_dispatch_def scan_from split: option.splits if_splits)

lemma next_dispatch_exists:
  assumes "idle c s" and "runnable s q" and "q < NPROC"
  shows "\<exists>p t. next_dispatch c i s p t"
proof (cases "find (runnable s) [i..<NPROC]")
  case None
  obtain p where "find (runnable s) all_procs = Some p" using assms(2,3) by (cases "find (runnable s) all_procs") (auto simp: find_None_iff)
  then have "\<exists>t. scheduler_round c u = Switch t \<and> cpu_p (cpus t ! c) = Some p" if "u = s \<or> u = settle c s" for u
    using round_from [OF assms(1) that, of p] by blast
  from this [of "if NPROC \<le> i then s else settle c s"]
  obtain t where "scheduler_round c (if NPROC \<le> i then s else settle c s) = Switch t" "cpu_p (cpus t ! c) = Some p" by (cases "NPROC \<le> i") auto
  then show ?thesis using None unfolding next_dispatch_def scan_from [OF assms(1)] by auto
next
  case (Some p)
  then show ?thesis using assms(1) by (auto simp: next_dispatch_def scan_from [OF assms(1)])
qed

text \<open>The processes a hart switches to one after the other, beginning at position \<open>i\<close>, while \<open>q\<close> waits: between two switches the
  process, other harts and interrupts may do anything (from \<open>t\<close> to \<open>u\<close>), after which \<open>swtch\<close> returns to the scheduler.\<close>

inductive dispatches :: "nat \<Rightarrow> nat \<Rightarrow> nat \<Rightarrow> 'z proc_st_scheme \<Rightarrow> nat list \<Rightarrow> bool" for c q where
  d_stop: "dispatches c q i s []"
| d_more: "idle c s \<Longrightarrow> runnable s q \<Longrightarrow> next_dispatch c i s p t \<Longrightarrow> scheduler_back c p u = Ret () v \<Longrightarrow>
    dispatches c q (Suc p) v ps \<Longrightarrow> dispatches c q i s (p # ps)"

definition rank :: "nat \<Rightarrow> nat \<Rightarrow> nat" where
  "rank q i = (if i \<le> q then q - i else NPROC - i + q)"

lemma find_upt_first:
  assumes "find P [a..<b] = Some p"
  shows "a \<le> p" "p < b" "P p" "\<And>q. a \<le> q \<Longrightarrow> q < p \<Longrightarrow> \<not> P q"
proof -
  obtain k where k: "k < b - a" "p = [a..<b] ! k" "P p" "\<And>j. j < k \<Longrightarrow> \<not> P ([a..<b] ! j)"
    using assms unfolding find_Some_iff by auto
  show "a \<le> p" "p < b" "P p" using k(1-3) by simp_all
  show "\<not> P q" if "a \<le> q" "q < p" for q using k(4) [of "q - a"] k(1,2) that by simp
qed

lemma rank_step:
  assumes "idle c s" and "runnable s q" and "q < NPROC" and "next_dispatch c i s p t" and "p \<noteq> q" and "i \<le> NPROC"
  shows "rank q (Suc p) < rank q i" and "Suc p \<le> NPROC"
proof -
  consider (here) "find (runnable s) [i..<NPROC] = Some p"
    | (wrap) "find (runnable s) [i..<NPROC] = None" "find (runnable s) [0..<NPROC] = Some p"
    using next_dispatch_first [OF assms(1,4)] by (elim disjE conjE)
  then have "rank q (Suc p) < rank q i \<and> Suc p \<le> NPROC"
  proof cases
    case here
    then show ?thesis using find_upt_first [OF here] assms(2,3,5) by (force simp: rank_def)
  next
    case wrap
    then have "q < i" using assms(2,3) by (auto simp: find_None_iff)
    moreover have "p < q" using find_upt_first [OF wrap(2)] assms(2,5) by (meson le0 linorder_neqE_nat)
    ultimately show ?thesis using assms(3,6) by (simp add: rank_def)
  qed
  then show "rank q (Suc p) < rank q i" "Suc p \<le> NPROC" by simp_all
qed

lemma dispatches_rank:
  "dispatches c q i s ps \<Longrightarrow> q \<notin> set ps \<Longrightarrow> q < NPROC \<Longrightarrow> i \<le> NPROC \<Longrightarrow> length ps \<le> rank q i"
proof (induction rule: dispatches.induct)
  case (d_more s i p t u v ps)
  then show ?case using rank_step [of c s q i p t] by force
qed simp

text \<open>(C18) The scheduler is fair. While some process is runnable and the hart is in its scheduler, wherever its loop stands, the
  hart switches to a process in this round or the next. A process \<open>q\<close> that stays runnable waits for fewer than \<open>NPROC\<close> switches:
  whatever the other processes, harts and interrupts do in between, any sequence of switches that has not reached \<open>q\<close> is shorter
  than the process table.\<close>

theorem scheduler_fair:
  assumes "idle c s" and "runnable s q" and "q < NPROC" and "i \<le> NPROC"
  shows "(\<exists>p t. next_dispatch c i s p t) \<and> (\<forall>ps. dispatches c q i s ps \<longrightarrow> q \<notin> set ps \<longrightarrow> length ps < NPROC)"
proof -
  have "rank q i < NPROC" using assms(3,4) by (simp add: rank_def) linarith
  then show ?thesis using next_dispatch_exists [OF assms(1-3)] dispatches_rank [of c q i s] assms(3,4) le_less_trans by blast
qed

lemma back_after_dispatch:
  assumes "idle c s"
  shows "\<exists>v. scheduler_back c p (dispatched c p s) = Ret () v"
proof -
  let ?d = "(dispatched c p s)\<lparr>cpus := (pushc c (cpus s))[c := (pushc c (cpus s) ! c)\<lparr>cpu_p := None\<rparr>]\<rparr>"
  have h: "hart s = c" "c < length (cpus s)" "noff (cpus s ! c) = 0" using assms by (simp_all add: idle_def)
  note n = pushc_self [OF h(2)]
  have "release (ProcLk p) ?d = Ret () (?d\<lparr>locks := lock_off (ProcLk p) (locks ?d), cpus := popc c (cpus ?d)\<rparr>)"
    using release_held [of ?d "ProcLk p"] h n by (simp add: dispatched_def sie_def held_by_def)
  then show ?thesis using h by (simp add: scheduler_back_def kbind_def on_cpu_def dispatched_def)
qed

theorem scheduler_fair_witness:
  "\<exists>(s :: proc_st) t. dispatches 0 5 0 s [0] \<and> length [0] < NPROC \<and> next_dispatch 0 1 s 5 t"
proof -
  let ?s = "ready_pm\<lparr>procs := (procs ready_pm)[5 := unused_proc\<lparr>pstate := RUNNABLE\<rparr>]\<rparr>"
  have st: "noff (cpus ?s ! 0) = 0" "length (procs ?s) = NPROC"
    and r: "runnable ?s 0" "runnable ?s 5" "\<not> runnable ?s 1" "\<not> runnable ?s 2" "\<not> runnable ?s 3" "\<not> runnable ?s 4"
    by (simp_all add: ready_pm_def boot_pm_def boot_state_def NPROC_def runnable_def unused_proc_def)
  then have i: "idle 0 ?s" using boot_pm_facts by (simp add: idle_def ready_pm_def)
  have "[0..<NPROC] = 0 # [1..<NPROC]" "[1..<NPROC] = [1, 2, 3, 4, 5] @ [6..<NPROC]" by (simp_all add: NPROC_def upt_rec)
  then have f: "find (runnable ?s) [0..<NPROC] = Some 0" "find (runnable ?s) [1..<NPROC] = Some 5" using r by simp_all
  have d0: "next_dispatch 0 0 ?s 0 (dispatched 0 0 ?s)" and d5: "next_dispatch 0 1 ?s 5 (dispatched 0 5 ?s)"
    unfolding next_dispatch_def scan_from [OF i] f using i by simp_all
  obtain v where "scheduler_back 0 0 (dispatched 0 0 ?s) = Ret () v" using back_after_dispatch [OF i] by blast
  then have run: "dispatches 0 5 0 ?s [0]" by (rule d_more [OF i r(2) d0 _ d_stop])
  have "5 < NPROC" by (simp add: NPROC_def)
  then have "length [0] < NPROC" using scheduler_fair [OF i r(2)] run by fastforce
  then show ?thesis using run d5 by blast
qed

end
