(* ===== verification/Umem.thy ===== *)
theory Umem
  imports Cmem
begin

text \<open>
  The allocator of the user library, \<^verbatim>\<open>user/umem.c\<close>: \<open>malloc\<close> and \<open>free\<close> over a circular list of free blocks ordered
  by address. The memory of the headers is a record of two maps; what \<open>sbrk\<close> returns is a parameter. The searches are
  loops over the circular list and carry fuel; the theorems give the fuel that is enough, the length of the list.
\<close>

section \<open>Headers and operations\<close>

text \<open>A header is named by its address; addresses of consecutive headers differ by 16.\<close>

record heap =
  h_ptr :: "u64 \<Rightarrow> u64"
  h_size :: "u64 \<Rightarrow> u32"
  freep :: u64

definition units :: "u32 \<Rightarrow> u64" where
  "units n = 16 * ucast n"

text \<open>The search of \<open>free\<close> for the place of \<open>bp\<close>; \<open>None\<close> when the fuel is not enough to go round the list.\<close>

fun free_find :: "nat \<Rightarrow> heap \<Rightarrow> u64 \<Rightarrow> u64 \<Rightarrow> u64 option" where
  "free_find 0 h bp p = None"
| "free_find (Suc n) h bp p =
     (if bp > p \<and> bp < h_ptr h p then Some p
      else if p \<ge> h_ptr h p \<and> (bp > p \<or> bp < h_ptr h p) then Some p
      else free_find n h bp (h_ptr h p))"

definition set_ptr :: "u64 \<Rightarrow> u64 \<Rightarrow> heap \<Rightarrow> heap" where
  "set_ptr a v h = h\<lparr>h_ptr := (h_ptr h)(a := v)\<rparr>"

definition set_size :: "u64 \<Rightarrow> u32 \<Rightarrow> heap \<Rightarrow> heap" where
  "set_size a v h = h\<lparr>h_size := (h_size h)(a := v)\<rparr>"

definition free_at :: "heap \<Rightarrow> u64 \<Rightarrow> u64 \<Rightarrow> heap" where
  "free_at h bp p =
     (let nx = h_ptr h p;
          h1 = (if bp + units (h_size h bp) = nx
                then set_ptr bp (h_ptr h nx) (set_size bp (h_size h bp + h_size h nx) h)
                else set_ptr bp nx h);
          h2 = (if p + units (h_size h1 p) = bp
                then set_ptr p (h_ptr h1 bp) (set_size p (h_size h1 p + h_size h1 bp) h1)
                else set_ptr p bp h1)
      in h2\<lparr>freep := p\<rparr>)"

definition ufree :: "nat \<Rightarrow> u64 \<Rightarrow> heap \<Rightarrow> heap option" where
  "ufree fuel ap h =
     (let bp = ap - 16 in map_option (free_at h bp) (free_find fuel h bp (freep h)))"

text \<open>\<open>morecore\<close>: \<open>Some (0, h)\<close> is the null pointer. The argument of \<open>sbrk\<close> is an \<open>int\<close>.\<close>

definition morecore :: "nat \<Rightarrow> (u32 \<Rightarrow> u64) \<Rightarrow> u32 \<Rightarrow> heap \<Rightarrow> (u64 \<times> heap) option" where
  "morecore fuel sbrk nu h =
     (let nu' = (if nu < 4096 then 4096 else nu); p = sbrk (nu' * 16) in
      if p = -1 then Some (0, h)
      else map_option (\<lambda>h'. (freep h', h')) (ufree fuel (p + 16) (set_size p nu' h)))"

text \<open>The loop of \<open>malloc\<close>, with as many turns as there is fuel; \<open>sbrk\<close> is the list of functions the successive
  calls of \<open>sbrk\<close> apply.\<close>

fun malloc_loop :: "nat \<Rightarrow> (u32 \<Rightarrow> u64) list \<Rightarrow> u32 \<Rightarrow> u64 \<Rightarrow> u64 \<Rightarrow> heap \<Rightarrow> (u64 \<times> heap) option" where
  "malloc_loop 0 sbrks nunits prevp p h = None"
| "malloc_loop (Suc n) sbrks nunits prevp p h =
     (if h_size h p \<ge> nunits then
        (if h_size h p = nunits
         then Some (p + 16, (set_ptr prevp (h_ptr h p) h)\<lparr>freep := prevp\<rparr>)
         else
           let h1 = set_size p (h_size h p - nunits) h; q = p + units (h_size h1 p) in
           Some (q + 16, (set_size q nunits h1)\<lparr>freep := prevp\<rparr>))
      else if p = freep h then
        (case sbrks of [] \<Rightarrow> None
         | sbrk # sbrks' \<Rightarrow>
             (case morecore n sbrk nunits h of None \<Rightarrow> None
              | Some (q, h') \<Rightarrow>
                  if q = 0 then Some (0, h') else malloc_loop n sbrks' nunits q (h_ptr h' q) h'))
      else malloc_loop n sbrks nunits p (h_ptr h p) h)"

definition malloc :: "nat \<Rightarrow> u64 \<Rightarrow> (u32 \<Rightarrow> u64) list \<Rightarrow> u32 \<Rightarrow> heap \<Rightarrow> (u64 \<times> heap) option" where
  "malloc fuel base sbrks nbytes h =
     (let nunits = ucast ((ucast nbytes + 16 - 1) div 16 + 1 :: u64);
          h1 = (if freep h = 0 then (set_size base 0 (set_ptr base base h))\<lparr>freep := base\<rparr> else h)
      in malloc_loop fuel sbrks nunits (freep h1) (h_ptr h1 (freep h1)) h1)"

section \<open>Free lists\<close>

text \<open>The first byte after a block; the free list as a list of headers: linked in a circle, ordered by address,
  disjoint, below 64 GiB (so that a sum of sizes fits an \<open>uint\<close>), starting with the static header \<open>base\<close> of size 0.\<close>

definition fin :: "heap \<Rightarrow> u64 \<Rightarrow> nat" where
  "fin h b = unat b + 16 * unat (h_size h b)"

fun linked :: "heap \<Rightarrow> u64 list \<Rightarrow> u64 \<Rightarrow> bool" where
  "linked h [] e = True"
| "linked h (b # bs) e = (h_ptr h b = hd (bs @ [e]) \<and> linked h bs e)"

definition before :: "heap \<Rightarrow> u64 \<Rightarrow> u64 \<Rightarrow> bool" where
  "before h b c = (b < c \<and> fin h b \<le> unat c)"

definition free_list :: "heap \<Rightarrow> u64 list \<Rightarrow> bool" where
  "free_list h bs = (bs \<noteq> [] \<and> linked h bs (hd bs) \<and> sorted_wrt (before h) bs
     \<and> (\<forall>b \<in> set bs. fin h b < 2 ^ 36) \<and> h_size h (hd bs) = 0)"

definition free_space :: "heap \<Rightarrow> u64 list \<Rightarrow> nat set" where
  "free_space h bs = (\<Union>b \<in> set bs. {unat b ..< fin h b})"

lemma linked_append [simp]: "linked h (xs @ ys) e = (linked h xs (hd (ys @ [e])) \<and> linked h ys e)"
  by (induction xs) (auto simp: hd_append)

lemma linked_cong: "(\<And>b. b \<in> set bs \<Longrightarrow> h_ptr h' b = h_ptr h b) \<Longrightarrow> linked h' bs e = linked h bs e"
  by (induction bs) auto

lemma sorted_before_cong:
  "(\<And>b. b \<in> set bs \<Longrightarrow> h_size h' b = h_size h b) \<Longrightarrow> sorted_wrt (before h') bs = sorted_wrt (before h) bs"
  by (induction bs) (auto simp: before_def fin_def)

lemma sorted_before_distinct: "sorted_wrt (before h) bs \<Longrightarrow> distinct bs"
  by (induction bs) (auto simp: before_def)

lemma unat_units: "unat (units n) = 16 * unat n"
proof -
  have "unat n < 4294967296" using unsigned_less [of n, where ?'a = nat] by simp
  then show ?thesis by (simp add: units_def unat_word_ariths unat_ucast_32_64)
qed

lemma end_eq: "fin h b < 2 ^ 36 \<Longrightarrow> b + units (h_size h b) = c \<longleftrightarrow> fin h b = unat c"
  by (auto simp: fin_def word_unat_eq_iff unat_word_ariths unat_units)

text \<open>The three changes \<open>free\<close> makes to the list: a block is put behind a header, and a block takes in the one
  that follows it.\<close>

definition put_after :: "u64 \<Rightarrow> u64 \<Rightarrow> heap \<Rightarrow> heap" where
  "put_after p bp h = set_ptr p bp (set_ptr bp (h_ptr h p) h)"

definition take_in :: "u64 \<Rightarrow> heap \<Rightarrow> heap" where
  "take_in a h = (let c = h_ptr h a in set_ptr a (h_ptr h c) (set_size a (h_size h a + h_size h c) h))"

lemma put_after_list:
  assumes fl: "free_list h (xs @ p # ys)" and bp: "fin h bp < 2 ^ 36"
    and lo: "\<And>b. b \<in> set (xs @ [p]) \<Longrightarrow> before h b bp" and hi: "\<And>b. b \<in> set ys \<Longrightarrow> before h bp b"
  shows "free_list (put_after p bp h) (xs @ p # bp # ys)"
    and "free_space (put_after p bp h) (xs @ p # bp # ys) = free_space h (xs @ p # ys) \<union> {unat bp ..< fin h bp}"
proof -
  let ?h = "put_after p bp h" and ?e = "hd (xs @ [p])"
  have out: "bp \<notin> set xs" "bp \<noteq> p" "bp \<notin> set ys" using lo hi by (auto simp: before_def)
  have so: "sorted_wrt (before h) (xs @ p # ys)" and li: "linked h (xs @ p # ys) ?e"
    using fl by (auto simp: free_list_def hd_append)
  from so have pn: "p \<notin> set xs" "p \<notin> set ys" by (auto simp: sorted_wrt_append before_def)
  have sz: "h_size ?h = h_size h" by (simp add: put_after_def set_ptr_def)
  have fin': "fin ?h = fin h" by (simp add: fin_def fun_eq_iff sz)
  have bef': "before ?h = before h" by (simp add: before_def fun_eq_iff fin')
  have ptr: "h_ptr ?h b = h_ptr h b" if "b \<noteq> p" "b \<noteq> bp" for b using that by (simp add: put_after_def set_ptr_def)
  have "linked ?h xs p = linked h xs p" "linked ?h ys ?e = linked h ys ?e"
    using pn out by (auto intro!: linked_cong ptr)
  then have "linked ?h xs p" "linked ?h ys ?e" using li by simp_all
  moreover have "h_ptr ?h p = bp" using out by (simp add: put_after_def set_ptr_def)
  moreover have "h_ptr ?h bp = hd (ys @ [?e])" using out li by (simp add: put_after_def set_ptr_def)
  moreover have "sorted_wrt (before ?h) (xs @ p # bp # ys)"
    using so lo hi by (auto simp: bef' sorted_wrt_append)
  ultimately show "free_list ?h (xs @ p # bp # ys)"
    using fl bp by (auto simp: free_list_def fin' sz hd_append split: if_splits)
  show "free_space ?h (xs @ p # bp # ys) = free_space h (xs @ p # ys) \<union> {unat bp ..< fin h bp}"
    by (auto simp: free_space_def fin')
qed

lemma take_in_list:
  assumes fl: "free_list h (xs @ a # c # ys)" and adj: "fin h a = unat c" and ne: "xs \<noteq> []"
  shows "free_list (take_in a h) (xs @ a # ys)"
    and "free_space (take_in a h) (xs @ a # ys) = free_space h (xs @ a # c # ys)"
proof -
  let ?h = "take_in a h" and ?e = "hd xs"
  have so: "sorted_wrt (before h) (xs @ a # c # ys)" and li: "linked h (xs @ a # c # ys) ?e"
    using fl ne by (auto simp: free_list_def)
  from so have n: "a \<notin> set xs" "a \<notin> set ys" "a \<noteq> c" by (auto simp: sorted_wrt_append before_def)
  have hc: "h_ptr h a = c" "h_ptr h c = hd (ys @ [?e])" using li by simp_all
  have sz: "h_size ?h b = h_size h b" "h_ptr ?h b = h_ptr h b" if "b \<noteq> a" for b
    using that by (simp_all add: take_in_def set_ptr_def set_size_def Let_def)
  have bound: "fin h a < 2 ^ 36" "fin h c < 2 ^ 36" using fl by (auto simp: free_list_def)
  have "unat (h_size h a) + unat (h_size h c) < 2 ^ 32"
    using bound adj unfolding fin_def by simp
  then have "unat (h_size h a + h_size h c) = unat (h_size h a) + unat (h_size h c)"
    by (simp add: unat_word_ariths)
  then have fa: "fin ?h a = fin h c"
    using adj by (simp add: fin_def take_in_def set_ptr_def set_size_def Let_def hc)
  have fo: "fin ?h b = fin h b" if "b \<noteq> a" for b using that by (simp add: fin_def sz)
  have "linked ?h xs a = linked h xs a" "linked ?h ys ?e = linked h ys ?e"
    using n by (auto intro!: linked_cong sz)
  then have "linked ?h xs a" "linked ?h ys ?e" using li by simp_all
  moreover have "h_ptr ?h a = hd (ys @ [?e])"
    using hc by (simp add: take_in_def set_ptr_def set_size_def Let_def)
  moreover have "sorted_wrt (before ?h) (xs @ a # ys)"
  proof -
    have "sorted_wrt (before ?h) xs = sorted_wrt (before h) xs" "sorted_wrt (before ?h) ys = sorted_wrt (before h) ys"
      using n by (auto intro!: sorted_before_cong sz)
    moreover have "before ?h b d" if "b \<in> set xs" "before h b d" for b d
    proof -
      have "b \<noteq> a" using that(1) n by blast
      then show ?thesis using that(2) fo by (simp add: before_def)
    qed
    moreover have "before ?h a d" if "before h a d" "before h c d" for d
      using that by (auto simp: before_def fa)
    ultimately show ?thesis using so by (auto simp: sorted_wrt_append)
  qed
  moreover have "\<forall>b \<in> set (xs @ a # ys). fin ?h b < 2 ^ 36"
    using fl bound fa fo by (metis (no_types, lifting) free_list_def set_append set_ConsD Un_iff list.set_intros)
  moreover have "h_size ?h ?e = 0"
  proof -
    have "?e \<noteq> a" using n(1) hd_in_set [OF ne] by blast
    then show ?thesis using fl ne sz(1) by (simp add: free_list_def)
  qed
  ultimately show "free_list ?h (xs @ a # ys)" using ne by (simp add: free_list_def)
  have "{unat a ..< fin h c} = {unat a ..< fin h a} \<union> {unat c ..< fin h c}"
    using adj by (auto simp: fin_def)
  moreover have "(\<Union>b \<in> set zs. {unat b ..< fin ?h b}) = (\<Union>b \<in> set zs. {unat b ..< fin h b})" if "a \<notin> set zs" for zs
  proof (rule SUP_cong)
    fix b assume "b \<in> set zs"
    then have "b \<noteq> a" using that by blast
    then show "{unat b ..< fin ?h b} = {unat b ..< fin h b}" by (simp add: fo)
  qed simp
  ultimately show "free_space ?h (xs @ a # ys) = free_space h (xs @ a # c # ys)"
    using n by (simp add: free_space_def fa Un_assoc Un_left_commute)
qed

section \<open>free\<close>

lemma free_at_steps:
  assumes "bp \<noteq> p" and "bp + units (h_size h bp) = h_ptr h p \<longrightarrow> h_ptr h p \<noteq> p \<and> h_ptr h p \<noteq> bp"
  shows "free_at h bp p =
    (let h0 = put_after p bp h;
         h1 = (if bp + units (h_size h0 bp) = h_ptr h0 bp then take_in bp h0 else h0);
         h2 = (if p + units (h_size h1 p) = bp then take_in p h1 else h1)
     in h2\<lparr>freep := p\<rparr>)"
  using assms
  by (simp add: free_at_def put_after_def take_in_def set_ptr_def set_size_def Let_def fun_upd_twist)

text \<open>The search of \<open>free\<close>: headers it passes, and the header it stops at.\<close>

definition passes :: "heap \<Rightarrow> u64 \<Rightarrow> u64 \<Rightarrow> bool" where
  "passes h bp p = (\<not> (bp > p \<and> bp < h_ptr h p) \<and> \<not> (p \<ge> h_ptr h p \<and> (bp > p \<or> bp < h_ptr h p)))"

lemma free_find_step: "free_find (Suc n) h bp p = (if passes h bp p then free_find n h bp (h_ptr h p) else Some p)"
  by (auto simp: passes_def)

declare free_find.simps(2) [simp del]

lemma free_find_walk:
  assumes "linked h (zs @ ts) e" and "\<And>z. z \<in> set zs \<Longrightarrow> passes h bp z"
  shows "free_find (length zs + n) h bp (hd (zs @ ts @ [e])) = free_find n h bp (hd (ts @ [e]))"
  using assms by (induction zs) (simp_all add: free_find_step)

lemma free_find_fuel: "free_find n h bp p = Some r \<Longrightarrow> n \<le> m \<Longrightarrow> free_find m h bp p = Some r"
proof (induction n arbitrary: p m)
  case (Suc n)
  then show ?case by (cases m) (auto simp: free_find_step split: if_splits)
qed simp

lemma linked_next: "linked h (us @ q # vs) e \<Longrightarrow> h_ptr h q = hd (vs @ [e])"
  by simp

lemma free_find_finds:
  assumes fl: "free_list h (xs @ p # ys)" and q: "q \<in> set (xs @ p # ys)"
    and lo: "\<And>b. b \<in> set (xs @ [p]) \<Longrightarrow> b < bp" and hi: "\<And>b. b \<in> set ys \<Longrightarrow> bp < b"
    and fuel: "length (xs @ p # ys) \<le> fuel"
  shows "free_find fuel h bp q = Some p"
proof -
  let ?e = "hd (xs @ [p])"
  have so: "sorted_wrt (before h) (xs @ p # ys)" and li: "linked h (xs @ p # ys) ?e"
    using fl by (auto simp: free_list_def hd_append)
  have e: "?e < bp" using lo by (cases xs) auto
  have px: "passes h bp b" if b: "b \<in> set xs" for b
  proof -
    obtain us vs where xs: "xs = us @ b # vs" using split_list [OF b] by blast
    have nx: "h_ptr h b = hd (vs @ [p])" using li by (auto simp: xs hd_append)
    have "hd (vs @ [p]) \<in> set (vs @ [p])" by (cases vs) auto
    then have "b < h_ptr h b" "h_ptr h b < bp"
      using so lo by (auto simp: nx xs sorted_wrt_append before_def)
    then show ?thesis by (auto simp: passes_def)
  qed
  have py: "passes h bp b" if b: "b \<in> set ys" for b
  proof -
    obtain us vs where ys: "ys = us @ b # vs" using split_list [OF b] by blast
    have nx: "h_ptr h b = hd (vs @ [?e])" using li by (auto simp: ys)
    have "h_ptr h b = ?e \<or> b < h_ptr h b"
      using so by (cases vs) (auto simp: nx ys sorted_wrt_append before_def)
    then show ?thesis using hi [OF b] e by (auto simp: passes_def)
  qed
  have "\<not> passes h bp p"
  proof (cases ys)
    case Nil
    then have "h_ptr h p = ?e" using li by simp
    moreover have "?e \<le> p" using so by (cases xs) (auto simp: sorted_wrt_append before_def)
    ultimately show ?thesis using lo by (auto simp: passes_def)
  next
    case (Cons y ys')
    then show ?thesis using li lo hi by (auto simp: passes_def)
  qed
  then have stop: "free_find (Suc 0) h bp p = Some p" by (simp add: free_find_step)
  have from_x: "free_find (Suc (length zs)) h bp (hd (zs @ [p])) = Some p" if z: "xs = us @ zs" for us zs
  proof -
    have "linked h (zs @ [p]) (hd (ys @ [?e]))" using li z by auto
    then have "free_find (length zs + Suc 0) h bp (hd (zs @ [p] @ [hd (ys @ [?e])])) = free_find (Suc 0) h bp (hd ([p] @ [hd (ys @ [?e])]))"
      using z px by (intro free_find_walk) auto
    then show ?thesis using stop by (cases zs) auto
  qed
  consider "q \<in> set xs" | "q = p" | "q \<in> set ys" using q by auto
  then show ?thesis
  proof cases
    case 1
    then obtain us vs where "xs = us @ q # vs" using split_list by fast
    with from_x [of us "q # vs"] fuel show ?thesis by (auto elim: free_find_fuel)
  next
    case 2
    with stop fuel show ?thesis by (auto elim: free_find_fuel)
  next
    case 3
    then obtain us vs where ys: "ys = us @ q # vs" using split_list by fast
    then have "linked h ((q # vs) @ []) ?e" using li by auto
    then have "free_find (length (q # vs) + Suc (length xs)) h bp (hd ((q # vs) @ [] @ [?e])) =
        free_find (Suc (length xs)) h bp (hd ([] @ [?e]))"
      using ys py by (intro free_find_walk) auto
    then have "free_find (length (q # vs) + Suc (length xs)) h bp q = Some p"
      using from_x [of "[]" xs] by simp
    then show ?thesis by (rule free_find_fuel) (use fuel ys in simp)
  qed
qed

lemma free_list_split:
  assumes "free_list h bs" and "hd bs < bp" and "bp \<notin> set bs"
  obtains xs p ys where "bs = xs @ p # ys" and "\<And>b. b \<in> set (xs @ [p]) \<Longrightarrow> b < bp" and "\<And>b. b \<in> set ys \<Longrightarrow> bp < b"
proof -
  let ?as = "takeWhile (\<lambda>b. b < bp) bs" and ?ys = "dropWhile (\<lambda>b. b < bp) bs"
  have so: "sorted_wrt (before h) (?as @ ?ys)" using assms(1) by (simp add: free_list_def)
  have "?as \<noteq> []" using assms(1,2) by (cases bs) (auto simp: free_list_def)
  then have as: "?as = butlast ?as @ [last ?as]" by simp
  have lo: "b < bp" if "b \<in> set ?as" for b using that by (rule set_takeWhileD [THEN conjunct2])
  have "bp < b" if b: "b \<in> set ?ys" for b
  proof -
    have ne: "?ys \<noteq> []" using b by (metis empty_iff empty_set)
    then have "bp < hd ?ys"
      using hd_dropWhile [OF ne] hd_in_set [OF ne] set_dropWhileD [of "hd ?ys"] assms(3) by (metis linorder_cases)
    moreover have "hd ?ys \<le> b" using so ne b by (cases ?ys) (auto simp: sorted_wrt_append before_def)
    ultimately show ?thesis by simp
  qed
  moreover have "bs = butlast ?as @ last ?as # ?ys"
    using as by (metis append.assoc append_Cons append_Nil takeWhile_dropWhile_id)
  ultimately show thesis using that [of "butlast ?as" "last ?as" ?ys] lo as by metis
qed

lemma freep_irrelevant [simp]:
  "free_list (k\<lparr>freep := q\<rparr>) bs = free_list k bs" "free_space (k\<lparr>freep := q\<rparr>) bs = free_space k bs"
proof -
  have "linked (k\<lparr>freep := q\<rparr>) bs (hd bs) = linked k bs (hd bs)" by (rule linked_cong) simp
  moreover have "sorted_wrt (before (k\<lparr>freep := q\<rparr>)) bs = sorted_wrt (before k) bs"
    by (rule sorted_before_cong) simp
  ultimately show "free_list (k\<lparr>freep := q\<rparr>) bs = free_list k bs" by (simp add: free_list_def fin_def)
  show "free_space (k\<lparr>freep := q\<rparr>) bs = free_space k bs" by (simp add: free_space_def fin_def)
qed

lemma free_at_list:
  assumes fl: "free_list h (xs @ p # ys)" and bp: "fin h bp < 2 ^ 36"
    and lo: "\<And>b. b \<in> set (xs @ [p]) \<Longrightarrow> before h b bp" and hi: "\<And>b. b \<in> set ys \<Longrightarrow> before h bp b"
  shows "\<exists>bs'. free_list (free_at h bp p) bs' \<and> hd bs' = hd (xs @ [p]) \<and> p \<in> set bs'
    \<and> free_space (free_at h bp p) bs' = free_space h (xs @ p # ys) \<union> {unat bp ..< fin h bp}"
proof -
  let ?h0 = "put_after p bp h"
  let ?h1 = "if bp + units (h_size ?h0 bp) = h_ptr ?h0 bp then take_in bp ?h0 else ?h0"
  let ?h2 = "if p + units (h_size ?h1 p) = bp then take_in p ?h1 else ?h1"
  let ?S = "free_space h (xs @ p # ys) \<union> {unat bp ..< fin h bp}"
  note l0 = put_after_list [OF fl bp lo hi]
  have nx: "h_ptr ?h0 bp = hd (ys @ [hd (xs @ [p])])" "h_ptr h p = hd (ys @ [hd (xs @ [p])])"
    using l0(1) fl by (auto simp: free_list_def hd_append split: if_splits)
  have sb: "fin ?h0 bp = fin h bp" by (simp add: fin_def put_after_def set_ptr_def)
  have e: "hd (xs @ [p]) < bp" using lo by (cases xs) (auto simp: before_def)
  have join: "ys \<noteq> [] \<and> fin h bp = unat (hd ys)" if "bp + units (h_size h bp) = h_ptr h p"
  proof (cases ys)
    case Nil
    then show ?thesis using that e by (auto simp: nx end_eq [OF bp] fin_def word_less_nat_alt)
  next
    case (Cons y ys')
    then show ?thesis using that by (simp add: nx end_eq [OF bp])
  qed
  have h0s: "h_size ?h0 = h_size h" by (simp add: put_after_def set_ptr_def)
  have steps: "free_at h bp p = ?h2\<lparr>freep := p\<rparr>"
  proof -
    have "h_ptr h p \<noteq> p \<and> h_ptr h p \<noteq> bp" if j: "bp + units (h_size h bp) = h_ptr h p"
      using join [OF j] hi [of "hd ys"] lo [of p] by (auto simp: nx before_def)
    moreover have "bp \<noteq> p" using lo [of p] by (auto simp: before_def)
    ultimately show ?thesis by (simp add: free_at_steps Let_def)
  qed
  obtain ys1 where l1: "free_list ?h1 (xs @ p # bp # ys1)" "free_space ?h1 (xs @ p # bp # ys1) = ?S"
  proof (cases "bp + units (h_size h bp) = h_ptr h p")
    case True
    then obtain y ys' where ys: "ys = y # ys'" "fin ?h0 bp = unat y" using join sb by (cases ys) auto
    have "free_list (take_in bp ?h0) ((xs @ [p]) @ bp # ys')" "free_space (take_in bp ?h0) ((xs @ [p]) @ bp # ys') = ?S"
      using take_in_list [of ?h0 "xs @ [p]" bp y ys'] l0 ys by simp_all
    then show ?thesis using that [of ys'] True by (simp add: nx h0s)
  next
    case False
    then show ?thesis using that [of ys] l0 by (simp add: nx h0s)
  qed
  obtain bs' where l2: "free_list ?h2 bs'" "free_space ?h2 bs' = ?S" "hd bs' = hd (xs @ [p])" "p \<in> set bs'"
  proof (cases "p + units (h_size ?h1 p) = bp")
    case True
    have pb: "fin ?h1 p < 2 ^ 36" using l1(1) by (simp only: free_list_def) auto
    have adj: "fin ?h1 p = unat bp" using True end_eq [OF pb] by blast
    have "xs \<noteq> []"
    proof
      assume "xs = []"
      then have "fin ?h1 p = unat p" using l1(1) by (simp only: free_list_def fin_def) simp
      then show False using adj lo [of p] by (simp add: before_def word_less_nat_alt)
    qed
    then show ?thesis
      using take_in_list [OF l1(1) adj] l1(2) that [of "xs @ p # ys1"] True by (simp only: if_True) (auto simp: hd_append)
  next
    case False
    then show ?thesis using l1 that [of "xs @ p # bp # ys1"] by (simp only: if_False) (auto simp: hd_append)
  qed
  show ?thesis using l2 unfolding steps by auto
qed

definition heap_ok :: "heap \<Rightarrow> u64 list \<Rightarrow> bool" where
  "heap_ok h bs = (free_list h bs \<and> freep h \<in> set bs)"

text \<open>(C23) \<open>free\<close> of a block above \<open>base\<close> that overlaps no free block ends (as many turns of the search as the list has
  headers are enough), keeps the free list a circle of disjoint blocks ordered by address, and adds exactly the
  bytes of the block to the free space, whichever of its neighbours it joins.\<close>

theorem free_adds_block:
  assumes "heap_ok h bs" and "hd bs < ap - 16" and "0 < h_size h (ap - 16)" and "fin h (ap - 16) < 2 ^ 36"
    and "\<forall>b \<in> set bs. fin h b \<le> unat (ap - 16) \<or> fin h (ap - 16) \<le> unat b" and "length bs \<le> fuel"
  shows "\<exists>h' bs'. ufree fuel ap h = Some h' \<and> heap_ok h' bs' \<and> hd bs' = hd bs
    \<and> free_space h' bs' = free_space h bs \<union> {unat (ap - 16) ..< fin h (ap - 16)}"
proof -
  let ?bp = "ap - 16"
  have pos: "unat ?bp < fin h ?bp" using assms(3) by (simp add: fin_def word_less_nat_alt)
  then have out: "?bp \<notin> set bs" using assms(5) by auto
  obtain xs p ys where bs: "bs = xs @ p # ys"
    and lo: "\<And>b. b \<in> set (xs @ [p]) \<Longrightarrow> b < ?bp" and hi: "\<And>b. b \<in> set ys \<Longrightarrow> ?bp < b"
    using free_list_split [OF _ assms(2) out, of h] assms(1) unfolding heap_ok_def by blast
  have start: "unat b \<le> fin h b" for b by (simp add: fin_def)
  have lo': "before h b ?bp" if b: "b \<in> set (xs @ [p])" for b
  proof -
    have "fin h b \<le> unat ?bp \<or> fin h ?bp \<le> unat b" using b assms(5) bs by auto
    then show ?thesis using lo [OF b] pos by (auto simp: before_def word_less_nat_alt)
  qed
  have hi': "before h ?bp b" if b: "b \<in> set ys" for b
  proof -
    have "fin h b \<le> unat ?bp \<or> fin h ?bp \<le> unat b" using b assms(5) bs by auto
    then show ?thesis using hi [OF b] start [of b] by (auto simp: before_def word_less_nat_alt)
  qed
  have fl: "free_list h (xs @ p # ys)" and fp: "freep h \<in> set (xs @ p # ys)"
    using assms(1) bs by (simp_all add: heap_ok_def)
  have "free_find fuel h ?bp (freep h) = Some p"
    using free_find_finds [OF fl fp, of ?bp] lo hi assms(6) bs by blast
  then have "ufree fuel ap h = Some (free_at h ?bp p)" by (simp add: ufree_def)
  moreover have "freep (free_at h ?bp p) = p" by (simp add: free_at_def Let_def)
  ultimately show ?thesis
    using free_at_list [OF fl assms(4) lo' hi'] unfolding bs heap_ok_def by (auto simp: hd_append)
qed

text \<open>A heap of three headers: \<open>base\<close>, and two free blocks with an allocated block of four units between them.\<close>

definition heap0 :: heap where
  "heap0 = \<lparr>h_ptr = (\<lambda>_. 0)(0x1000 := 0x5000, 0x5000 := 0x5080, 0x5080 := 0x1000),
     h_size = (\<lambda>_. 0)(0x5000 := 4, 0x5040 := 4, 0x5080 := 8), freep = 0x5080\<rparr>"

lemma heap0_ok: "heap_ok heap0 [0x1000, 0x5000, 0x5080]"
  by (simp add: heap_ok_def free_list_def heap0_def before_def fin_def)

theorem free_adds_block_witness:
  "\<exists>h' bs'. ufree 3 0x5050 heap0 = Some h' \<and> heap_ok h' bs' \<and> hd bs' = 0x1000
    \<and> free_space h' bs' = free_space heap0 [0x1000, 0x5000, 0x5080] \<union> {20544 ..< 20608}"
  using free_adds_block [OF heap0_ok, of "0x5050" 3] by (simp add: heap0_def fin_def)

section \<open>malloc\<close>

text \<open>What \<open>malloc\<close> does with the header it stops at: the block is taken off the list, or its tail is.\<close>

definition carve :: "u32 \<Rightarrow> u64 \<Rightarrow> u64 \<Rightarrow> heap \<Rightarrow> u64 \<times> heap" where
  "carve nunits prevp p h =
     (if h_size h p = nunits then (p + 16, (set_ptr prevp (h_ptr h p) h)\<lparr>freep := prevp\<rparr>)
      else let h1 = set_size p (h_size h p - nunits) h; q = p + units (h_size h1 p) in
        (q + 16, (set_size q nunits h1)\<lparr>freep := prevp\<rparr>))"

lemma malloc_loop_fits:
  "nunits \<le> h_size h p \<Longrightarrow> malloc_loop (Suc n) sbrks nunits prevp p h = Some (carve nunits prevp p h)"
  by (simp add: carve_def Let_def)

lemma malloc_loop_on:
  "\<not> nunits \<le> h_size h p \<Longrightarrow> p \<noteq> freep h \<Longrightarrow>
   malloc_loop (Suc n) sbrks nunits prevp p h = malloc_loop n sbrks nunits p (h_ptr h p) h"
  by simp

declare malloc_loop.simps(2) [simp del]

lemma malloc_loop_finds:
  assumes "linked h zs e" and "zs \<noteq> []" and "freep h \<notin> set (butlast zs)" and "\<exists>z \<in> set zs. nunits \<le> h_size h z"
    and "h_ptr h prevp = hd zs" and "length zs \<le> fuel"
  shows "\<exists>p q. p \<in> set zs \<and> nunits \<le> h_size h p \<and> h_ptr h q = p \<and> q \<in> insert prevp (set zs)
    \<and> malloc_loop fuel sbrks nunits prevp (hd zs) h = Some (carve nunits q p h)"
  using assms
proof (induction zs arbitrary: prevp fuel)
  case (Cons z zs)
  obtain n where f: "fuel = Suc n" using Cons.prems(6) by (cases fuel) auto
  show ?case
  proof (cases "nunits \<le> h_size h z")
    case True
    then show ?thesis using Cons.prems(5)
      by (intro exI [of _ z] exI [of _ prevp]) (simp add: f malloc_loop_fits)
  next
    case False
    then have ne: "zs \<noteq> []" "z \<noteq> freep h" using Cons.prems(3,4) by (auto split: if_splits)
    then have "\<exists>p q. p \<in> set zs \<and> nunits \<le> h_size h p \<and> h_ptr h q = p \<and> q \<in> insert z (set zs)
        \<and> malloc_loop n sbrks nunits z (hd zs) h = Some (carve nunits q p h)"
      using Cons.prems False by (intro Cons.IH) (auto simp: f)
    moreover have "malloc_loop fuel sbrks nunits prevp z h = malloc_loop n sbrks nunits z (hd zs) h"
      using Cons.prems(1) False ne by (simp add: f malloc_loop_on)
    ultimately show ?thesis by auto
  qed
qed simp

lemma linked_rotate: "linked h (xs @ ys) (hd (xs @ ys)) \<Longrightarrow> linked h (ys @ xs) (hd (ys @ xs))"
  by (cases xs; cases ys) (auto simp: hd_append)

lemma linked_inj:
  assumes "linked h bs (hd bs)" and "distinct bs" and "a \<in> set bs" and "c \<in> set bs" and "h_ptr h a = h_ptr h c"
  shows "a = c"
proof -
  have nxt: "h_ptr h (bs ! i) = bs ! (Suc i mod length bs)" if "i < length bs" for i
  proof -
    have "bs = take i bs @ bs ! i # drop (Suc i) bs" using id_take_nth_drop [OF that] .
    then have "h_ptr h (bs ! i) = hd (drop (Suc i) bs @ [hd bs])" using assms(1) linked_next by metis
    also have "\<dots> = bs ! (Suc i mod length bs)"
    proof (cases "Suc i < length bs")
      case True
      then show ?thesis by (simp add: hd_append hd_drop_conv_nth)
    next
      case False
      then have "Suc i = length bs" using that by simp
      moreover have "bs \<noteq> []" using that by (metis length_greater_0_conv less_nat_zero_code neq0_conv)
      ultimately show ?thesis by (simp add: hd_conv_nth)
    qed
    finally show ?thesis .
  qed
  obtain i j where ij: "i < length bs" "a = bs ! i" "j < length bs" "c = bs ! j"
    using assms(3,4) by (auto simp: in_set_conv_nth)
  then have "bs ! (Suc i mod length bs) = bs ! (Suc j mod length bs)" using assms(5) nxt by simp
  moreover have "Suc k mod length bs < length bs" for k using ij(1) by (intro mod_less_divisor) linarith
  ultimately have eq: "Suc i mod length bs = Suc j mod length bs" using assms(2) by (simp add: nth_eq_iff_index_eq)
  have "i = j"
  proof (cases "Suc i = length bs"; cases "Suc j = length bs")
    assume "Suc i \<noteq> length bs" "Suc j \<noteq> length bs"
    then show "i = j" using eq ij by simp
  next
    assume "Suc i = length bs" "Suc j \<noteq> length bs"
    then have "Suc j mod length bs = Suc j" using ij by simp
    then show "i = j" using eq \<open>Suc i = length bs\<close> by simp
  next
    assume "Suc i \<noteq> length bs" "Suc j = length bs"
    then have "Suc i mod length bs = Suc i" using ij by simp
    then show "i = j" using eq \<open>Suc j = length bs\<close> by simp
  qed simp
  then show ?thesis using ij by simp
qed

lemma space_without:
  assumes so: "sorted_wrt (before h) (xs @ p # ys)" and sub: "B \<subseteq> {unat p ..< fin h p}"
  shows "free_space h (xs @ p # ys) - B = free_space h (xs @ ys) \<union> ({unat p ..< fin h p} - B)"
proof -
  have "{unat b ..< fin h b} \<inter> {unat p ..< fin h p} = {}" if "b \<in> set (xs @ ys)" for b
    using that so by (auto simp: sorted_wrt_append before_def)
  then have "free_space h (xs @ ys) \<inter> B = {}" using sub unfolding free_space_def by blast
  then show ?thesis by (auto simp: free_space_def)
qed

lemma carve_exact:
  assumes fl: "free_list h (us @ a # p # vs)" and sz: "h_size h p = nunits"
  defines "h' \<equiv> snd (carve nunits a p h)"
  shows "heap_ok h' (us @ a # vs)" and "free_space h' (us @ a # vs) = free_space h (us @ a # p # vs) - {unat p ..< fin h p}"
    and "fst (carve nunits a p h) = p + 16" and "h_size h' p = nunits"
proof -
  define k where "k = set_ptr a (h_ptr h p) h"
  let ?e = "hd (us @ [a])"
  have h': "h' = k\<lparr>freep := a\<rparr>" using sz by (simp add: h'_def carve_def k_def)
  have so: "sorted_wrt (before h) (us @ a # p # vs)" and li: "linked h (us @ a # p # vs) ?e"
    using fl by (auto simp: free_list_def hd_append)
  from so have n: "a \<notin> set us" "a \<notin> set vs" by (auto simp: sorted_wrt_append before_def)
  have ks: "h_size k = h_size h" by (simp add: k_def set_ptr_def)
  then have kf: "fin k = fin h" by (simp add: fin_def fun_eq_iff)
  then have kb: "before k = before h" by (simp add: before_def fun_eq_iff)
  have "linked k us a = linked h us a" "linked k vs ?e = linked h vs ?e"
    using n by (auto intro!: linked_cong simp: k_def set_ptr_def)
  then have "linked k us a" "linked k vs ?e" "h_ptr k a = hd (vs @ [?e])"
    using li by (simp_all add: k_def set_ptr_def)
  then have "free_list k (us @ a # vs)"
    using fl so by (auto simp: free_list_def kf kb ks hd_append sorted_wrt_append split: if_splits)
  then show "heap_ok h' (us @ a # vs)" by (simp add: h' heap_ok_def)
  have "free_space k (us @ a # vs) = free_space h ((us @ [a]) @ vs)" by (simp add: free_space_def kf)
  also have "\<dots> = free_space h ((us @ [a]) @ p # vs) - {unat p ..< fin h p}"
    using space_without [of h "us @ [a]" p vs "{unat p ..< fin h p}"] so by simp
  finally show "free_space h' (us @ a # vs) = free_space h (us @ a # p # vs) - {unat p ..< fin h p}" by (simp add: h')
  show "fst (carve nunits a p h) = p + 16" "h_size h' p = nunits" using sz by (simp_all add: h' ks carve_def)
qed

lemma carve_tail:
  assumes fl: "free_list h (xs @ p # ys)" and sz: "0 < nunits" "nunits < h_size h p" and a: "a \<in> set (xs @ p # ys)"
  defines "h' \<equiv> snd (carve nunits a p h)" and "q \<equiv> p + units (h_size h p - nunits)"
  shows "heap_ok h' (xs @ p # ys)" and "free_space h' (xs @ p # ys) = free_space h (xs @ p # ys) - {unat q ..< unat q + 16 * unat nunits}"
    and "{unat q ..< unat q + 16 * unat nunits} \<subseteq> {unat p ..< fin h p}"
    and "fst (carve nunits a p h) = q + 16" and "h_size h' q = nunits"
proof -
  let ?k = "set_size q nunits (set_size p (h_size h p - nunits) h)"
  have c: "carve nunits a p h = (q + 16, ?k\<lparr>freep := a\<rparr>)"
    using less_imp_neq [OF sz(2)] by (simp add: carve_def Let_def q_def set_size_def)
  have so: "sorted_wrt (before h) (xs @ p # ys)" and b36: "fin h p < 2 ^ 36"
    using fl by (auto simp: free_list_def)
  have d: "unat (h_size h p - nunits) = unat (h_size h p) - unat nunits"
    using sz by (simp add: unat_sub word_less_nat_alt word_le_nat_alt less_imp_le)
  have lt: "unat nunits < unat (h_size h p)" "0 < unat nunits" using sz by (simp_all add: word_less_nat_alt)
  have uq: "unat q = unat p + 16 * (unat (h_size h p) - unat nunits)"
    using b36 by (simp add: q_def unat_word_ariths unat_units d fin_def)
  then have end_q: "unat q + 16 * unat nunits = fin h p" and lo_q: "unat p < unat q" using lt by (simp_all add: fin_def)
  have qn: "q \<noteq> p" "q \<notin> set xs" "q \<notin> set ys"
    using so end_q lo_q lt by (auto simp: sorted_wrt_append before_def word_less_nat_alt)
  have pn: "p \<notin> set xs" "p \<notin> set ys" using so by (auto simp: sorted_wrt_append before_def)
  have kp: "h_size ?k p = h_size h p - nunits" "h_size ?k q = nunits" using qn by (simp_all add: set_size_def)
  have ko: "h_size ?k b = h_size h b" if "b \<noteq> p" "b \<noteq> q" for b using that by (simp add: set_size_def)
  have kf: "fin ?k p = unat q" by (simp add: fin_def kp d uq)
  have fo: "fin ?k b = fin h b" if "b \<in> set (xs @ ys)" for b
  proof -
    have "b \<noteq> p" "b \<noteq> q" using that qn pn by auto
    then show ?thesis by (simp add: fin_def set_size_def)
  qed
  have "linked ?k bs e = linked h bs e" for bs e by (rule linked_cong) (simp add: set_size_def)
  then have "linked ?k (xs @ p # ys) (hd (xs @ p # ys))" using fl unfolding free_list_def by blast
  moreover have "sorted_wrt (before ?k) (xs @ p # ys)"
  proof -
    have "sorted_wrt (before ?k) (xs @ ys) = sorted_wrt (before h) (xs @ ys)"
      using qn pn by (intro sorted_before_cong ko) auto
    then have "sorted_wrt (before ?k) (xs @ ys)" using so by (auto simp: sorted_wrt_append)
    then show ?thesis
      using so end_q fo kf by (auto simp: sorted_wrt_append before_def)
  qed
  moreover have "\<forall>b \<in> set (xs @ p # ys). fin ?k b < 2 ^ 36"
  proof
    fix b assume "b \<in> set (xs @ p # ys)"
    then show "fin ?k b < 2 ^ 36" using fl fo [of b] kf end_q b36 by (cases "b = p") (auto simp: free_list_def)
  qed
  moreover have "h_size ?k (hd (xs @ p # ys)) = 0"
  proof (cases xs)
    case Nil
    then show ?thesis using fl lt by (simp add: free_list_def)
  next
    case (Cons x xs')
    then have "x \<noteq> p" "x \<noteq> q" using qn pn by auto
    then show ?thesis using fl Cons by (simp add: free_list_def set_size_def)
  qed
  ultimately have "free_list ?k (xs @ p # ys)" unfolding free_list_def by blast
  then show "heap_ok h' (xs @ p # ys)" using a by (simp add: h'_def c heap_ok_def)
  show sub: "{unat q ..< unat q + 16 * unat nunits} \<subseteq> {unat p ..< fin h p}" using lo_q end_q by auto
  have "free_space ?k (xs @ p # ys) = free_space h (xs @ ys) \<union> {unat p ..< unat q}"
    using fo kf by (auto simp: free_space_def)
  also have "{unat p ..< unat q} = {unat p ..< fin h p} - {unat q ..< unat q + 16 * unat nunits}"
    using lo_q end_q by auto
  finally show "free_space h' (xs @ p # ys) = free_space h (xs @ p # ys) - {unat q ..< unat q + 16 * unat nunits}"
    using space_without [OF so sub] by (simp add: h'_def c)
  show "fst (carve nunits a p h) = q + 16" "h_size h' q = nunits" using kp by (simp_all add: h'_def c)
qed

lemma carve_list:
  assumes fl: "free_list h bs" and p: "p \<in> set bs" and q: "q \<in> set bs" "h_ptr h q = p"
    and n: "0 < nunits" "nunits \<le> h_size h p"
  shows "\<exists>r h' bs'. carve nunits q p h = (r + 16, h') \<and> heap_ok h' bs' \<and> hd bs' = hd bs \<and> h_size h' r = nunits
    \<and> {unat r ..< unat r + 16 * unat nunits} \<subseteq> free_space h bs
    \<and> free_space h' bs' = free_space h bs - {unat r ..< unat r + 16 * unat nunits}"
proof -
  obtain xs vs where bs0: "bs = xs @ p # vs" using split_list [OF p] by blast
  have "p \<noteq> hd bs" using fl n by (auto simp: free_list_def word_less_nat_alt word_le_nat_alt)
  then have "xs \<noteq> []" using bs0 by auto
  then obtain us a where "xs = us @ [a]" by (metis rev_exhaust)
  then have bs: "bs = us @ a # p # vs" using bs0 by simp
  have di: "distinct bs" and li: "linked h bs (hd bs)" using fl sorted_before_distinct unfolding free_list_def by blast+
  have "h_ptr h a = p" using linked_next [of h us a "p # vs" "hd bs"] li unfolding bs by simp
  then have "q = a" using linked_inj [OF li di q(1), of a] q(2) bs by simp
  have blk: "{unat p ..< fin h p} \<subseteq> free_space h bs" using p by (auto simp: free_space_def)
  show ?thesis
  proof (cases "h_size h p = nunits")
    case True
    note e = carve_exact [OF fl [unfolded bs] True, folded bs \<open>q = a\<close>]
    show ?thesis
      using e blk True by (intro exI [of _ p] exI [of _ "snd (carve nunits q p h)"] exI [of _ "us @ q # vs"])
        (auto simp: prod_eq_iff fin_def bs \<open>q = a\<close> hd_append)
  next
    case False
    then have lt: "nunits < h_size h p" using n(2) by simp
    let ?r = "p + units (h_size h p - nunits)"
    note t = carve_tail [OF fl [unfolded bs0] n(1) lt q(1) [unfolded bs0], folded bs0]
    have c: "carve nunits q p h = (?r + 16, snd (carve nunits q p h))" using t(4) by (metis prod.collapse)
    show ?thesis
      by (intro exI [of _ ?r] exI [of _ "snd (carve nunits q p h)"] exI [of _ bs] conjI c t(1,2,5) subset_trans [OF t(3) blk] refl)
  qed
qed

text \<open>The number of units \<open>malloc\<close> asks for, its header included.\<close>

definition units_for :: "u32 \<Rightarrow> u32" where
  "units_for nbytes = ucast ((ucast nbytes + 16 - 1) div 16 + 1 :: u64)"

lemma units_for_enough: "unat nbytes + 16 \<le> 16 * unat (units_for nbytes)" "0 < units_for nbytes"
proof -
  have b: "unat nbytes < 4294967296" using unsigned_less [of nbytes, where ?'a = nat] by simp
  have "unat (ucast nbytes + 16 - 1 :: u64) = unat nbytes + 15"
    using b by (simp add: unat_word_ariths unat_ucast_32_64)
  then have "unat ((ucast nbytes + 16 - 1) div 16 + 1 :: u64) = (unat nbytes + 15) div 16 + 1"
    using b by (simp add: unat_word_ariths unat_div)
  then have u: "unat (units_for nbytes) = (unat nbytes + 15) div 16 + 1"
    using b by (simp add: units_for_def unsigned_ucast_eq take_bit_nat_eq_self)
  then show "unat nbytes + 16 \<le> 16 * unat (units_for nbytes)" by presburger
  from u show "0 < units_for nbytes" by (simp add: word_less_nat_alt)
qed

text \<open>The free list in the order in which \<open>malloc\<close> visits it, \<open>freep\<close> last.\<close>

lemma free_round:
  assumes "heap_ok h bs"
  obtains zs where "set zs = set bs" and "length zs = length bs" and "linked h zs (hd zs)" and "zs \<noteq> []"
    and "last zs = freep h" and "freep h \<notin> set (butlast zs)" and "h_ptr h (freep h) = hd zs"
proof -
  have fl: "free_list h bs" and fp: "freep h \<in> set bs" using assms by (simp_all add: heap_ok_def)
  obtain xs ys where bs: "bs = xs @ freep h # ys" using split_list [OF fp] by blast
  let ?zs = "ys @ xs @ [freep h]"
  have li: "linked h bs (hd bs)" and so: "sorted_wrt (before h) bs" using fl by (simp_all add: free_list_def)
  have "linked h ?zs (hd ?zs)" using li linked_rotate [of h "xs @ [freep h]" ys] by (simp add: bs)
  moreover have "h_ptr h (freep h) = hd ?zs" using li by (auto simp: bs hd_append)
  moreover have "freep h \<notin> set (butlast ?zs)" using so by (auto simp: bs sorted_wrt_append before_def butlast_append)
  ultimately show thesis using that [of ?zs] by (auto simp: bs)
qed

lemma malloc_starts:
  "freep h \<noteq> 0 \<Longrightarrow> malloc fuel here sbrks nbytes h =
     malloc_loop fuel sbrks (units_for nbytes) (freep h) (h_ptr h (freep h)) h"
  by (simp add: malloc_def units_for_def Let_def)

text \<open>(C24) When a free block is large enough, \<open>malloc\<close> returns within one round of the list, without asking for more
  memory; its result lies in what was free, with room for the bytes asked for after its header; exactly that block
  leaves the free space, and the free list keeps its invariant.\<close>

theorem malloc_allocates:
  assumes "heap_ok h bs" and "freep h \<noteq> 0" and "\<exists>b \<in> set bs. units_for nbytes \<le> h_size h b" and "length bs \<le> fuel"
  shows "\<exists>r h' bs'. malloc fuel here sbrks nbytes h = Some (r + 16, h') \<and> heap_ok h' bs' \<and> hd bs' = hd bs
    \<and> unat nbytes + 16 \<le> 16 * unat (h_size h' r) \<and> {unat r ..< fin h' r} \<subseteq> free_space h bs
    \<and> free_space h' bs' = free_space h bs - {unat r ..< fin h' r}"
proof -
  let ?n = "units_for nbytes"
  have fl: "free_list h bs" and fp: "freep h \<in> set bs" using assms(1) by (simp_all add: heap_ok_def)
  obtain zs where zs: "set zs = set bs" "length zs = length bs" "linked h zs (hd zs)" "zs \<noteq> []"
      "freep h \<notin> set (butlast zs)" "h_ptr h (freep h) = hd zs"
    using free_round [OF assms(1)] by metis
  obtain p q where pq: "p \<in> set bs" "?n \<le> h_size h p" "h_ptr h q = p" "q \<in> set bs"
    and loop: "malloc_loop fuel sbrks ?n (freep h) (hd zs) h = Some (carve ?n q p h)"
    using malloc_loop_finds [OF zs(3-5), of ?n "freep h" fuel sbrks] assms(3,4) zs(1,2,6) fp by auto
  then show ?thesis
    using carve_list [OF fl pq(1,4,3) units_for_enough(2) pq(2)] units_for_enough(1) [of nbytes]
    by (auto simp: fin_def malloc_starts [OF assms(2)] zs(6))
qed

theorem malloc_allocates_witness:
  "\<exists>r h' bs'. malloc 3 0x1000 [] 100 heap0 = Some (r + 16, h') \<and> heap_ok h' bs' \<and> hd bs' = 0x1000
    \<and> 116 \<le> 16 * unat (h_size h' r) \<and> {unat r ..< fin h' r} \<subseteq> free_space heap0 [0x1000, 0x5000, 0x5080]
    \<and> free_space h' bs' = free_space heap0 [0x1000, 0x5000, 0x5080] - {unat r ..< fin h' r}"
  using malloc_allocates [OF heap0_ok, of 100 3 "0x1000" "[]"] by (simp add: heap0_def units_for_def)

lemma malloc_loop_exhausts:
  assumes "linked h zs e" and "zs \<noteq> []" and "last zs = freep h" and "freep h \<notin> set (butlast zs)"
    and "\<forall>z \<in> set zs. h_size h z < nunits" and "\<forall>n. sbrk n = -1" and "length zs \<le> fuel"
  shows "malloc_loop fuel (sbrk # sbrks) nunits prevp (hd zs) h = Some (0, h)"
  using assms
proof (induction zs arbitrary: prevp fuel)
  case (Cons z zs)
  obtain n where f: "fuel = Suc n" using Cons.prems(7) by (cases fuel) auto
  show ?case
  proof (cases zs)
    case Nil
    then have "\<not> nunits \<le> h_size h z" "z = freep h" using Cons.prems by (simp_all add: not_le)
    then show ?thesis using Cons.prems(6) by (simp add: f malloc_loop.simps(2) morecore_def Let_def)
  next
    case (Cons y ys)
    then have ne: "zs \<noteq> []" "z \<noteq> freep h" using Cons.prems by auto
    then have "malloc_loop n (sbrk # sbrks) nunits z (hd zs) h = Some (0, h)"
      using Cons.prems by (intro Cons.IH) (auto simp: f)
    then show ?thesis using Cons.prems(1,5) ne by (simp add: f malloc_loop_on not_le)
  qed
qed simp

text \<open>When no free block is large enough and \<open>sbrk\<close> fails, \<open>malloc\<close> ends, returns the null pointer and leaves
  the heap as it was.\<close>

theorem malloc_out_of_memory:
  assumes "heap_ok h bs" and "freep h \<noteq> 0" and "\<forall>b \<in> set bs. h_size h b < units_for nbytes"
    and "\<forall>n. sbrk n = -1" and "length bs \<le> fuel"
  shows "malloc fuel here [sbrk] nbytes h = Some (0, h)"
proof -
  obtain zs where zs: "set zs = set bs" "length zs = length bs" "linked h zs (hd zs)" "zs \<noteq> []"
      "last zs = freep h" "freep h \<notin> set (butlast zs)" "h_ptr h (freep h) = hd zs"
    using free_round [OF assms(1)] by metis
  show ?thesis
    unfolding malloc_starts [OF assms(2)] zs(7)
    using malloc_loop_exhausts [OF zs(3-6)] assms(3-5) zs(1,2) by simp
qed

theorem malloc_out_of_memory_witness:
  "malloc 3 0x1000 [\<lambda>_. -1] 1000 heap0 = Some (0, heap0)"
  using malloc_out_of_memory [OF heap0_ok, of 1000 "\<lambda>_. -1" 3 "0x1000"] by (simp add: heap0_def units_for_def)

end
